(* ===== verification/Prelude.thy ===== *)
theory Prelude
  imports Main "HOL-Library.Word" "HOL-Library.Monad_Syntax" "HOL-Library.Sublist"
begin

text \<open>
  Shared ground of the development: the machine integer types of the C++ code, the
  collections of simplification facts the components extend, little-endian byte lists
  (every integer that reaches a wire or a disk goes through them), and list lemmas used
  by more than one component.
\<close>

unbundle bit_operations_syntax

section \<open>Machine integers\<close>

type_synonym u8 = "8 word"
type_synonym u16 = "16 word"
type_synonym u32 = "32 word"
type_synonym u64 = "64 word"

text \<open>\<open>std::int64_t\<close> is kept as its 64 bits; every comparison in the code is signed, so
  the model always compares through \<^const>\<open>sint\<close>.\<close>

type_synonym i64 = "64 word"

type_synonym Byte = u8
type_synonym Buffer = "Byte list"

text \<open>\<open>std::string\<close> is a sequence of bytes.\<close>

type_synonym cstring = "Byte list"

section \<open>Collections\<close>

named_theorems book_simps \<open>how the order book operations act on the priority views\<close>
named_theorems wire_simps \<open>how the wire primitives act on the unread bytes\<close>
named_theorems log_simps \<open>how the command log operations act on the entry list\<close>

section \<open>Little-endian bytes\<close>

text \<open>The writer's loop \<open>push_back((v >> (i * 8)) & 0xFF)\<close> for \<open>i = 0 .. n - 1\<close>.\<close>

definition le_bytes :: "nat \<Rightarrow> 'a::len word \<Rightarrow> Byte list" where
  "le_bytes n v = map (\<lambda>i. ucast (drop_bit (i * 8) v AND 0xFF)) [0..<n]"

text \<open>The reader's loop \<open>out |= T(p[i]) << (i * 8)\<close> over the given bytes.\<close>

definition le_value :: "Byte list \<Rightarrow> 'a::len word" where
  "le_value bs = fold (\<lambda>i acc. acc OR push_bit (i * 8) (ucast (bs ! i))) [0..<length bs] 0"

lemma length_le_bytes [simp]: "length (le_bytes n v) = n"
  by (simp add: le_bytes_def)

lemma nth_le_bytes: "i < n \<Longrightarrow> le_bytes n v ! i = ucast (drop_bit (i * 8) v AND 0xFF)"
  by (simp add: le_bytes_def)

lemma bit_mask_ff: "bit (0xFF :: 'a::len word) k \<longleftrightarrow> k < 8 \<and> k < LENGTH('a)"
proof -
  have "(0xFF :: 'a word) = mask 8"
    by (simp add: mask_eq_exp_minus_1)
  then show ?thesis
    by (simp only: bit_mask_iff) (auto simp: possible_bit_word)
qed

lemma bit_le_bytes:
  fixes v :: "'a::len word"
  assumes "i < n"
  shows "bit (le_bytes n v ! i) k \<longleftrightarrow> k < 8 \<and> bit v (i * 8 + k)"
proof -
  have "bit (0xFF :: 'a word) k" if "k < 8" and "bit v (i * 8 + k)"
    using that bit_imp_le_length [OF that(2)] by (simp only: bit_mask_ff) simp
  then show ?thesis
    using assms by (auto simp: nth_le_bytes bit_and_iff bit_drop_bit_eq bit_ucast_iff bit_mask_ff
        possible_bit_word simp del: bit_numeral_simps)
qed

lemma bit_fold_or:
  fixes acc :: "'a::len word"
  shows "bit (fold (\<lambda>i acc. acc OR push_bit (i * 8) (ucast (bs ! i))) is acc) k
    \<longleftrightarrow> bit acc k \<or> (k < LENGTH('a) \<and> (\<exists>i\<in>set is. i * 8 \<le> k \<and> bit ((bs :: Byte list) ! i) (k - i * 8)))"
proof (induction "is" arbitrary: acc)
  case (Cons i "is")
  show ?case
    by (auto simp: Cons.IH bit_simps dest: bit_imp_le_length)
qed simp

lemma bit_le_value:
  "bit (le_value bs :: 'a::len word) k \<longleftrightarrow>
     k < LENGTH('a) \<and> k div 8 < length bs \<and> bit (bs ! (k div 8)) (k mod 8)"
proof -
  have uniq: "i = k div 8" if "i * 8 \<le> k" "k - i * 8 < 8" for i
    using that by (intro div_nat_eqI [symmetric]) auto
  have "(\<exists>i\<in>set [0..<length bs]. i * 8 \<le> k \<and> bit (bs ! i) (k - i * 8))
      \<longleftrightarrow> k div 8 < length bs \<and> bit (bs ! (k div 8)) (k mod 8)" (is "?L \<longleftrightarrow> ?R")
  proof
    assume ?L
    then obtain i where i: "i < length bs" "i * 8 \<le> k" "bit (bs ! i) (k - i * 8)"
      by auto
    then have "k - i * 8 < 8"
      using bit_imp_le_length [OF i(3)] by simp
    with i uniq have "i = k div 8" by blast
    with i show ?R by (simp add: minus_div_mult_eq_mod)
  next
    assume ?R
    then show ?L
      by (intro bexI [of _ "k div 8"]) (auto simp: minus_div_mult_eq_mod)
  qed
  then show ?thesis
    by (simp add: le_value_def bit_fold_or del: set_upt)
qed

lemma le_value_le_bytes:
  fixes v :: "'a::len word"
  assumes "LENGTH('a) = n * 8"
  shows "le_value (le_bytes n v) = v"
proof (rule bit_word_eqI)
  fix k assume "k < LENGTH('a)"
  with assms have "k div 8 < n" by simp
  with \<open>k < LENGTH('a)\<close> show "bit (le_value (le_bytes n v) :: 'a word) k = bit v k"
    by (simp add: bit_le_value bit_le_bytes mult.commute)
qed

lemma le_bytes_le_value:
  assumes "LENGTH('a::len) = n * 8" and "length bs = n"
  shows "le_bytes n (le_value bs :: 'a word) = bs"
proof (rule nth_equalityI)
  fix i assume "i < length (le_bytes n (le_value bs :: 'a word))"
  then have i: "i < n" by simp
  show "le_bytes n (le_value bs :: 'a word) ! i = bs ! i"
  proof (rule bit_word_eqI)
    fix k assume k: "k < LENGTH(8)"
    have "i * 8 + k < n * 8"
      using i k by simp
    then show "bit (le_bytes n (le_value bs :: 'a word) ! i) k = bit (bs ! i) k"
      using assms i k by (simp add: bit_le_bytes bit_le_value)
  qed
qed (simp add: assms)

section \<open>Lists\<close>

lemma drop_length_append [simp]: "drop (length xs) (xs @ ys) = ys"
  by simp

lemma sum_list_map_filter_split:
  "sum_list (map f xs) = sum_list (map f (filter P xs)) + sum_list (map (f :: 'a \<Rightarrow> nat) (filter (\<lambda>x. \<not> P x) xs))"
  by (induction xs) auto

lemma takeWhile_dropWhile_none:
  assumes "\<forall>y\<in>set ys. \<not> P y"
  shows "takeWhile P ys = []" and "dropWhile P ys = ys"
  using assms by (cases ys; simp)+

lemma takeWhile_dropWhile_split:
  assumes "\<forall>x\<in>set xs. P x" and "\<forall>y\<in>set ys. \<not> P y"
  shows "takeWhile P (xs @ ys) = xs" and "dropWhile P (xs @ ys) = ys"
  using assms by (simp_all add: takeWhile_dropWhile_none)

lemma find_Some_iff_distinct:
  assumes "distinct (map f xs)" and "x \<in> set xs"
  shows "find (\<lambda>y. f y = f x) xs = Some x"
  using assms by (induction xs) (auto simp: image_iff)

lemma word_Suc_less:
  assumes "(a :: 'a :: len word) \<noteq> - 1"
  shows "a < a + 1"
proof -
  from assms have "1 + a \<noteq> 0" using max_word_wrap by (metis add.commute)
  then have "unat (a + 1) = Suc (unat a)" using unatSuc [of a] by (simp add: add.commute)
  then show ?thesis by (simp add: word_less_nat_alt)
qed

lemma word_mod_le:
  assumes "(s :: 'a :: len word) \<noteq> - 1"
  shows "x mod (s + 1) \<le> s"
proof -
  have "unat (s + 1) = Suc (unat s)"
    using assms max_word_wrap [of s] unatSuc [of s] by (metis add.commute)
  then have "unat (x mod (s + 1)) < Suc (unat s)" by (simp add: unat_mod)
  then show ?thesis by (simp add: word_le_nat_alt)
qed

lemma word_between:
  assumes "(lo :: 'a :: len word) \<le> hi" and "j \<le> hi - lo"
  shows "lo \<le> lo + j" and "lo + j \<le> hi"
proof -
  have d: "unat (hi - lo) = unat hi - unat lo" and "unat lo \<le> unat hi" using assms(1) by (simp_all add: unat_sub word_le_nat_alt)
  moreover have "unat j \<le> unat hi - unat lo" using assms(2) d by (simp add: word_le_nat_alt)
  ultimately have le: "unat lo + unat j \<le> unat hi" by simp
  then have "unat lo + unat j < 2 ^ LENGTH('a)" by (rule order.strict_trans1 [OF _ unsigned_less])
  then have "unat (lo + j) = unat lo + unat j" by (simp add: unat_word_ariths)
  with le show "lo \<le> lo + j" and "lo + j \<le> hi" by (simp_all add: word_le_nat_alt)
qed

end
