(* ===== verification/Core_Types.thy ===== *)
theory Core_Types
  imports Prelude
begin

text \<open>
  The value types of the matching engine: \<open>types.hpp\<close>, \<open>command.hpp\<close> and
  \<open>event.hpp\<close>. Every type is plain data;
  the operations are in the theories of the components.
\<close>

section \<open>Scalars and enumerations\<close>

type_synonym OrderId = u64
type_synonym InstrumentId = u32
type_synonym Price = i64
type_synonym Quantity = u64
type_synonym Sequence = u64

datatype Side = Buy | Sell

datatype OrderType = Limit | Market

datatype TimeInForce = GoodTillCancel | ImmediateOrCancel

datatype RejectReason =
    NoReason
  | DuplicateOrderId
  | UnknownOrderId
  | ZeroQuantity
  | NonPositivePrice
  | WrongInstrument
  | MarketOrderMustBeIoc

definition opposite :: "Side \<Rightarrow> Side" where
  "opposite s = (if s = Buy then Sell else Buy)"

lemma opposite_simps [simp]: "opposite Buy = Sell" "opposite Sell = Buy"
  by (simp_all add: opposite_def)

lemma opposite_opposite [simp]: "opposite (opposite s) = s"
  by (cases s) simp_all

lemma opposite_neq [simp]: "opposite s \<noteq> s" "s \<noteq> opposite s"
  by (cases s; simp)+

text \<open>The numeric values of the enumerators, used on the wire and on disk.\<close>

fun side_code :: "Side \<Rightarrow> u8" where
  "side_code Buy = 0"
| "side_code Sell = 1"

fun type_code :: "OrderType \<Rightarrow> u8" where
  "type_code Limit = 0"
| "type_code Market = 1"

fun tif_code :: "TimeInForce \<Rightarrow> u8" where
  "tif_code GoodTillCancel = 0"
| "tif_code ImmediateOrCancel = 1"

text \<open>\<open>static_cast<Side>(b)\<close> and its kin, applied by the code only after \<open>b \<le> 1\<close> was checked.\<close>

definition side_of_code :: "u8 \<Rightarrow> Side" where
  "side_of_code b = (if b = 0 then Buy else Sell)"

definition type_of_code :: "u8 \<Rightarrow> OrderType" where
  "type_of_code b = (if b = 0 then Limit else Market)"

definition tif_of_code :: "u8 \<Rightarrow> TimeInForce" where
  "tif_of_code b = (if b = 0 then GoodTillCancel else ImmediateOrCancel)"

lemma u8_le_1_cases: "(b :: u8) \<le> 1 \<Longrightarrow> b = 0 \<or> b = 1"
  by unat_arith

lemma of_code_code [simp]:
  "side_of_code (side_code s) = s" "type_of_code (type_code t) = t" "tif_of_code (tif_code f) = f"
  by (cases s; cases t; cases f; simp add: side_of_code_def type_of_code_def tif_of_code_def)+

lemma code_le_1 [simp]: "\<not> 1 < side_code s" "\<not> 1 < type_code t" "\<not> 1 < tif_code f"
  by (cases s; cases t; cases f; simp)+

lemma code_of_code:
  "b \<le> 1 \<Longrightarrow> side_code (side_of_code b) = b"
  "b \<le> 1 \<Longrightarrow> type_code (type_of_code b) = b"
  "b \<le> 1 \<Longrightarrow> tif_code (tif_of_code b) = b"
  by (auto dest!: u8_le_1_cases simp: side_of_code_def type_of_code_def tif_of_code_def)

section \<open>Commands\<close>

record NewOrder =
  no_id :: OrderId
  no_instrument :: InstrumentId
  no_side :: Side
  no_type :: OrderType
  no_tif :: TimeInForce
  no_price :: Price
  no_quantity :: Quantity

record CancelOrder =
  co_id :: OrderId

datatype Command = New NewOrder | Cancel CancelOrder

section \<open>Events\<close>

record EventHeader =
  commandSeq :: Sequence
  eventSeq :: Sequence

record OrderAcceptedData =
  oa_id :: OrderId
  oa_side :: Side
  oa_type :: OrderType
  oa_tif :: TimeInForce
  oa_price :: Price
  oa_quantity :: Quantity

record TradeData =
  aggressorId :: OrderId
  restingId :: OrderId
  aggressorSide :: Side
  tr_price :: Price
  tr_quantity :: Quantity

record OrderRestingData =
  or_id :: OrderId
  or_side :: Side
  or_price :: Price
  or_quantity :: Quantity

record OrderCancelledData =
  oc_id :: OrderId
  oc_side :: Side
  oc_price :: Price
  oc_remaining :: Quantity
  oc_engineInitiated :: bool

record TopOfBook =
  hasBid :: bool
  bidPrice :: Price
  bidQuantity :: Quantity
  hasAsk :: bool
  askPrice :: Price
  askQuantity :: Quantity

text \<open>The variant \<open>Event\<close>: each alternative carries its header and its own fields.\<close>

datatype Event =
    OrderAccepted EventHeader OrderAcceptedData
  | OrderRejected EventHeader OrderId RejectReason
  | Trade EventHeader TradeData
  | OrderResting EventHeader OrderRestingData
  | OrderCancelled EventHeader OrderCancelledData
  | CancelRejected EventHeader OrderId RejectReason
  | TopOfBookChanged EventHeader TopOfBook

type_synonym EventList = "Event list"

fun header :: "Event \<Rightarrow> EventHeader" where
  "header (OrderAccepted h _) = h"
| "header (OrderRejected h _ _) = h"
| "header (Trade h _) = h"
| "header (OrderResting h _) = h"
| "header (OrderCancelled h _) = h"
| "header (CancelRejected h _ _) = h"
| "header (TopOfBookChanged h _) = h"

text \<open>An event without its numbers: the same alternative and fields under a blank header.\<close>

abbreviation blank :: EventHeader where
  "blank \<equiv> \<lparr>commandSeq = 0, eventSeq = 0\<rparr>"

fun body :: "Event \<Rightarrow> Event" where
  "body (OrderAccepted _ d) = OrderAccepted blank d"
| "body (OrderRejected _ i r) = OrderRejected blank i r"
| "body (Trade _ t) = Trade blank t"
| "body (OrderResting _ d) = OrderResting blank d"
| "body (OrderCancelled _ d) = OrderCancelled blank d"
| "body (CancelRejected _ i r) = CancelRejected blank i r"
| "body (TopOfBookChanged _ t) = TopOfBookChanged blank t"

lemma event_eqI: "header x = header y \<Longrightarrow> body x = body y \<Longrightarrow> x = y"
  by (cases x; cases y) auto

text \<open>The trades of an event list, in order.\<close>

definition trades :: "EventList \<Rightarrow> TradeData list" where
  "trades es = concat (map (\<lambda>e. case e of Trade _ t \<Rightarrow> [t] | _ \<Rightarrow> []) es)"

lemma trades_Nil [simp]: "trades [] = []"
  by (simp add: trades_def)

lemma trades_append [simp]: "trades (xs @ ys) = trades xs @ trades ys"
  by (simp add: trades_def)

lemma trades_Cons [simp]:
  "trades (e # es) = (case e of Trade _ t \<Rightarrow> t # trades es | _ \<Rightarrow> trades es)"
  by (simp add: trades_def split: Event.split)

lemma trades_body: "trades (map body es) = trades es"
proof (induction es)
  case (Cons e es)
  then show ?case by (cases e) auto
qed simp

lemma trades_map_Trade [simp]: "trades (map (\<lambda>x. Trade (h x) (f x)) xs) = map f xs"
  by (induction xs) simp_all

end
