(* ===== verification/Ordered_Map.thy ===== *)
theory Ordered_Map
  imports Prelude
begin

text \<open>
  \<open>std::map<K, V, Compare>\<close> as the list of its key/value pairs in iteration order. The
  operations find their place with the comparator only, as the C++ container does: two
  keys are the same when neither comes before the other. The locale \<open>map_compare\<close> states
  what the container asks of a comparator (a strict total order) and proves once what the
  order book and the replicator rely on.
\<close>

type_synonym ('k, 'v) smap = "('k \<times> 'v) list"

text \<open>\<open>m.find(k)\<close>; \<open>None\<close> is \<open>m.end()\<close>.\<close>

fun smap_find :: "('k \<Rightarrow> 'k \<Rightarrow> bool) \<Rightarrow> 'k \<Rightarrow> ('k, 'v) smap \<Rightarrow> 'v option" where
  "smap_find lt k [] = None"
| "smap_find lt k ((k', v) # m) =
     (if lt k' k then smap_find lt k m else if lt k k' then None else Some v)"

text \<open>\<open>f(m[k])\<close>: the mapped value is updated in place, starting from the default-constructed
  value \<open>d\<close> when the key was absent.\<close>

fun smap_alter :: "('k \<Rightarrow> 'k \<Rightarrow> bool) \<Rightarrow> 'k \<Rightarrow> 'v \<Rightarrow> ('v \<Rightarrow> 'v) \<Rightarrow> ('k, 'v) smap \<Rightarrow> ('k, 'v) smap" where
  "smap_alter lt k d f [] = [(k, f d)]"
| "smap_alter lt k d f ((k', v) # m) =
     (if lt k' k then (k', v) # smap_alter lt k d f m
      else if lt k k' then (k, f d) # (k', v) # m
      else (k', f v) # m)"

text \<open>\<open>m.erase(k)\<close>.\<close>

fun smap_erase :: "('k \<Rightarrow> 'k \<Rightarrow> bool) \<Rightarrow> 'k \<Rightarrow> ('k, 'v) smap \<Rightarrow> ('k, 'v) smap" where
  "smap_erase lt k [] = []"
| "smap_erase lt k ((k', v) # m) =
     (if lt k' k then (k', v) # smap_erase lt k m else if lt k k' then (k', v) # m else m)"

text \<open>The keys are strictly increasing in the comparator's order.\<close>

definition smap_ordered :: "('k \<Rightarrow> 'k \<Rightarrow> bool) \<Rightarrow> ('k, 'v) smap \<Rightarrow> bool" where
  "smap_ordered lt m \<longleftrightarrow> sorted_wrt (\<lambda>x y. lt (fst x) (fst y)) m"

lemma smap_ordered_Nil [simp]: "smap_ordered lt []"
  by (simp add: smap_ordered_def)

lemma smap_ordered_Cons [simp]:
  "smap_ordered lt ((k, v) # m) \<longleftrightarrow> (\<forall>x\<in>set m. lt k (fst x)) \<and> smap_ordered lt m"
  by (simp add: smap_ordered_def)

lemma smap_ordered_append:
  "smap_ordered lt (m @ m') \<longleftrightarrow>
     smap_ordered lt m \<and> smap_ordered lt m' \<and> (\<forall>x\<in>set m. \<forall>y\<in>set m'. lt (fst x) (fst y))"
  by (simp add: smap_ordered_def sorted_wrt_append)

locale map_compare =
  fixes lt :: "'k \<Rightarrow> 'k \<Rightarrow> bool"
  assumes irrefl: "\<not> lt a a"
    and trans: "lt a b \<Longrightarrow> lt b c \<Longrightarrow> lt a c"
    and total: "a \<noteq> b \<Longrightarrow> lt a b \<or> lt b a"
begin

lemma asym: "lt a b \<Longrightarrow> \<not> lt b a"
  using irrefl trans by blast

lemma find_Some_split:
  assumes "smap_ordered lt m" and "smap_find lt k m = Some v"
  obtains pre post where "m = pre @ (k, v) # post"
    and "\<And>d f. smap_alter lt k d f m = pre @ (k, f v) # post"
    and "smap_erase lt k m = pre @ post"
proof -
  have "\<exists>pre post. m = pre @ (k, v) # post
      \<and> (\<forall>d f. smap_alter lt k d f m = pre @ (k, f v) # post)
      \<and> smap_erase lt k m = pre @ post"
    using assms
  proof (induction m)
    case (Cons x m)
    obtain k' v' where x: "x = (k', v')" by fastforce
    show ?case
    proof (cases "lt k' k")
      case True
      with Cons x obtain pre post where "m = pre @ (k, v) # post"
        "\<forall>d f. smap_alter lt k d f m = pre @ (k, f v) # post" "smap_erase lt k m = pre @ post"
        by auto
      with True x show ?thesis
        by (intro exI [of _ "x # pre"] exI [of _ post]) simp
    next
      case False
      with Cons.prems x have "k' = k" "v' = v"
        using total by (auto split: if_splits)
      with False x irrefl show ?thesis
        by (intro exI [of _ "[]"] exI [of _ m]) simp
    qed
  qed simp
  with that show thesis by blast
qed

lemma find_None_split:
  assumes "smap_ordered lt m" and "smap_find lt k m = None"
  obtains pre post where "m = pre @ post"
    and "\<And>d f. smap_alter lt k d f m = pre @ (k, f d) # post"
    and "\<And>x. x \<in> set pre \<Longrightarrow> lt (fst x) k" and "\<And>x. x \<in> set post \<Longrightarrow> lt k (fst x)"
proof -
  have "\<exists>pre post. m = pre @ post \<and> (\<forall>d f. smap_alter lt k d f m = pre @ (k, f d) # post)
      \<and> (\<forall>x\<in>set pre. lt (fst x) k) \<and> (\<forall>x\<in>set post. lt k (fst x))"
    using assms
  proof (induction m)
    case (Cons x m)
    obtain k' v' where x: "x = (k', v')" by fastforce
    show ?case
    proof (cases "lt k' k")
      case True
      with Cons x obtain pre post where "m = pre @ post"
        "\<forall>d f. smap_alter lt k d f m = pre @ (k, f d) # post"
        "\<forall>x\<in>set pre. lt (fst x) k" "\<forall>x\<in>set post. lt k (fst x)"
        by auto
      with True x show ?thesis
        by (intro exI [of _ "x # pre"] exI [of _ post]) simp
    next
      case False
      with Cons.prems x have "lt k k'" by (auto split: if_splits)
      with False x Cons.prems trans show ?thesis
        by (intro exI [of _ "[]"] exI [of _ "x # m"]) auto
    qed
  qed auto
  with that show thesis by blast
qed

lemma map_of_before: "smap_ordered lt m \<Longrightarrow> (\<And>x. x \<in> set m \<Longrightarrow> lt k (fst x)) \<Longrightarrow> map_of m k = None"
  using irrefl by (fastforce simp: map_of_eq_None_iff)

lemma find_map_of: "smap_ordered lt m \<Longrightarrow> smap_find lt k m = map_of m k"
proof (induction m)
  case (Cons x m)
  obtain k' v where x: "x = (k', v)" by fastforce
  with Cons.prems have m: "smap_ordered lt m" "\<And>y. y \<in> set m \<Longrightarrow> lt k' (fst y)" by auto
  consider "lt k' k" | "lt k k'" | "k' = k" using total by blast
  then show ?case
  proof cases
    case 1
    then have "k \<noteq> k'" using irrefl by blast
    with 1 m(1) Cons.IH x show ?thesis by simp
  next
    case 2
    then have "map_of m k = None"
      using m trans by (intro map_of_before) blast+
    moreover have "\<not> lt k' k" "k \<noteq> k'"
      using 2 asym irrefl by blast+
    ultimately show ?thesis using 2 x by simp
  next
    case 3
    with irrefl x show ?thesis by simp
  qed
qed simp

lemma ordered_distinct: "smap_ordered lt m \<Longrightarrow> distinct (map fst m)"
  by (induction m) (use irrefl in fastforce)+

lemma ordered_alter:
  assumes "smap_ordered lt m"
  shows "smap_ordered lt (smap_alter lt k d f m)"
proof (cases "smap_find lt k m")
  case None
  from assms None obtain pre post where "m = pre @ post"
    "smap_alter lt k d f m = pre @ (k, f d) # post"
    "\<And>x. x \<in> set pre \<Longrightarrow> lt (fst x) k" "\<And>x. x \<in> set post \<Longrightarrow> lt k (fst x)"
    by (rule find_None_split) blast
  with assms show ?thesis by (simp add: smap_ordered_append)
next
  case (Some v)
  from assms Some obtain pre post where "m = pre @ (k, v) # post"
    "smap_alter lt k d f m = pre @ (k, f v) # post"
    by (rule find_Some_split) blast
  with assms show ?thesis by (simp add: smap_ordered_append)
qed

lemma find_erase_None: "smap_find lt k m = None \<Longrightarrow> smap_erase lt k m = m"
  by (induction m) (auto split: if_splits)

lemma ordered_erase:
  assumes "smap_ordered lt m"
  shows "smap_ordered lt (smap_erase lt k m)"
proof (cases "smap_find lt k m")
  case None
  with assms show ?thesis by (simp add: find_erase_None)
next
  case (Some v)
  from assms Some obtain pre post where "m = pre @ (k, v) # post" "smap_erase lt k m = pre @ post"
    by (rule find_Some_split) blast
  with assms show ?thesis by (simp add: smap_ordered_append)
qed

end

end
