(* ===== verification/Order_Book.thy ===== *)
theory Order_Book
  imports Core_Types Ordered_Map
begin

text \<open>
  The price-time priority order book (\<open>order_book.hpp\<close>, \<open>order_book.cpp\<close>).

  The two level maps are \<open>std::map\<close>s with opposite comparators, each level a FIFO
  \<open>std::list\<close>; the index maps an order id to a \<open>Locator\<close>. A list iterator is represented
  by the id stored in the node it points to: nodes never change their id, and the assertion
  in \<open>rest\<close> keeps ids unique. An operation returns \<open>None\<close> where an \<open>assert\<close> of the source
  fails or an iterator would be dereferenced that points to no node.

  The abstract view of a side is one list of orders, best price first and first come first
  served within a price; every operation is shown to refine a simple list operation on the
  views, and a well-formed book is determined by its two views.
\<close>

section \<open>Data\<close>

record RestingOrder =
  ro_id :: OrderId
  ro_side :: Side
  ro_price :: Price
  ro_quantity :: Quantity
  ro_arrival :: Sequence

type_synonym OrderQueue = "RestingOrder list"

record Locator =
  loc_side :: Side
  loc_price :: Price
  loc_it :: OrderId

type_synonym Levels = "(Price, OrderQueue) smap"

record OrderBook =
  ob_bids :: Levels
  ob_asks :: Levels
  ob_index :: "OrderId \<rightharpoonup> Locator"

definition empty_book :: OrderBook where
  "empty_book = \<lparr>ob_bids = [], ob_asks = [], ob_index = Map.empty\<rparr>"

text \<open>\<open>std::greater<Price>\<close> for the bids, \<open>std::less<Price>\<close> for the asks.\<close>

fun level_before :: "Side \<Rightarrow> Price \<Rightarrow> Price \<Rightarrow> bool" where
  "level_before Buy a b \<longleftrightarrow> sint a > sint b"
| "level_before Sell a b \<longleftrightarrow> sint a < sint b"

text \<open>The branches on \<open>Side::Buy\<close> pick one of the two maps.\<close>

fun side_levels :: "Side \<Rightarrow> OrderBook \<Rightarrow> Levels" where
  "side_levels Buy b = ob_bids b"
| "side_levels Sell b = ob_asks b"

fun set_side_levels :: "Side \<Rightarrow> Levels \<Rightarrow> OrderBook \<Rightarrow> OrderBook" where
  "set_side_levels Buy ls b = b\<lparr>ob_bids := ls\<rparr>"
| "set_side_levels Sell ls b = b\<lparr>ob_asks := ls\<rparr>"

section \<open>List nodes\<close>

definition node_deref :: "OrderId \<Rightarrow> OrderQueue \<Rightarrow> RestingOrder option" where
  "node_deref it q = find (\<lambda>o'. ro_id o' = it) q"

fun node_update :: "OrderId \<Rightarrow> (RestingOrder \<Rightarrow> RestingOrder) \<Rightarrow> OrderQueue \<Rightarrow> OrderQueue" where
  "node_update it f [] = []"
| "node_update it f (x # q) = (if ro_id x = it then f x # q else x # node_update it f q)"

fun node_erase :: "OrderId \<Rightarrow> OrderQueue \<Rightarrow> OrderQueue" where
  "node_erase it [] = []"
| "node_erase it (x # q) = (if ro_id x = it then q else x # node_erase it q)"

text \<open>\<open>*loc.it\<close>.\<close>

definition loc_deref :: "Locator \<Rightarrow> OrderBook \<Rightarrow> RestingOrder option" where
  "loc_deref loc b =
     Option.bind (smap_find (level_before (loc_side loc)) (loc_price loc) (side_levels (loc_side loc) b))
       (node_deref (loc_it loc))"

section \<open>Operations\<close>

definition rest :: "RestingOrder \<Rightarrow> OrderBook \<Rightarrow> OrderBook option" where
  "rest order b =
     (if \<not> 0 < ro_quantity order then None
      else if ob_index b (ro_id order) \<noteq> None then None
      else Some
        ((set_side_levels (ro_side order)
            (smap_alter (level_before (ro_side order)) (ro_price order) [] (\<lambda>q. q @ [order])
              (side_levels (ro_side order) b)) b)
         \<lparr>ob_index := (ob_index b)(ro_id order \<mapsto>
            \<lparr>loc_side = ro_side order, loc_price = ro_price order, loc_it = ro_id order\<rparr>)\<rparr>))"

definition eraseLocated :: "Locator \<Rightarrow> OrderId \<Rightarrow> OrderBook \<Rightarrow> OrderBook option" where
  "eraseLocated loc i b =
     (let lt = level_before (loc_side loc); ls = side_levels (loc_side loc) b in
      case smap_find lt (loc_price loc) ls of
        None \<Rightarrow> None
      | Some q \<Rightarrow>
          if node_deref (loc_it loc) q = None then None
          else
            let q' = node_erase (loc_it loc) q;
                ls' = (if q' = [] then smap_erase lt (loc_price loc) ls
                       else smap_alter lt (loc_price loc) [] (\<lambda>_. q') ls)
            in Some ((set_side_levels (loc_side loc) ls' b)\<lparr>ob_index := (ob_index b)(i := None)\<rparr>))"

definition cancel :: "OrderId \<Rightarrow> OrderBook \<Rightarrow> (RestingOrder option \<times> OrderBook) option" where
  "cancel i b =
     (case ob_index b i of
        None \<Rightarrow> Some (None, b)
      | Some loc \<Rightarrow> do {
          removed \<leftarrow> loc_deref loc b;
          b' \<leftarrow> eraseLocated loc i b;
          Some (Some removed, b')
        })"

definition contains :: "OrderId \<Rightarrow> OrderBook \<Rightarrow> bool" where
  "contains i b \<longleftrightarrow> ob_index b i \<noteq> None"

definition reduce :: "OrderId \<Rightarrow> Quantity \<Rightarrow> OrderBook \<Rightarrow> OrderBook option" where
  "reduce i by_qty b =
     (case ob_index b i of
        None \<Rightarrow> Some b
      | Some loc \<Rightarrow> do {
          node \<leftarrow> loc_deref loc b;
          (if ro_quantity node < by_qty then None
           else
             let left = ro_quantity node - by_qty;
                 b' = set_side_levels (loc_side loc)
                   (smap_alter (level_before (loc_side loc)) (loc_price loc) []
                     (node_update (loc_it loc) (\<lambda>o'. o'\<lparr>ro_quantity := left\<rparr>))
                     (side_levels (loc_side loc) b)) b
             in if left = 0 then eraseLocated loc i b' else Some b')
        })"

definition bestBid :: "OrderBook \<Rightarrow> Price option" where
  "bestBid b = (case ob_bids b of [] \<Rightarrow> None | (p, _) # _ \<Rightarrow> Some p)"

definition bestAsk :: "OrderBook \<Rightarrow> Price option" where
  "bestAsk b = (case ob_asks b of [] \<Rightarrow> None | (p, _) # _ \<Rightarrow> Some p)"

text \<open>The accumulation loops: 64-bit sums that wrap around.\<close>

definition queue_quantity :: "OrderQueue \<Rightarrow> Quantity" where
  "queue_quantity q = fold (\<lambda>o' total. total + ro_quantity o') q 0"

definition empty_top :: TopOfBook where
  "empty_top = \<lparr>hasBid = False, bidPrice = 0, bidQuantity = 0,
     hasAsk = False, askPrice = 0, askQuantity = 0\<rparr>"

definition book_top :: "OrderBook \<Rightarrow> TopOfBook" where
  "book_top b =
     (let t = (case ob_bids b of [] \<Rightarrow> empty_top
               | (p, q) # _ \<Rightarrow> empty_top\<lparr>hasBid := True, bidPrice := p, bidQuantity := queue_quantity q\<rparr>)
      in case ob_asks b of [] \<Rightarrow> t
         | (p, q) # _ \<Rightarrow> t\<lparr>hasAsk := True, askPrice := p, askQuantity := queue_quantity q\<rparr>)"

definition quantityAt :: "Side \<Rightarrow> Price \<Rightarrow> OrderBook \<Rightarrow> Quantity" where
  "quantityAt s p b =
     (case smap_find (level_before s) p (side_levels s b) of None \<Rightarrow> 0 | Some q \<Rightarrow> queue_quantity q)"

definition frontLevel :: "Side \<Rightarrow> OrderBook \<Rightarrow> OrderQueue option" where
  "frontLevel s b = (case side_levels s b of [] \<Rightarrow> None | (_, q) # _ \<Rightarrow> Some q)"

definition orderCount :: "OrderBook \<Rightarrow> nat" where
  "orderCount b = card (dom (ob_index b))"

section \<open>The comparators are strict total orders\<close>

interpretation lv: map_compare "level_before s" for s
proof
  show "level_before s a b \<or> level_before s b a" if "a \<noteq> b" for a b
  proof -
    have "sint a \<noteq> sint b" using that signed_word_eqI [of a b] by blast
    then show ?thesis by (cases s) auto
  qed
qed (cases s; auto)+

section \<open>Views and well-formedness\<close>

text \<open>A side as one list in priority order, and the whole book in canonical order.\<close>

definition side_orders :: "Side \<Rightarrow> OrderBook \<Rightarrow> RestingOrder list" where
  "side_orders s b = concat (map snd (side_levels s b))"

definition book_orders :: "OrderBook \<Rightarrow> RestingOrder list" where
  "book_orders b = side_orders Buy b @ side_orders Sell b"

definition locate :: "RestingOrder \<Rightarrow> Locator" where
  "locate o' = \<lparr>loc_side = ro_side o', loc_price = ro_price o', loc_it = ro_id o'\<rparr>"

definition index_of :: "RestingOrder list \<Rightarrow> OrderId \<rightharpoonup> Locator" where
  "index_of os i = map_option locate (find (\<lambda>o'. ro_id o' = i) os)"

definition levels_struct :: "Side \<Rightarrow> Levels \<Rightarrow> bool" where
  "levels_struct s ls \<longleftrightarrow> smap_ordered (level_before s) ls \<and>
     (\<forall>(p, q) \<in> set ls. q \<noteq> [] \<and> (\<forall>o'\<in>set q. ro_price o' = p \<and> ro_side o' = s))"

definition book_struct :: "OrderBook \<Rightarrow> bool" where
  "book_struct b \<longleftrightarrow>
     levels_struct Buy (ob_bids b) \<and> levels_struct Sell (ob_asks b) \<and>
     distinct (map ro_id (book_orders b)) \<and> ob_index b = index_of (book_orders b)"

definition wf_book :: "OrderBook \<Rightarrow> bool" where
  "wf_book b \<longleftrightarrow> book_struct b \<and> (\<forall>o'\<in>set (book_orders b). 0 < ro_quantity o')"

lemma side_levels_set [simp]:
  "side_levels s (set_side_levels s ls b) = ls"
  "side_levels (opposite s) (set_side_levels s ls b) = side_levels (opposite s) b"
  "side_levels s (b\<lparr>ob_index := m\<rparr>) = side_levels s b"
  "ob_index (set_side_levels s ls b) = ob_index b"
  by (cases s; simp)+

lemma side_orders_set [simp]:
  "side_orders s (set_side_levels s ls b) = concat (map snd ls)"
  "side_orders (opposite s) (set_side_levels s ls b) = side_orders (opposite s) b"
  "side_orders s (b\<lparr>ob_index := m\<rparr>) = side_orders s b"
  by (simp_all add: side_orders_def)

lemma book_orders_cases: "s' = s \<or> s' = opposite s" for s s' :: Side
  by (cases s; cases s'; simp)

lemma set_book_orders: "set (book_orders b) = set (side_orders s b) \<union> set (side_orders (opposite s) b)"
  by (cases s) (auto simp: book_orders_def)

lemma book_struct_side: "book_struct b \<Longrightarrow> levels_struct s (side_levels s b)"
  by (cases s) (auto simp: book_struct_def)

lemma levels_struct_side_orders:
  "levels_struct s (side_levels s b) \<Longrightarrow> o' \<in> set (side_orders s b) \<Longrightarrow> ro_side o' = s"
  by (fastforce simp: levels_struct_def side_orders_def)

lemma book_struct_ro_side: "book_struct b \<Longrightarrow> o' \<in> set (side_orders s b) \<Longrightarrow> ro_side o' = s"
  by (blast intro: levels_struct_side_orders book_struct_side)

lemma book_struct_distinct_side:
  assumes "book_struct b"
  shows "distinct (map ro_id (side_orders s b))"
  using assms by (cases s) (auto simp: book_struct_def book_orders_def)

lemma book_struct_disjoint:
  assumes "book_struct b" and "x \<in> set (side_orders s b)" and "y \<in> set (side_orders (opposite s) b)"
  shows "ro_id x \<noteq> ro_id y"
  using assms by (cases s) (force simp: book_struct_def book_orders_def)+

text \<open>To re-establish well-formedness after an operation on one side.\<close>

lemma book_structI:
  assumes "levels_struct s (side_levels s b)" and "levels_struct (opposite s) (side_levels (opposite s) b)"
    and "distinct (map ro_id (book_orders b))" and "ob_index b = index_of (book_orders b)"
  shows "book_struct b"
  using assms by (cases s) (auto simp: book_struct_def)

section \<open>The index\<close>

lemma index_of_Nil [simp]: "index_of [] = Map.empty"
  by (auto simp: index_of_def)

lemma index_of_None: "index_of os i = None \<longleftrightarrow> i \<notin> ro_id ` set os"
  by (auto simp: index_of_def find_None_iff)

lemma index_of_Some:
  "distinct (map ro_id os) \<Longrightarrow> o' \<in> set os \<Longrightarrow> index_of os (ro_id o') = Some (locate o')"
  by (simp add: index_of_def find_Some_iff_distinct)

lemma index_of_Cons: "index_of (x # os) = (index_of os)(ro_id x \<mapsto> locate x)"
  by (auto simp: index_of_def fun_eq_iff)

lemma index_of_append: "index_of (xs @ ys) = index_of ys ++ index_of xs"
  by (induction xs) (auto simp: index_of_Cons fun_eq_iff map_add_def)

lemma index_of_map:
  assumes "\<And>x. x \<in> set os \<Longrightarrow> locate (g x) = locate x"
  shows "index_of (map g os) = index_of os"
proof -
  have "ro_id (g x) = ro_id x" if "x \<in> set os" for x
    using assms [OF that] by (simp add: locate_def)
  then show ?thesis
    using assms by (induction os) (auto simp: index_of_Cons)
qed

lemma index_of_remove: "index_of (filter (\<lambda>x. ro_id x \<noteq> i) os) = (index_of os)(i := None)"
  by (induction os) (auto simp: index_of_Cons fun_eq_iff)

lemma index_of_insert:
  assumes "ro_id x \<notin> ro_id ` set (xs @ ys)"
  shows "index_of (xs @ x # ys) = (index_of (xs @ ys))(ro_id x \<mapsto> locate x)"
  using assms by (induction xs) (auto simp: index_of_Cons fun_eq_iff)

section \<open>Levels of a side\<close>

lemma levels_structD:
  "levels_struct s ls \<Longrightarrow> (p, q) \<in> set ls \<Longrightarrow> q \<noteq> [] \<and> (\<forall>o'\<in>set q. ro_price o' = p \<and> ro_side o' = s)"
  by (auto simp: levels_struct_def)

lemma levels_struct_ordered: "levels_struct s ls \<Longrightarrow> smap_ordered (level_before s) ls"
  by (simp add: levels_struct_def)

lemma levels_findD:
  assumes "smap_find (level_before s) p ls = Some q" and "levels_struct s ls"
  shows "q \<noteq> [] \<and> (\<forall>o'\<in>set q. ro_price o' = p \<and> ro_side o' = s)"
  using assms by (auto simp: lv.find_map_of levels_struct_ordered dest!: map_of_SomeD dest: levels_structD)

lemma levels_struct_find:
  assumes "levels_struct s ls" and "o' \<in> set (concat (map snd ls))"
  obtains q where "smap_find (level_before s) (ro_price o') ls = Some q" and "o' \<in> set q"
proof -
  from assms(2) obtain p q where pq: "(p, q) \<in> set ls" "o' \<in> set q" by auto
  with assms(1) have "ro_price o' = p" by (auto dest: levels_structD)
  moreover have "distinct (map fst ls)"
    using levels_struct_ordered [OF assms(1)] by (rule lv.ordered_distinct)
  ultimately have "smap_find (level_before s) (ro_price o') ls = Some q"
    using pq assms(1) by (simp add: lv.find_map_of levels_struct_ordered)
  with pq that show thesis by blast
qed

text \<open>The three ways an operation rewrites the levels of a side.\<close>

lemma levels_struct_alter:
  assumes "levels_struct s ls" and "f (case smap_find (level_before s) p ls of None \<Rightarrow> [] | Some q \<Rightarrow> q) \<noteq> []"
    and "\<And>o'. o' \<in> set (f (case smap_find (level_before s) p ls of None \<Rightarrow> [] | Some q \<Rightarrow> q)) \<Longrightarrow>
      ro_price o' = p \<and> ro_side o' = s"
  shows "levels_struct s (smap_alter (level_before s) p [] f ls)"
proof (cases "smap_find (level_before s) p ls")
  case None
  from levels_struct_ordered [OF assms(1)] None obtain pre post where
    "ls = pre @ post" "smap_alter (level_before s) p [] f ls = pre @ (p, f []) # post"
    by (rule lv.find_None_split) blast
  with None assms lv.ordered_alter [of s ls p "[]" f] show ?thesis
    by (auto simp: levels_struct_def)
next
  case (Some q)
  from levels_struct_ordered [OF assms(1)] Some obtain pre post where
    "ls = pre @ (p, q) # post" "smap_alter (level_before s) p [] f ls = pre @ (p, f q) # post"
    by (rule lv.find_Some_split) blast
  with Some assms lv.ordered_alter [of s ls p "[]" f] show ?thesis
    by (auto simp: levels_struct_def)
qed

lemma levels_struct_erase:
  assumes "levels_struct s ls" and "smap_find (level_before s) p ls = Some q"
  shows "levels_struct s (smap_erase (level_before s) p ls)"
proof -
  from levels_struct_ordered [OF assms(1)] assms(2) obtain pre post where
    "ls = pre @ (p, q) # post" "smap_erase (level_before s) p ls = pre @ post"
    by (rule lv.find_Some_split) blast
  with assms lv.ordered_erase [of s ls p] show ?thesis
    by (auto simp: levels_struct_def)
qed

section \<open>Nodes of a queue with distinct ids\<close>

lemma node_deref_Some: "distinct (map ro_id q) \<Longrightarrow> o' \<in> set q \<Longrightarrow> node_deref (ro_id o') q = Some o'"
  by (simp add: node_deref_def find_Some_iff_distinct)

lemma map_absent_id: "i \<notin> ro_id ` set q \<Longrightarrow> map (\<lambda>x. if ro_id x = i then f x else x) q = q"
  by (induction q) auto

lemma filter_absent_id: "i \<notin> ro_id ` set q \<Longrightarrow> filter (\<lambda>x. ro_id x \<noteq> i) q = q"
  by (induction q) auto

lemma node_update_map:
  "distinct (map ro_id q) \<Longrightarrow> node_update i f q = map (\<lambda>x. if ro_id x = i then f x else x) q"
  by (induction q) (auto simp: map_absent_id)

lemma node_erase_filter: "distinct (map ro_id q) \<Longrightarrow> node_erase i q = filter (\<lambda>x. ro_id x \<noteq> i) q"
  by (induction q) (auto simp: filter_absent_id)

lemma distinct_segment:
  assumes "distinct (map f (xs @ q @ ys))" and "x \<in> set q"
  shows "distinct (map f q)" and "f x \<notin> f ` set xs" and "f x \<notin> f ` set ys"
  using assms by auto

section \<open>Abstract operations on a side\<close>

text \<open>A new order goes behind every order that is at least as good.\<close>

definition spec_rest :: "RestingOrder \<Rightarrow> RestingOrder list \<Rightarrow> RestingOrder list" where
  "spec_rest o' os =
     (let P = (\<lambda>x. \<not> level_before (ro_side o') (ro_price o') (ro_price x))
      in takeWhile P os @ o' # dropWhile P os)"

definition spec_remove :: "OrderId \<Rightarrow> RestingOrder list \<Rightarrow> RestingOrder list" where
  "spec_remove i os = filter (\<lambda>x. ro_id x \<noteq> i) os"

definition spec_update :: "OrderId \<Rightarrow> Quantity \<Rightarrow> RestingOrder list \<Rightarrow> RestingOrder list" where
  "spec_update i n os = map (\<lambda>x. if ro_id x = i then x\<lparr>ro_quantity := n\<rparr> else x) os"

text \<open>Fills consume an order's quantity; an order with nothing left leaves the list.\<close>

definition spec_reduce :: "OrderId \<Rightarrow> Quantity \<Rightarrow> RestingOrder list \<Rightarrow> RestingOrder list" where
  "spec_reduce i n os =
     filter (\<lambda>x. ro_quantity x \<noteq> 0)
       (map (\<lambda>x. if ro_id x = i then x\<lparr>ro_quantity := ro_quantity x - n\<rparr> else x) os)"

lemma spec_rest_split:
  assumes "\<forall>x\<in>set xs. \<not> level_before (ro_side o') (ro_price o') (ro_price x)"
    and "\<forall>y\<in>set ys. level_before (ro_side o') (ro_price o') (ro_price y)"
  shows "spec_rest o' (xs @ ys) = xs @ o' # ys"
  using takeWhile_dropWhile_split [of xs "\<lambda>x. \<not> level_before (ro_side o') (ro_price o') (ro_price x)" ys] assms
  by (simp add: spec_rest_def)

lemma spec_rest_ex: obtains xs ys where "os = xs @ ys" and "spec_rest o' os = xs @ o' # ys"
  by (rule that [OF takeWhile_dropWhile_id [symmetric]]) (unfold spec_rest_def Let_def, rule refl)

lemma set_spec_rest: "set (spec_rest o' os) = insert o' (set os)"
  by (rule spec_rest_ex [of os o']) auto

lemma distinct_spec_rest: "distinct (map ro_id (spec_rest o' os)) \<longleftrightarrow> distinct (map ro_id (o' # os))"
  by (rule spec_rest_ex [of os o']) auto

section \<open>The operations refine the abstract ones\<close>

lemma concat_prices:
  assumes "\<And>p q x. (p, q) \<in> set ls \<Longrightarrow> x \<in> set q \<Longrightarrow> ro_price x = p" and "x \<in> set (concat (map snd ls))"
  obtains y where "y \<in> set ls" and "ro_price x = fst y"
  using assms that by fastforce

lemma levels_rest:
  assumes "levels_struct (ro_side o') ls"
  shows "levels_struct (ro_side o') (smap_alter (level_before (ro_side o')) (ro_price o') [] (\<lambda>q. q @ [o']) ls)"
    and "concat (map snd (smap_alter (level_before (ro_side o')) (ro_price o') [] (\<lambda>q. q @ [o']) ls))
      = spec_rest o' (concat (map snd ls))"
proof -
  let ?lt = "level_before (ro_side o')"
  note ord = levels_struct_ordered [OF assms]
  have prices: "ro_price x = p" if "(p, q) \<in> set ls" "x \<in> set q" for p q x
    using assms that by (auto dest: levels_structD)
  show "levels_struct (ro_side o') (smap_alter ?lt (ro_price o') [] (\<lambda>q. q @ [o']) ls)"
    using assms by (intro levels_struct_alter) (auto split: option.splits dest: levels_findD [OF sym])
  show "concat (map snd (smap_alter ?lt (ro_price o') [] (\<lambda>q. q @ [o']) ls)) = spec_rest o' (concat (map snd ls))"
  proof (cases "smap_find ?lt (ro_price o') ls")
    case None
    from ord None obtain pre post where s: "ls = pre @ post"
      "smap_alter ?lt (ro_price o') [] (\<lambda>q. q @ [o']) ls = pre @ (ro_price o', [] @ [o']) # post"
      "\<And>x. x \<in> set pre \<Longrightarrow> ?lt (fst x) (ro_price o')" "\<And>x. x \<in> set post \<Longrightarrow> ?lt (ro_price o') (fst x)"
      by (rule lv.find_None_split) blast
    have pre: "\<exists>y\<in>set pre. ro_price x = fst y" if "x \<in> set (concat (map snd pre))" for x
      using that s(1) prices by (metis (no_types, lifting) Un_iff concat_prices set_append)
    have post: "\<exists>y\<in>set post. ro_price x = fst y" if "x \<in> set (concat (map snd post))" for x
      using that s(1) prices by (metis (no_types, lifting) Un_iff concat_prices set_append)
    have "spec_rest o' (concat (map snd pre) @ concat (map snd post))
        = concat (map snd pre) @ o' # concat (map snd post)"
    proof (rule spec_rest_split)
      show "\<forall>x\<in>set (concat (map snd pre)). \<not> ?lt (ro_price o') (ro_price x)"
        by (metis (no_types) pre s(3) lv.asym)
      show "\<forall>y\<in>set (concat (map snd post)). ?lt (ro_price o') (ro_price y)"
        by (metis (no_types) post s(4))
    qed
    with s show ?thesis by simp
  next
    case (Some q)
    from ord Some obtain pre post where s: "ls = pre @ (ro_price o', q) # post"
      "smap_alter ?lt (ro_price o') [] (\<lambda>q. q @ [o']) ls = pre @ (ro_price o', q @ [o']) # post"
      by (rule lv.find_Some_split) blast
    from ord s have o: "\<And>x. x \<in> set pre \<Longrightarrow> ?lt (fst x) (ro_price o')"
      "\<And>x. x \<in> set post \<Longrightarrow> ?lt (ro_price o') (fst x)"
      by (auto simp: smap_ordered_append)
    have pre: "\<exists>y\<in>set pre. ro_price x = fst y" if "x \<in> set (concat (map snd pre))" for x
      using that s(1) prices by (metis (no_types, lifting) Un_iff concat_prices set_append)
    have post: "\<exists>y\<in>set post. ro_price x = fst y" if "x \<in> set (concat (map snd post))" for x
      using that s(1) prices
      by (metis (no_types, lifting) Un_iff concat_prices list.set_intros(2) set_append)
    have "spec_rest o' ((concat (map snd pre) @ q) @ concat (map snd post))
        = (concat (map snd pre) @ q) @ o' # concat (map snd post)"
    proof (rule spec_rest_split)
      have "\<not> ?lt (ro_price o') (ro_price x)" if "x \<in> set (concat (map snd pre))" for x
        using that by (metis (no_types) pre o(1) lv.asym)
      moreover have "ro_price x = ro_price o'" if "x \<in> set q" for x
        using that s(1) prices [of "ro_price o'" q] by simp
      ultimately show "\<forall>x\<in>set (concat (map snd pre) @ q). \<not> ?lt (ro_price o') (ro_price x)"
        using lv.irrefl by auto
      show "\<forall>y\<in>set (concat (map snd post)). ?lt (ro_price o') (ro_price y)"
        by (metis (no_types) post o(2))
    qed
    with s show ?thesis by simp
  qed
qed

lemma rest_refines:
  assumes "book_struct b" and "0 < ro_quantity o'" and "\<not> contains (ro_id o') b"
  obtains b' where "rest o' b = Some b'" and "book_struct b'"
    and "side_orders (ro_side o') b' = spec_rest o' (side_orders (ro_side o') b)"
    and "side_orders (opposite (ro_side o')) b' = side_orders (opposite (ro_side o')) b"
proof -
  let ?s = "ro_side o'" and ?i = "ro_id o'"
  define ls where "ls = smap_alter (level_before ?s) (ro_price o') [] (\<lambda>q. q @ [o']) (side_levels ?s b)"
  define b' where "b' = (set_side_levels ?s ls b)\<lparr>ob_index := (ob_index b)(?i \<mapsto> locate o')\<rparr>"
  have new: "?i \<notin> ro_id ` set (book_orders b)"
    using assms by (simp add: contains_def book_struct_def index_of_None)
  have b'eq: "rest o' b = Some b'"
    using assms by (simp add: rest_def contains_def b'_def ls_def locate_def)
  have views: "side_orders ?s b' = spec_rest o' (side_orders ?s b)"
    "side_orders (opposite ?s) b' = side_orders (opposite ?s) b"
    using levels_rest(2) [OF book_struct_side [OF assms(1)]] by (simp_all add: b'_def ls_def side_orders_def)
  have idx: "index_of (book_orders b') = (index_of (book_orders b))(?i \<mapsto> locate o')"
  proof (rule spec_rest_ex [of "side_orders ?s b" o'])
    fix xs ys assume "side_orders ?s b = xs @ ys" "spec_rest o' (side_orders ?s b) = xs @ o' # ys"
    with views have "\<exists>us vs. book_orders b = us @ vs \<and> book_orders b' = us @ o' # vs"
      by (cases ?s) (auto simp: book_orders_def intro: exI [of _ xs] exI [of _ "side_orders Buy b @ xs"])
    with new show ?thesis by (auto simp: index_of_insert simp del: set_append)
  qed
  have "book_struct b'"
  proof (rule book_structI [of ?s])
    show "distinct (map ro_id (book_orders b'))"
      using assms(1) new views
      by (cases ?s) (auto simp: distinct_spec_rest set_spec_rest book_struct_def book_orders_def)
    show "ob_index b' = index_of (book_orders b')"
      using assms(1) unfolding idx by (simp add: b'_def book_struct_def)
  qed (use levels_rest(1) [OF book_struct_side [OF assms(1)]] book_struct_side [OF assms(1)]
      in \<open>simp_all add: b'_def ls_def\<close>)
  with that b'eq views show thesis by blast
qed

text \<open>Locating a live order, and rewriting or erasing its node.\<close>

lemma live_order:
  assumes "book_struct b" and "o' \<in> set (side_orders s b)"
  obtains pre q post where "side_levels s b = pre @ (ro_price o', q) # post" and "o' \<in> set q"
    and "smap_find (level_before s) (ro_price o') (side_levels s b) = Some q"
    and "\<And>f. smap_alter (level_before s) (ro_price o') [] f (side_levels s b) = pre @ (ro_price o', f q) # post"
    and "smap_erase (level_before s) (ro_price o') (side_levels s b) = pre @ post"
    and "ob_index b (ro_id o') = Some (locate o')" and "locate o' = \<lparr>loc_side = s, loc_price = ro_price o', loc_it = ro_id o'\<rparr>"
    and "loc_deref (locate o') b = Some o'" and "distinct (map ro_id q)"
    and "ro_id o' \<notin> ro_id ` set (concat (map snd pre))" and "ro_id o' \<notin> ro_id ` set (concat (map snd post))"
proof -
  note ls = book_struct_side [OF assms(1), of s]
  have idx: "ob_index b (ro_id o') = Some (locate o')"
    using assms by (simp add: book_struct_def index_of_Some set_book_orders [of b s])
  have sd: "ro_side o' = s" using assms by (rule book_struct_ro_side)
  from assms(2) obtain q where q: "smap_find (level_before s) (ro_price o') (side_levels s b) = Some q" "o' \<in> set q"
    by (metis levels_struct_find [OF ls] side_orders_def)
  from levels_struct_ordered [OF ls] q(1) obtain pre post where s: "side_levels s b = pre @ (ro_price o', q) # post"
    "\<And>d f. smap_alter (level_before s) (ro_price o') d f (side_levels s b) = pre @ (ro_price o', f q) # post"
    "smap_erase (level_before s) (ro_price o') (side_levels s b) = pre @ post"
    by (rule lv.find_Some_split) blast
  have "distinct (map ro_id (concat (map snd pre) @ q @ concat (map snd post)))"
    using book_struct_distinct_side [OF assms(1), of s] s(1) by (simp add: side_orders_def)
  note d = distinct_segment [OF this q(2)]
  have "loc_deref (locate o') b = Some o'"
    using q d(1) sd by (simp add: loc_deref_def locate_def node_deref_Some)
  with that s q idx d sd show thesis by (simp add: locate_def)
qed

lemma erase_refines:
  assumes "book_struct b" and "o' \<in> set (side_orders s b)"
  obtains b' where "eraseLocated (locate o') (ro_id o') b = Some b'" and "book_struct b'"
    and "side_orders s b' = spec_remove (ro_id o') (side_orders s b)"
    and "side_orders (opposite s) b' = side_orders (opposite s) b"
proof -
  obtain pre q post where s: "side_levels s b = pre @ (ro_price o', q) # post" "o' \<in> set q"
      "smap_find (level_before s) (ro_price o') (side_levels s b) = Some q"
      "\<And>f. smap_alter (level_before s) (ro_price o') [] f (side_levels s b) = pre @ (ro_price o', f q) # post"
      "smap_erase (level_before s) (ro_price o') (side_levels s b) = pre @ post"
      and loc: "locate o' = \<lparr>loc_side = s, loc_price = ro_price o', loc_it = ro_id o'\<rparr>"
      and d: "distinct (map ro_id q)" "ro_id o' \<notin> ro_id ` set (concat (map snd pre))"
        "ro_id o' \<notin> ro_id ` set (concat (map snd post))"
    using assms by (rule live_order) blast
  define q' where "q' = spec_remove (ro_id o') q"
  define ls where "ls = (if q' = [] then pre @ post else pre @ (ro_price o', q') # post)"
  define b' where "b' = (set_side_levels s ls b)\<lparr>ob_index := (ob_index b)(ro_id o' := None)\<rparr>"
  have eq: "eraseLocated (locate o') (ro_id o') b = Some b'"
    using s d unfolding eraseLocated_def loc
    by (simp add: node_deref_Some node_erase_filter b'_def ls_def q'_def spec_remove_def)
  have views: "side_orders s b' = spec_remove (ro_id o') (side_orders s b)"
    "side_orders (opposite s) b' = side_orders (opposite s) b"
    using s(1) d by (simp_all add: b'_def ls_def q'_def side_orders_def spec_remove_def filter_absent_id)
  have dis: "spec_remove (ro_id o') (side_orders (opposite s) b) = side_orders (opposite s) b"
    using book_struct_disjoint [OF assms(1,2)] by (auto simp: spec_remove_def intro!: filter_absent_id)
  have book: "book_orders b' = spec_remove (ro_id o') (book_orders b)"
    using views dis by (cases s) (auto simp: book_orders_def spec_remove_def)
  have "levels_struct s ls"
  proof (cases "q' = []")
    case True
    then show ?thesis
      using s levels_struct_erase [OF book_struct_side [OF assms(1)] s(3)] by (simp add: ls_def)
  next
    case False
    then have "levels_struct s (smap_alter (level_before s) (ro_price o') [] (\<lambda>_. q') (side_levels s b))"
      using levels_findD [OF s(3) book_struct_side [OF assms(1)]]
      by (intro levels_struct_alter book_struct_side [OF assms(1)]) (auto simp: q'_def spec_remove_def)
    with False s show ?thesis by (simp add: ls_def)
  qed
  then have "book_struct b'"
  proof (intro book_structI [of s])
    show "ob_index b' = index_of (book_orders b')"
      using assms(1) unfolding book by (simp add: b'_def book_struct_def spec_remove_def index_of_remove)
    show "distinct (map ro_id (book_orders b'))"
      using assms(1) unfolding book by (simp add: book_struct_def spec_remove_def distinct_map_filter)
  qed (use book_struct_side [OF assms(1)] in \<open>simp_all add: b'_def\<close>)
  with that eq views show thesis by blast
qed

lemma cancel_refines:
  assumes "book_struct b" and "o' \<in> set (side_orders s b)"
  obtains b' where "cancel (ro_id o') b = Some (Some o', b')" and "book_struct b'"
    and "side_orders s b' = spec_remove (ro_id o') (side_orders s b)"
    and "side_orders (opposite s) b' = side_orders (opposite s) b"
proof -
  obtain b' where b': "eraseLocated (locate o') (ro_id o') b = Some b'" "book_struct b'"
    "side_orders s b' = spec_remove (ro_id o') (side_orders s b)"
    "side_orders (opposite s) b' = side_orders (opposite s) b"
    using assms by (rule erase_refines)
  moreover have "ob_index b (ro_id o') = Some (locate o')" "loc_deref (locate o') b = Some o'"
    using assms by (rule live_order, blast)+
  ultimately show thesis using that by (simp add: cancel_def)
qed

lemma cancel_absent:
  assumes "book_struct b" and "i \<notin> ro_id ` set (book_orders b)"
  shows "cancel i b = Some (None, b)"
  using assms by (simp add: cancel_def book_struct_def index_of_None [symmetric])

lemma contains_iff: "book_struct b \<Longrightarrow> contains i b \<longleftrightarrow> i \<in> ro_id ` set (book_orders b)"
  by (simp add: contains_def book_struct_def index_of_None del: not_None_eq)

text \<open>\<open>loc.it->quantity -= by\<close>, before the test for zero.\<close>

lemma update_refines:
  fixes n :: Quantity
  assumes "book_struct b" and "o' \<in> set (side_orders s b)"
  defines "b' \<equiv> set_side_levels s (smap_alter (level_before s) (ro_price o') []
    (node_update (ro_id o') (\<lambda>x. x\<lparr>ro_quantity := n\<rparr>)) (side_levels s b)) b"
  shows "book_struct b'" and "side_orders s b' = spec_update (ro_id o') n (side_orders s b)"
    and "side_orders (opposite s) b' = side_orders (opposite s) b"
proof -
  let ?g = "\<lambda>x. if ro_id x = ro_id o' then x\<lparr>ro_quantity := n\<rparr> else x"
  have loc: "locate (?g x) = locate x" "ro_id (?g x) = ro_id x" for x by (simp_all add: locate_def)
  obtain pre q post where s: "side_levels s b = pre @ (ro_price o', q) # post" "o' \<in> set q"
      "smap_find (level_before s) (ro_price o') (side_levels s b) = Some q"
      "\<And>f. smap_alter (level_before s) (ro_price o') [] f (side_levels s b) = pre @ (ro_price o', f q) # post"
      and d: "distinct (map ro_id q)" "ro_id o' \<notin> ro_id ` set (concat (map snd pre))"
        "ro_id o' \<notin> ro_id ` set (concat (map snd post))"
    using assms(1,2) by (rule live_order) blast
  have upd: "node_update (ro_id o') (\<lambda>x. x\<lparr>ro_quantity := n\<rparr>) q = map ?g q"
    using d(1) by (rule node_update_map)
  show views: "side_orders s b' = spec_update (ro_id o') n (side_orders s b)"
    "side_orders (opposite s) b' = side_orders (opposite s) b"
    using s d by (simp_all add: b'_def upd side_orders_def spec_update_def map_absent_id)
  have dis: "spec_update (ro_id o') n (side_orders (opposite s) b) = side_orders (opposite s) b"
    using book_struct_disjoint [OF assms(1,2)] by (auto simp: spec_update_def intro!: map_absent_id)
  have book: "book_orders b' = map ?g (book_orders b)"
    using views dis by (cases s) (simp_all add: book_orders_def spec_update_def)
  show "book_struct b'"
  proof (rule book_structI [of s])
    show "levels_struct s (side_levels s b')"
      using levels_findD [OF s(3) book_struct_side [OF assms(1)]] s(3) upd
      by (auto simp: b'_def split: if_splits intro!: levels_struct_alter book_struct_side [OF assms(1)])
    show "ob_index b' = index_of (book_orders b')"
      using assms(1) unfolding book by (simp add: index_of_map loc b'_def book_struct_def)
    show "distinct (map ro_id (book_orders b'))"
      using assms(1) unfolding book by (simp add: book_struct_def o_def loc(2))
  qed (use book_struct_side [OF assms(1)] in \<open>simp_all add: b'_def\<close>)
qed

lemma spec_remove_update: "spec_remove i (spec_update i n os) = spec_remove i os"
  by (induction os) (auto simp: spec_remove_def spec_update_def)

lemma spec_reduce_eq:
  assumes "distinct (map ro_id os)" and "o' \<in> set os" and "\<forall>x\<in>set os. 0 < ro_quantity x"
  shows "spec_reduce (ro_id o') n os =
    (if ro_quantity o' - n = 0 then spec_remove (ro_id o') os
     else spec_update (ro_id o') (ro_quantity o' - n) os)"
  using assms
proof (induction os)
  case (Cons x os)
  show ?case
  proof (cases "x = o'")
    case True
    with Cons.prems have "ro_id o' \<notin> ro_id ` set os" by auto
    with True Cons.prems show ?thesis
      by (auto simp: spec_reduce_def spec_remove_def spec_update_def map_absent_id filter_absent_id
          intro!: filter_True)
  next
    case False
    with Cons show ?thesis by (auto simp: spec_reduce_def spec_remove_def spec_update_def)
  qed
qed simp

lemma reduce_refines:
  assumes "wf_book b" and "o' \<in> set (side_orders s b)" and "n \<le> ro_quantity o'"
  obtains b' where "reduce (ro_id o') n b = Some b'" and "wf_book b'"
    and "side_orders s b' = spec_reduce (ro_id o') n (side_orders s b)"
    and "side_orders (opposite s) b' = side_orders (opposite s) b"
proof -
  have b: "book_struct b" and pos: "\<forall>x\<in>set (side_orders s b). 0 < ro_quantity x"
    "\<forall>x\<in>set (side_orders (opposite s) b). 0 < ro_quantity x"
    using assms(1) by (auto simp: wf_book_def set_book_orders [of b s])
  define left where "left = ro_quantity o' - n"
  define b1 where "b1 = set_side_levels s (smap_alter (level_before s) (ro_price o') []
    (node_update (ro_id o') (\<lambda>x. x\<lparr>ro_quantity := left\<rparr>)) (side_levels s b)) b"
  note upd = update_refines [OF b assms(2), of left, folded b1_def]
  note spec = spec_reduce_eq [OF book_struct_distinct_side [OF b] assms(2) pos(1), of n, folded left_def]
  have idx: "ob_index b (ro_id o') = Some (locate o')" "loc_deref (locate o') b = Some o'"
    and loc: "locate o' = \<lparr>loc_side = s, loc_price = ro_price o', loc_it = ro_id o'\<rparr>"
    using b assms(2) by (rule live_order, blast)+
  have red: "reduce (ro_id o') n b = (if left = 0 then eraseLocated (locate o') (ro_id o') b1 else Some b1)"
    using idx leD [OF assms(3)] by (simp add: reduce_def loc left_def b1_def Let_def)
  show thesis
  proof (cases "left = 0")
    case False
    have "\<forall>x\<in>set (spec_update (ro_id o') left (side_orders s b)). 0 < ro_quantity x"
      using False pos(1) by (auto simp: spec_update_def word_neq_0_conv)
    with False that [of b1] red upd spec pos(2) show ?thesis
      by (simp add: wf_book_def set_book_orders [of _ s] ball_Un)
  next
    case True
    have o1: "o'\<lparr>ro_quantity := left\<rparr> \<in> set (side_orders s b1)"
      using upd(2) assms(2) by (force simp: spec_update_def)
    obtain b' where "eraseLocated (locate (o'\<lparr>ro_quantity := left\<rparr>)) (ro_id (o'\<lparr>ro_quantity := left\<rparr>)) b1 = Some b'"
      "book_struct b'" "side_orders s b' = spec_remove (ro_id (o'\<lparr>ro_quantity := left\<rparr>)) (side_orders s b1)"
      "side_orders (opposite s) b' = side_orders (opposite s) b1"
      using upd(1) o1 by (rule erase_refines)
    moreover have "\<forall>x\<in>set (spec_remove (ro_id o') (side_orders s b)). 0 < ro_quantity x"
      using pos(1) by (auto simp: spec_remove_def)
    ultimately show ?thesis
      using True that [of b'] red upd spec pos(2)
      by (simp add: locate_def wf_book_def set_book_orders [of _ s] ball_Un spec_remove_update)
  qed
qed

section \<open>Reading the book\<close>

text \<open>A side is sorted by its comparator: nothing later in the view has a better price.\<close>

definition side_sorted :: "Side \<Rightarrow> RestingOrder list \<Rightarrow> bool" where
  "side_sorted s os \<longleftrightarrow> sorted_wrt (\<lambda>x y. \<not> level_before s (ro_price y) (ro_price x)) os"

lemma levels_later:
  assumes "levels_struct s ((p, q) # ls)" and "y \<in> set (concat (map snd ls))"
  shows "level_before s p (ro_price y)"
proof -
  from assms(2) obtain p' q' where "(p', q') \<in> set ls" "y \<in> set q'" by auto
  moreover from this have "ro_price y = p'" using assms(1) by (auto simp: levels_struct_def)
  ultimately show ?thesis using assms(1) by (auto simp: levels_struct_def)
qed

lemma levels_sorted: "levels_struct s ls \<Longrightarrow> side_sorted s (concat (map snd ls))"
proof (induction ls)
  case (Cons pq ls)
  obtain p q where pq: "pq = (p, q)" by fastforce
  have ls: "levels_struct s ls" using Cons.prems by (auto simp: levels_struct_def pq)
  have q: "ro_price x = p" if "x \<in> set q" for x
    using Cons.prems that pq by (auto dest: levels_structD)
  note later = levels_later [OF Cons.prems [unfolded pq]]
  have "sorted_wrt (\<lambda>x y. \<not> level_before s (ro_price y) (ro_price x)) q"
    using q lv.irrefl by (auto simp: sorted_wrt_iff_nth_less)
  moreover have "\<not> level_before s (ro_price y) (ro_price x)"
    if "x \<in> set q" "y \<in> set (concat (map snd ls))" for x y
    using that q later lv.asym by metis
  ultimately show ?case
    using Cons.IH [OF ls] by (auto simp: side_sorted_def sorted_wrt_append pq)
qed (simp add: side_sorted_def)

lemma side_orders_sorted: "book_struct b \<Longrightarrow> side_sorted s (side_orders s b)"
  unfolding side_orders_def by (intro levels_sorted book_struct_side)

text \<open>Behind the insertion point every price is strictly worse.\<close>

lemma side_sorted_dropWhile:
  assumes "side_sorted s os" and "y \<in> set (dropWhile (\<lambda>x. \<not> level_before s p (ro_price x)) os)"
  shows "level_before s p (ro_price y)"
  using assms
proof (induction os)
  case (Cons x os)
  show ?case
  proof (cases "level_before s p (ro_price x)")
    case True
    with Cons.prems have "y = x \<or> \<not> level_before s (ro_price y) (ro_price x)"
      by (auto simp: side_sorted_def)
    with True show ?thesis by (cases s) auto
  next
    case False
    with Cons show ?thesis by (auto simp: side_sorted_def)
  qed
qed simp

lemma frontLevel_None: "book_struct b \<Longrightarrow> frontLevel s b = None \<longleftrightarrow> side_orders s b = []"
  using book_struct_side [of b s]
  by (auto simp: frontLevel_def side_orders_def levels_struct_def split: list.splits prod.splits)

lemma frontLevel_Some:
  assumes "book_struct b" and "frontLevel s b = Some q"
  obtains x q' os where "q = x # q'" and "side_orders s b = x # q' @ os"
  using assms book_struct_side [OF assms(1), of s] that
  by (cases q) (auto simp: frontLevel_def side_orders_def levels_struct_def split: list.splits)

text \<open>The levels are the view cut at every change of price, so the views determine the book.\<close>

lemma levels_cut:
  assumes "levels_struct s ((p, q) # ls)"
  shows "p = ro_price (hd (q @ concat (map snd ls)))"
    and "q = takeWhile (\<lambda>x. ro_price x = p) (q @ concat (map snd ls))"
    and "concat (map snd ls) = dropWhile (\<lambda>x. ro_price x = p) (q @ concat (map snd ls))"
    and "levels_struct s ls"
proof -
  have q: "q \<noteq> []" "\<forall>x\<in>set q. ro_price x = p"
    using assms by (auto simp: levels_struct_def)
  then show "p = ro_price (hd (q @ concat (map snd ls)))" by simp
  have "\<forall>y\<in>set (concat (map snd ls)). ro_price y \<noteq> p"
    using levels_later [OF assms] lv.irrefl by metis
  note split = takeWhile_dropWhile_split [OF q(2) this]
  show "q = takeWhile (\<lambda>x. ro_price x = p) (q @ concat (map snd ls))" by (rule split(1) [symmetric])
  show "concat (map snd ls) = dropWhile (\<lambda>x. ro_price x = p) (q @ concat (map snd ls))"
    by (rule split(2) [symmetric])
  show "levels_struct s ls" using assms by (auto simp: levels_struct_def)
qed

lemma levels_determined:
  assumes "levels_struct s ls" and "levels_struct s ls'" and "concat (map snd ls) = concat (map snd ls')"
  shows "ls = ls'"
  using assms
proof (induction ls arbitrary: ls')
  case Nil
  then show ?case by (cases ls') (auto simp: levels_struct_def)
next
  case (Cons pq ls)
  obtain p q where pq: "pq = (p, q)" by fastforce
  note c = levels_cut [OF Cons.prems(1) [unfolded pq]]
  from Cons.prems pq obtain p' q' ms where ls': "ls' = (p', q') # ms"
    by (cases ls') (auto simp: levels_struct_def)
  note c' = levels_cut [OF Cons.prems(2) [unfolded ls']]
  have eq: "q @ concat (map snd ls) = q' @ concat (map snd ms)"
    using Cons.prems(3) by (simp add: pq ls')
  have p: "p = p'" using c(1) c'(1) by (simp only: eq)
  have "q = q'" using c(2) c'(2) by (simp only: eq p)
  moreover have "concat (map snd ls) = concat (map snd ms)"
    using c(3) c'(3) by (simp only: eq p)
  ultimately show ?case using Cons.IH [OF c(4) c'(4)] by (simp add: pq ls' p)
qed

lemma book_determined:
  assumes "book_struct b" and "book_struct b'" and "\<And>s. side_orders s b = side_orders s b'"
  shows "b = b'"
proof -
  have "side_levels s b = side_levels s b'" for s
    using assms levels_determined [OF book_struct_side [OF assms(1)] book_struct_side [OF assms(2)]]
    by (simp add: side_orders_def)
  from this [of Buy] this [of Sell] show ?thesis
    using assms by (cases b; cases b') (simp add: book_struct_def book_orders_def)
qed

lemma orderCount_orders: "book_struct b \<Longrightarrow> orderCount b = length (book_orders b)"
proof -
  assume b: "book_struct b"
  then have "dom (ob_index b) = ro_id ` set (book_orders b)"
    by (auto simp: dom_def book_struct_def index_of_None simp del: not_None_eq)
  with b show ?thesis
    using distinct_card [of "map ro_id (book_orders b)"] by (simp add: orderCount_def book_struct_def)
qed

lemma wf_empty_book: "wf_book empty_book"
  by (simp add: wf_book_def book_struct_def empty_book_def levels_struct_def book_orders_def side_orders_def)

lemma side_orders_empty [simp]: "side_orders s empty_book = []"
  by (cases s) (simp_all add: side_orders_def empty_book_def)

end
