(* ===== verification/Engine.thy ===== *)
theory Engine
  imports Order_Book
begin

text \<open>
  The deterministic matching core (\<open>engine.hpp\<close>, \<open>engine.cpp\<close>): one command in, a list of
  events out, with the order book, the counters and the last published top of book as state.

  A result of \<open>None\<close> means that an assertion of the order book failed or that the matching
  loop does not end; the lemmas show that neither happens from a well-formed state. The
  matching loop refines \<open>greedy\<close>, a list function on the opposite side's priority view, and
  the invariant \<open>wf_engine\<close> (which contains that the book is never crossed) is kept by every
  command.
\<close>

section \<open>State\<close>

record MatchingEngine =
  me_instrument :: InstrumentId
  me_book :: OrderBook
  me_commandSeq :: Sequence
  me_eventSeq :: Sequence
  me_arrivalCounter :: Sequence
  me_lastTop :: TopOfBook

record EngineSnapshot =
  sn_instrument :: InstrumentId
  sn_commandSeq :: Sequence
  sn_eventSeq :: Sequence
  sn_arrivalCounter :: Sequence
  sn_lastTop :: TopOfBook
  sn_orders :: "RestingOrder list"

definition new_engine :: "InstrumentId \<Rightarrow> MatchingEngine" where
  "new_engine i = \<lparr>me_instrument = i, me_book = empty_book, me_commandSeq = 0, me_eventSeq = 0,
     me_arrivalCounter = 0, me_lastTop = empty_top\<rparr>"

section \<open>Operations\<close>

definition crosses :: "Side \<Rightarrow> OrderType \<Rightarrow> Price \<Rightarrow> Price \<Rightarrow> bool" where
  "crosses incomingSide ty limit resting \<longleftrightarrow>
     (if ty = Market then True
      else if incomingSide = Buy then sint resting \<le> sint limit else sint resting \<ge> sint limit)"

definition nextHeader :: "MatchingEngine \<Rightarrow> EventHeader \<times> MatchingEngine" where
  "nextHeader e =
     (let e' = e\<lparr>me_eventSeq := me_eventSeq e + 1\<rparr>
      in (\<lparr>commandSeq = me_commandSeq e', eventSeq = me_eventSeq e'\<rparr>, e'))"

definition emitTopOfBookIfChanged :: "MatchingEngine \<Rightarrow> EventList \<Rightarrow> MatchingEngine \<times> EventList" where
  "emitTopOfBookIfChanged e out =
     (let now = book_top (me_book e) in
      if now = me_lastTop e then (e, out)
      else let (h, e') = nextHeader (e\<lparr>me_lastTop := now\<rparr>) in (e', out @ [TopOfBookChanged h now]))"

partial_function (option) match ::
  "NewOrder \<Rightarrow> Quantity \<Rightarrow> MatchingEngine \<Rightarrow> EventList \<Rightarrow> (Quantity \<times> MatchingEngine \<times> EventList) option"
where
  "match cmd quantity e out =
     (if quantity > 0 then
        (case frontLevel (opposite (no_side cmd)) (me_book e) of
           None \<Rightarrow> Some (quantity, e, out)
         | Some [] \<Rightarrow> Some (quantity, e, out)
         | Some (front # _) \<Rightarrow>
             if \<not> crosses (no_side cmd) (no_type cmd) (no_price cmd) (ro_price front)
             then Some (quantity, e, out)
             else
               let fill = min quantity (ro_quantity front);
                   (h, e1) = nextHeader e;
                   t = \<lparr>aggressorId = no_id cmd, restingId = ro_id front, aggressorSide = no_side cmd,
                        tr_price = ro_price front, tr_quantity = fill\<rparr>
               in Option.bind (reduce (ro_id front) fill (me_book e1))
                    (\<lambda>b. match cmd (quantity - fill) (e1\<lparr>me_book := b\<rparr>) (out @ [Trade h t])))
      else Some (quantity, e, out))"

declare match.simps [code]

text \<open>The validation cascade of \<open>applyNewOrder\<close>; the order of the tests is observable.\<close>

definition newOrderReason :: "NewOrder \<Rightarrow> MatchingEngine \<Rightarrow> RejectReason" where
  "newOrderReason cmd e =
     (if no_instrument cmd \<noteq> me_instrument e then WrongInstrument
      else if no_quantity cmd = 0 then ZeroQuantity
      else if no_type cmd = Limit \<and> sint (no_price cmd) \<le> 0 then NonPositivePrice
      else if no_type cmd = Market \<and> no_tif cmd \<noteq> ImmediateOrCancel then MarketOrderMustBeIoc
      else if contains (no_id cmd) (me_book e) then DuplicateOrderId
      else NoReason)"

text \<open>The block after the call of \<open>match\<close>: an unmatched residual rests or is cancelled.\<close>

definition settleResidual :: "NewOrder \<Rightarrow> Quantity \<Rightarrow> MatchingEngine \<Rightarrow> EventList \<Rightarrow>
    (MatchingEngine \<times> EventList) option" where
  "settleResidual cmd residual e out =
     (if residual > 0 then
        (if no_type cmd = Limit \<and> no_tif cmd = GoodTillCancel then do {
           let arrival = me_arrivalCounter e + 1;
           b \<leftarrow> rest \<lparr>ro_id = no_id cmd, ro_side = no_side cmd, ro_price = no_price cmd,
                       ro_quantity = residual, ro_arrival = arrival\<rparr> (me_book e);
           let (h, e') = nextHeader (e\<lparr>me_book := b, me_arrivalCounter := arrival\<rparr>);
           Some (e', out @ [OrderResting h \<lparr>or_id = no_id cmd, or_side = no_side cmd,
                              or_price = no_price cmd, or_quantity = residual\<rparr>])
         }
         else
           let (h, e') = nextHeader e
           in Some (e', out @ [OrderCancelled h \<lparr>oc_id = no_id cmd, oc_side = no_side cmd,
                oc_price = no_price cmd, oc_remaining = residual, oc_engineInitiated = True\<rparr>]))
      else Some (e, out))"

definition applyNewOrder :: "NewOrder \<Rightarrow> MatchingEngine \<Rightarrow> EventList \<Rightarrow> (MatchingEngine \<times> EventList) option" where
  "applyNewOrder cmd e out =
     (let reason = newOrderReason cmd e in
      if reason \<noteq> NoReason then
        let (h, e1) = nextHeader e in Some (e1, out @ [OrderRejected h (no_id cmd) reason])
      else
        let (h, e1) = nextHeader e;
            out1 = out @ [OrderAccepted h \<lparr>oa_id = no_id cmd, oa_side = no_side cmd, oa_type = no_type cmd,
                     oa_tif = no_tif cmd, oa_price = no_price cmd, oa_quantity = no_quantity cmd\<rparr>]
        in do {
          (residual, e2, out2) \<leftarrow> match cmd (no_quantity cmd) e1 out1;
          (e3, out3) \<leftarrow> settleResidual cmd residual e2 out2;
          Some (emitTopOfBookIfChanged e3 out3)
        })"

definition applyCancel :: "CancelOrder \<Rightarrow> MatchingEngine \<Rightarrow> EventList \<Rightarrow> (MatchingEngine \<times> EventList) option" where
  "applyCancel cmd e out = do {
     (removed, b) \<leftarrow> cancel (co_id cmd) (me_book e);
     (case removed of
        None \<Rightarrow>
          let (h, e1) = nextHeader (e\<lparr>me_book := b\<rparr>)
          in Some (e1, out @ [CancelRejected h (co_id cmd) UnknownOrderId])
      | Some r \<Rightarrow>
          let (h, e1) = nextHeader (e\<lparr>me_book := b\<rparr>)
          in Some (emitTopOfBookIfChanged e1
               (out @ [OrderCancelled h \<lparr>oc_id = ro_id r, oc_side = ro_side r, oc_price = ro_price r,
                  oc_remaining = ro_quantity r, oc_engineInitiated = False\<rparr>])))
   }"

definition engine_apply :: "Command \<Rightarrow> MatchingEngine \<Rightarrow> EventList \<Rightarrow> (MatchingEngine \<times> EventList) option" where
  "engine_apply cmd e out =
     (let e1 = e\<lparr>me_commandSeq := me_commandSeq e + 1\<rparr> in
      case cmd of New c \<Rightarrow> applyNewOrder c e1 out | Cancel c \<Rightarrow> applyCancel c e1 out)"

text \<open>Applying a whole command file, as the drivers do.\<close>

fun apply_all :: "Command list \<Rightarrow> MatchingEngine \<Rightarrow> EventList \<Rightarrow> (MatchingEngine \<times> EventList) option" where
  "apply_all [] e out = Some (e, out)"
| "apply_all (c # cs) e out = do { (e', out') \<leftarrow> engine_apply c e out; apply_all cs e' out' }"

definition snapshot :: "MatchingEngine \<Rightarrow> EngineSnapshot" where
  "snapshot e = \<lparr>sn_instrument = me_instrument e, sn_commandSeq = me_commandSeq e,
     sn_eventSeq = me_eventSeq e, sn_arrivalCounter = me_arrivalCounter e, sn_lastTop = me_lastTop e,
     sn_orders = concat (map snd (ob_bids (me_book e))) @ concat (map snd (ob_asks (me_book e)))\<rparr>"

text \<open>The second loop of \<open>restore\<close>: rest the orders one by one, stopping at a duplicate id.\<close>

fun restoreOrders :: "RestingOrder list \<Rightarrow> OrderBook \<Rightarrow> (bool \<times> OrderBook) option" where
  "restoreOrders [] b = Some (True, b)"
| "restoreOrders (x # xs) b =
     (if contains (ro_id x) b then Some (False, b)
      else Option.bind (rest x b) (restoreOrders xs))"

definition restore :: "EngineSnapshot \<Rightarrow> MatchingEngine \<Rightarrow> (bool \<times> MatchingEngine) option" where
  "restore snap e =
     (if sn_instrument snap \<noteq> me_instrument e then Some (False, e)
      else if \<exists>x\<in>set (sn_orders snap). ro_quantity x = 0 \<or> sint (ro_price x) \<le> 0 then Some (False, e)
      else do {
        (ok, b) \<leftarrow> restoreOrders (sn_orders snap) empty_book;
        Some (if ok then
                (True, e\<lparr>me_book := b, me_commandSeq := sn_commandSeq snap, me_eventSeq := sn_eventSeq snap,
                  me_arrivalCounter := sn_arrivalCounter snap, me_lastTop := sn_lastTop snap\<rparr>)
              else (False, e\<lparr>me_book := b\<rparr>))
      })"

section \<open>Greedy matching on a priority list\<close>

text \<open>
  The reference definition of matching: walk the opposite side from its best order, fill as
  much as both sides allow, stop when the incoming quantity is used up or the next price does
  not cross. The result is the unmatched quantity, the fills, and what is left of the side.
\<close>

fun greedy :: "(Price \<Rightarrow> bool) \<Rightarrow> Quantity \<Rightarrow> RestingOrder list \<Rightarrow>
    Quantity \<times> (RestingOrder \<times> Quantity) list \<times> RestingOrder list" where
  "greedy cross q [] = (q, [], [])"
| "greedy cross q (x # os) =
     (if q = 0 \<or> \<not> cross (ro_price x) then (q, [], x # os)
      else if q < ro_quantity x then (0, [(x, q)], x\<lparr>ro_quantity := ro_quantity x - q\<rparr> # os)
      else case greedy cross (q - ro_quantity x) os of (r, fs, os') \<Rightarrow> (r, (x, ro_quantity x) # fs, os'))"

text \<open>
  What a matching loop needs from the side it consumes: its best order is the front of the
  view, and filling the front by at most its quantity shortens it or removes it. The second
  locale adds a loop with the shape of \<open>MatchingEngine::match\<close>; every such loop ends and
  computes \<open>greedy\<close>.
\<close>

locale order_source =
  fixes orders :: "'b \<Rightarrow> RestingOrder list"
    and front :: "'b \<Rightarrow> RestingOrder option"
    and fill :: "RestingOrder \<Rightarrow> Quantity \<Rightarrow> 'b \<Rightarrow> 'b option"
    and mk :: "RestingOrder \<Rightarrow> Quantity \<Rightarrow> 'f"
    and fills :: "'b \<Rightarrow> 'f list"
    and invar :: "'b \<Rightarrow> bool"
  assumes front_orders: "invar b \<Longrightarrow> front b = (case orders b of [] \<Rightarrow> None | x # _ \<Rightarrow> Some x)"
    and fill_front: "invar b \<Longrightarrow> orders b = x # os \<Longrightarrow> 0 < n \<Longrightarrow> n \<le> ro_quantity x \<Longrightarrow>
      \<exists>b'. fill x n b = Some b' \<and> invar b' \<and> fills b' = fills b @ [mk x n] \<and>
        orders b' = (if n = ro_quantity x then os else x\<lparr>ro_quantity := ro_quantity x - n\<rparr> # os)"
    and orders_pos: "invar b \<Longrightarrow> x \<in> set (orders b) \<Longrightarrow> 0 < ro_quantity x"

locale matching_loop = order_source +
  fixes cross :: "Price \<Rightarrow> bool"
    and loop :: "Quantity \<Rightarrow> 'a \<Rightarrow> (Quantity \<times> 'a) option"
  assumes loop_unfold: "invar b \<Longrightarrow> loop q b =
    (if q > 0 then
       (case front b of None \<Rightarrow> Some (q, b)
        | Some x \<Rightarrow> if \<not> cross (ro_price x) then Some (q, b)
            else Option.bind (fill x (min q (ro_quantity x)) b) (loop (q - min q (ro_quantity x))))
     else Some (q, b))"
begin

theorem loop_greedy:
  assumes "invar b"
  shows "\<exists>b'. loop q b = Some (fst (greedy cross q (orders b)), b') \<and> invar b' \<and>
    orders b' = snd (snd (greedy cross q (orders b))) \<and>
    fills b' = fills b @ map (case_prod mk) (fst (snd (greedy cross q (orders b))))"
  using assms
proof (induction "orders b" arbitrary: b q)
  case Nil
  then have "loop q b = Some (q, b)" using loop_unfold [of b q] front_orders [of b] by simp
  with Nil show ?case by simp
next
  case (Cons x os)
  note os = Cons.hyps(2) [symmetric]
  have front: "front b = Some x" using front_orders [OF Cons.prems] os by simp
  have pos: "0 < ro_quantity x" using orders_pos [OF Cons.prems, of x] os by simp
  consider "q = 0 \<or> \<not> cross (ro_price x)" | "0 < q" "cross (ro_price x)" "q < ro_quantity x"
    | "0 < q" "cross (ro_price x)" "ro_quantity x \<le> q"
    by (metis not_less word_neq_0_conv)
  then show ?case
  proof cases
    case 1
    then have "loop q b = Some (q, b)" using loop_unfold [OF Cons.prems, of q] front by auto
    with 1 Cons.prems os show ?thesis by auto
  next
    case 2
    then have m: "min q (ro_quantity x) = q" by simp
    obtain b' where b': "fill x q b = Some b'" "invar b'" "fills b' = fills b @ [mk x q]"
      "orders b' = x\<lparr>ro_quantity := ro_quantity x - q\<rparr> # os"
      using fill_front [OF Cons.prems os 2(1) less_imp_le [OF 2(3)]] less_imp_neq [OF 2(3)] by auto
    have "loop q b = loop 0 b'" using loop_unfold [OF Cons.prems, of q] front 2 m b'(1) by simp
    also have "\<dots> = Some (0, b')" using loop_unfold [OF b'(2), of 0] by simp
    finally show ?thesis using 2 b' os by auto
  next
    case 3
    then have m: "min q (ro_quantity x) = ro_quantity x" by simp
    obtain b' where b': "fill x (ro_quantity x) b = Some b'" "invar b'"
      "fills b' = fills b @ [mk x (ro_quantity x)]" "orders b' = os"
      using fill_front [OF Cons.prems os pos] by auto
    have "loop q b = loop (q - ro_quantity x) b'"
      using loop_unfold [OF Cons.prems, of q] front 3 m b'(1) by simp
    moreover obtain b'' where "loop (q - ro_quantity x) b' = Some (fst (greedy cross (q - ro_quantity x) os), b'')"
      "invar b''" "orders b'' = snd (snd (greedy cross (q - ro_quantity x) os))"
      "fills b'' = fills b' @ map (case_prod mk) (fst (snd (greedy cross (q - ro_quantity x) os)))"
      using Cons.hyps(1) [of b' "q - ro_quantity x"] b'(2,4) by auto
    ultimately show ?thesis
      using 3 b' os by (auto split: prod.splits)
  qed
qed

end

section \<open>Event numbering\<close>

text \<open>The events a call appends carry its command number and consecutive event numbers.\<close>

fun numbered :: "Sequence \<Rightarrow> Sequence \<Rightarrow> EventList \<Rightarrow> bool" where
  "numbered c n [] \<longleftrightarrow> True"
| "numbered c n (ev # evs) \<longleftrightarrow> header ev = \<lparr>commandSeq = c, eventSeq = n + 1\<rparr> \<and> numbered c (n + 1) evs"

lemma numbered_append:
  "numbered c n (xs @ ys) \<longleftrightarrow> numbered c n xs \<and> numbered c (n + of_nat (length xs)) ys"
  by (induction xs arbitrary: n) (auto simp: algebra_simps)

definition emitted :: "MatchingEngine \<Rightarrow> EventList \<Rightarrow> MatchingEngine \<Rightarrow> EventList \<Rightarrow> bool" where
  "emitted e0 out0 e out \<longleftrightarrow> me_commandSeq e = me_commandSeq e0 \<and> me_instrument e = me_instrument e0 \<and>
     (\<exists>evs. out = out0 @ evs \<and> numbered (me_commandSeq e0) (me_eventSeq e0) evs \<and>
       me_eventSeq e = me_eventSeq e0 + of_nat (length evs))"

lemma nextHeader_simps [simp]:
  "fst (nextHeader e) = \<lparr>commandSeq = me_commandSeq e, eventSeq = me_eventSeq e + 1\<rparr>"
  "snd (nextHeader e) = e\<lparr>me_eventSeq := me_eventSeq e + 1\<rparr>"
  by (simp_all add: nextHeader_def)

lemma nextHeader_eq:
  "nextHeader e = (\<lparr>commandSeq = me_commandSeq e, eventSeq = me_eventSeq e + 1\<rparr>, e\<lparr>me_eventSeq := me_eventSeq e + 1\<rparr>)"
  by (simp add: nextHeader_def)

lemma emitted_refl [simp]: "emitted e out e out"
  by (simp add: emitted_def)

lemma emitted_step:
  assumes "emitted e0 out0 e out" and "header ev = \<lparr>commandSeq = me_commandSeq e, eventSeq = me_eventSeq e + 1\<rparr>"
    and "me_commandSeq e' = me_commandSeq e" and "me_instrument e' = me_instrument e"
    and "me_eventSeq e' = me_eventSeq e + 1"
  shows "emitted e0 out0 e' (out @ [ev])"
proof -
  obtain evs where "out = out0 @ evs" "numbered (me_commandSeq e0) (me_eventSeq e0) evs"
    "me_eventSeq e = me_eventSeq e0 + of_nat (length evs)"
    using assms(1) by (auto simp: emitted_def)
  moreover from this assms have "numbered (me_commandSeq e0) (me_eventSeq e0) (evs @ [ev])"
    by (simp add: numbered_append emitted_def)
  ultimately show ?thesis
    using assms by (auto simp: emitted_def algebra_simps)
qed

lemma emitted_trans:
  assumes "emitted e0 out0 e1 out1" and "emitted e1 out1 e2 out2"
  shows "emitted e0 out0 e2 out2"
  using assms by (auto simp: emitted_def numbered_append algebra_simps)

section \<open>The matching loop\<close>

definition match_front :: "NewOrder \<Rightarrow> MatchingEngine \<times> EventList \<Rightarrow> RestingOrder option" where
  "match_front cmd st =
     (case frontLevel (opposite (no_side cmd)) (me_book (fst st)) of Some (x # _) \<Rightarrow> Some x | _ \<Rightarrow> None)"

definition mk_trade :: "NewOrder \<Rightarrow> RestingOrder \<Rightarrow> Quantity \<Rightarrow> TradeData" where
  "mk_trade cmd x n = \<lparr>aggressorId = no_id cmd, restingId = ro_id x, aggressorSide = no_side cmd,
     tr_price = ro_price x, tr_quantity = n\<rparr>"

definition match_fill :: "NewOrder \<Rightarrow> RestingOrder \<Rightarrow> Quantity \<Rightarrow> MatchingEngine \<times> EventList \<Rightarrow>
    (MatchingEngine \<times> EventList) option" where
  "match_fill cmd x n st =
     (let (h, e1) = nextHeader (fst st) in
      map_option (\<lambda>b. (e1\<lparr>me_book := b\<rparr>, snd st @ [Trade h (mk_trade cmd x n)]))
        (reduce (ro_id x) n (me_book e1)))"

definition match_inv :: "NewOrder \<Rightarrow> MatchingEngine \<Rightarrow> EventList \<Rightarrow> MatchingEngine \<times> EventList \<Rightarrow> bool" where
  "match_inv cmd e0 out0 st \<longleftrightarrow>
     wf_book (me_book (fst st)) \<and> emitted e0 out0 (fst st) (snd st) \<and>
     side_orders (no_side cmd) (me_book (fst st)) = side_orders (no_side cmd) (me_book e0) \<and>
     me_arrivalCounter (fst st) = me_arrivalCounter e0 \<and> me_lastTop (fst st) = me_lastTop e0"

lemma spec_reduce_front:
  assumes "distinct (map ro_id (x # os))" and "\<forall>y\<in>set (x # os). 0 < ro_quantity y"
  shows "spec_reduce (ro_id x) n (x # os) =
    (if n = ro_quantity x then os else x\<lparr>ro_quantity := ro_quantity x - n\<rparr> # os)"
proof -
  have "ro_id x \<notin> ro_id ` set os" using assms(1) by simp
  moreover have "(ro_quantity x - n = 0) = (n = ro_quantity x)" by auto
  ultimately show ?thesis
    using spec_reduce_eq [OF assms(1) _ assms(2), of x n]
    by (simp add: spec_remove_def spec_update_def filter_absent_id map_absent_id)
qed

interpretation ml: matching_loop
  "\<lambda>st. side_orders (opposite (no_side cmd)) (me_book (fst st))" "match_front cmd" "match_fill cmd"
  "\<lambda>x n. Trade blank (mk_trade cmd x n)" "\<lambda>st. map body (snd st)" "match_inv cmd e0 out0"
  "crosses (no_side cmd) (no_type cmd) (no_price cmd)" "\<lambda>q st. match cmd q (fst st) (snd st)"
  for cmd e0 out0
proof (unfold_locales, goal_cases)
  case (1 st)
  then have b: "book_struct (me_book (fst st))" by (simp add: match_inv_def wf_book_def)
  show ?case
  proof (cases "frontLevel (opposite (no_side cmd)) (me_book (fst st))")
    case None
    then have "side_orders (opposite (no_side cmd)) (me_book (fst st)) = []"
      using frontLevel_None [OF b] by blast
    with None show ?thesis by (simp add: match_front_def)
  next
    case (Some q)
    obtain x q' os where "q = x # q'" "side_orders (opposite (no_side cmd)) (me_book (fst st)) = x # q' @ os"
      using b Some by (rule frontLevel_Some)
    with Some show ?thesis by (simp add: match_front_def)
  qed
next
  case (2 st x os n)
  let ?s = "opposite (no_side cmd)" and ?e = "fst st"
  have wf: "wf_book (me_book ?e)" using 2(1) by (simp add: match_inv_def)
  obtain b' where b': "reduce (ro_id x) n (me_book ?e) = Some b'" "wf_book b'"
    "side_orders ?s b' = spec_reduce (ro_id x) n (side_orders ?s (me_book ?e))"
    "side_orders (opposite ?s) b' = side_orders (opposite ?s) (me_book ?e)"
    using wf _ 2(4) by (rule reduce_refines [where s = ?s]) (simp add: 2(2))
  have "spec_reduce (ro_id x) n (x # os) = (if n = ro_quantity x then os else x\<lparr>ro_quantity := ro_quantity x - n\<rparr> # os)"
  proof (rule spec_reduce_front)
    show "distinct (map ro_id (x # os))"
      using wf book_struct_distinct_side [of "me_book ?e" ?s] by (simp add: wf_book_def 2(2))
    show "\<forall>y\<in>set (x # os). 0 < ro_quantity y"
      using wf 2(2) by (auto simp: wf_book_def set_book_orders [of _ ?s])
  qed
  with b' 2 show ?case
    by (auto simp: match_fill_def match_inv_def nextHeader_eq intro: emitted_step)
next
  case (3 st x)
  then show ?case
    by (auto simp: match_inv_def wf_book_def set_book_orders [of _ "opposite (no_side cmd)"])
next
  case (4 st q)
  show ?case
    by (subst match.simps)
      (auto simp: match_front_def match_fill_def mk_trade_def nextHeader_eq Let_def bind_map_option o_def
        split: option.splits list.splits)
qed

lemmas match_greedy = ml.loop_greedy [of cmd e0 out0 "(e, out)" for cmd e0 out0 e out, simplified]

section \<open>What greedy matching guarantees\<close>

definition total_quantity :: "RestingOrder list \<Rightarrow> nat" where
  "total_quantity os = sum_list (map (\<lambda>x. unat (ro_quantity x)) os)"

lemma unat_minus: "(n :: u64) \<le> m \<Longrightarrow> unat (m - n) = unat m - unat n"
  by (rule unat_sub)

text \<open>Nothing is created or lost: what the aggressor does not keep was filled, and what was
  filled is what the resting side lost.\<close>

lemma greedy_conservation:
  assumes "greedy cross q os = (r, fs, os')"
  shows "unat q = sum_list (map (unat \<circ> snd) fs) + unat r"
    and "total_quantity os = sum_list (map (unat \<circ> snd) fs) + total_quantity os'"
proof -
  have "unat q = sum_list (map (unat \<circ> snd) fs) + unat r \<and>
      total_quantity os = sum_list (map (unat \<circ> snd) fs) + total_quantity os'"
    using assms
  proof (induction cross q os arbitrary: r fs os' rule: greedy.induct)
    case (2 cross q x os)
    consider "q = 0 \<or> \<not> cross (ro_price x)" | "\<not> (q = 0 \<or> \<not> cross (ro_price x))" "q < ro_quantity x"
      | "\<not> (q = 0 \<or> \<not> cross (ro_price x))" "\<not> q < ro_quantity x" by blast
    then show ?case
    proof cases
      case 1
      with 2 show ?thesis by auto
    next
      case 2
      with "2.prems" show ?thesis
        by (auto simp: total_quantity_def unat_minus word_less_nat_alt order.strict_implies_order)
    next
      case 3
      obtain r' fs' os'' where g: "greedy cross (q - ro_quantity x) os = (r', fs', os'')"
        by (cases "greedy cross (q - ro_quantity x) os") auto
      with "2.prems" 3 have eq: "r = r'" "fs = (x, ro_quantity x) # fs'" "os' = os''" by auto
      have "unat (ro_quantity x) \<le> unat q" using 3(2) by (simp add: word_less_nat_alt)
      with "2.IH" [OF 3 g] eq 3(2) show ?thesis
        by (auto simp: total_quantity_def unat_minus not_less)
    qed
  qed auto
  then show "unat q = sum_list (map (unat \<circ> snd) fs) + unat r"
    and "total_quantity os = sum_list (map (unat \<circ> snd) fs) + total_quantity os'" by auto
qed

lemma greedy_fills:
  assumes "greedy cross q os = (r, fs, os')" and "\<forall>x\<in>set os. 0 < ro_quantity x"
  shows "\<forall>(x, n)\<in>set fs. x \<in> set os \<and> cross (ro_price x) \<and> 0 < n \<and> n \<le> ro_quantity x"
  using assms
  by (induction cross q os arbitrary: r fs os' rule: greedy.induct)
    (fastforce split: if_splits prod.splits simp: word_neq_0_conv)+

text \<open>Price-time priority: the filled orders are a prefix of the priority list, all but the
  last of them filled completely, and the rest of the list is untouched.\<close>

lemma greedy_priority:
  assumes "greedy cross q os = (r, fs, os')"
  shows "(\<exists>ys. os = map fst fs @ ys \<and> os' = ys \<and> (\<forall>(x, n)\<in>set fs. n = ro_quantity x)) \<or>
    (\<exists>gs x n ys. fs = gs @ [(x, n)] \<and> os = map fst gs @ x # ys \<and> r = 0 \<and> n < ro_quantity x \<and>
       os' = x\<lparr>ro_quantity := ro_quantity x - n\<rparr> # ys \<and> (\<forall>(y, m)\<in>set gs. m = ro_quantity y))"
  using assms
proof (induction cross q os arbitrary: r fs os' rule: greedy.induct)
  case (2 cross q x os)
  consider "q = 0 \<or> \<not> cross (ro_price x)" | "\<not> (q = 0 \<or> \<not> cross (ro_price x))" "q < ro_quantity x"
    | "\<not> (q = 0 \<or> \<not> cross (ro_price x))" "\<not> q < ro_quantity x" by blast
  then show ?case
  proof cases
    case 3
    obtain r' fs' os'' where g: "greedy cross (q - ro_quantity x) os = (r', fs', os'')"
      by (cases "greedy cross (q - ro_quantity x) os") auto
    with "2.prems" 3 have "r = r'" "fs = (x, ro_quantity x) # fs'" "os' = os''" by auto
    with "2.IH" [OF 3 g] show ?thesis
      by (elim disjE exE conjE) (auto intro!: exI [of _ "(x, ro_quantity x) # _"])
  qed (use "2.prems" in auto)
qed auto

lemma greedy_prefix:
  assumes "greedy cross q os = (r, fs, os')"
  shows "\<exists>ys. os = map fst fs @ ys \<and> butlast (map snd fs) = butlast (map (ro_quantity \<circ> fst) fs)"
proof -
  have full: "butlast (map snd (gs @ hs)) = butlast (map (ro_quantity \<circ> fst) (gs @ hs))"
    if "\<forall>(x, n)\<in>set gs. n = ro_quantity x" and "length hs \<le> 1" for gs hs :: "(RestingOrder \<times> Quantity) list"
  proof -
    have "map snd gs = map (ro_quantity \<circ> fst) gs" using that(1) by auto
    with that(2) show ?thesis by (cases hs) (simp_all only: map_append, simp_all add: butlast_append)
  qed
  from greedy_priority [OF assms] show ?thesis
  proof (elim disjE exE conjE)
    fix ys assume "os = map fst fs @ ys" "\<forall>(x, n)\<in>set fs. n = ro_quantity x"
    with full [of fs "[]"] show ?thesis by auto
  next
    fix gs x n ys assume "fs = gs @ [(x, n)]" "os = map fst gs @ x # ys" "\<forall>(y, m)\<in>set gs. m = ro_quantity y"
    with full [of gs "[(x, n)]"] show ?thesis by auto
  qed
qed

text \<open>Matching stops only when the incoming quantity is gone or the best price left does not cross.\<close>

lemma greedy_stop:
  "greedy cross q os = (r, fs, os') \<Longrightarrow> r = 0 \<or> os' = [] \<or> \<not> cross (ro_price (hd os'))"
  by (induction cross q os arbitrary: r fs os' rule: greedy.induct) (auto split: if_splits prod.splits)

text \<open>What is left of a side are orders that were there before, possibly smaller.\<close>

lemma greedy_left:
  assumes "greedy cross q os = (r, fs, os')" and "y \<in> set os'"
  obtains x where "x \<in> set os" and "y = x\<lparr>ro_quantity := ro_quantity y\<rparr>"
proof -
  from greedy_priority [OF assms(1)] assms(2)
  have "\<exists>x\<in>set os. y = x\<lparr>ro_quantity := ro_quantity y\<rparr>"
  proof (elim disjE exE conjE)
    fix ys assume "os = map fst fs @ ys" "os' = ys"
    with assms(2) show ?thesis by (intro bexI [of _ y]) auto
  next
    fix gs x n ys assume "os = map fst gs @ x # ys" "os' = x\<lparr>ro_quantity := ro_quantity x - n\<rparr> # ys"
    with assms(2) show ?thesis by (auto intro: bexI [of _ y])
  qed
  with that show thesis by blast
qed

section \<open>Every command on a well-formed engine\<close>

lemma match_spec:
  assumes "wf_book (me_book e)"
    and "greedy (crosses (no_side cmd) (no_type cmd) (no_price cmd)) q
      (side_orders (opposite (no_side cmd)) (me_book e)) = (r, fs, os')"
  obtains e' out' where "match cmd q e out = Some (r, e', out')" and "wf_book (me_book e')"
    and "emitted e out e' out'" and "map body out' = map body out @ map (\<lambda>(x, n). Trade blank (mk_trade cmd x n)) fs"
    and "side_orders (opposite (no_side cmd)) (me_book e') = os'"
    and "side_orders (no_side cmd) (me_book e') = side_orders (no_side cmd) (me_book e)"
    and "me_arrivalCounter e' = me_arrivalCounter e" and "me_lastTop e' = me_lastTop e"
proof -
  have "match_inv cmd e out (e, out)" using assms(1) by (simp add: match_inv_def)
  from match_greedy [OF this, of q] assms(2) that show thesis
    by (auto simp: match_inv_def)
qed

definition spec_top_events :: "TopOfBook \<Rightarrow> TopOfBook \<Rightarrow> EventList" where
  "spec_top_events old now = (if now = old then [] else [TopOfBookChanged blank now])"

lemma emitTop_spec:
  assumes "emitTopOfBookIfChanged e out = (e', out')"
  shows "me_book e' = me_book e" and "me_lastTop e' = book_top (me_book e)"
    and "me_arrivalCounter e' = me_arrivalCounter e"
    and "map body out' = map body out @ spec_top_events (me_lastTop e) (book_top (me_book e))"
    and "emitted e0 out0 e out \<Longrightarrow> emitted e0 out0 e' out'"
    and "out' = out @ (if book_top (me_book e) = me_lastTop e then [] else
           [TopOfBookChanged \<lparr>commandSeq = me_commandSeq e, eventSeq = me_eventSeq e + 1\<rparr> (book_top (me_book e))])"
  using assms
  by (auto simp: emitTopOfBookIfChanged_def spec_top_events_def nextHeader_eq Let_def split: if_splits intro: emitted_step)

text \<open>The order that rests when an accepted limit order is not filled completely.\<close>

definition residual_order :: "NewOrder \<Rightarrow> Quantity \<Rightarrow> Sequence \<Rightarrow> RestingOrder" where
  "residual_order cmd r arrival = \<lparr>ro_id = no_id cmd, ro_side = no_side cmd, ro_price = no_price cmd,
     ro_quantity = r, ro_arrival = arrival\<rparr>"

definition can_rest :: "NewOrder \<Rightarrow> bool" where
  "can_rest cmd \<longleftrightarrow> no_type cmd = Limit \<and> no_tif cmd = GoodTillCancel"

text \<open>
  The effect of an accepted order on the abstract views: the opposite side is what greedy
  matching leaves, the own side gains the residual if the order may rest.
\<close>

definition spec_own_side :: "NewOrder \<Rightarrow> Quantity \<Rightarrow> Sequence \<Rightarrow> RestingOrder list \<Rightarrow> RestingOrder list" where
  "spec_own_side cmd r arrival os =
     (if 0 < r \<and> can_rest cmd then spec_rest (residual_order cmd r arrival) os else os)"

text \<open>The events of an accepted order, without their numbers: the acceptance, one trade per
  fill, and the fate of the residual.\<close>

definition spec_residual_events :: "NewOrder \<Rightarrow> Quantity \<Rightarrow> EventList" where
  "spec_residual_events cmd r =
     (if r = 0 then []
      else if can_rest cmd then
        [OrderResting blank \<lparr>or_id = no_id cmd, or_side = no_side cmd, or_price = no_price cmd, or_quantity = r\<rparr>]
      else
        [OrderCancelled blank \<lparr>oc_id = no_id cmd, oc_side = no_side cmd, oc_price = no_price cmd,
           oc_remaining = r, oc_engineInitiated = True\<rparr>])"

definition spec_accept_events :: "NewOrder \<Rightarrow> Quantity \<Rightarrow> (RestingOrder \<times> Quantity) list \<Rightarrow> EventList" where
  "spec_accept_events cmd r fs =
     OrderAccepted blank \<lparr>oa_id = no_id cmd, oa_side = no_side cmd, oa_type = no_type cmd,
       oa_tif = no_tif cmd, oa_price = no_price cmd, oa_quantity = no_quantity cmd\<rparr>
     # map (\<lambda>(x, n). Trade blank (mk_trade cmd x n)) fs @ spec_residual_events cmd r"

lemma settleResidual_spec:
  assumes wf: "wf_book (me_book e)" and new: "\<not> contains (no_id cmd) (me_book e)"
  obtains e' out' where "settleResidual cmd r e out = Some (e', out')" and "wf_book (me_book e')"
    and "emitted e out e' out'" and "map body out' = map body out @ spec_residual_events cmd r"
    and "side_orders (opposite (no_side cmd)) (me_book e') = side_orders (opposite (no_side cmd)) (me_book e)"
    and "side_orders (no_side cmd) (me_book e') =
      spec_own_side cmd r (me_arrivalCounter e + 1) (side_orders (no_side cmd) (me_book e))"
    and "me_arrivalCounter e' = me_arrivalCounter e + (if 0 < r \<and> can_rest cmd then 1 else 0)"
    and "me_lastTop e' = me_lastTop e"
proof (cases "0 < r \<and> can_rest cmd")
  case False
  show thesis
  proof (cases "0 < r")
    case True
    define ev where "ev = OrderCancelled \<lparr>commandSeq = me_commandSeq e, eventSeq = me_eventSeq e + 1\<rparr>
      \<lparr>oc_id = no_id cmd, oc_side = no_side cmd, oc_price = no_price cmd, oc_remaining = r,
       oc_engineInitiated = True\<rparr>"
    have "settleResidual cmd r e out = Some (e\<lparr>me_eventSeq := me_eventSeq e + 1\<rparr>, out @ [ev])"
      using True False by (auto simp: settleResidual_def nextHeader_eq can_rest_def ev_def)
    moreover have "emitted e out (e\<lparr>me_eventSeq := me_eventSeq e + 1\<rparr>) (out @ [ev])"
      by (rule emitted_step [OF emitted_refl]) (simp_all add: ev_def)
    ultimately show ?thesis
      using wf True \<open>\<not> (0 < r \<and> can_rest cmd)\<close>
      by (intro that [of "e\<lparr>me_eventSeq := me_eventSeq e + 1\<rparr>" "out @ [ev]"])
        (auto simp: spec_own_side_def spec_residual_events_def ev_def)
  next
    case False
    with wf show ?thesis by (intro that [of e out]) (auto simp: settleResidual_def spec_own_side_def spec_residual_events_def word_gt_0)
  qed
next
  case True
  let ?o = "residual_order cmd r (me_arrivalCounter e + 1)" and ?s = "no_side cmd"
  have b: "book_struct (me_book e)" using wf by (simp add: wf_book_def)
  obtain b' where b': "rest ?o (me_book e) = Some b'" "book_struct b'"
    "side_orders (ro_side ?o) b' = spec_rest ?o (side_orders (ro_side ?o) (me_book e))"
    "side_orders (opposite (ro_side ?o)) b' = side_orders (opposite (ro_side ?o)) (me_book e)"
    using b by (rule rest_refines [of _ ?o]) (use True new in \<open>simp_all add: residual_order_def\<close>)
  have "wf_book b'"
    using wf b' True by (auto simp: wf_book_def set_book_orders [of _ ?s] set_spec_rest residual_order_def)
  define ev where "ev = OrderResting \<lparr>commandSeq = me_commandSeq e, eventSeq = me_eventSeq e + 1\<rparr>
    \<lparr>or_id = no_id cmd, or_side = no_side cmd, or_price = no_price cmd, or_quantity = r\<rparr>"
  define e' where "e' = e\<lparr>me_book := b', me_arrivalCounter := me_arrivalCounter e + 1,
    me_eventSeq := me_eventSeq e + 1\<rparr>"
  have "settleResidual cmd r e out = Some (e', out @ [ev])"
    using True b'(1) by (simp add: settleResidual_def nextHeader_eq can_rest_def residual_order_def ev_def e'_def)
  moreover have "emitted e out e' (out @ [ev])"
    by (rule emitted_step [OF emitted_refl]) (simp_all add: ev_def e'_def)
  ultimately show thesis
    using True b' \<open>wf_book b'\<close> by (intro that [of e' "out @ [ev]"]) (auto simp: spec_own_side_def spec_residual_events_def ev_def e'_def residual_order_def)
qed

lemma greedy_ids:
  "greedy cross q os = (r, fs, os') \<Longrightarrow> ro_id ` set os' \<subseteq> ro_id ` set os"
  by (auto elim!: greedy_left) (metis RestingOrder.simps(1) imageI RestingOrder.select_convs(1) RestingOrder.surjective RestingOrder.update_convs(4))

lemma applyNewOrder_accept:
  assumes wf: "wf_book (me_book e)" and ok: "newOrderReason cmd e = NoReason"
    and g: "greedy (crosses (no_side cmd) (no_type cmd) (no_price cmd)) (no_quantity cmd)
      (side_orders (opposite (no_side cmd)) (me_book e)) = (r, fs, os')"
  obtains e' out' where "applyNewOrder cmd e out = Some (e', out')" and "wf_book (me_book e')"
    and "emitted e out e' out'" and "map body out' = map body out @ spec_accept_events cmd r fs @
      spec_top_events (me_lastTop e) (book_top (me_book e'))"
    and "side_orders (opposite (no_side cmd)) (me_book e') = os'"
    and "side_orders (no_side cmd) (me_book e') =
      spec_own_side cmd r (me_arrivalCounter e + 1) (side_orders (no_side cmd) (me_book e))"
    and "me_arrivalCounter e' = me_arrivalCounter e + (if 0 < r \<and> can_rest cmd then 1 else 0)"
    and "me_lastTop e' = book_top (me_book e')"
proof -
  define e1 where "e1 = e\<lparr>me_eventSeq := me_eventSeq e + 1\<rparr>"
  define out1 where "out1 = out @ [OrderAccepted \<lparr>commandSeq = me_commandSeq e, eventSeq = me_eventSeq e + 1\<rparr>
    \<lparr>oa_id = no_id cmd, oa_side = no_side cmd, oa_type = no_type cmd, oa_tif = no_tif cmd,
     oa_price = no_price cmd, oa_quantity = no_quantity cmd\<rparr>]"
  have wf1: "wf_book (me_book e1)" and em1: "emitted e out e1 out1" and t1: "map body out1 @ map (\<lambda>(x, n). Trade blank (mk_trade cmd x n)) fs @ spec_residual_events cmd r =
      map body out @ spec_accept_events cmd r fs"
    using wf by (auto simp: e1_def out1_def spec_accept_events_def intro: emitted_step [OF emitted_refl])
  have g1: "greedy (crosses (no_side cmd) (no_type cmd) (no_price cmd)) (no_quantity cmd)
      (side_orders (opposite (no_side cmd)) (me_book e1)) = (r, fs, os')"
    using g by (simp add: e1_def)
  obtain e2 out2 where m: "match cmd (no_quantity cmd) e1 out1 = Some (r, e2, out2)" "wf_book (me_book e2)"
    "emitted e1 out1 e2 out2" "map body out2 = map body out1 @ map (\<lambda>(x, n). Trade blank (mk_trade cmd x n)) fs"
    "side_orders (opposite (no_side cmd)) (me_book e2) = os'"
    "side_orders (no_side cmd) (me_book e2) = side_orders (no_side cmd) (me_book e1)"
    "me_arrivalCounter e2 = me_arrivalCounter e1" "me_lastTop e2 = me_lastTop e1"
    using wf1 g1 by (rule match_spec)
  have "\<not> contains (no_id cmd) (me_book e)"
    using ok by (auto simp: newOrderReason_def split: if_splits)
  then have new: "\<not> contains (no_id cmd) (me_book e2)"
    using wf m(2,5,6) greedy_ids [OF g]
    by (auto simp: wf_book_def contains_iff set_book_orders [of _ "no_side cmd"] e1_def)
  obtain e3 out3 where p: "settleResidual cmd r e2 out2 = Some (e3, out3)" "wf_book (me_book e3)"
    "emitted e2 out2 e3 out3" "map body out3 = map body out2 @ spec_residual_events cmd r"
    "side_orders (opposite (no_side cmd)) (me_book e3) = side_orders (opposite (no_side cmd)) (me_book e2)"
    "side_orders (no_side cmd) (me_book e3) =
      spec_own_side cmd r (me_arrivalCounter e2 + 1) (side_orders (no_side cmd) (me_book e2))"
    "me_arrivalCounter e3 = me_arrivalCounter e2 + (if 0 < r \<and> can_rest cmd then 1 else 0)"
    "me_lastTop e3 = me_lastTop e2"
    using m(2) new by (rule settleResidual_spec)
  obtain e' out' where e': "emitTopOfBookIfChanged e3 out3 = (e', out')" by fastforce
  have "applyNewOrder cmd e out = Some (e', out')"
    using ok m(1) p(1) e' by (simp add: applyNewOrder_def nextHeader_eq e1_def out1_def)
  with m p t1 emitTop_spec [OF e'] emitted_trans [OF em1 emitted_trans [OF m(3) p(3)]] show thesis
    by (intro that [of e' out']) (simp_all add: e1_def)
qed

section \<open>The engine invariant\<close>

definition uncrossed :: "OrderBook \<Rightarrow> bool" where
  "uncrossed b \<longleftrightarrow>
     (\<forall>x\<in>set (side_orders Buy b). \<forall>y\<in>set (side_orders Sell b). sint (ro_price x) < sint (ro_price y))"

definition wf_engine :: "MatchingEngine \<Rightarrow> bool" where
  "wf_engine e \<longleftrightarrow> wf_book (me_book e) \<and> uncrossed (me_book e) \<and> me_lastTop e = book_top (me_book e) \<and>
     (\<forall>x\<in>set (book_orders (me_book e)). 0 < sint (ro_price x))"

text \<open>An own price that does not reach the opposite price, for either side.\<close>

definition apart :: "Side \<Rightarrow> Price \<Rightarrow> Price \<Rightarrow> bool" where
  "apart s own opp \<longleftrightarrow> (if s = Buy then sint own < sint opp else sint opp < sint own)"

lemma uncrossed_apart:
  "uncrossed b \<longleftrightarrow> (\<forall>x\<in>set (side_orders s b). \<forall>y\<in>set (side_orders (opposite s) b). apart s (ro_price x) (ro_price y))"
  by (cases s) (auto simp: uncrossed_def apart_def)

lemma not_crosses_apart: "\<not> crosses s ty limit p \<Longrightarrow> apart s limit p"
  by (cases s) (auto simp: crosses_def apart_def split: if_splits)

lemma sorted_apart:
  assumes "side_sorted (opposite s) os" and "os = [] \<or> apart s limit (ro_price (hd os))" and "y \<in> set os"
  shows "apart s limit (ro_price y)"
  using assms by (cases os; cases s) (auto simp: side_sorted_def apart_def)

lemma greedy_prices:
  assumes "greedy cross q os = (r, fs, os')" and "y \<in> set os'"
  obtains x where "x \<in> set os" and "ro_price x = ro_price y"
proof (rule greedy_left [OF assms])
  fix x assume "x \<in> set os" "y = x\<lparr>ro_quantity := ro_quantity y\<rparr>"
  moreover from this(2) have "ro_price x = ro_price y"
    by (metis RestingOrder.ext_inject RestingOrder.surjective RestingOrder.update_convs(4))
  ultimately show thesis using that by blast
qed

lemma spec_own_side_mem:
  "x \<in> set (spec_own_side cmd r a os) \<longleftrightarrow>
     x \<in> set os \<or> 0 < r \<and> can_rest cmd \<and> x = residual_order cmd r a"
  by (auto simp: spec_own_side_def set_spec_rest)

lemma accept_uncrossed:
  assumes b: "book_struct b'" and un: "uncrossed b"
    and g: "greedy (crosses (no_side cmd) (no_type cmd) (no_price cmd)) q (side_orders (opposite (no_side cmd)) b)
      = (r, fs, side_orders (opposite (no_side cmd)) b')"
    and own: "side_orders (no_side cmd) b' = spec_own_side cmd r a (side_orders (no_side cmd) b)"
  shows "uncrossed b'"
  unfolding uncrossed_apart [of _ "no_side cmd"]
proof (intro ballI)
  fix x y assume x: "x \<in> set (side_orders (no_side cmd) b')" and y: "y \<in> set (side_orders (opposite (no_side cmd)) b')"
  from x own consider "x \<in> set (side_orders (no_side cmd) b)" | "0 < r" "x = residual_order cmd r a"
    by (auto simp: spec_own_side_mem)
  then show "apart (no_side cmd) (ro_price x) (ro_price y)"
  proof cases
    case 1
    with greedy_prices [OF g y] un show ?thesis by (metis uncrossed_apart)
  next
    case 2
    have "side_orders (opposite (no_side cmd)) b' = [] \<or>
        apart (no_side cmd) (no_price cmd) (ro_price (hd (side_orders (opposite (no_side cmd)) b')))"
      using greedy_stop [OF g] 2(1) not_crosses_apart by auto
    with side_orders_sorted [OF b] y 2(2) show ?thesis
      by (auto intro: sorted_apart simp: residual_order_def)
  qed
qed

lemma newOrderReason_ok:
  assumes "newOrderReason cmd e = NoReason"
  shows "no_instrument cmd = me_instrument e" and "0 < no_quantity cmd"
    and "no_type cmd = Limit \<Longrightarrow> 0 < sint (no_price cmd)"
    and "no_type cmd = Market \<Longrightarrow> no_tif cmd = ImmediateOrCancel"
    and "\<not> contains (no_id cmd) (me_book e)"
  using assms by (auto simp: newOrderReason_def word_neq_0_conv split: if_splits)

lemma accept_wf:
  assumes wf: "wf_engine e" and ok: "newOrderReason cmd e = NoReason"
    and app: "applyNewOrder cmd e out = Some (e', out')"
  shows "wf_engine e'"
proof -
  let ?s = "no_side cmd"
  obtain r fs os' where g: "greedy (crosses ?s (no_type cmd) (no_price cmd)) (no_quantity cmd)
      (side_orders (opposite ?s) (me_book e)) = (r, fs, os')"
    using prod_cases3 by blast
  have wfb: "wf_book (me_book e)" using wf by (simp add: wf_engine_def)
  have acc: "wf_book (me_book e')" "me_lastTop e' = book_top (me_book e')"
    "side_orders (opposite ?s) (me_book e') = os'"
    "side_orders ?s (me_book e') = spec_own_side cmd r (me_arrivalCounter e + 1) (side_orders ?s (me_book e))"
    by (rule applyNewOrder_accept [OF wfb ok g, of out], simp add: app)+
  have "uncrossed (me_book e')"
    using acc wf by (intro accept_uncrossed [OF _ _ g [folded acc(3)]]) (auto simp: wf_engine_def wf_book_def)
  moreover have "0 < sint (ro_price x)" if "x \<in> set (book_orders (me_book e'))" for x
  proof -
    have pos: "0 < sint (ro_price y)" if "y \<in> set (side_orders t (me_book e))" for y t
      using wf that by (auto simp: wf_engine_def set_book_orders [of _ t])
    from that acc consider "x \<in> set os'" | "x \<in> set (side_orders ?s (me_book e))"
      | "can_rest cmd" "x = residual_order cmd r (me_arrivalCounter e + 1)"
      by (auto simp: set_book_orders [of _ ?s] spec_own_side_mem)
    then show ?thesis
      using pos greedy_prices [OF g, of x] newOrderReason_ok(3) [OF ok]
      by cases (metis, auto simp: can_rest_def residual_order_def)
  qed
  ultimately show ?thesis using acc by (simp add: wf_engine_def)
qed

lemma reject_spec:
  assumes "newOrderReason cmd e \<noteq> NoReason"
  shows "applyNewOrder cmd e out = Some (e\<lparr>me_eventSeq := me_eventSeq e + 1\<rparr>,
    out @ [OrderRejected \<lparr>commandSeq = me_commandSeq e, eventSeq = me_eventSeq e + 1\<rparr> (no_id cmd) (newOrderReason cmd e)])"
  using assms by (simp add: applyNewOrder_def nextHeader_eq)

lemma applyCancel_live:
  assumes wf: "wf_engine e" and x: "x \<in> set (side_orders s (me_book e))"
  obtains e' where "applyCancel \<lparr>co_id = ro_id x\<rparr> e out = Some (emitTopOfBookIfChanged e'
      (out @ [OrderCancelled \<lparr>commandSeq = me_commandSeq e, eventSeq = me_eventSeq e + 1\<rparr>
        \<lparr>oc_id = ro_id x, oc_side = s, oc_price = ro_price x, oc_remaining = ro_quantity x, oc_engineInitiated = False\<rparr>]))"
    and "wf_book (me_book e')" and "emitted e out e' (out @ [OrderCancelled \<lparr>commandSeq = me_commandSeq e, eventSeq = me_eventSeq e + 1\<rparr>
        \<lparr>oc_id = ro_id x, oc_side = s, oc_price = ro_price x, oc_remaining = ro_quantity x, oc_engineInitiated = False\<rparr>])"
    and "side_orders s (me_book e') = spec_remove (ro_id x) (side_orders s (me_book e))"
    and "side_orders (opposite s) (me_book e') = side_orders (opposite s) (me_book e)"
    and "me_arrivalCounter e' = me_arrivalCounter e" and "me_lastTop e' = me_lastTop e"
proof -
  have b: "book_struct (me_book e)" using wf by (simp add: wf_engine_def wf_book_def)
  obtain b' where b': "cancel (ro_id x) (me_book e) = Some (Some x, b')" "book_struct b'"
    "side_orders s b' = spec_remove (ro_id x) (side_orders s (me_book e))"
    "side_orders (opposite s) b' = side_orders (opposite s) (me_book e)"
    using b x by (rule cancel_refines)
  have sd: "ro_side x = s" using b x by (rule book_struct_ro_side)
  define e' where "e' = e\<lparr>me_book := b', me_eventSeq := me_eventSeq e + 1\<rparr>"
  have "wf_book b'"
    using wf b' by (auto simp: wf_engine_def wf_book_def set_book_orders [of _ s] spec_remove_def)
  then show thesis
    using b' sd
    by (intro that [of e'] emitted_step [OF emitted_refl])
      (simp_all add: applyCancel_def nextHeader_eq e'_def)
qed

lemma applyCancel_absent:
  assumes "wf_engine e" and "\<not> contains (co_id c) (me_book e)"
  shows "applyCancel c e out = Some (e\<lparr>me_eventSeq := me_eventSeq e + 1\<rparr>,
    out @ [CancelRejected \<lparr>commandSeq = me_commandSeq e, eventSeq = me_eventSeq e + 1\<rparr> (co_id c) UnknownOrderId])"
proof -
  have "book_struct (me_book e)" using assms by (simp add: wf_engine_def wf_book_def)
  with assms(2) have "cancel (co_id c) (me_book e) = Some (None, me_book e)"
    by (intro cancel_absent) (simp_all add: contains_iff)
  then show ?thesis by (simp add: applyCancel_def nextHeader_eq)
qed

lemma cancel_wf:
  assumes wf: "wf_engine e" and x: "x \<in> set (side_orders s (me_book e))"
    and app: "applyCancel \<lparr>co_id = ro_id x\<rparr> e out = Some (e', out')"
  shows "wf_engine e'" and "emitted e out e' out'"
    and "side_orders s (me_book e') = spec_remove (ro_id x) (side_orders s (me_book e))"
    and "side_orders (opposite s) (me_book e') = side_orders (opposite s) (me_book e)"
    and "me_arrivalCounter e' = me_arrivalCounter e"
proof -
  obtain e1 out1 where c: "applyCancel \<lparr>co_id = ro_id x\<rparr> e out = Some (emitTopOfBookIfChanged e1 out1)"
    "wf_book (me_book e1)" "emitted e out e1 out1"
    "side_orders s (me_book e1) = spec_remove (ro_id x) (side_orders s (me_book e))"
    "side_orders (opposite s) (me_book e1) = side_orders (opposite s) (me_book e)"
    "me_arrivalCounter e1 = me_arrivalCounter e"
    using wf x by (rule applyCancel_live)
  from c(1) app have "emitTopOfBookIfChanged e1 out1 = (e', out')" by simp
  note t = emitTop_spec [OF this]
  show "emitted e out e' out'" by (rule t(5) [OF c(3)])
  show views: "side_orders s (me_book e') = spec_remove (ro_id x) (side_orders s (me_book e))"
    "side_orders (opposite s) (me_book e') = side_orders (opposite s) (me_book e)"
    and "me_arrivalCounter e' = me_arrivalCounter e"
    using c t by simp_all
  show "wf_engine e'"
    using wf views c(2) t(1,2)
    by (auto simp: wf_engine_def uncrossed_apart [of _ s] set_book_orders [of _ s] spec_remove_def)
qed

lemma wf_engine_counters [simp]:
  "wf_engine (e\<lparr>me_commandSeq := c\<rparr>) = wf_engine e" "wf_engine (e\<lparr>me_eventSeq := n\<rparr>) = wf_engine e"
  by (simp_all add: wf_engine_def)

lemma applyNewOrder_total:
  assumes wf: "wf_engine e"
  obtains e' out' where "applyNewOrder cmd e out = Some (e', out')" and "wf_engine e'" and "emitted e out e' out'"
proof (cases "newOrderReason cmd e = NoReason")
  case True
  obtain r fs os' where g: "greedy (crosses (no_side cmd) (no_type cmd) (no_price cmd)) (no_quantity cmd)
      (side_orders (opposite (no_side cmd)) (me_book e)) = (r, fs, os')"
    using prod_cases3 by blast
  have "wf_book (me_book e)" using wf by (simp add: wf_engine_def)
  from applyNewOrder_accept [OF this True g, of out] accept_wf [OF wf True] that
  show thesis by metis
next
  case False
  show thesis
    by (rule that [OF reject_spec [OF False]]) (use wf in \<open>auto intro: emitted_step [OF emitted_refl]\<close>)
qed

lemma applyCancel_total:
  assumes wf: "wf_engine e"
  obtains e' out' where "applyCancel c e out = Some (e', out')" and "wf_engine e'" and "emitted e out e' out'"
proof (cases "contains (co_id c) (me_book e)")
  case True
  have "book_struct (me_book e)" using wf by (simp add: wf_engine_def wf_book_def)
  with True obtain x s where x: "x \<in> set (side_orders s (me_book e))" "ro_id x = co_id c"
    by (auto simp: contains_iff book_orders_def)
  then have c: "c = \<lparr>co_id = ro_id x\<rparr>" by simp
  obtain e' out' where "applyCancel c e out = Some (e', out')"
    using applyCancel_live [OF wf x(1), of out] c by (metis surj_pair)
  with cancel_wf [OF wf x(1)] c that show thesis by metis
next
  case False
  show thesis
    by (rule that [OF applyCancel_absent [OF wf False]]) (use wf in \<open>auto intro: emitted_step [OF emitted_refl]\<close>)
qed

lemma engine_apply_total:
  assumes "wf_engine e"
  obtains e' evs where "engine_apply cmd e out = Some (e', out @ evs)" and "wf_engine e'"
    and "me_instrument e' = me_instrument e" and "me_commandSeq e' = me_commandSeq e + 1"
    and "me_eventSeq e' = me_eventSeq e + of_nat (length evs)"
    and "numbered (me_commandSeq e + 1) (me_eventSeq e) evs"
proof -
  let ?e = "e\<lparr>me_commandSeq := me_commandSeq e + 1\<rparr>"
  have wf: "wf_engine ?e" using assms by simp
  have "\<exists>e' out'. engine_apply cmd e out = Some (e', out') \<and> wf_engine e' \<and> emitted ?e out e' out'"
  proof (cases cmd)
    case (New c)
    show ?thesis
      by (rule applyNewOrder_total [OF wf, of c out]) (simp add: engine_apply_def New)
  next
    case (Cancel c)
    show ?thesis
      by (rule applyCancel_total [OF wf, of c out]) (simp add: engine_apply_def Cancel)
  qed
  with that show thesis by (auto simp: emitted_def)
qed

text \<open>The engine does not read the output list: it only appends to it.\<close>

lemma apply_all_total:
  assumes "wf_engine e"
  obtains e' evs where "apply_all cs e out = Some (e', out @ evs)" and "wf_engine e'"
    and "me_instrument e' = me_instrument e" and "me_commandSeq e' = me_commandSeq e + of_nat (length cs)"
    and "me_eventSeq e' = me_eventSeq e + of_nat (length evs)"
proof -
  have "\<exists>e' evs. apply_all cs e out = Some (e', out @ evs) \<and> wf_engine e' \<and>
    me_instrument e' = me_instrument e \<and> me_commandSeq e' = me_commandSeq e + of_nat (length cs) \<and>
    me_eventSeq e' = me_eventSeq e + of_nat (length evs)"
    using assms
  proof (induction cs arbitrary: e out)
    case (Cons c cs)
    obtain e1 evs1 where 1: "engine_apply c e out = Some (e1, out @ evs1)" "wf_engine e1"
      "me_instrument e1 = me_instrument e" "me_commandSeq e1 = me_commandSeq e + 1"
      "me_eventSeq e1 = me_eventSeq e + of_nat (length evs1)"
      using Cons.prems by (rule engine_apply_total)
    from Cons.IH [OF 1(2), of "out @ evs1"] 1 show ?case
      by (auto simp: algebra_simps)
  qed auto
  with that show thesis by blast
qed

lemma wf_new_engine: "wf_engine (new_engine i)"
  using wf_empty_book
  by (simp add: wf_engine_def new_engine_def uncrossed_def book_orders_def book_top_def)
    (simp add: empty_book_def)

end
