(* ===== verification/Engine_Snapshot.thy ===== *)
theory Engine_Snapshot
  imports Engine
begin

text \<open>
  Capturing an engine and rebuilding it: \<open>MatchingEngine::snapshot\<close> and \<open>restore\<close> are
  inverse on well-formed engines, \<open>restore\<close> never trips an assertion of the book, and the
  arrival numbers that implement time priority stay increasing within every price level.
\<close>

section \<open>Restoring orders one by one\<close>

lemma spec_rest_last:
  assumes "\<forall>x\<in>set os. \<not> level_before (ro_side o') (ro_price o') (ro_price x)"
  shows "spec_rest o' os = os @ [o']"
  using spec_rest_split [of os o' "[]"] assms by simp

lemma fold_spec_rest_sorted:
  assumes "side_sorted s (os @ xs)" and "\<forall>x\<in>set xs. ro_side x = s"
  shows "fold spec_rest xs os = os @ xs"
  using assms
proof (induction xs arbitrary: os)
  case (Cons x xs)
  have "spec_rest x os = os @ [x]"
    using Cons.prems by (intro spec_rest_last) (auto simp: side_sorted_def sorted_wrt_append)
  with Cons.IH [of "os @ [x]"] Cons.prems show ?case by simp
qed simp

lemma restoreOrders_step:
  assumes "book_struct b" and "0 < ro_quantity x" and "\<not> contains (ro_id x) b"
  obtains b' where "restoreOrders (x # xs) b = restoreOrders xs b'" and "book_struct b'"
    and "ro_id ` set (book_orders b') = insert (ro_id x) (ro_id ` set (book_orders b))"
    and "set (book_orders b') = insert x (set (book_orders b))"
    and "\<And>s. side_orders s b' = (if ro_side x = s then spec_rest x (side_orders s b) else side_orders s b)"
proof -
  obtain b' where b': "rest x b = Some b'" "book_struct b'"
    "side_orders (ro_side x) b' = spec_rest x (side_orders (ro_side x) b)"
    "side_orders (opposite (ro_side x)) b' = side_orders (opposite (ro_side x)) b"
    using assms by (rule rest_refines)
  have views: "side_orders s b' = (if ro_side x = s then spec_rest x (side_orders s b) else side_orders s b)" for s
    using b'(3,4) book_orders_cases [of s "ro_side x"] by auto
  have "set (book_orders b') = insert x (set (book_orders b))"
    using b'(3,4) by (auto simp: set_book_orders [of _ "ro_side x"] set_spec_rest)
  with that [of b'] b' assms(3) views show thesis by simp
qed

lemma restoreOrders_ok:
  assumes "book_struct b" and "\<forall>x\<in>set xs. 0 < ro_quantity x"
    and "distinct (map ro_id xs)" and "ro_id ` set xs \<inter> ro_id ` set (book_orders b) = {}"
  obtains b' where "restoreOrders xs b = Some (True, b')" and "book_struct b'"
    and "\<And>s. side_orders s b' = fold spec_rest (filter (\<lambda>x. ro_side x = s) xs) (side_orders s b)"
proof -
  have "\<exists>b'. restoreOrders xs b = Some (True, b') \<and> book_struct b' \<and>
      (\<forall>s. side_orders s b' = fold spec_rest (filter (\<lambda>x. ro_side x = s) xs) (side_orders s b))"
    using assms
  proof (induction xs arbitrary: b)
    case (Cons x xs)
    have new: "\<not> contains (ro_id x) b" and pos: "0 < ro_quantity x"
      using Cons.prems by (auto simp: contains_iff)
    obtain b1 where b1: "restoreOrders (x # xs) b = restoreOrders xs b1" "book_struct b1"
      "ro_id ` set (book_orders b1) = insert (ro_id x) (ro_id ` set (book_orders b))"
      "\<And>s. side_orders s b1 = (if ro_side x = s then spec_rest x (side_orders s b) else side_orders s b)"
      using Cons.prems(1) pos new by (rule restoreOrders_step [where xs = xs]) blast
    have "ro_id ` set xs \<inter> ro_id ` set (book_orders b1) = {}"
      using Cons.prems(3,4) b1(3) by auto
    with Cons.IH [OF b1(2)] Cons.prems obtain b' where "restoreOrders xs b1 = Some (True, b')"
      "book_struct b'" "\<forall>s. side_orders s b' = fold spec_rest (filter (\<lambda>x. ro_side x = s) xs) (side_orders s b1)"
      by auto
    with b1 show ?case by auto
  qed auto
  with that show thesis by blast
qed

text \<open>The loop of \<open>restore\<close> never fails an assertion, whatever the snapshot holds.\<close>

lemma restoreOrders_total:
  assumes "wf_book b" and "\<forall>x\<in>set xs. 0 < ro_quantity x"
  obtains ok b' where "restoreOrders xs b = Some (ok, b')" and "wf_book b'"
    and "ok \<Longrightarrow> set (book_orders b') = set (book_orders b) \<union> set xs"
    and "set (book_orders b') \<subseteq> set (book_orders b) \<union> set xs"
proof -
  have "\<exists>ok b'. restoreOrders xs b = Some (ok, b') \<and> wf_book b' \<and>
      (ok \<longrightarrow> set (book_orders b') = set (book_orders b) \<union> set xs) \<and>
      set (book_orders b') \<subseteq> set (book_orders b) \<union> set xs"
    using assms
  proof (induction xs arbitrary: b)
    case (Cons x xs)
    show ?case
    proof (cases "contains (ro_id x) b")
      case True
      with Cons.prems show ?thesis by auto
    next
      case False
      have b: "book_struct b" "0 < ro_quantity x" using Cons.prems by (auto simp: wf_book_def)
      obtain b1 where b1: "restoreOrders (x # xs) b = restoreOrders xs b1" "book_struct b1"
        "set (book_orders b1) = insert x (set (book_orders b))"
        using b False by (rule restoreOrders_step [where xs = xs]) blast
      have "wf_book b1" using b1 Cons.prems by (auto simp: wf_book_def)
      with Cons.IH [of b1] Cons.prems(2) b1 show ?thesis by auto
    qed
  qed auto
  with that show thesis by blast
qed

text \<open>A list with a repeated id is rested up to the repetition; the book keeps that part.\<close>

lemma restoreOrders_dup:
  assumes "wf_book b" and "\<forall>x\<in>set xs. 0 < ro_quantity x"
    and "\<not> (distinct (map ro_id xs) \<and> ro_id ` set xs \<inter> ro_id ` set (book_orders b) = {})"
  obtains b' pre x post where "restoreOrders xs b = Some (False, b')" and "wf_book b'"
    and "xs = pre @ x # post" and "distinct (map ro_id pre)"
    and "ro_id x \<in> ro_id ` (set (book_orders b) \<union> set pre)"
    and "set (book_orders b') = set (book_orders b) \<union> set pre"
proof -
  have "\<exists>b' pre x post. restoreOrders xs b = Some (False, b') \<and> wf_book b' \<and> xs = pre @ x # post \<and>
      distinct (map ro_id pre) \<and> ro_id ` set pre \<inter> ro_id ` set (book_orders b) = {} \<and>
      ro_id x \<in> ro_id ` (set (book_orders b) \<union> set pre) \<and>
      set (book_orders b') = set (book_orders b) \<union> set pre"
    using assms
  proof (induction xs arbitrary: b)
    case (Cons x xs)
    have b: "book_struct b" "0 < ro_quantity x" using Cons.prems by (auto simp: wf_book_def)
    show ?case
    proof (cases "contains (ro_id x) b")
      case True
      with Cons.prems b show ?thesis
        by (intro exI [of _ b] exI [of _ "[]"] exI [of _ x] exI [of _ xs]) (simp add: contains_iff)
    next
      case False
      obtain b1 where b1: "restoreOrders (x # xs) b = restoreOrders xs b1" "book_struct b1"
        "set (book_orders b1) = insert x (set (book_orders b))"
        using b False by (rule restoreOrders_step [where xs = xs]) blast
      have wf1: "wf_book b1" using b1 Cons.prems by (auto simp: wf_book_def)
      have new: "ro_id x \<notin> ro_id ` set (book_orders b)" using False b(1) by (simp add: contains_iff)
      have "\<not> (distinct (map ro_id xs) \<and> ro_id ` set xs \<inter> ro_id ` set (book_orders b1) = {})"
        using Cons.prems(3) new b1(3) by auto
      moreover have "\<forall>x\<in>set xs. 0 < ro_quantity x" using Cons.prems(2) by simp
      ultimately obtain b' pre y post where
        r: "restoreOrders xs b1 = Some (False, b')" "wf_book b'" "xs = pre @ y # post" "distinct (map ro_id pre)"
          "ro_id ` set pre \<inter> ro_id ` set (book_orders b1) = {}"
          "ro_id y \<in> ro_id ` (set (book_orders b1) \<union> set pre)" "set (book_orders b') = set (book_orders b1) \<union> set pre"
        using Cons.IH [OF wf1] by blast
      show ?thesis
        using r b1 new by (intro exI [of _ b'] exI [of _ "x # pre"] exI [of _ y] exI [of _ post]) auto
    qed
  qed simp
  with that show thesis by blast
qed

lemma side_filter:
  assumes "book_struct b"
  shows "filter (\<lambda>x. ro_side x = s) (book_orders b) = side_orders s b"
proof -
  have "filter (\<lambda>x. ro_side x = s) (side_orders t b) = (if t = s then side_orders t b else [])" for t
    using book_struct_ro_side [OF assms, of _ t] by (auto simp: filter_empty_conv)
  then show ?thesis by (cases s) (simp_all add: book_orders_def)
qed

lemma snapshot_orders [simp]: "sn_orders (snapshot e) = book_orders (me_book e)"
  by (simp add: snapshot_def book_orders_def side_orders_def)

lemma restore_book:
  assumes "wf_book b"
  shows "restoreOrders (book_orders b) empty_book = Some (True, b)"
proof -
  have b: "book_struct b" and pos: "\<forall>x\<in>set (book_orders b). 0 < ro_quantity x"
    using assms by (auto simp: wf_book_def)
  obtain b' where b': "restoreOrders (book_orders b) empty_book = Some (True, b')" "book_struct b'"
    "\<And>s. side_orders s b' = fold spec_rest (filter (\<lambda>x. ro_side x = s) (book_orders b)) (side_orders s empty_book)"
  proof (rule restoreOrders_ok [OF _ pos])
    show "book_struct empty_book" using wf_empty_book by (simp add: wf_book_def)
    show "distinct (map ro_id (book_orders b))" using b by (simp add: book_struct_def)
  qed (auto simp: book_orders_def [of empty_book])
  have "side_orders s b' = side_orders s b" for s
    using fold_spec_rest_sorted [of s "[]" "side_orders s b"] side_orders_sorted [OF b, of s]
      book_struct_ro_side [OF b, of _ s] b'(3) [of s] by (simp add: side_filter [OF b])
  then have "b' = b" using b'(2) b by (intro book_determined) auto
  with b' show ?thesis by simp
qed

lemma restore_snapshot:
  assumes "wf_engine e" and "me_instrument e0 = me_instrument e"
  shows "restore (snapshot e) e0 = Some (True, e)"
proof -
  have "\<not> (\<exists>x\<in>set (sn_orders (snapshot e)). ro_quantity x = 0 \<or> sint (ro_price x) \<le> 0)"
    using assms(1) by (auto simp: wf_engine_def wf_book_def)
  moreover have "sn_instrument (snapshot e) = me_instrument e0"
    using assms(2) by (simp add: snapshot_def)
  ultimately have "restore (snapshot e) e0 =
      Some (True, e0\<lparr>me_book := me_book e, me_commandSeq := me_commandSeq e, me_eventSeq := me_eventSeq e,
        me_arrivalCounter := me_arrivalCounter e, me_lastTop := me_lastTop e\<rparr>)"
    using assms(1) restore_book [of "me_book e"] by (simp add: restore_def wf_engine_def) (simp add: snapshot_def)
  then show ?thesis using assms(2) by simp
qed

section \<open>Time priority\<close>

text \<open>Within a price, earlier in the queue means an earlier arrival number, and no order has
  an arrival number the engine has not handed out yet.\<close>

definition fifo :: "RestingOrder list \<Rightarrow> bool" where
  "fifo os \<longleftrightarrow> sorted_wrt (\<lambda>x y. ro_price x = ro_price y \<longrightarrow> ro_arrival x < ro_arrival y) os"

definition arrivals_ok :: "MatchingEngine \<Rightarrow> bool" where
  "arrivals_ok e \<longleftrightarrow>
     (\<forall>s\<in>{Buy, Sell}. fifo (side_orders s (me_book e)) \<and>
       (\<forall>x\<in>set (side_orders s (me_book e)). ro_arrival x \<le> me_arrivalCounter e))"

lemma arrivals_ok_side:
  "arrivals_ok e \<longleftrightarrow> (\<forall>t\<in>{s, opposite s}. fifo (side_orders t (me_book e)) \<and>
     (\<forall>x\<in>set (side_orders t (me_book e)). ro_arrival x \<le> me_arrivalCounter e))"
  by (cases s) (auto simp: arrivals_ok_def)

lemma fifo_append: "fifo (xs @ ys) \<longleftrightarrow> fifo xs \<and> fifo ys \<and>
    (\<forall>x\<in>set xs. \<forall>y\<in>set ys. ro_price x = ro_price y \<longrightarrow> ro_arrival x < ro_arrival y)"
  by (simp add: fifo_def sorted_wrt_append)

lemma fifo_Cons: "fifo (x # xs) \<longleftrightarrow>
    (\<forall>y\<in>set xs. ro_price x = ro_price y \<longrightarrow> ro_arrival x < ro_arrival y) \<and> fifo xs"
  by (simp add: fifo_def)

lemma fifo_remove: "fifo os \<Longrightarrow> fifo (spec_remove i os)"
  by (simp add: fifo_def spec_remove_def sorted_wrt_filter)

lemma fifo_greedy:
  assumes "greedy cross q os = (r, fs, os')" and "fifo os"
  shows "fifo os'"
  using greedy_priority [OF assms(1)] assms(2) by (auto simp: fifo_append fifo_Cons)

lemma fifo_rest:
  assumes "fifo os" and "\<forall>x\<in>set os. ro_arrival x < ro_arrival o'" and "side_sorted (ro_side o') os"
  shows "fifo (spec_rest o' os)"
proof -
  define P where "P = (\<lambda>x :: RestingOrder. \<not> level_before (ro_side o') (ro_price o') (ro_price x))"
  define xs ys where "xs = takeWhile P os" and "ys = dropWhile P os"
  have os: "os = xs @ ys" and new: "spec_rest o' os = xs @ o' # ys"
    by (simp_all add: spec_rest_def xs_def ys_def P_def Let_def)
  have "ro_price o' \<noteq> ro_price y" if "y \<in> set ys" for y
    using side_sorted_dropWhile [OF assms(3), of y] that lv.irrefl unfolding ys_def P_def by metis
  with assms(1,2) show ?thesis unfolding new by (auto simp: os fifo_append fifo_Cons)
qed

lemma arrivals_ok_upd [simp]:
  "arrivals_ok (e\<lparr>me_commandSeq := c\<rparr>) = arrivals_ok e" "arrivals_ok (e\<lparr>me_eventSeq := n\<rparr>) = arrivals_ok e"
  by (simp_all add: arrivals_ok_def)

lemma greedy_arrivals:
  assumes "greedy cross q os = (r, fs, os')" and "\<forall>x\<in>set os. ro_arrival x \<le> a" and "y \<in> set os'"
  shows "ro_arrival y \<le> a"
proof (rule greedy_left [OF assms(1,3)])
  fix x assume "x \<in> set os" "y = x\<lparr>ro_quantity := ro_quantity y\<rparr>"
  then show ?thesis
    using assms(2) by (metis RestingOrder.ext_inject RestingOrder.surjective RestingOrder.update_convs(4))
qed

lemma accept_arrivals:
  assumes wf: "wf_engine e" and arr: "arrivals_ok e" and room: "me_arrivalCounter e \<noteq> - 1"
    and ok: "newOrderReason cmd e = NoReason" and app: "applyNewOrder cmd e out = Some (e', out')"
  shows "arrivals_ok e'"
proof -
  let ?s = "no_side cmd" and ?a = "me_arrivalCounter e"
  obtain r fs os' where g: "greedy (crosses ?s (no_type cmd) (no_price cmd)) (no_quantity cmd)
      (side_orders (opposite ?s) (me_book e)) = (r, fs, os')"
    using prod_cases3 by blast
  have wfb: "wf_book (me_book e)" using wf by (simp add: wf_engine_def)
  have acc: "side_orders (opposite ?s) (me_book e') = os'"
    "side_orders ?s (me_book e') = spec_own_side cmd r (?a + 1) (side_orders ?s (me_book e))"
    "me_arrivalCounter e' = ?a + (if 0 < r \<and> can_rest cmd then 1 else 0)"
    by (rule applyNewOrder_accept [OF wfb ok g, of out], simp add: app)+
  have less: "?a < ?a + 1" using room by (simp add: word_Suc_less)
  have old: "fifo (side_orders t (me_book e))" "\<forall>x\<in>set (side_orders t (me_book e)). ro_arrival x \<le> ?a" for t
    using arr by (cases t; simp add: arrivals_ok_def)+
  have "fifo os'" by (rule fifo_greedy [OF g old(1)])
  moreover have "fifo (side_orders ?s (me_book e'))"
    using old [of ?s] side_orders_sorted [of "me_book e" ?s] wfb less
    by (auto simp: acc(2) spec_own_side_def residual_order_def wf_book_def intro!: fifo_rest)
  moreover have "ro_arrival x \<le> me_arrivalCounter e'"
    if "x \<in> set os' \<union> set (side_orders ?s (me_book e'))" for x
  proof -
    have "ro_arrival x \<le> ?a \<or> 0 < r \<and> can_rest cmd \<and> ro_arrival x = ?a + 1"
      using that old(2) [of ?s] greedy_arrivals [OF g old(2)]
      by (auto simp: acc spec_own_side_mem residual_order_def)
    with less show ?thesis by (auto simp: acc(3))
  qed
  ultimately show ?thesis using acc(1) by (auto simp: arrivals_ok_side [of e' ?s])
qed

lemma engine_apply_arrivals:
  assumes wf: "wf_engine e" and arr: "arrivals_ok e" and room: "me_arrivalCounter e \<noteq> - 1"
    and app: "engine_apply cmd e out = Some (e', out')"
  shows "arrivals_ok e'"
proof (cases cmd)
  case (New c)
  let ?e = "e\<lparr>me_commandSeq := me_commandSeq e + 1\<rparr>"
  from app New have a: "applyNewOrder c ?e out = Some (e', out')" by (simp add: engine_apply_def)
  show ?thesis
  proof (cases "newOrderReason c ?e = NoReason")
    case True
    show ?thesis by (rule accept_arrivals [OF _ _ _ True a]) (use wf arr room in simp_all)
  next
    case False
    with a arr show ?thesis using reject_spec [OF False, of out] by auto
  qed
next
  case (Cancel c)
  let ?e = "e\<lparr>me_commandSeq := me_commandSeq e + 1\<rparr>"
  from app Cancel have a: "applyCancel c ?e out = Some (e', out')" by (simp add: engine_apply_def)
  show ?thesis
  proof (cases "contains (co_id c) (me_book e)")
    case True
    with wf obtain x s where x: "x \<in> set (side_orders s (me_book e))" "ro_id x = co_id c"
      by (auto simp: wf_engine_def wf_book_def contains_iff book_orders_def)
    then have c: "c = \<lparr>co_id = ro_id x\<rparr>" by simp
    have "side_orders s (me_book e') = spec_remove (ro_id x) (side_orders s (me_book e))"
      "side_orders (opposite s) (me_book e') = side_orders (opposite s) (me_book e)"
      "me_arrivalCounter e' = me_arrivalCounter e"
      using cancel_wf(3-5) [of ?e x s out e' out'] wf a c x(1) by simp_all
    with arr show ?thesis by (auto simp: arrivals_ok_side [of _ s] fifo_remove) (auto simp: spec_remove_def)
  next
    case False
    with a arr wf show ?thesis by (auto simp: applyCancel_absent)
  qed
qed

lemma arrivals_new_engine: "arrivals_ok (new_engine i)"
  by (simp add: arrivals_ok_def new_engine_def fifo_def)

end
