(* ===== verification/Engine_Properties.thy ===== *)
theory Engine_Properties
  imports Engine_Snapshot
begin

text \<open>
  The properties of the matching engine, stated over \<open>MatchingEngine::apply\<close>, \<open>snapshot\<close>
  and \<open>restore\<close> and proved from the refinement lemmas of the engine and the book. A small
  engine with three asks and one bid serves as the concrete input of the witnesses.
\<close>

section \<open>A concrete engine\<close>

definition limit_order :: "OrderId \<Rightarrow> Side \<Rightarrow> Price \<Rightarrow> Quantity \<Rightarrow> NewOrder" where
  "limit_order i s p q = \<lparr>no_id = i, no_instrument = 1, no_side = s, no_type = Limit,
     no_tif = GoodTillCancel, no_price = p, no_quantity = q\<rparr>"

definition demo_cmds :: "Command list" where
  "demo_cmds = [New (limit_order 1 Sell 101 5), New (limit_order 2 Sell 101 4),
     New (limit_order 3 Sell 102 10), New (limit_order 4 Buy 99 7)]"

definition demo_engine :: MatchingEngine where
  "demo_engine = fst (the (apply_all demo_cmds (new_engine 1) []))"

definition ask1 :: RestingOrder where
  "ask1 = \<lparr>ro_id = 1, ro_side = Sell, ro_price = 101, ro_quantity = 5, ro_arrival = 1\<rparr>"

definition ask2 :: RestingOrder where
  "ask2 = \<lparr>ro_id = 2, ro_side = Sell, ro_price = 101, ro_quantity = 4, ro_arrival = 2\<rparr>"

definition ask3 :: RestingOrder where
  "ask3 = \<lparr>ro_id = 3, ro_side = Sell, ro_price = 102, ro_quantity = 10, ro_arrival = 3\<rparr>"

lemma demo_wf: "wf_engine demo_engine"
proof -
  obtain e' evs where "apply_all demo_cmds (new_engine 1) [] = Some (e', [] @ evs)" "wf_engine e'"
    using wf_new_engine [of 1] by (rule apply_all_total)
  then show ?thesis by (simp add: demo_engine_def)
qed

lemma demo_asks: "side_orders Sell (me_book demo_engine) = [ask1, ask2, ask3]"
  by code_simp

lemma demo_reason: "newOrderReason (limit_order 5 Buy 102 6) demo_engine = NoReason"
  by code_simp

lemma demo_greedy:
  "greedy (crosses Buy Limit 102) 6 [ask1, ask2, ask3] =
     (0, [(ask1, 5), (ask2, 1)], [ask2\<lparr>ro_quantity := 3\<rparr>, ask3])"
  by code_simp

section \<open>Every command\<close>

text \<open>C1: On a well-formed engine every command is processed to completion: no assertion of the
  order book fails and the matching loop ends. The engine stays well-formed (index, levels and
  queues agree, every resting order has a positive quantity and price, the book is not crossed,
  the published top is the real one), its instrument does not change, the command number
  advances by one, and the appended events carry that number and consecutive event numbers.\<close>
theorem engine_apply_invariant:
  assumes "wf_engine e"
  shows "\<exists>e' evs. engine_apply cmd e out = Some (e', out @ evs) \<and> wf_engine e' \<and>
    me_instrument e' = me_instrument e \<and> me_commandSeq e' = me_commandSeq e + 1 \<and>
    me_eventSeq e' = me_eventSeq e + of_nat (length evs) \<and>
    numbered (me_commandSeq e + 1) (me_eventSeq e) evs"
  by (rule engine_apply_total [OF assms]) blast

theorem engine_apply_invariant_witness:
  "wf_engine demo_engine \<and> (\<exists>e' evs. engine_apply (New (limit_order 5 Buy 102 6)) demo_engine [] = Some (e', [] @ evs) \<and>
    wf_engine e' \<and> me_instrument e' = me_instrument demo_engine \<and> me_commandSeq e' = me_commandSeq demo_engine + 1 \<and>
    me_eventSeq e' = me_eventSeq demo_engine + of_nat (length evs) \<and>
    numbered (me_commandSeq demo_engine + 1) (me_eventSeq demo_engine) evs)"
  by (intro conjI demo_wf engine_apply_invariant [OF demo_wf])

lemma upt_append_shift:
  "[1..<Suc (m + n)] = [1..<Suc m] @ map (\<lambda>k. k + m) [1..<Suc n]"
  by (induction n) simp_all

lemma numbered_eventSeq:
  "numbered c n evs \<Longrightarrow> map (eventSeq \<circ> header) evs = map (\<lambda>k. n + of_nat k) [1..<Suc (length evs)]"
proof (induction evs arbitrary: n)
  case (Cons ev evs)
  have "[1..<Suc (length (ev # evs))] = 1 # map Suc [1..<Suc (length evs)]"
    by (simp only: map_Suc_upt length_Cons upt_conv_Cons [of 1 "Suc (Suc (length evs))"])
  moreover have "header ev = \<lparr>commandSeq = c, eventSeq = n + 1\<rparr>"
    "map (eventSeq \<circ> header) evs = map (\<lambda>k. n + 1 + of_nat k) [1..<Suc (length evs)]"
    using Cons.IH [of "n + 1"] Cons.prems by (simp_all add: o_def del: upt_Suc)
  ultimately show ?case by (simp add: o_def algebra_simps del: upt_Suc)
qed simp

lemma apply_all_eventSeq:
  assumes "wf_engine e" and "apply_all cs e out = Some (e', out @ evs)"
  shows "map (eventSeq \<circ> header) evs = map (\<lambda>k. me_eventSeq e + of_nat k) [1..<Suc (length evs)]"
  using assms
proof (induction cs arbitrary: e out evs)
  case (Cons c cs)
  obtain e1 evs1 where 1: "engine_apply c e out = Some (e1, out @ evs1)" "wf_engine e1"
    "me_eventSeq e1 = me_eventSeq e + of_nat (length evs1)"
    "numbered (me_commandSeq e + 1) (me_eventSeq e) evs1"
    using Cons.prems(1) by (rule engine_apply_total)
  obtain e2 evs2 where 2: "apply_all cs e1 (out @ evs1) = Some (e2, (out @ evs1) @ evs2)"
    using 1(2) by (rule apply_all_total)
  have evs: "evs = evs1 @ evs2" and e2: "e2 = e'" using Cons.prems(2) 1(1) 2 by simp_all
  have shift: "[1..<Suc (length (evs1 @ evs2))] = [1..<Suc (length evs1)] @ map (\<lambda>k. k + length evs1) [1..<Suc (length evs2)]"
    by (simp only: upt_append_shift length_append)
  show ?case
    using numbered_eventSeq [OF 1(4)] Cons.IH [OF 1(2) 2 [unfolded e2]] 1(3)
    unfolding evs shift by (simp add: o_def algebra_simps del: upt_Suc)
qed simp

text \<open>Any sequence of commands, valid or not, applied to a fresh engine is processed to the
  end. The resulting book is well-formed and not crossed, the command counter is the number of
  commands (modulo 2^64), and the events of the whole run are numbered 1, 2, 3, ... in order.\<close>
theorem replay_total:
  "\<exists>e evs. apply_all cs (new_engine i) [] = Some (e, evs) \<and> wf_book (me_book e) \<and> uncrossed (me_book e) \<and>
     me_commandSeq e = of_nat (length cs) \<and>
     map (eventSeq \<circ> header) evs = map of_nat [1..<Suc (length evs)]"
proof -
  obtain e evs where "apply_all cs (new_engine i) [] = Some (e, [] @ evs)" "wf_engine e"
    "me_commandSeq e = me_commandSeq (new_engine i) + of_nat (length cs)"
    using wf_new_engine by (rule apply_all_total)
  then show ?thesis
    using apply_all_eventSeq [OF wf_new_engine, of cs i "[]" e evs]
    by (auto simp: wf_engine_def new_engine_def)
qed

section \<open>New orders\<close>

abbreviation next_command :: "MatchingEngine \<Rightarrow> MatchingEngine" where
  "next_command e \<equiv> e\<lparr>me_commandSeq := me_commandSeq e + 1\<rparr>"

lemma newOrderReason_counters [simp]: "newOrderReason cmd (e\<lparr>me_commandSeq := c\<rparr>) = newOrderReason cmd e"
  by (simp add: newOrderReason_def)

lemma accepted_new_order:
  assumes wf: "wf_engine e" and ok: "newOrderReason cmd e = NoReason"
    and g: "greedy (crosses (no_side cmd) (no_type cmd) (no_price cmd)) (no_quantity cmd)
      (side_orders (opposite (no_side cmd)) (me_book e)) = (r, fs, os')"
  obtains e' evs where "engine_apply (New cmd) e out = Some (e', out @ evs)"
    and "numbered (me_commandSeq e + 1) (me_eventSeq e) evs"
    and "map body evs = spec_accept_events cmd r fs @ spec_top_events (book_top (me_book e)) (book_top (me_book e'))"
    and "side_orders (opposite (no_side cmd)) (me_book e') = os'"
    and "side_orders (no_side cmd) (me_book e') =
      spec_own_side cmd r (me_arrivalCounter e + 1) (side_orders (no_side cmd) (me_book e))"
proof -
  let ?e = "next_command e"
  have 1: "wf_book (me_book ?e)" "newOrderReason cmd ?e = NoReason" "me_lastTop ?e = book_top (me_book e)"
    using wf ok by (simp_all add: wf_engine_def)
  have 2: "greedy (crosses (no_side cmd) (no_type cmd) (no_price cmd)) (no_quantity cmd)
      (side_orders (opposite (no_side cmd)) (me_book ?e)) = (r, fs, os')"
    using g by simp
  obtain e' out' where "applyNewOrder cmd ?e out = Some (e', out')" "emitted ?e out e' out'"
    "map body out' = map body out @ spec_accept_events cmd r fs @ spec_top_events (me_lastTop ?e) (book_top (me_book e'))"
    "side_orders (opposite (no_side cmd)) (me_book e') = os'"
    "side_orders (no_side cmd) (me_book e') =
      spec_own_side cmd r (me_arrivalCounter ?e + 1) (side_orders (no_side cmd) (me_book ?e))"
    using 1(1,2) 2 by (rule applyNewOrder_accept) blast
  with 1(3) that show thesis by (auto simp: engine_apply_def emitted_def)
qed

text \<open>C2: Functional correctness of an accepted order. Let greedy matching of the order against
  the priority list of the opposite side give the residual r, the fills fs and the remaining
  list os'. Then the engine emits exactly: the acceptance, one trade per fill in that order at
  the resting order's price, a resting or cancelled event when a residual is left, and a
  top-of-book event when the top changed; the opposite side becomes os', and the own side gains
  the residual behind all orders of its price exactly when the order is a good-till-cancel limit
  order.\<close>
theorem new_order_refines_greedy:
  assumes "wf_engine e" and "newOrderReason cmd e = NoReason"
    and "greedy (crosses (no_side cmd) (no_type cmd) (no_price cmd)) (no_quantity cmd)
      (side_orders (opposite (no_side cmd)) (me_book e)) = (r, fs, os')"
  shows "\<exists>e' evs. engine_apply (New cmd) e out = Some (e', out @ evs) \<and>
    map body evs = spec_accept_events cmd r fs @ spec_top_events (book_top (me_book e)) (book_top (me_book e')) \<and>
    side_orders (opposite (no_side cmd)) (me_book e') = os' \<and>
    side_orders (no_side cmd) (me_book e') =
      spec_own_side cmd r (me_arrivalCounter e + 1) (side_orders (no_side cmd) (me_book e))"
  by (rule accepted_new_order [OF assms]) blast

theorem new_order_refines_greedy_witness:
  "\<exists>e' evs. engine_apply (New (limit_order 5 Buy 102 6)) demo_engine [] = Some (e', [] @ evs) \<and>
    map body evs = spec_accept_events (limit_order 5 Buy 102 6) 0 [(ask1, 5), (ask2, 1)] @
      spec_top_events (book_top (me_book demo_engine)) (book_top (me_book e')) \<and>
    side_orders Sell (me_book e') = [ask2\<lparr>ro_quantity := 3\<rparr>, ask3]"
  using new_order_refines_greedy [OF demo_wf demo_reason, of 0 "[(ask1, 5), (ask2, 1)]" "[ask2\<lparr>ro_quantity := 3\<rparr>, ask3]" "[]"]
    demo_greedy demo_asks
  by (auto simp: limit_order_def)

lemma trades_spec_events:
  "trades (spec_accept_events cmd r fs @ spec_top_events t t') = map (case_prod (mk_trade cmd)) fs"
proof -
  have "trades (map (\<lambda>(x, n). Trade blank (mk_trade cmd x n)) fs) = map (case_prod (mk_trade cmd)) fs"
    by (induction fs) auto
  then show ?thesis
    by (simp add: spec_accept_events_def spec_residual_events_def spec_top_events_def)
qed

lemma accepted_trades:
  assumes "wf_engine e" and "newOrderReason cmd e = NoReason"
    and app: "engine_apply (New cmd) e [] = Some (e', evs)"
  obtains r fs where "greedy (crosses (no_side cmd) (no_type cmd) (no_price cmd)) (no_quantity cmd)
      (side_orders (opposite (no_side cmd)) (me_book e)) = (r, fs, side_orders (opposite (no_side cmd)) (me_book e'))"
    and "trades evs = map (case_prod (mk_trade cmd)) fs"
    and "map body evs = spec_accept_events cmd r fs @ spec_top_events (book_top (me_book e)) (book_top (me_book e'))"
proof -
  obtain r fs os' where g: "greedy (crosses (no_side cmd) (no_type cmd) (no_price cmd)) (no_quantity cmd)
      (side_orders (opposite (no_side cmd)) (me_book e)) = (r, fs, os')"
    using prod_cases3 by blast
  have 1: "map body evs = spec_accept_events cmd r fs @ spec_top_events (book_top (me_book e)) (book_top (me_book e'))"
    "side_orders (opposite (no_side cmd)) (me_book e') = os'"
    by (rule accepted_new_order [OF assms(1,2) g, of "[]"], use app in simp)+
  moreover have "trades evs = map (case_prod (mk_trade cmd)) fs"
    using trades_body [of evs] unfolding 1(1) trades_spec_events by simp
  ultimately show thesis using that g by blast
qed

text \<open>The concrete order of the witnesses, applied to the concrete engine.\<close>

definition demo_after :: "MatchingEngine \<times> EventList" where
  "demo_after = the (engine_apply (New (limit_order 5 Buy 102 6)) demo_engine [])"

lemma demo_apply: "engine_apply (New (limit_order 5 Buy 102 6)) demo_engine [] = Some (fst demo_after, snd demo_after)"
  by (rule accepted_new_order [OF demo_wf demo_reason, of 0 "[(ask1, 5), (ask2, 1)]" "[ask2\<lparr>ro_quantity := 3\<rparr>, ask3]" "[]"])
    (use demo_greedy demo_asks in \<open>simp_all add: limit_order_def demo_after_def\<close>)

definition residual_of :: "EventList \<Rightarrow> nat" where
  "residual_of evs = sum_list (map (\<lambda>ev. case ev of OrderResting _ d \<Rightarrow> unat (or_quantity d)
     | OrderCancelled _ d \<Rightarrow> unat (oc_remaining d) | _ \<Rightarrow> 0) evs)"

lemma residual_of_body: "residual_of (map body evs) = residual_of evs"
proof (induction evs)
  case (Cons ev evs)
  then show ?case by (cases ev) (simp_all add: residual_of_def)
qed (simp add: residual_of_def)

lemma residual_of_spec: "residual_of (spec_accept_events cmd r fs @ spec_top_events t t') = unat r"
proof -
  have "residual_of (map (\<lambda>(x, n). Trade blank (mk_trade cmd x n)) fs) = 0"
    by (auto simp: residual_of_def)
  then show ?thesis
    by (simp add: residual_of_def spec_accept_events_def spec_residual_events_def spec_top_events_def)
qed

text \<open>C3: Quantity is conserved. The quantity of an accepted order equals what it traded plus what
  its resting or cancelled event reports, and the opposite side of the book lost exactly the
  traded quantity (all sums over natural numbers, so nothing is hidden by wrap-around).\<close>
theorem new_order_conserves_quantity:
  assumes "wf_engine e" and "newOrderReason cmd e = NoReason"
    and "engine_apply (New cmd) e [] = Some (e', evs)"
  shows "unat (no_quantity cmd) = sum_list (map (unat \<circ> tr_quantity) (trades evs)) + residual_of evs \<and>
    total_quantity (side_orders (opposite (no_side cmd)) (me_book e)) =
      sum_list (map (unat \<circ> tr_quantity) (trades evs)) + total_quantity (side_orders (opposite (no_side cmd)) (me_book e'))"
proof -
  obtain r fs where g: "greedy (crosses (no_side cmd) (no_type cmd) (no_price cmd)) (no_quantity cmd)
      (side_orders (opposite (no_side cmd)) (me_book e)) = (r, fs, side_orders (opposite (no_side cmd)) (me_book e'))"
    and t: "trades evs = map (case_prod (mk_trade cmd)) fs"
    and b: "map body evs = spec_accept_events cmd r fs @ spec_top_events (book_top (me_book e)) (book_top (me_book e'))"
    using assms by (rule accepted_trades)
  have "map (unat \<circ> tr_quantity) (trades evs) = map (unat \<circ> snd) fs"
    by (auto simp: t mk_trade_def)
  moreover have "residual_of evs = unat r"
    using residual_of_body [of evs] residual_of_spec [of cmd r fs] by (simp only: b)
  ultimately show ?thesis
    using greedy_conservation [OF g] by simp_all
qed

theorem new_order_conserves_quantity_witness:
  "unat (no_quantity (limit_order 5 Buy 102 6)) =
     sum_list (map (unat \<circ> tr_quantity) (trades (snd demo_after))) + residual_of (snd demo_after) \<and>
   sum_list (map (unat \<circ> tr_quantity) (trades (snd demo_after))) = 6"
proof
  show "unat (no_quantity (limit_order 5 Buy 102 6)) =
      sum_list (map (unat \<circ> tr_quantity) (trades (snd demo_after))) + residual_of (snd demo_after)"
    using new_order_conserves_quantity [OF demo_wf demo_reason demo_apply] by blast
  show "sum_list (map (unat \<circ> tr_quantity) (trades (snd demo_after))) = 6" by code_simp
qed

text \<open>Price-time priority and price protection. The trades of an accepted order hit a prefix of
  the opposite side's priority list (best price first, then queue order), each at the resting
  order's own price, which crosses the order's limit, for a positive quantity; every order of
  that prefix but the last is filled completely; and matching stops only when the order is used
  up or the best remaining price does not cross.\<close>
theorem new_order_priority:
  assumes "wf_engine e" and "newOrderReason cmd e = NoReason"
    and "engine_apply (New cmd) e [] = Some (e', evs)"
  shows "\<exists>hit rest. side_orders (opposite (no_side cmd)) (me_book e) = hit @ rest \<and>
      map restingId (trades evs) = map ro_id hit \<and> map tr_price (trades evs) = map ro_price hit \<and>
      butlast (map tr_quantity (trades evs)) = butlast (map ro_quantity hit) \<and>
      (\<forall>t\<in>set (trades evs). aggressorId t = no_id cmd \<and> aggressorSide t = no_side cmd \<and> 0 < tr_quantity t \<and>
        crosses (no_side cmd) (no_type cmd) (no_price cmd) (tr_price t)) \<and>
      (residual_of evs = 0 \<or> side_orders (opposite (no_side cmd)) (me_book e') = [] \<or>
        \<not> crosses (no_side cmd) (no_type cmd) (no_price cmd)
          (ro_price (hd (side_orders (opposite (no_side cmd)) (me_book e')))))"
proof -
  let ?s = "opposite (no_side cmd)"
  obtain r fs where g: "greedy (crosses (no_side cmd) (no_type cmd) (no_price cmd)) (no_quantity cmd)
      (side_orders ?s (me_book e)) = (r, fs, side_orders ?s (me_book e'))"
    and t: "trades evs = map (case_prod (mk_trade cmd)) fs"
    and b: "map body evs = spec_accept_events cmd r fs @ spec_top_events (book_top (me_book e)) (book_top (me_book e'))"
    using assms by (rule accepted_trades)
  have pos: "\<forall>x\<in>set (side_orders ?s (me_book e)). 0 < ro_quantity x"
    using assms(1) by (auto simp: wf_engine_def wf_book_def set_book_orders [of _ ?s])
  obtain ys where pre: "side_orders ?s (me_book e) = map fst fs @ ys"
    and full: "butlast (map snd fs) = butlast (map (ro_quantity \<circ> fst) fs)"
    using greedy_prefix [OF g] by blast
  have "residual_of evs = unat r"
    using residual_of_body [of evs] residual_of_spec [of cmd r fs] by (simp only: b)
  with greedy_stop [OF g] have stop: "residual_of evs = 0 \<or> side_orders ?s (me_book e') = [] \<or>
      \<not> crosses (no_side cmd) (no_type cmd) (no_price cmd) (ro_price (hd (side_orders ?s (me_book e'))))"
    by auto
  have cols: "map restingId (trades evs) = map ro_id (map fst fs)" "map tr_price (trades evs) = map ro_price (map fst fs)"
    "map tr_quantity (trades evs) = map snd fs" "map ro_quantity (map fst fs) = map (ro_quantity \<circ> fst) fs"
    by (auto simp: t mk_trade_def)
  have "\<forall>t\<in>set (trades evs). aggressorId t = no_id cmd \<and> aggressorSide t = no_side cmd \<and> 0 < tr_quantity t \<and>
      crosses (no_side cmd) (no_type cmd) (no_price cmd) (tr_price t)"
    using greedy_fills [OF g pos] by (auto simp: t mk_trade_def)
  with pre full stop cols show ?thesis by (intro exI [of _ "map fst fs"] exI [of _ ys]) simp
qed

theorem new_order_priority_witness:
  "\<exists>hit rest. side_orders Sell (me_book demo_engine) = hit @ rest \<and>
    map restingId (trades (snd demo_after)) = map ro_id hit \<and> map ro_id hit = [1, 2]"
proof -
  have "map restingId (trades (snd demo_after)) = [1, 2]" by code_simp
  then show ?thesis
    using new_order_priority [OF demo_wf demo_reason demo_apply] by (auto simp: limit_order_def)
qed

text \<open>A rejected order changes nothing but the counters. Whatever the state of the engine, an
  order that fails the validation cascade produces exactly one rejection event with the first
  reason that applies (wrong instrument, zero quantity, non-positive limit price, market order
  that is not immediate-or-cancel, duplicate id, in this order), and the book, the arrival
  counter and the published top stay as they were.\<close>
theorem new_order_rejected:
  assumes "newOrderReason cmd e \<noteq> NoReason"
  shows "engine_apply (New cmd) e out =
    Some (e\<lparr>me_commandSeq := me_commandSeq e + 1, me_eventSeq := me_eventSeq e + 1\<rparr>,
      out @ [OrderRejected \<lparr>commandSeq = me_commandSeq e + 1, eventSeq = me_eventSeq e + 1\<rparr> (no_id cmd)
        (if no_instrument cmd \<noteq> me_instrument e then WrongInstrument
         else if no_quantity cmd = 0 then ZeroQuantity
         else if no_type cmd = Limit \<and> sint (no_price cmd) \<le> 0 then NonPositivePrice
         else if no_type cmd = Market \<and> no_tif cmd \<noteq> ImmediateOrCancel then MarketOrderMustBeIoc
         else DuplicateOrderId)])"
proof -
  have "newOrderReason cmd (next_command e) \<noteq> NoReason" using assms by simp
  from reject_spec [OF this, of out] assms show ?thesis
    by (auto simp: engine_apply_def newOrderReason_def)
qed

theorem new_order_rejected_witness:
  "\<exists>e'. engine_apply (New (limit_order 1 Buy 101 5)) demo_engine [] =
     Some (e', [OrderRejected \<lparr>commandSeq = me_commandSeq demo_engine + 1, eventSeq = me_eventSeq demo_engine + 1\<rparr> 1 DuplicateOrderId])"
proof -
  have "newOrderReason (limit_order 1 Buy 101 5) demo_engine \<noteq> NoReason" by code_simp
  moreover have "me_instrument demo_engine = 1" by code_simp
  ultimately show ?thesis using new_order_rejected [of "limit_order 1 Buy 101 5" demo_engine "[]"]
    by (simp add: limit_order_def)
qed

section \<open>Cancels\<close>

lemma engine_cancel_live:
  assumes wf: "wf_engine e" and x: "x \<in> set (side_orders s (me_book e))"
  obtains e' evs where "engine_apply (Cancel \<lparr>co_id = ro_id x\<rparr>) e out = Some (e', out @ evs)"
    and "map body evs = OrderCancelled blank \<lparr>oc_id = ro_id x, oc_side = s, oc_price = ro_price x,
      oc_remaining = ro_quantity x, oc_engineInitiated = False\<rparr>
      # spec_top_events (book_top (me_book e)) (book_top (me_book e'))"
    and "side_orders s (me_book e') = spec_remove (ro_id x) (side_orders s (me_book e))"
    and "side_orders (opposite s) (me_book e') = side_orders (opposite s) (me_book e)"
    and "\<not> contains (ro_id x) (me_book e')"
proof -
  let ?e = "next_command e"
  have x1: "x \<in> set (side_orders s (me_book ?e))" and wf1: "wf_engine ?e" using x wf by simp_all
  obtain e1 where c: "applyCancel \<lparr>co_id = ro_id x\<rparr> ?e out = Some (emitTopOfBookIfChanged e1
      (out @ [OrderCancelled \<lparr>commandSeq = me_commandSeq ?e, eventSeq = me_eventSeq ?e + 1\<rparr>
        \<lparr>oc_id = ro_id x, oc_side = s, oc_price = ro_price x, oc_remaining = ro_quantity x, oc_engineInitiated = False\<rparr>]))"
    "me_lastTop e1 = me_lastTop ?e"
    using wf1 x1 by (rule applyCancel_live)
  obtain e' out' where t: "emitTopOfBookIfChanged e1
      (out @ [OrderCancelled \<lparr>commandSeq = me_commandSeq ?e, eventSeq = me_eventSeq ?e + 1\<rparr>
        \<lparr>oc_id = ro_id x, oc_side = s, oc_price = ro_price x, oc_remaining = ro_quantity x, oc_engineInitiated = False\<rparr>]) = (e', out')"
    by fastforce
  have app: "applyCancel \<lparr>co_id = ro_id x\<rparr> ?e out = Some (e', out')" using c(1) t by simp
  note w = cancel_wf [OF wf1 x1 app]
  have "\<not> contains (ro_id x) (me_book e')"
    using w(1,3,4) book_struct_disjoint [of "me_book e" x s] wf x
    by (auto simp: wf_engine_def wf_book_def contains_iff set_book_orders [of _ s] spec_remove_def)
  moreover have "me_lastTop e1 = book_top (me_book e)" using c(2) wf by (simp add: wf_engine_def)
  moreover obtain evs where "out' = out @ evs" using w(2) by (auto simp: emitted_def)
  ultimately show thesis
    using that [of e' evs] app w(3,4) emitTop_spec(1,4) [OF t] by (simp add: engine_apply_def)
qed

text \<open>Cancelling a live order removes exactly that order. The engine reports its side, price and
  remaining quantity as a client-initiated cancel (followed by a top-of-book event when the top
  changed), every other order of both sides keeps its place, and the id is unknown afterwards.\<close>
theorem cancel_live_order:
  assumes "wf_engine e" and "x \<in> set (side_orders s (me_book e))"
  shows "\<exists>e' evs. engine_apply (Cancel \<lparr>co_id = ro_id x\<rparr>) e out = Some (e', out @ evs) \<and>
    map body evs = OrderCancelled blank \<lparr>oc_id = ro_id x, oc_side = s, oc_price = ro_price x,
      oc_remaining = ro_quantity x, oc_engineInitiated = False\<rparr>
      # spec_top_events (book_top (me_book e)) (book_top (me_book e')) \<and>
    side_orders s (me_book e') = filter (\<lambda>y. ro_id y \<noteq> ro_id x) (side_orders s (me_book e)) \<and>
    side_orders (opposite s) (me_book e') = side_orders (opposite s) (me_book e) \<and>
    \<not> contains (ro_id x) (me_book e')"
  unfolding spec_remove_def [symmetric] by (rule engine_cancel_live [OF assms, of out]) (intro exI conjI)

theorem cancel_live_order_witness:
  "\<exists>e' evs. engine_apply (Cancel \<lparr>co_id = 2\<rparr>) demo_engine [] = Some (e', [] @ evs) \<and>
     side_orders Sell (me_book e') = [ask1, ask3] \<and> \<not> contains 2 (me_book e')"
proof -
  have "ask2 \<in> set (side_orders Sell (me_book demo_engine))" by (simp add: demo_asks)
  from cancel_live_order [OF demo_wf this, of "[]"] show ?thesis
    by (auto simp: demo_asks ask1_def ask2_def ask3_def)
qed

text \<open>Cancelling an id that is not live yields exactly one cancel rejection with the reason
  unknown order id and leaves everything but the two counters as it was.\<close>
theorem cancel_unknown_order:
  assumes "wf_engine e" and "co_id c \<notin> ro_id ` set (book_orders (me_book e))"
  shows "engine_apply (Cancel c) e out =
    Some (e\<lparr>me_commandSeq := me_commandSeq e + 1, me_eventSeq := me_eventSeq e + 1\<rparr>,
      out @ [CancelRejected \<lparr>commandSeq = me_commandSeq e + 1, eventSeq = me_eventSeq e + 1\<rparr> (co_id c) UnknownOrderId])"
proof -
  have "wf_engine (next_command e)" "\<not> contains (co_id c) (me_book (next_command e))"
    using assms by (auto simp: wf_engine_def wf_book_def contains_iff)
  from applyCancel_absent [OF this, of out] show ?thesis by (simp add: engine_apply_def)
qed

theorem cancel_unknown_order_witness:
  "\<exists>e'. engine_apply (Cancel \<lparr>co_id = 77\<rparr>) demo_engine [] = Some (e',
     [CancelRejected \<lparr>commandSeq = me_commandSeq demo_engine + 1, eventSeq = me_eventSeq demo_engine + 1\<rparr> 77 UnknownOrderId])"
proof -
  have "co_id \<lparr>co_id = 77\<rparr> \<notin> ro_id ` set (book_orders (me_book demo_engine))" by code_simp
  from cancel_unknown_order [OF demo_wf this, of "[]"] show ?thesis by simp
qed

section \<open>Snapshots\<close>

text \<open>C4: Snapshot and restore are inverse. Restoring the snapshot of a well-formed engine into any
  engine of the same instrument succeeds and yields exactly the engine that was captured: the
  book with its levels, queues and index, the three counters and the published top, so every
  later command has the same effect and the same events on both.\<close>
theorem snapshot_restore_roundtrip:
  assumes "wf_engine e" and "me_instrument e0 = me_instrument e"
  shows "restore (snapshot e) e0 = Some (True, e)"
  using assms by (rule restore_snapshot)

theorem snapshot_restore_roundtrip_witness:
  "restore (snapshot demo_engine) (new_engine 1) = Some (True, demo_engine)"
proof -
  have "me_instrument (new_engine 1) = me_instrument demo_engine" by code_simp
  then show ?thesis by (rule snapshot_restore_roundtrip [OF demo_wf])
qed

definition valid_snapshot :: "EngineSnapshot \<Rightarrow> bool" where
  "valid_snapshot snap \<longleftrightarrow> (\<forall>x\<in>set (sn_orders snap). 0 < ro_quantity x \<and> 0 < sint (ro_price x))"

lemma restore_valid:
  assumes "sn_instrument snap = me_instrument e" and "valid_snapshot snap"
  shows "restore snap e = map_option (\<lambda>(ok, b). if ok then
      (True, e\<lparr>me_book := b, me_commandSeq := sn_commandSeq snap, me_eventSeq := sn_eventSeq snap,
        me_arrivalCounter := sn_arrivalCounter snap, me_lastTop := sn_lastTop snap\<rparr>)
      else (False, e\<lparr>me_book := b\<rparr>)) (restoreOrders (sn_orders snap) empty_book)"
proof -
  have "\<not> (\<exists>x\<in>set (sn_orders snap). ro_quantity x = 0 \<or> sint (ro_price x) \<le> 0)"
    using assms(2) by (fastforce simp: valid_snapshot_def)
  with assms(1) show ?thesis
    by (cases "restoreOrders (sn_orders snap) empty_book") (auto simp: restore_def)
qed

text \<open>What restore accepts. For every snapshot and every engine the call returns (no assertion
  of the book can fail), and it reports success exactly when the instrument matches, every order
  has a positive quantity and price, and no order id occurs twice; then the rebuilt book is
  well-formed and holds exactly the orders of the snapshot.\<close>
theorem restore_accepts:
  "\<exists>ok e'. restore snap e = Some (ok, e') \<and>
     (ok \<longleftrightarrow> sn_instrument snap = me_instrument e \<and> valid_snapshot snap \<and> distinct (map ro_id (sn_orders snap))) \<and>
     (ok \<longrightarrow> wf_book (me_book e') \<and> set (book_orders (me_book e')) = set (sn_orders snap))"
proof (cases "sn_instrument snap = me_instrument e \<and> valid_snapshot snap")
  case False
  then have "restore snap e = Some (False, e)"
    by (auto simp: restore_def valid_snapshot_def not_less word_neq_0_conv)
  with False show ?thesis by auto
next
  case True
  then have pos: "\<forall>x\<in>set (sn_orders snap). 0 < ro_quantity x" by (simp add: valid_snapshot_def)
  show ?thesis
  proof (cases "distinct (map ro_id (sn_orders snap))")
    case dist: True
    obtain b where b: "restoreOrders (sn_orders snap) empty_book = Some (True, b)"
      by (rule restoreOrders_ok [of empty_book "sn_orders snap"])
        (use wf_empty_book pos dist in \<open>auto simp: wf_book_def book_orders_def\<close>)
    obtain ok b' where "restoreOrders (sn_orders snap) empty_book = Some (ok, b')" "wf_book b'"
      "ok \<Longrightarrow> set (book_orders b') = set (book_orders empty_book) \<union> set (sn_orders snap)"
      using wf_empty_book pos by (rule restoreOrders_total) blast
    with b have "wf_book b" "set (book_orders b) = set (sn_orders snap)" by (auto simp: book_orders_def)
    with b True dist show ?thesis by (intro exI [of _ True]) (simp add: restore_valid)
  next
    case False
    obtain b pre x post where "restoreOrders (sn_orders snap) empty_book = Some (False, b)"
      using wf_empty_book pos by (rule restoreOrders_dup) (use False in auto)
    with True False show ?thesis by (intro exI [of _ False]) (simp add: restore_valid)
  qed
qed

definition demo_snapshot :: "RestingOrder list \<Rightarrow> EngineSnapshot" where
  "demo_snapshot os = \<lparr>sn_instrument = 1, sn_commandSeq = 9, sn_eventSeq = 9, sn_arrivalCounter = 3,
     sn_lastTop = empty_top, sn_orders = os\<rparr>"

theorem restore_accepts_witness:
  "\<exists>e'. restore (demo_snapshot [ask1, ask2]) demo_engine = Some (True, e') \<and>
     set (book_orders (me_book e')) = {ask1, ask2}"
proof -
  have "sn_instrument (demo_snapshot [ask1, ask2]) = me_instrument demo_engine \<and>
    valid_snapshot (demo_snapshot [ask1, ask2]) \<and> distinct (map ro_id (sn_orders (demo_snapshot [ask1, ask2])))"
    by code_simp
  with restore_accepts [of "demo_snapshot [ask1, ask2]" demo_engine] show ?thesis
    by (auto simp: demo_snapshot_def)
qed

text \<open>C5: A snapshot with a repeated order id is refused, but not without effect: restore returns
  false after it has replaced the engine's book by the orders before the repetition, while the
  counters and the published top stay those of the old book.\<close>
theorem restore_duplicate_replaces_book:
  assumes "sn_instrument snap = me_instrument e" and "valid_snapshot snap"
    and "\<not> distinct (map ro_id (sn_orders snap))"
  shows "\<exists>b pre x post. restore snap e = Some (False, e\<lparr>me_book := b\<rparr>) \<and> wf_book b \<and>
    sn_orders snap = pre @ x # post \<and> distinct (map ro_id pre) \<and> ro_id x \<in> ro_id ` set pre \<and>
    set (book_orders b) = set pre"
proof -
  have pos: "\<forall>x\<in>set (sn_orders snap). 0 < ro_quantity x" using assms(2) by (simp add: valid_snapshot_def)
  obtain b pre x post where r: "restoreOrders (sn_orders snap) empty_book = Some (False, b)" "wf_book b"
    "sn_orders snap = pre @ x # post" "distinct (map ro_id pre)"
    "ro_id x \<in> ro_id ` (set (book_orders empty_book) \<union> set pre)"
    "set (book_orders b) = set (book_orders empty_book) \<union> set pre"
    using wf_empty_book pos by (rule restoreOrders_dup) (use assms(3) in auto)
  then have "restore snap e = Some (False, e\<lparr>me_book := b\<rparr>)" using assms by (simp add: restore_valid)
  with r show ?thesis
    by (intro exI [of _ b] exI [of _ pre] exI [of _ x] exI [of _ post]) (simp add: book_orders_def)
qed

theorem restore_duplicate_replaces_book_witness:
  "\<exists>b. restore (demo_snapshot [ask3, ask3]) demo_engine = Some (False, demo_engine\<lparr>me_book := b\<rparr>) \<and>
     set (book_orders b) \<noteq> set (book_orders (me_book demo_engine))"
proof -
  have "sn_instrument (demo_snapshot [ask3, ask3]) = me_instrument demo_engine"
    "valid_snapshot (demo_snapshot [ask3, ask3])" "\<not> distinct (map ro_id (sn_orders (demo_snapshot [ask3, ask3])))"
    by code_simp+
  from restore_duplicate_replaces_book [OF this] obtain b pre x post where
    "restore (demo_snapshot [ask3, ask3]) demo_engine = Some (False, demo_engine\<lparr>me_book := b\<rparr>)"
    "[ask3, ask3] = pre @ x # post" "set (book_orders b) = set pre"
    by (auto simp: demo_snapshot_def)
  moreover from this(2) have "ask1 \<notin> set pre"
    by (auto simp: Cons_eq_append_conv ask1_def ask3_def)
  moreover have "ask1 \<in> set (book_orders (me_book demo_engine))"
    using demo_asks by (simp add: set_book_orders [of _ Sell])
  ultimately show ?thesis by blast
qed

section \<open>Time priority\<close>

text \<open>Time priority is first in, first out. As long as the arrival counter has not reached its
  64-bit maximum, every command keeps, within each price of each side, the queue strictly
  ordered by arrival number, and no resting order has an arrival number above the counter.\<close>
theorem engine_keeps_fifo:
  assumes "wf_engine e" and "arrivals_ok e" and "me_arrivalCounter e \<noteq> - 1"
  shows "\<exists>e' evs. engine_apply cmd e out = Some (e', out @ evs) \<and> wf_engine e' \<and> arrivals_ok e'"
  by (rule engine_apply_total [OF assms(1), of cmd out]) (use engine_apply_arrivals [OF assms] in blast)

theorem engine_keeps_fifo_witness:
  "\<exists>e' evs. engine_apply (New (limit_order 5 Buy 102 6)) demo_engine [] = Some (e', [] @ evs) \<and>
     wf_engine e' \<and> arrivals_ok e'"
proof (rule engine_keeps_fifo [OF demo_wf])
  show "arrivals_ok demo_engine" by code_simp
  show "me_arrivalCounter demo_engine \<noteq> - 1" by code_simp
qed

end
