(* ===== verification/Book_Properties.thy ===== *)
theory Book_Properties
  imports Engine_Properties
begin

text \<open>
  The contract of \<open>OrderBook\<close> over its abstract view: every operation that changes the book is a
  list operation on one side's priority list, the queries read that list, and the view
  determines the concrete representation.
\<close>

section \<open>The priority list behind the levels\<close>

lemma filter_level:
  assumes "levels_struct s ls"
  shows "filter (\<lambda>x. ro_price x = p) (concat (map snd ls)) =
    (case smap_find (level_before s) p ls of None \<Rightarrow> [] | Some q \<Rightarrow> q)"
proof -
  have "smap_find (level_before s) p ls = map_of ls p"
    using assms by (intro lv.find_map_of levels_struct_ordered)
  moreover have "filter (\<lambda>x. ro_price x = p) (concat (map snd ls)) = (case map_of ls p of None \<Rightarrow> [] | Some q \<Rightarrow> q)"
    using assms
  proof (induction ls)
    case (Cons pq ls)
    obtain p' q where pq: "pq = (p', q)" by fastforce
    have ls: "levels_struct s ls" using Cons.prems by (auto simp: levels_struct_def pq)
    have q: "\<forall>x\<in>set q. ro_price x = p'" using Cons.prems by (auto simp: levels_struct_def pq)
    have "p' \<noteq> ro_price y" if "y \<in> set (concat (map snd ls))" for y
      using levels_later [OF Cons.prems [unfolded pq] that] lv.irrefl by metis
    then have "filter (\<lambda>x. ro_price x = p') (concat (map snd ls)) = []"
      by (auto simp only: filter_empty_conv)
    with Cons.IH [OF ls] q show ?case by (auto simp: pq filter_empty_conv intro: filter_True)
  qed simp
  ultimately show ?thesis by simp
qed

lemma queue_quantity_sum: "queue_quantity q = sum_list (map ro_quantity q)"
proof -
  have "fold (\<lambda>o' total. total + ro_quantity o') q a = a + sum_list (map ro_quantity q)" for a
    by (induction q arbitrary: a) (simp_all add: algebra_simps)
  then show ?thesis by (simp add: queue_quantity_def)
qed

lemma quantityAt_sum:
  assumes "book_struct b"
  shows "quantityAt s p b = sum_list (map ro_quantity (filter (\<lambda>x. ro_price x = p) (side_orders s b)))"
  using filter_level [OF book_struct_side [OF assms, of s], of p]
  by (simp add: quantityAt_def queue_quantity_sum side_orders_def split: option.split)

lemma front_level:
  assumes "book_struct b" and "side_levels s b = (p, q) # ls"
  shows "side_orders s b \<noteq> []" and "p = ro_price (hd (side_orders s b))"
    and "\<forall>x\<in>set (side_orders s b). \<not> level_before s (ro_price x) p"
    and "queue_quantity q = quantityAt s p b"
proof -
  have l: "levels_struct s ((p, q) # ls)" using book_struct_side [OF assms(1), of s] assms(2) by simp
  have v: "side_orders s b = q @ concat (map snd ls)" by (simp add: side_orders_def assms(2))
  have q: "q \<noteq> []" "\<forall>x\<in>set q. ro_price x = p" using l by (auto simp: levels_struct_def)
  then show "side_orders s b \<noteq> []" "p = ro_price (hd (side_orders s b))" by (simp_all add: v)
  show "\<forall>x\<in>set (side_orders s b). \<not> level_before s (ro_price x) p"
    using q levels_later [OF l] lv.irrefl lv.asym unfolding v by (metis Un_iff set_append)
  show "queue_quantity q = quantityAt s p b"
    using lv.irrefl [of s p] by (simp add: quantityAt_def assms(2))
qed

section \<open>Properties\<close>

text \<open>Resting an order with a positive quantity and a new id never fails and puts it behind every
  order of its side whose price is at least as good and in front of all worse ones; the other
  side is untouched and the id is found afterwards.\<close>
theorem rest_places_last_at_price:
  assumes "wf_book b" and "0 < ro_quantity x" and "\<not> contains (ro_id x) b"
  shows "\<exists>b' better worse. rest x b = Some b' \<and> wf_book b' \<and> contains (ro_id x) b' \<and>
    side_orders (ro_side x) b = better @ worse \<and> side_orders (ro_side x) b' = better @ x # worse \<and>
    (\<forall>y\<in>set better. \<not> level_before (ro_side x) (ro_price x) (ro_price y)) \<and>
    (\<forall>y\<in>set worse. level_before (ro_side x) (ro_price x) (ro_price y)) \<and>
    side_orders (opposite (ro_side x)) b' = side_orders (opposite (ro_side x)) b"
proof -
  let ?s = "ro_side x" and ?P = "\<lambda>y. \<not> level_before (ro_side x) (ro_price x) (ro_price y)"
  let ?os = "side_orders (ro_side x) b"
  have b: "book_struct b" using assms(1) by (simp add: wf_book_def)
  obtain b' where b': "rest x b = Some b'" "book_struct b'" "side_orders ?s b' = spec_rest x ?os"
    "side_orders (opposite ?s) b' = side_orders (opposite ?s) b"
    using b assms(2,3) by (rule rest_refines)
  have "wf_book b'" using assms(1,2) b' by (auto simp: wf_book_def set_book_orders [of _ ?s] set_spec_rest)
  moreover have "contains (ro_id x) b'" using b' by (auto simp: contains_iff set_book_orders [of _ ?s] set_spec_rest)
  moreover have "\<forall>y\<in>set (dropWhile ?P ?os). level_before ?s (ro_price x) (ro_price y)"
    using side_sorted_dropWhile [OF side_orders_sorted [OF b]] by blast
  moreover have "\<forall>y\<in>set (takeWhile ?P ?os). ?P y" using set_takeWhileD [of _ ?P ?os] by blast
  moreover have "side_orders ?s b' = takeWhile ?P ?os @ x # dropWhile ?P ?os"
    using b'(3) by (simp only: spec_rest_def Let_def)
  moreover have "?os = takeWhile ?P ?os @ dropWhile ?P ?os" by simp
  ultimately show ?thesis
    using b'(1,4) by (intro exI [of _ b'] exI [of _ "takeWhile ?P ?os"] exI [of _ "dropWhile ?P ?os"] conjI)
qed

theorem rest_places_last_at_price_witness:
  "\<exists>b'. rest (ask1\<lparr>ro_id := 9\<rparr>) (me_book demo_engine) = Some b' \<and>
     map ro_id (side_orders Sell b') = [1, 2, 9, 3]"
proof -
  have "wf_book (me_book demo_engine)" using demo_wf by (simp add: wf_engine_def)
  moreover have "0 < ro_quantity (ask1\<lparr>ro_id := 9\<rparr>)" "\<not> contains (ro_id (ask1\<lparr>ro_id := 9\<rparr>)) (me_book demo_engine)"
    by code_simp+
  ultimately obtain b' where "rest (ask1\<lparr>ro_id := 9\<rparr>) (me_book demo_engine) = Some b'"
    using rest_places_last_at_price by blast
  moreover have "map_option (\<lambda>b. map ro_id (side_orders Sell b)) (rest (ask1\<lparr>ro_id := 9\<rparr>) (me_book demo_engine)) = Some [1, 2, 9, 3]"
    by code_simp
  ultimately show ?thesis by simp
qed

text \<open>Reducing a live order by at most its quantity never trips an assertion: the order keeps its
  place with the smaller quantity, or disappears when the quantity reaches zero; every other
  order of the book keeps its place, and the book stays well-formed.\<close>
theorem reduce_live_order:
  assumes "wf_book b" and "x \<in> set (side_orders s b)" and "n \<le> ro_quantity x"
  shows "\<exists>b' pre post. reduce (ro_id x) n b = Some b' \<and> wf_book b' \<and> side_orders s b = pre @ x # post \<and>
    side_orders s b' = pre @ (if n = ro_quantity x then [] else [x\<lparr>ro_quantity := ro_quantity x - n\<rparr>]) @ post \<and>
    side_orders (opposite s) b' = side_orders (opposite s) b"
proof -
  let ?os = "side_orders s b"
  obtain b' where b': "reduce (ro_id x) n b = Some b'" "wf_book b'" "side_orders s b' = spec_reduce (ro_id x) n ?os"
    "side_orders (opposite s) b' = side_orders (opposite s) b"
    using assms by (rule reduce_refines)
  have pos: "\<forall>y\<in>set ?os. 0 < ro_quantity y" and dist: "distinct (map ro_id ?os)"
    using assms(1) book_struct_distinct_side by (auto simp: wf_book_def set_book_orders [of _ s])
  from assms(2) obtain pre post where os: "?os = pre @ x # post" by (auto simp: in_set_conv_decomp)
  have ids: "ro_id x \<notin> ro_id ` set pre" "ro_id x \<notin> ro_id ` set post" using dist os by auto
  have "spec_reduce (ro_id x) n ?os = pre @ (if n = ro_quantity x then [] else [x\<lparr>ro_quantity := ro_quantity x - n\<rparr>]) @ post"
    using spec_reduce_eq [OF dist assms(2) pos, of n] ids
    by (simp add: os spec_remove_def spec_update_def filter_absent_id map_absent_id)
  with b'(3) have "side_orders s b' = pre @ (if n = ro_quantity x then [] else [x\<lparr>ro_quantity := ro_quantity x - n\<rparr>]) @ post"
    by (rule trans)
  then show ?thesis
    by (intro exI [of _ b'] exI [of _ pre] exI [of _ post] conjI b' os)
qed

theorem reduce_live_order_witness:
  "\<exists>b'. reduce 2 3 (me_book demo_engine) = Some b' \<and> wf_book b'"
proof -
  have "wf_book (me_book demo_engine)" using demo_wf by (simp add: wf_engine_def)
  moreover have "ask2 \<in> set (side_orders Sell (me_book demo_engine))" by (simp add: demo_asks)
  moreover have "3 \<le> ro_quantity ask2" by (simp add: ask2_def)
  ultimately have "\<exists>b'. reduce (ro_id ask2) 3 (me_book demo_engine) = Some b' \<and> wf_book b'"
    using reduce_live_order by blast
  then show ?thesis by (simp add: ask2_def)
qed

text \<open>The published top of book is right. On a well-formed book, bestBid and bestAsk are the
  highest bid and the lowest ask (absent exactly when the side is empty), top() reports the
  same prices, and the quantities it reports are those of quantityAt at these prices, that is
  the sum (modulo 2^64) of the quantities of all orders resting there.\<close>
theorem top_of_book_correct:
  assumes "wf_book b"
  shows "bestBid b = (if side_orders Buy b = [] then None else Some (ro_price (hd (side_orders Buy b)))) \<and>
    bestAsk b = (if side_orders Sell b = [] then None else Some (ro_price (hd (side_orders Sell b)))) \<and>
    (\<forall>x\<in>set (side_orders Buy b). sint (ro_price x) \<le> sint (the (bestBid b))) \<and>
    (\<forall>x\<in>set (side_orders Sell b). sint (the (bestAsk b)) \<le> sint (ro_price x)) \<and>
    hasBid (book_top b) = (bestBid b \<noteq> None) \<and> hasAsk (book_top b) = (bestAsk b \<noteq> None) \<and>
    (bestBid b \<noteq> None \<longrightarrow> bidPrice (book_top b) = the (bestBid b) \<and>
      bidQuantity (book_top b) = quantityAt Buy (the (bestBid b)) b) \<and>
    (bestAsk b \<noteq> None \<longrightarrow> askPrice (book_top b) = the (bestAsk b) \<and>
      askQuantity (book_top b) = quantityAt Sell (the (bestAsk b)) b) \<and>
    quantityAt s p b = sum_list (map ro_quantity (filter (\<lambda>x. ro_price x = p) (side_orders s b)))"
proof -
  have b: "book_struct b" using assms by (simp add: wf_book_def)
  note fl = front_level [OF b]
  have Buy: "ob_bids b = [] \<and> side_orders Buy b = [] \<or> (\<exists>p q ls. ob_bids b = (p, q) # ls)"
    and Sell: "ob_asks b = [] \<and> side_orders Sell b = [] \<or> (\<exists>p q ls. ob_asks b = (p, q) # ls)"
    by (cases "ob_bids b"; auto simp: side_orders_def) (cases "ob_asks b"; auto simp: side_orders_def)
  have bid: "bestBid b = (if side_orders Buy b = [] then None else Some (ro_price (hd (side_orders Buy b)))) \<and>
      (\<forall>x\<in>set (side_orders Buy b). sint (ro_price x) \<le> sint (the (bestBid b))) \<and>
      hasBid (book_top b) = (bestBid b \<noteq> None) \<and> (bestBid b \<noteq> None \<longrightarrow> bidPrice (book_top b) = the (bestBid b) \<and>
        bidQuantity (book_top b) = quantityAt Buy (the (bestBid b)) b)"
    using Buy fl [of Buy]
    by (auto simp: bestBid_def book_top_def empty_top_def Let_def not_less split: list.splits)
  have ask: "bestAsk b = (if side_orders Sell b = [] then None else Some (ro_price (hd (side_orders Sell b)))) \<and>
      (\<forall>x\<in>set (side_orders Sell b). sint (the (bestAsk b)) \<le> sint (ro_price x)) \<and>
      hasAsk (book_top b) = (bestAsk b \<noteq> None) \<and> (bestAsk b \<noteq> None \<longrightarrow> askPrice (book_top b) = the (bestAsk b) \<and>
        askQuantity (book_top b) = quantityAt Sell (the (bestAsk b)) b)"
    using Sell fl [of Sell]
    by (auto simp: bestAsk_def book_top_def empty_top_def Let_def not_less split: list.splits)
  show ?thesis using bid ask quantityAt_sum [OF b] by blast
qed

theorem top_of_book_correct_witness:
  "askPrice (book_top (me_book demo_engine)) = 101 \<and> askQuantity (book_top (me_book demo_engine)) = 9"
proof -
  have "wf_book (me_book demo_engine)" using demo_wf by (simp add: wf_engine_def)
  from top_of_book_correct [OF this, of Sell 101] show ?thesis
    by (simp add: demo_asks ask1_def ask2_def ask3_def)
qed

end
