(* ===== verification/Byte_Hash.thy ===== *)
theory Byte_Hash
  imports Engine
begin

text \<open>
  Hashing byte by byte. The locale \<open>byte_hash\<close> states what makes a one-byte step lose nothing (for a
  fixed byte it is injective in the state, for a fixed state it is injective in the byte) and draws
  the consequence both users rely on: inputs that differ in a single byte never collide. It is
  interpreted here for the FNV-1a step behind \<open>OrderBook::checksum\<close> and
  \<open>MatchingEngine::stateChecksum\<close>, and in the write-ahead log for CRC-32.
\<close>

locale byte_hash =
  fixes hstep :: "Byte \<Rightarrow> 'h \<Rightarrow> 'h"
  assumes inj_state: "hstep b h = hstep b h' \<Longrightarrow> h = h'"
    and inj_byte: "hstep b h = hstep b' h \<Longrightarrow> b = b'"
begin

lemma fold_inj_state: "fold hstep bs h = fold hstep bs h' \<Longrightarrow> h = h'"
  by (induction bs arbitrary: h h') (auto dest: inj_state)

lemma one_byte_differs: "b \<noteq> b' \<Longrightarrow> fold hstep (xs @ b # ys) h \<noteq> fold hstep (xs @ b' # ys) h"
  by (auto dest!: fold_inj_state inj_byte)

end

section \<open>FNV-1a\<close>

definition kFnvOffset :: u64 where "kFnvOffset = 1469598103934665603"
definition kFnvPrime :: u64 where "kFnvPrime = 1099511628211"

definition fnv_step :: "Byte \<Rightarrow> u64 \<Rightarrow> u64" where
  "fnv_step b h = (h XOR ucast b) * kFnvPrime"

definition hashBytes :: "Byte list \<Rightarrow> u64 \<Rightarrow> u64" where
  "hashBytes bs h = fold fnv_step bs h"

text \<open>\<open>hashValue\<close> hashes the object representation; on the supported targets it is little endian.\<close>

definition hashValue :: "u64 \<Rightarrow> u64 \<Rightarrow> u64" where
  "hashValue v h = hashBytes (le_bytes 8 v) h"

definition mix :: "u64 \<Rightarrow> u64 \<Rightarrow> u64" where
  "mix v h = fold (\<lambda>i h. (h XOR (drop_bit (i * 8) v AND 0xFF)) * kFnvPrime) [0..<8] h"

definition hashQueue :: "OrderQueue \<Rightarrow> u64 \<Rightarrow> u64" where
  "hashQueue q h = fold (\<lambda>r h. hashValue (ro_arrival r) (hashValue (ro_quantity r) (hashValue (ro_id r) h))) q h"

definition hashLevels :: "Levels \<Rightarrow> u64 \<Rightarrow> u64" where
  "hashLevels ls h = fold (\<lambda>(price, q) h. hashQueue q (hashValue (of_nat (length q)) (hashValue price h))) ls h"

definition book_checksum :: "OrderBook \<Rightarrow> u64" where
  "book_checksum b =
     (let h0 = kFnvOffset;
          h1 = hashValue (of_nat (length (ob_bids b))) h0;
          h2 = hashLevels (ob_bids b) h1;
          h3 = hashValue (of_nat (length (ob_asks b))) h2
      in hashLevels (ob_asks b) h3)"

definition stateChecksum :: "MatchingEngine \<Rightarrow> u64" where
  "stateChecksum e =
     (let h0 = book_checksum (me_book e);
          h1 = mix (me_commandSeq e) h0;
          h2 = mix (me_eventSeq e) h1;
          h3 = mix (me_arrivalCounter e) h2
      in mix (ucast (me_instrument e)) h3)"

section \<open>The step is a bijection\<close>

lemma fnv_prime_inverse: "kFnvPrime * 14886173955864302971 = 1"
  by (simp add: kFnvPrime_def)

lemma fnv_mult_inj: "a * kFnvPrime = b * kFnvPrime \<Longrightarrow> a = b"
proof -
  assume "a * kFnvPrime = b * kFnvPrime"
  then have "a * (kFnvPrime * 14886173955864302971) = b * (kFnvPrime * 14886173955864302971)"
    by (simp only: mult.assoc [symmetric])
  then show ?thesis by (simp only: fnv_prime_inverse mult_1_right)
qed

lemma xor_right_cancel: "(a :: 'a :: len word) XOR c = b XOR c \<longleftrightarrow> a = b"
proof
  assume "a XOR c = b XOR c"
  then have "(a XOR c) XOR c = (b XOR c) XOR c" by simp
  then show "a = b" by (simp add: xor.assoc)
qed simp

lemma xor_left_cancel: "(c :: 'a :: len word) XOR a = c XOR b \<longleftrightarrow> a = b"
  using xor_right_cancel [of a c b] by (simp add: xor.commute)

lemma ucast_byte_inj:
  assumes "8 \<le> LENGTH('a::len)" and "(ucast (b :: Byte) :: 'a word) = ucast b'"
  shows "b = b'"
proof (rule bit_word_eqI)
  fix n assume "n < LENGTH(8)"
  with assms(1) have "n < LENGTH('a)" by simp
  with assms(2) show "bit b n = bit b' n" by (metis bit_ucast_iff possible_bit_word)
qed

interpretation fnv: byte_hash fnv_step
proof
  fix b h h' assume "fnv_step b h = fnv_step b h'"
  then have "h XOR ucast b = h' XOR ucast b" unfolding fnv_step_def by (rule fnv_mult_inj)
  then show "h = h'" by (simp add: xor_right_cancel)
next
  fix b b' h assume "fnv_step b h = fnv_step b' h"
  then have "h XOR ucast b = h XOR ucast b'" unfolding fnv_step_def by (rule fnv_mult_inj)
  then have "(ucast b :: u64) = ucast b'" by (simp only: xor_left_cancel)
  then show "b = b'" by (rule ucast_byte_inj [rotated]) simp
qed

lemma mix_eq_hashValue: "mix v h = hashValue v h"
proof -
  have "ucast (ucast (drop_bit k v AND 0xFF) :: u8) = drop_bit k v AND (0xFF :: u64)" for k
    using bit_mask_ff [where 'a = 64]
    by (intro bit_word_eqI) (auto simp: bit_and_iff bit_ucast_iff bit_drop_bit_eq simp del: bit_numeral_simps)
  then show ?thesis by (simp add: mix_def hashValue_def hashBytes_def le_bytes_def fnv_step_def [abs_def] fold_map o_def)
qed

end
