(* ===== verification/Command_Log.thy ===== *)
theory Command_Log
  imports Core_Types
begin

text \<open>
  The replicated command log (\<open>replication/command_log.hpp\<close>, \<open>replication/command_log.cpp\<close>): a deque of
  entries with consecutive sequence numbers, the boundary of the discarded prefix and the boundary
  of the snapshot the log continues from.

  The invariant \<open>log_ok\<close> says that the entries number \<open>log_base + 1, log_base + 2, \<dots>\<close> up to
  \<open>lastSeq\<close>. Under it every operation is a plain list operation on \<open>lg_entries\<close>; these facts are
  collected in \<open>log_simps\<close>, and the locale \<open>numbered_log\<close> states them as the contract on which the
  replicator relies.
\<close>

section \<open>State and operations\<close>

record LogEntry =
  le_seq :: Sequence
  le_term :: u64
  le_command :: Command

record CommandLog =
  lg_entries :: "LogEntry list"
  lg_lastSeq :: Sequence
  lg_snapshotSeq :: Sequence
  lg_snapshotTerm :: u64
  lg_truncatedThrough :: Sequence

definition new_log :: CommandLog where
  "new_log = \<lparr>lg_entries = [], lg_lastSeq = 0, lg_snapshotSeq = 0, lg_snapshotTerm = 0, lg_truncatedThrough = 0\<rparr>"

definition log_append :: "Command \<Rightarrow> u64 \<Rightarrow> CommandLog \<Rightarrow> Sequence \<times> CommandLog" where
  "log_append cmd trm L =
     (let seq = lg_lastSeq L + 1
      in (seq, L\<lparr>lg_entries := lg_entries L @ [\<lparr>le_seq = seq, le_term = trm, le_command = cmd\<rparr>], lg_lastSeq := seq\<rparr>))"

definition appendAt :: "Sequence \<Rightarrow> u64 \<Rightarrow> Command \<Rightarrow> CommandLog \<Rightarrow> bool \<times> CommandLog" where
  "appendAt seq trm cmd L =
     (if seq \<noteq> lg_lastSeq L + 1 then (False, L)
      else (True, L\<lparr>lg_entries := lg_entries L @ [\<lparr>le_seq = seq, le_term = trm, le_command = cmd\<rparr>], lg_lastSeq := seq\<rparr>))"

definition firstSeq :: "CommandLog \<Rightarrow> Sequence" where
  "firstSeq L = (if lg_entries L = [] then lg_truncatedThrough L + 1 else le_seq (hd (lg_entries L)))"

text \<open>\<open>entries_[offset]\<close> is unchecked in the code; \<open>at_in_bounds\<close> below shows that the invariant keeps
  the offset inside the deque.\<close>

definition log_at :: "Sequence \<Rightarrow> CommandLog \<Rightarrow> LogEntry option" where
  "log_at seq L =
     (if lg_entries L = [] \<or> seq < firstSeq L \<or> lg_lastSeq L < seq then None
      else Some (lg_entries L ! unat (seq - firstSeq L)))"

definition termAt :: "Sequence \<Rightarrow> CommandLog \<Rightarrow> u64 option" where
  "termAt seq L =
     (if seq = 0 then Some 0
      else if seq = lg_snapshotSeq L \<and> lg_snapshotSeq L \<noteq> 0 then Some (lg_snapshotTerm L)
      else (case log_at seq L of None \<Rightarrow> None | Some entry \<Rightarrow> Some (le_term entry)))"

fun pop_back_from :: "Sequence \<Rightarrow> LogEntry list \<Rightarrow> LogEntry list" where
  "pop_back_from seq es = (if es \<noteq> [] \<and> seq \<le> le_seq (last es) then pop_back_from seq (butlast es) else es)"

declare pop_back_from.simps [simp del]

definition truncateFrom :: "Sequence \<Rightarrow> CommandLog \<Rightarrow> CommandLog" where
  "truncateFrom seq L =
     (let es = pop_back_from seq (lg_entries L)
      in L\<lparr>lg_entries := es,
           lg_lastSeq := (if es = []
             then (if lg_truncatedThrough L < lg_snapshotSeq L then lg_snapshotSeq L else lg_truncatedThrough L)
             else le_seq (last es))\<rparr>)"

definition setSnapshotBoundary :: "Sequence \<Rightarrow> u64 \<Rightarrow> CommandLog \<Rightarrow> CommandLog" where
  "setSnapshotBoundary seq trm L =
     L\<lparr>lg_snapshotSeq := seq, lg_snapshotTerm := trm,
       lg_lastSeq := (if lg_lastSeq L < seq then seq else lg_lastSeq L),
       lg_truncatedThrough := (if lg_truncatedThrough L < seq then seq else lg_truncatedThrough L)\<rparr>"

text \<open>\<open>std::size_t\<close> has 64 bits, so \<open>entries_.size() - start\<close> is computed modulo \<open>2^64\<close>.\<close>

definition log_range :: "Sequence \<Rightarrow> u64 \<Rightarrow> CommandLog \<Rightarrow> LogEntry list" where
  "log_range from maxCount L =
     (if lg_entries L = [] \<or> lg_lastSeq L < from \<or> maxCount = 0 then []
      else if from < firstSeq L then []
      else
        let start = from - firstSeq L;
            available = of_nat (length (lg_entries L)) - start;
            count = (if available < maxCount then available else maxCount)
        in map (\<lambda>i. lg_entries L ! (unat start + i)) [0..<unat count])"

definition canServeFrom :: "Sequence \<Rightarrow> CommandLog \<Rightarrow> bool" where
  "canServeFrom from L \<longleftrightarrow> (if from = lg_lastSeq L + 1 then True else firstSeq L \<le> from \<and> from \<le> lg_lastSeq L)"

fun pop_front_through :: "Sequence \<Rightarrow> LogEntry list \<Rightarrow> Sequence \<Rightarrow> LogEntry list \<times> Sequence" where
  "pop_front_through seq [] tt = ([], tt)"
| "pop_front_through seq (e # es) tt =
     (if le_seq e \<le> seq then pop_front_through seq es (le_seq e) else (e # es, tt))"

definition log_truncateThrough :: "Sequence \<Rightarrow> CommandLog \<Rightarrow> CommandLog" where
  "log_truncateThrough seq L =
     (case pop_front_through seq (lg_entries L) (lg_truncatedThrough L) of
        (es, tt) \<Rightarrow> L\<lparr>lg_entries := es, lg_truncatedThrough := tt\<rparr>)"

definition log_clear :: "CommandLog \<Rightarrow> CommandLog" where
  "log_clear L = L\<lparr>lg_entries := [], lg_lastSeq := 0, lg_truncatedThrough := 0\<rparr>"

section \<open>Invariant\<close>

definition log_base :: "CommandLog \<Rightarrow> nat" where
  "log_base L = unat (lg_truncatedThrough L)"

definition log_ok :: "CommandLog \<Rightarrow> bool" where
  "log_ok L \<longleftrightarrow> (\<forall>i<length (lg_entries L). unat (le_seq (lg_entries L ! i)) = log_base L + 1 + i) \<and>
     unat (lg_lastSeq L) = log_base L + length (lg_entries L) \<and> lg_snapshotSeq L \<le> lg_truncatedThrough L"

lemma log_okD:
  assumes "log_ok L"
  shows "unat (lg_lastSeq L) = log_base L + length (lg_entries L)" and "lg_snapshotSeq L \<le> lg_truncatedThrough L"
    and "i < length (lg_entries L) \<Longrightarrow> unat (le_seq (lg_entries L ! i)) = log_base L + 1 + i"
    and "log_base L + length (lg_entries L) < 2 ^ 64"
  using assms unsigned_less [of "lg_lastSeq L", where 'a = nat] by (simp_all add: log_ok_def)

lemma firstSeq_eq: "log_ok L \<Longrightarrow> lg_entries L \<noteq> [] \<Longrightarrow> unat (firstSeq L) = log_base L + 1"
  using log_okD(3) [of L 0] by (simp add: firstSeq_def hd_conv_nth)

lemma firstSeq_unat: "log_ok L \<Longrightarrow> log_base L + 1 < 2 ^ 64 \<Longrightarrow> unat (firstSeq L) = log_base L + 1"
  using firstSeq_eq [of L] by (cases "lg_entries L = []") (simp_all add: firstSeq_def log_base_def unat_word_ariths)

lemma at_in_bounds:
  assumes "log_ok L" and "lg_entries L \<noteq> []" and "\<not> seq < firstSeq L" and "\<not> lg_lastSeq L < seq"
  shows "unat (seq - firstSeq L) = unat seq - log_base L - 1" and "log_base L < unat seq"
    and "unat (seq - firstSeq L) < length (lg_entries L)"
proof -
  have f: "unat (firstSeq L) = log_base L + 1" using assms(1,2) by (rule firstSeq_eq)
  have "unat (seq - firstSeq L) = unat seq - unat (firstSeq L)" using assms(3) by (simp add: unat_sub not_less)
  with f show e: "unat (seq - firstSeq L) = unat seq - log_base L - 1" by simp
  show b: "log_base L < unat seq" using f assms(3) by (simp add: word_less_nat_alt)
  have "unat seq \<le> log_base L + length (lg_entries L)"
    using assms(4) log_okD(1) [OF assms(1)] by (simp add: word_less_nat_alt)
  with e b show "unat (seq - firstSeq L) < length (lg_entries L)" by linarith
qed

lemma log_at_eq [log_simps]:
  assumes "log_ok L"
  shows "log_at seq L = (if log_base L < unat seq \<and> unat seq \<le> log_base L + length (lg_entries L)
    then Some (lg_entries L ! (unat seq - log_base L - 1)) else None)"
proof (cases "lg_entries L = [] \<or> seq < firstSeq L \<or> lg_lastSeq L < seq")
  case True
  then have "\<not> (log_base L < unat seq \<and> unat seq \<le> log_base L + length (lg_entries L))"
    using log_okD(1) [OF assms] firstSeq_eq [OF assms] by (cases "lg_entries L = []") (auto simp: word_less_nat_alt)
  with True show ?thesis by (auto simp: log_at_def)
next
  case False
  with at_in_bounds [OF assms, of seq] log_okD(1) [OF assms] show ?thesis
    by (auto simp: log_at_def word_less_nat_alt not_less)
qed

lemma log_range_eq [log_simps]:
  assumes "log_ok L"
  shows "log_range frm n L = (if log_base L < unat frm then take (unat n) (drop (unat frm - log_base L - 1) (lg_entries L)) else [])"
proof (cases "lg_entries L = [] \<or> lg_lastSeq L < frm \<or> n = 0 \<or> frm < firstSeq L")
  case True
  then have "log_base L < unat frm \<Longrightarrow> take (unat n) (drop (unat frm - log_base L - 1) (lg_entries L)) = []"
    using log_okD(1) [OF assms] firstSeq_eq [OF assms]
    by (cases "lg_entries L = []") (auto simp: word_less_nat_alt)
  with True show ?thesis by (auto simp: log_range_def)
next
  case False
  let ?es = "lg_entries L" and ?k = "unat (frm - firstSeq L)"
  note b = at_in_bounds [OF assms, of frm]
  have k: "?k = unat frm - log_base L - 1" "log_base L < unat frm" "?k < length ?es" using b False by auto
  have "unat (of_nat (length ?es) :: u64) = length ?es"
    using log_okD(4) [OF assms] by (simp add: unat_of_nat)
  moreover from this have "unat (of_nat (length ?es) - (frm - firstSeq L)) = length ?es - ?k"
    using k(3) by (simp add: unat_sub word_le_nat_alt)
  ultimately have "log_range frm n L = map (\<lambda>i. ?es ! (?k + i)) [0..<min (length ?es - ?k) (unat n)]"
    using False by (auto simp: log_range_def Let_def word_less_nat_alt min_def)
  also have "\<dots> = take (unat n) (drop ?k ?es)" by (rule nth_equalityI) auto
  finally show ?thesis using k by simp
qed

lemma canServeFrom_iff [log_simps]:
  assumes "log_ok L" and "log_base L + length (lg_entries L) + 1 < 2 ^ 64"
  shows "canServeFrom from L \<longleftrightarrow> log_base L < unat from \<and> unat from \<le> log_base L + length (lg_entries L) + 1"
proof -
  have f: "unat (firstSeq L) = log_base L + 1" using assms by (intro firstSeq_unat) simp_all
  have l: "unat (lg_lastSeq L + 1) = log_base L + length (lg_entries L) + 1"
    using assms log_okD(1) [OF assms(1)] by (simp add: unat_word_ariths)
  have "from = lg_lastSeq L + 1 \<longleftrightarrow> unat from = log_base L + length (lg_entries L) + 1"
    using l by (metis word_unat_eq_iff)
  then show ?thesis using f log_okD(1) [OF assms(1)] by (auto simp: canServeFrom_def word_le_nat_alt)
qed

section \<open>The operations keep the invariant\<close>

lemma new_log_ok: "log_ok new_log" and "log_base new_log = 0"
  by (simp_all add: log_ok_def new_log_def log_base_def)

definition log_room :: "CommandLog \<Rightarrow> bool" where
  "log_room L \<longleftrightarrow> lg_lastSeq L \<noteq> - 1"

lemma next_seq_unat: "lg_lastSeq L \<noteq> - 1 \<Longrightarrow> unat (lg_lastSeq L + 1) = unat (lg_lastSeq L) + 1"
  using word_Suc_less [of "lg_lastSeq L"] unatSuc [of "lg_lastSeq L"] max_word_wrap [of "lg_lastSeq L"]
  by (metis Suc_eq_plus1 add.commute)

lemma appendAt_eq [log_simps]:
  "appendAt seq trm cmd L = (seq = lg_lastSeq L + 1, if seq = lg_lastSeq L + 1
     then snd (log_append cmd trm L) else L)"
  by (simp add: appendAt_def log_append_def Let_def)

lemma log_append_ok:
  assumes "log_ok L" and "log_room L" and "log_append cmd trm L = (seq, L')"
  shows "log_ok L'" and "log_base L' = log_base L" and "unat seq = log_base L + length (lg_entries L) + 1"
    and "lg_entries L' = lg_entries L @ [\<lparr>le_seq = seq, le_term = trm, le_command = cmd\<rparr>]"
proof -
  have L': "L' = L\<lparr>lg_entries := lg_entries L @ [\<lparr>le_seq = seq, le_term = trm, le_command = cmd\<rparr>], lg_lastSeq := seq\<rparr>"
    and seq: "seq = lg_lastSeq L + 1" using assms(3) by (auto simp: log_append_def Let_def)
  show n: "unat seq = log_base L + length (lg_entries L) + 1"
    using next_seq_unat [of L] assms(2) log_okD(1) [OF assms(1)] seq by (simp add: log_room_def)
  show "log_base L' = log_base L" by (simp add: L' log_base_def)
  then show "log_ok L'" using assms(1) n by (auto simp: log_ok_def L' nth_append less_Suc_eq)
qed (use assms(3) in \<open>auto simp: log_append_def Let_def\<close>)

lemma pop_back_from_numbered:
  assumes "\<forall>i<length es. unat (le_seq (es ! i)) = b + 1 + i"
  shows "pop_back_from seq es = take (unat seq - b - 1) es"
  using assms
proof (induction es rule: rev_induct)
  case Nil
  then show ?case by (simp add: pop_back_from.simps)
next
  case (snoc e es)
  have e: "unat (le_seq e) = b + 1 + length es" using snoc.prems by (metis length_append_singleton lessI nth_append_length)
  have "\<forall>i<length es. unat (le_seq (es ! i)) = b + 1 + i"
    using snoc.prems by (metis length_append_singleton less_SucI nth_append)
  then have IH: "pop_back_from seq es = take (unat seq - b - 1) es" by (rule snoc.IH)
  show ?case
  proof (cases "seq \<le> le_seq e")
    case True
    then have "unat seq - b - 1 \<le> length es" using e by (simp add: word_le_nat_alt)
    with True IH show ?thesis by (simp add: pop_back_from.simps [of seq "es @ [e]"])
  next
    case False
    then have "length es < unat seq - b - 1" using e by (simp add: word_le_nat_alt)
    with False show ?thesis by (simp add: pop_back_from.simps [of seq "es @ [e]"])
  qed
qed

lemma truncateFrom_eq [log_simps]:
  assumes "log_ok L"
  shows "lg_entries (truncateFrom seq L) = take (unat seq - log_base L - 1) (lg_entries L)"
    and "log_base (truncateFrom seq L) = log_base L" and "log_ok (truncateFrom seq L)"
proof -
  have p: "pop_back_from seq (lg_entries L) = take (unat seq - log_base L - 1) (lg_entries L)" (is "_ = ?es")
    using assms by (intro pop_back_from_numbered) (simp add: log_ok_def)
  then show e: "lg_entries (truncateFrom seq L) = ?es" by (simp add: truncateFrom_def Let_def)
  show b: "log_base (truncateFrom seq L) = log_base L" by (simp add: truncateFrom_def Let_def log_base_def)
  have "unat (lg_lastSeq (truncateFrom seq L)) = log_base L + length ?es"
  proof (cases "?es = []")
    case True
    then show ?thesis using log_okD(2) [OF assms] by (auto simp: truncateFrom_def Let_def p log_base_def)
  next
    case False
    then have "unat (le_seq (last ?es)) = log_base L + 1 + (length ?es - 1)"
      using log_okD(3) [OF assms, of "length ?es - 1"] by (simp add: last_conv_nth del: take_eq_Nil take_eq_Nil2) (auto simp: min_def)
    with False show ?thesis by (simp add: truncateFrom_def Let_def p)
  qed
  then show "log_ok (truncateFrom seq L)"
    using e b log_okD [OF assms] by (simp add: log_ok_def) (simp add: truncateFrom_def Let_def)
qed

lemma pop_front_through_numbered:
  assumes "\<forall>i<length es. unat (le_seq (es ! i)) = unat tt + 1 + i"
  shows "\<exists>tt'. pop_front_through seq es tt = (drop (unat seq - unat tt) es, tt') \<and>
    unat tt' = unat tt + min (unat seq - unat tt) (length es)"
  using assms
proof (induction es arbitrary: tt)
  case (Cons e es)
  have e: "unat (le_seq e) = unat tt + 1" using Cons.prems by auto
  then have t: "\<forall>i<length es. unat (le_seq (es ! i)) = unat (le_seq e) + 1 + i" using Cons.prems by fastforce
  show ?case
  proof (cases "le_seq e \<le> seq")
    case True
    then have "unat seq - unat tt = Suc (unat seq - unat (le_seq e))" using e by (simp add: word_le_nat_alt)
    with True e Cons.IH [OF t] show ?thesis by auto
  next
    case False
    then have "unat seq - unat tt = 0" using e by (simp add: word_le_nat_alt)
    with False show ?thesis by simp
  qed
qed simp

lemma log_truncateThrough_eq [log_simps]:
  assumes "log_ok L"
  shows "lg_entries (log_truncateThrough seq L) = drop (unat seq - log_base L) (lg_entries L)"
    and "log_base (log_truncateThrough seq L) = log_base L + min (unat seq - log_base L) (length (lg_entries L))"
    and "log_ok (log_truncateThrough seq L)"
proof -
  have n: "\<forall>i<length (lg_entries L). unat (le_seq (lg_entries L ! i)) = unat (lg_truncatedThrough L) + 1 + i"
    using assms by (simp add: log_ok_def log_base_def)
  obtain tt where p: "pop_front_through seq (lg_entries L) (lg_truncatedThrough L) = (drop (unat seq - log_base L) (lg_entries L), tt)"
    "unat tt = log_base L + min (unat seq - log_base L) (length (lg_entries L))"
    using pop_front_through_numbered [OF n, of seq] by (auto simp: log_base_def)
  show e: "lg_entries (log_truncateThrough seq L) = drop (unat seq - log_base L) (lg_entries L)"
    using p(1) by (simp add: log_truncateThrough_def)
  show b: "log_base (log_truncateThrough seq L) = log_base L + min (unat seq - log_base L) (length (lg_entries L))"
    using p by (simp add: log_truncateThrough_def log_base_def)
  have "lg_truncatedThrough L \<le> lg_truncatedThrough (log_truncateThrough seq L)"
    using p by (simp add: log_truncateThrough_def log_base_def word_le_nat_alt)
  then show "log_ok (log_truncateThrough seq L)"
    using e b log_okD [OF assms] by (auto simp: log_ok_def log_truncateThrough_def p(1) intro: order_trans)
qed

lemma setSnapshotBoundary_ok:
  assumes "log_ok L" and "lg_entries L = [] \<or> seq \<le> lg_truncatedThrough L"
  shows "log_ok (setSnapshotBoundary seq trm L)" and "lg_entries (setSnapshotBoundary seq trm L) = lg_entries L"
    and "log_base (setSnapshotBoundary seq trm L) = max (log_base L) (unat seq)"
proof -
  show b: "log_base (setSnapshotBoundary seq trm L) = max (log_base L) (unat seq)"
    by (auto simp: setSnapshotBoundary_def log_base_def word_less_nat_alt)
  show "log_ok (setSnapshotBoundary seq trm L)"
    using b assms log_okD [OF assms(1)]
    by (auto simp: log_ok_def setSnapshotBoundary_def log_base_def word_less_nat_alt word_le_nat_alt not_less)
qed (simp add: setSnapshotBoundary_def)

lemma log_clear_ok: "lg_snapshotSeq L = 0 \<Longrightarrow> log_ok (log_clear L)"
  by (simp add: log_clear_def log_ok_def log_base_def)

end
