(* ===== verification/Wire.thy ===== *)
theory Wire
  imports Core_Types
begin

text \<open>
  The wire primitives (\<open>net/wire.hpp\<close>): \<open>WireWriter\<close> appends little-endian integers and
  length-prefixed strings to a buffer, \<open>WireReader\<close> reads them back with a bounds check on
  every read and a sticky failure flag.

  A reader is a function from the reader state to an optional value and the new state. The
  locale \<open>codec\<close> is the contract between a writer and its reader: the reader succeeds exactly
  when the writer's bytes for some admissible value lie ahead, and then consumes just them. It
  is interpreted for every primitive here and for every composite in the message layer.
\<close>

section \<open>Writer\<close>

definition w_u8 :: "u8 \<Rightarrow> Buffer \<Rightarrow> Buffer" where
  "w_u8 v out = out @ [v]"

definition w_u16 :: "u16 \<Rightarrow> Buffer \<Rightarrow> Buffer" where
  "w_u16 v out = out @ [ucast (v AND 0xFF), ucast (drop_bit 8 v AND 0xFF)]"

definition w_u32 :: "u32 \<Rightarrow> Buffer \<Rightarrow> Buffer" where
  "w_u32 v out = out @ le_bytes 4 v"

definition w_u64 :: "u64 \<Rightarrow> Buffer \<Rightarrow> Buffer" where
  "w_u64 v out = out @ le_bytes 8 v"

text \<open>The cast between \<open>int64_t\<close> and \<open>uint64_t\<close> keeps the bits.\<close>

definition w_i64 :: "i64 \<Rightarrow> Buffer \<Rightarrow> Buffer" where
  "w_i64 v out = w_u64 v out"

definition w_str :: "cstring \<Rightarrow> Buffer \<Rightarrow> Buffer" where
  "w_str s out = w_u32 (of_nat (length s)) out @ s"

section \<open>Reader\<close>

record WireReader =
  wr_data :: Buffer
  wr_pos :: nat
  wr_failed :: bool

type_synonym 'a reader = "WireReader \<Rightarrow> 'a option \<times> WireReader"

definition new_reader :: "Buffer \<Rightarrow> WireReader" where
  "new_reader data = \<lparr>wr_data = data, wr_pos = 0, wr_failed = False\<rparr>"

definition rd_ok :: "WireReader \<Rightarrow> bool" where
  "rd_ok r \<longleftrightarrow> \<not> wr_failed r"

definition rd_remaining :: "WireReader \<Rightarrow> nat" where
  "rd_remaining r = length (wr_data r) - wr_pos r"

definition rd_exhausted :: "WireReader \<Rightarrow> bool" where
  "rd_exhausted r \<longleftrightarrow> wr_pos r = length (wr_data r)"

definition need :: "nat \<Rightarrow> WireReader \<Rightarrow> bool \<times> WireReader" where
  "need n r =
     (if wr_failed r \<or> length (wr_data r) - wr_pos r < n then (False, r\<lparr>wr_failed := True\<rparr>) else (True, r))"

definition rd_u8 :: "u8 reader" where
  "rd_u8 r = (case need 1 r of
      (False, r') \<Rightarrow> (None, r')
    | (True, r') \<Rightarrow> (Some (wr_data r' ! wr_pos r'), r'\<lparr>wr_pos := wr_pos r' + 1\<rparr>))"

definition rd_u16 :: "u16 reader" where
  "rd_u16 r = (case need 2 r of
      (False, r') \<Rightarrow> (None, r')
    | (True, r') \<Rightarrow>
        (Some (ucast (wr_data r' ! wr_pos r') OR push_bit 8 (ucast (wr_data r' ! (wr_pos r' + 1)))),
         r'\<lparr>wr_pos := wr_pos r' + 2\<rparr>))"

definition rd_u32 :: "u32 reader" where
  "rd_u32 r = (case need 4 r of
      (False, r') \<Rightarrow> (None, r')
    | (True, r') \<Rightarrow>
        (Some (fold (\<lambda>i acc. acc OR push_bit (i * 8) (ucast (wr_data r' ! (wr_pos r' + i)))) [0..<4] 0),
         r'\<lparr>wr_pos := wr_pos r' + 4\<rparr>))"

definition rd_u64 :: "u64 reader" where
  "rd_u64 r = (case need 8 r of
      (False, r') \<Rightarrow> (None, r')
    | (True, r') \<Rightarrow>
        (Some (fold (\<lambda>i acc. acc OR push_bit (i * 8) (ucast (wr_data r' ! (wr_pos r' + i)))) [0..<8] 0),
         r'\<lparr>wr_pos := wr_pos r' + 8\<rparr>))"

definition rd_i64 :: "i64 reader" where
  "rd_i64 r = rd_u64 r"

definition rd_str :: "u32 \<Rightarrow> cstring reader" where
  "rd_str maxLen r = (case rd_u32 r of
      (None, r') \<Rightarrow> (None, r')
    | (Some len, r') \<Rightarrow>
        if len > maxLen then (None, r'\<lparr>wr_failed := True\<rparr>)
        else (case need (unat len) r' of
            (False, r'') \<Rightarrow> (None, r''\<lparr>wr_failed := True\<rparr>)
          | (True, r'') \<Rightarrow>
              (Some (take (unat len) (drop (wr_pos r'') (wr_data r''))), r''\<lparr>wr_pos := wr_pos r'' + unat len\<rparr>)))"

text \<open>Reads joined by \<open>||\<close>: the next read happens only when the one before it succeeded.\<close>

definition rd_return :: "'a \<Rightarrow> 'a reader" where
  "rd_return x r = (Some x, r)"

definition rd_fail :: "'a reader" where
  "rd_fail r = (None, r)"

definition rd_bind :: "'a reader \<Rightarrow> ('a \<Rightarrow> 'b reader) \<Rightarrow> 'b reader" where
  "rd_bind p f r = (case p r of (None, r') \<Rightarrow> (None, r') | (Some x, r') \<Rightarrow> f x r')"

section \<open>Consuming bytes\<close>

text \<open>\<open>reads r bs r'\<close>: the reader has not failed, the bytes \<open>bs\<close> lie ahead, and \<open>r'\<close> is the
  reader after them.\<close>

definition reads :: "WireReader \<Rightarrow> Byte list \<Rightarrow> WireReader \<Rightarrow> bool" where
  "reads r bs r' \<longleftrightarrow> \<not> wr_failed r \<and> wr_pos r + length bs \<le> length (wr_data r) \<and>
     take (length bs) (drop (wr_pos r) (wr_data r)) = bs \<and> r' = r\<lparr>wr_pos := wr_pos r + length bs\<rparr>"

lemma reads_append [wire_simps]: "reads r (as @ bs) r' \<longleftrightarrow> (\<exists>r1. reads r as r1 \<and> reads r1 bs r')"
proof -
  let ?xs = "drop (wr_pos r) (wr_data r)"
  have "take (length as + length bs) ?xs = as @ bs \<longleftrightarrow>
      take (length as) ?xs = as \<and> take (length bs) (drop (length as) ?xs) = bs"
    if "wr_pos r + (length as + length bs) \<le> length (wr_data r)"
  proof -
    have "length (take (length as) ?xs) = length as" using that by simp
    then show ?thesis unfolding take_add by (intro append_eq_append_conv) simp
  qed
  then have "reads r (as @ bs) r' \<longleftrightarrow> reads r as (r\<lparr>wr_pos := wr_pos r + length as\<rparr>) \<and>
      reads (r\<lparr>wr_pos := wr_pos r + length as\<rparr>) bs r'"
    unfolding reads_def by (auto simp: add.assoc add.commute [of "length as" "wr_pos r"] drop_drop)
  moreover have "reads r as r1 \<Longrightarrow> r1 = r\<lparr>wr_pos := wr_pos r + length as\<rparr>" for r1
    by (simp add: reads_def)
  ultimately show ?thesis by blast
qed

lemma reads_finished:
  "reads (new_reader data) bs r \<and> rd_ok r \<and> rd_exhausted r \<longleftrightarrow>
     data = bs \<and> r = \<lparr>wr_data = bs, wr_pos = length bs, wr_failed = False\<rparr>"
proof
  assume l: "reads (new_reader data) bs r \<and> rd_ok r \<and> rd_exhausted r"
  then have r: "r = \<lparr>wr_data = data, wr_pos = length bs, wr_failed = False\<rparr>" and "take (length bs) data = bs"
    by (simp_all add: reads_def new_reader_def)
  moreover from l r have "length bs = length data" by (simp add: rd_exhausted_def)
  ultimately have "data = bs" by simp
  with l show "data = bs \<and> r = \<lparr>wr_data = bs, wr_pos = length bs, wr_failed = False\<rparr>"
    by (simp add: reads_def new_reader_def)
qed (simp add: reads_def new_reader_def rd_exhausted_def rd_ok_def)

lemma rd_bind_Some [wire_simps]:
  "rd_bind p f r = (Some y, r') \<longleftrightarrow> (\<exists>x r1. p r = (Some x, r1) \<and> f x r1 = (Some y, r'))"
  by (auto simp: rd_bind_def split: prod.splits option.splits)

lemma rd_return_Some [wire_simps]: "rd_return x r = (Some y, r') \<longleftrightarrow> x = y \<and> r = r'"
  by (auto simp: rd_return_def)

lemma rd_fail_Some [wire_simps]: "\<not> rd_fail r = (Some y, r')"
  by (simp add: rd_fail_def)

section \<open>The contract of a writer and its reader\<close>

locale codec =
  fixes wr :: "'a \<Rightarrow> Buffer \<Rightarrow> Buffer"
    and rd :: "'a reader"
    and ok :: "'a \<Rightarrow> bool"
  assumes appends: "wr x out = out @ wr x []"
    and rd_iff: "rd r = (Some x, r') \<longleftrightarrow> ok x \<and> reads r (wr x []) r'"
begin

lemma roundtrip:
  assumes "ok x"
  shows "rd \<lparr>wr_data = pre @ wr x post', wr_pos = length pre + length post', wr_failed = False\<rparr> =
    (Some x, \<lparr>wr_data = pre @ wr x post', wr_pos = length pre + length (wr x post'), wr_failed = False\<rparr>)"
  using assms unfolding rd_iff by (simp add: appends [of x post'] reads_def)

lemma unique:
  assumes "ok x" and "ok y" and "wr x [] @ xs = wr y [] @ ys"
  shows "x = y" and "xs = ys"
proof -
  have step: "rd (new_reader (wr z [] @ zs)) = (Some z, \<lparr>wr_data = wr z [] @ zs, wr_pos = length (wr z []), wr_failed = False\<rparr>)"
    if "ok z" for z zs
    using that unfolding rd_iff by (simp add: reads_def new_reader_def)
  from step [OF assms(1), of xs] step [OF assms(2), of ys] assms(3) show "x = y" "xs = ys" by auto
qed

end

lemma need_eq: "need n r = (True, r') \<longleftrightarrow> \<not> wr_failed r \<and> n \<le> length (wr_data r) - wr_pos r \<and> r' = r"
  by (auto simp: need_def)

lemma fold_le_value:
  assumes "n \<le> length (wr_data r) - wr_pos r"
  shows "fold (\<lambda>i acc. acc OR push_bit (i * 8) (ucast (wr_data r ! (wr_pos r + i)))) [0..<n] (0 :: 'a::len word) =
    le_value (take n (drop (wr_pos r) (wr_data r)))"
proof -
  have "wr_data r ! (wr_pos r + i) = take n (drop (wr_pos r) (wr_data r)) ! i" if "i < n" for i
    using assms that by simp
  moreover have "length (take n (drop (wr_pos r) (wr_data r))) = n" using assms by simp
  ultimately show ?thesis unfolding le_value_def by (intro fold_cong) auto
qed

text \<open>An integer reader returns the little-endian value of the next bytes.\<close>

lemma le_reads:
  assumes "LENGTH('a::len) = n * 8" and "0 < n"
  shows "\<not> wr_failed r \<and> n \<le> length (wr_data r) - wr_pos r \<and>
      le_value (take n (drop (wr_pos r) (wr_data r))) = (x :: 'a word) \<and> r' = r\<lparr>wr_pos := wr_pos r + n\<rparr>
    \<longleftrightarrow> reads r (le_bytes n x) r'"
proof -
  have "le_value bs = x \<longleftrightarrow> bs = le_bytes n x" if "length bs = n" for bs
    using le_value_le_bytes [OF assms(1), of x] le_bytes_le_value [OF assms(1) that] by auto
  moreover have "n \<le> length (wr_data r) - wr_pos r \<longleftrightarrow> wr_pos r + n \<le> length (wr_data r)"
    using assms(2) by auto
  moreover have "length (take n (drop (wr_pos r) (wr_data r))) = n" if "wr_pos r + n \<le> length (wr_data r)"
    using that by simp
  ultimately show ?thesis unfolding reads_def length_le_bytes by blast
qed

interpretation c_u8: codec w_u8 rd_u8 "\<lambda>_. True"
proof
  fix r r' :: WireReader and x :: u8
  have "take 1 (drop n xs) = [x] \<longleftrightarrow> xs ! n = x" if "n < length xs" for n and xs :: "u8 list"
    using that by (simp add: take_Suc_conv_app_nth [of 0, simplified])
  then show "rd_u8 r = (Some x, r') \<longleftrightarrow> True \<and> reads r (w_u8 x []) r'"
    by (auto simp: rd_u8_def need_def reads_def w_u8_def)
qed (simp add: w_u8_def)

interpretation c_u32: codec w_u32 rd_u32 "\<lambda>_. True"
proof
  fix r r' :: WireReader and x :: u32
  show "rd_u32 r = (Some x, r') \<longleftrightarrow> True \<and> reads r (w_u32 x []) r'"
    using le_reads [where 'a = 32, of 4 r x r'] fold_le_value [where 'a = 32, of 4 r]
    by (auto simp: rd_u32_def need_def w_u32_def not_less simp del: upt_rec_numeral upt_Suc)
qed (simp add: w_u32_def)

interpretation c_u64: codec w_u64 rd_u64 "\<lambda>_. True"
proof
  fix r r' :: WireReader and x :: u64
  show "rd_u64 r = (Some x, r') \<longleftrightarrow> True \<and> reads r (w_u64 x []) r'"
    using le_reads [where 'a = 64, of 8 r x r'] fold_le_value [where 'a = 64, of 8 r]
    by (auto simp: rd_u64_def need_def w_u64_def not_less simp del: upt_rec_numeral upt_Suc)
qed (simp add: w_u64_def)

interpretation c_i64: codec w_i64 rd_i64 "\<lambda>_. True"
  by unfold_locales (simp_all add: w_i64_def rd_i64_def c_u64.rd_iff w_u64_def)

lemma le_bytes_2: "le_bytes 2 (v :: u16) = [ucast (v AND 0xFF), ucast (drop_bit 8 v AND 0xFF)]"
  by (simp add: le_bytes_def numeral_2_eq_2)

interpretation c_u16: codec w_u16 rd_u16 "\<lambda>_. True"
proof
  fix r r' :: WireReader and x :: u16
  have "ucast (wr_data r ! wr_pos r) OR push_bit 8 (ucast (wr_data r ! (wr_pos r + 1))) =
      (le_value (take 2 (drop (wr_pos r) (wr_data r))) :: u16)"
    if "2 \<le> length (wr_data r) - wr_pos r"
    using fold_le_value [where 'a = 16, OF that] by (simp add: numeral_2_eq_2)
  then show "rd_u16 r = (Some x, r') \<longleftrightarrow> True \<and> reads r (w_u16 x []) r'"
    using le_reads [where 'a = 16, of 2 r x r']
    by (auto simp: rd_u16_def need_def w_u16_def le_bytes_2 [symmetric] not_less)
qed (simp add: w_u16_def)

lemma reads_pos: "reads r bs r' \<Longrightarrow> wr_pos r' \<le> length (wr_data r') \<and> \<not> wr_failed r'"
  by (auto simp: reads_def)

text \<open>Reading a fixed number of bytes.\<close>

lemma take_reads:
  assumes "wr_pos r \<le> length (wr_data r)"
  shows "\<not> wr_failed r \<and> n \<le> length (wr_data r) - wr_pos r \<and> take n (drop (wr_pos r) (wr_data r)) = x \<and>
      r' = r\<lparr>wr_pos := wr_pos r + n\<rparr> \<longleftrightarrow> length x = n \<and> reads r x r'"
  using assms by (auto simp: reads_def)

interpretation c_str: codec w_str "rd_str maxLen" "\<lambda>s. length s \<le> unat maxLen" for maxLen
proof
  fix r r' :: WireReader and x :: cstring
  have cast: "unat (of_nat (length x) :: u32) = length x" if "length x \<le> unat maxLen"
    using that unsigned_less [of maxLen, where ?'a = nat] by (simp add: unat_of_nat)
  have "rd_str maxLen r = (Some x, r') \<longleftrightarrow>
      (\<exists>len r1. rd_u32 r = (Some len, r1) \<and> len \<le> maxLen \<and> length x = unat len \<and> reads r1 x r')"
    (is "?L \<longleftrightarrow> ?R")
  proof -
    have "?L \<longleftrightarrow> (\<exists>len r1. rd_u32 r = (Some len, r1) \<and> len \<le> maxLen \<and>
        (\<not> wr_failed r1 \<and> unat len \<le> length (wr_data r1) - wr_pos r1 \<and>
         take (unat len) (drop (wr_pos r1) (wr_data r1)) = x \<and> r' = r1\<lparr>wr_pos := wr_pos r1 + unat len\<rparr>))"
      by (auto simp: rd_str_def need_def not_less split: prod.splits option.splits)
    also have "\<dots> \<longleftrightarrow> ?R"
    proof (rule iff_exI, rule iff_exI, rule conj_cong [OF refl], rule conj_cong [OF refl], rule take_reads)
      fix len r1 assume "rd_u32 r = (Some len, r1)"
      then show "wr_pos r1 \<le> length (wr_data r1)" using reads_pos by (simp add: c_u32.rd_iff)
    qed
    finally show ?thesis .
  qed
  also have "\<dots> \<longleftrightarrow> length x \<le> unat maxLen \<and> (\<exists>r1. rd_u32 r = (Some (of_nat (length x)), r1) \<and> reads r1 x r')"
  proof -
    have "len \<le> maxLen \<and> length x = unat len \<longleftrightarrow> length x \<le> unat maxLen \<and> len = of_nat (length x)" for len
      using cast by (auto simp: word_le_nat_alt)
    then show ?thesis by metis
  qed
  also have "\<dots> \<longleftrightarrow> length x \<le> unat maxLen \<and> reads r (w_str x []) r'"
    by (simp add: c_u32.rd_iff w_str_def reads_append)
  finally show "rd_str maxLen r = (Some x, r') \<longleftrightarrow> length x \<le> unat maxLen \<and> reads r (w_str x []) r'" .
qed (simp add: w_str_def w_u32_def)

lemmas codec_iffs [wire_simps] =
  c_u8.rd_iff c_u16.rd_iff c_u32.rd_iff c_u64.rd_iff c_i64.rd_iff c_str.rd_iff

lemmas codec_appends =
  c_u8.appends c_u16.appends c_u32.appends c_u64.appends c_i64.appends c_str.appends

end
