(* ===== verification/Message.thy ===== *)
theory Message
  imports Wire
begin

text \<open>
  The message layer (\<open>net/message.hpp\<close>, \<open>net/message.cpp\<close>): the eight message types exchanged
  by the nodes, their framing on the wire and the decoder for untrusted payloads.

  The main lemma says that \<open>decodeBody\<close> accepts a payload exactly when it is the encoding of an
  admissible message of the given type, so encoding and decoding are inverse in both directions
  and no payload has two readings.
\<close>

section \<open>Constants and message types\<close>

definition kMagic :: u32 where "kMagic = 0x544E4553"

definition kVersion :: u16 where "kVersion = 1"

definition kHeaderSize :: nat where "kHeaderSize = 12"

definition kMaxPayload :: u32 where "kMaxPayload = push_bit 20 1"

definition kMaxEntriesPerAppend :: nat where "kMaxEntriesPerAppend = 512"

definition kMaxAddressLen :: u32 where "kMaxAddressLen = 256"

type_synonym NodeId = u32

text \<open>An enumeration with a fixed underlying type also takes the values it does not name.\<close>

datatype MessageType = T_Hello | T_Heartbeat | T_CommandForward | T_EventAck | T_AppendEntries
  | T_AppendResponse | T_RequestVote | T_VoteResponse | T_Other u16

fun type_value :: "MessageType \<Rightarrow> u16" where
  "type_value T_Hello = 1"
| "type_value T_Heartbeat = 2"
| "type_value T_CommandForward = 3"
| "type_value T_EventAck = 4"
| "type_value T_AppendEntries = 10"
| "type_value T_AppendResponse = 11"
| "type_value T_RequestVote = 20"
| "type_value T_VoteResponse = 21"
| "type_value (T_Other v) = v"

text \<open>\<open>static_cast<MessageType>(v)\<close>.\<close>

definition type_of_value :: "u16 \<Rightarrow> MessageType" where
  "type_of_value v =
     (if v = 1 then T_Hello else if v = 2 then T_Heartbeat else if v = 3 then T_CommandForward
      else if v = 4 then T_EventAck else if v = 10 then T_AppendEntries else if v = 11 then T_AppendResponse
      else if v = 20 then T_RequestVote else if v = 21 then T_VoteResponse else T_Other v)"

record HelloMsg =
  he_nodeId :: NodeId
  he_protocolVersion :: u16
  he_advertisedAddress :: cstring

record HeartbeatMsg =
  hb_nodeId :: NodeId
  hb_counter :: u64

record CommandForwardMsg =
  cf_originNodeId :: NodeId
  cf_originSeq :: u64
  cf_command :: Command

record EventAckMsg =
  ea_nodeId :: NodeId
  ea_throughEventSeq :: u64
  ea_stateChecksum :: u64

record LogRecord =
  lr_seq :: u64
  lr_term :: u64
  lr_command :: Command

record AppendEntriesMsg =
  ae_term :: u64
  ae_leaderId :: NodeId
  ae_prevSeq :: u64
  ae_prevTerm :: u64
  ae_commitSeq :: u64
  ae_entries :: "LogRecord list"

record AppendResponseMsg =
  ar_term :: u64
  ar_nodeId :: NodeId
  ar_lastLogSeq :: u64
  ar_ok :: bool
  ar_lastApplied :: u64
  ar_stateChecksum :: u64

record RequestVoteMsg =
  rv_term :: u64
  rv_candidateId :: NodeId
  rv_lastLogSeq :: u64

record VoteResponseMsg =
  vr_term :: u64
  vr_voterId :: NodeId
  vr_granted :: bool

datatype Message = Hello HelloMsg | Heartbeat HeartbeatMsg | CommandForward CommandForwardMsg
  | EventAck EventAckMsg | AppendEntries AppendEntriesMsg | AppendResponse AppendResponseMsg
  | RequestVote RequestVoteMsg | VoteResponse VoteResponseMsg

fun typeOf :: "Message \<Rightarrow> MessageType" where
  "typeOf (Hello _) = T_Hello"
| "typeOf (Heartbeat _) = T_Heartbeat"
| "typeOf (CommandForward _) = T_CommandForward"
| "typeOf (EventAck _) = T_EventAck"
| "typeOf (AppendEntries _) = T_AppendEntries"
| "typeOf (AppendResponse _) = T_AppendResponse"
| "typeOf (RequestVote _) = T_RequestVote"
| "typeOf (VoteResponse _) = T_VoteResponse"

section \<open>Encoding\<close>

fun encodeCommand :: "Command \<Rightarrow> Buffer \<Rightarrow> Buffer" where
  "encodeCommand (New n) out =
     w_u64 (no_quantity n) (w_i64 (no_price n) (w_u8 (tif_code (no_tif n)) (w_u8 (type_code (no_type n))
       (w_u8 (side_code (no_side n)) (w_u32 (no_instrument n) (w_u64 (no_id n) (w_u8 0 out)))))))"
| "encodeCommand (Cancel c) out = w_u64 (co_id c) (w_u8 1 out)"

definition encodeLogRecord :: "LogRecord \<Rightarrow> Buffer \<Rightarrow> Buffer" where
  "encodeLogRecord e out = encodeCommand (lr_command e) (w_u64 (lr_term e) (w_u64 (lr_seq e) out))"

definition bool_byte :: "bool \<Rightarrow> u8" where
  "bool_byte b = (if b then 1 else 0)"

fun encodeBody :: "Message \<Rightarrow> Buffer \<Rightarrow> Buffer" where
  "encodeBody (Hello m) out =
     w_str (he_advertisedAddress m) (w_u16 (he_protocolVersion m) (w_u32 (he_nodeId m) out))"
| "encodeBody (Heartbeat m) out = w_u64 (hb_counter m) (w_u32 (hb_nodeId m) out)"
| "encodeBody (CommandForward m) out =
     encodeCommand (cf_command m) (w_u64 (cf_originSeq m) (w_u32 (cf_originNodeId m) out))"
| "encodeBody (EventAck m) out =
     w_u64 (ea_stateChecksum m) (w_u64 (ea_throughEventSeq m) (w_u32 (ea_nodeId m) out))"
| "encodeBody (AppendEntries m) out =
     fold encodeLogRecord (ae_entries m)
       (w_u32 (of_nat (length (ae_entries m))) (w_u64 (ae_commitSeq m) (w_u64 (ae_prevTerm m)
         (w_u64 (ae_prevSeq m) (w_u32 (ae_leaderId m) (w_u64 (ae_term m) out))))))"
| "encodeBody (AppendResponse m) out =
     w_u64 (ar_stateChecksum m) (w_u64 (ar_lastApplied m) (w_u8 (bool_byte (ar_ok m))
       (w_u64 (ar_lastLogSeq m) (w_u32 (ar_nodeId m) (w_u64 (ar_term m) out)))))"
| "encodeBody (RequestVote m) out =
     w_u64 (rv_lastLogSeq m) (w_u32 (rv_candidateId m) (w_u64 (rv_term m) out))"
| "encodeBody (VoteResponse m) out =
     w_u8 (bool_byte (vr_granted m)) (w_u32 (vr_voterId m) (w_u64 (vr_term m) out))"

text \<open>The header is written with a zero length, which is patched once the body is known.\<close>

definition encode :: "Message \<Rightarrow> Buffer \<Rightarrow> Buffer" where
  "encode m out =
     (let frameStart = length out;
          out1 = w_u32 0 (w_u16 (type_value (typeOf m)) (w_u16 kVersion (w_u32 kMagic out)));
          bodyStart = length out1;
          out2 = encodeBody m out1;
          bodyLen = length out2 - bodyStart;
          len = (of_nat bodyLen :: u32)
      in fold (\<lambda>i buf. buf[frameStart + 8 + i := ucast (drop_bit (i * 8) len AND 0xFF)]) [0..<4] out2)"

section \<open>Decoding\<close>

definition decodeCommand :: "Command reader" where
  "decodeCommand =
     rd_bind rd_u8 (\<lambda>tag.
       if tag = 0 then
         rd_bind rd_u64 (\<lambda>i. rd_bind rd_u32 (\<lambda>instr. rd_bind rd_u8 (\<lambda>side. rd_bind rd_u8 (\<lambda>ty.
         rd_bind rd_u8 (\<lambda>tif. rd_bind rd_i64 (\<lambda>price. rd_bind rd_u64 (\<lambda>qty.
           if side > 1 \<or> ty > 1 \<or> tif > 1 then rd_fail
           else rd_return (New \<lparr>no_id = i, no_instrument = instr, no_side = side_of_code side,
             no_type = type_of_code ty, no_tif = tif_of_code tif, no_price = price, no_quantity = qty\<rparr>))))))))
       else if tag = 1 then rd_bind rd_u64 (\<lambda>i. rd_return (Cancel \<lparr>co_id = i\<rparr>))
       else rd_fail)"

definition decodeLogRecord :: "LogRecord reader" where
  "decodeLogRecord = rd_bind rd_u64 (\<lambda>s. rd_bind rd_u64 (\<lambda>t. rd_bind decodeCommand (\<lambda>c.
     rd_return \<lparr>lr_seq = s, lr_term = t, lr_command = c\<rparr>)))"

text \<open>The loop \<open>for (i = 0; i < count; ++i)\<close>, which leaves at the first failing read.\<close>

fun rd_list :: "nat \<Rightarrow> 'a reader \<Rightarrow> 'a list reader" where
  "rd_list 0 p = rd_return []"
| "rd_list (Suc n) p = rd_bind p (\<lambda>x. rd_bind (rd_list n p) (\<lambda>xs. rd_return (x # xs)))"

text \<open>\<open>if (!r.ok() || !r.exhausted()) return nullopt\<close>.\<close>

definition rd_end :: "'a \<Rightarrow> 'a reader" where
  "rd_end x r = (if \<not> rd_ok r \<or> \<not> rd_exhausted r then (None, r) else (Some x, r))"

fun bodyReader :: "MessageType \<Rightarrow> Message reader" where
  "bodyReader T_Hello =
     rd_bind rd_u32 (\<lambda>n. rd_bind rd_u16 (\<lambda>v. rd_bind (rd_str kMaxAddressLen) (\<lambda>a.
       rd_end (Hello \<lparr>he_nodeId = n, he_protocolVersion = v, he_advertisedAddress = a\<rparr>))))"
| "bodyReader T_Heartbeat =
     rd_bind rd_u32 (\<lambda>n. rd_bind rd_u64 (\<lambda>c. rd_end (Heartbeat \<lparr>hb_nodeId = n, hb_counter = c\<rparr>)))"
| "bodyReader T_CommandForward =
     rd_bind rd_u32 (\<lambda>n. rd_bind rd_u64 (\<lambda>s. rd_bind decodeCommand (\<lambda>c.
       rd_end (CommandForward \<lparr>cf_originNodeId = n, cf_originSeq = s, cf_command = c\<rparr>))))"
| "bodyReader T_EventAck =
     rd_bind rd_u32 (\<lambda>n. rd_bind rd_u64 (\<lambda>t. rd_bind rd_u64 (\<lambda>c.
       rd_end (EventAck \<lparr>ea_nodeId = n, ea_throughEventSeq = t, ea_stateChecksum = c\<rparr>))))"
| "bodyReader T_AppendEntries =
     rd_bind rd_u64 (\<lambda>t. rd_bind rd_u32 (\<lambda>l. rd_bind rd_u64 (\<lambda>ps. rd_bind rd_u64 (\<lambda>pt.
     rd_bind rd_u64 (\<lambda>cs. rd_bind rd_u32 (\<lambda>count.
       if unat count > kMaxEntriesPerAppend then rd_fail
       else rd_bind (rd_list (unat count) decodeLogRecord) (\<lambda>es.
         rd_end (AppendEntries \<lparr>ae_term = t, ae_leaderId = l, ae_prevSeq = ps, ae_prevTerm = pt,
           ae_commitSeq = cs, ae_entries = es\<rparr>))))))))"
| "bodyReader T_AppendResponse =
     rd_bind rd_u64 (\<lambda>t. rd_bind rd_u32 (\<lambda>n. rd_bind rd_u64 (\<lambda>ll. rd_bind rd_u8 (\<lambda>k.
     rd_bind rd_u64 (\<lambda>la. rd_bind rd_u64 (\<lambda>sc. rd_bind (rd_end ()) (\<lambda>_.
       if k > 1 then rd_fail
       else rd_return (AppendResponse \<lparr>ar_term = t, ar_nodeId = n, ar_lastLogSeq = ll, ar_ok = (k = 1),
         ar_lastApplied = la, ar_stateChecksum = sc\<rparr>))))))))"
| "bodyReader T_RequestVote =
     rd_bind rd_u64 (\<lambda>t. rd_bind rd_u32 (\<lambda>c. rd_bind rd_u64 (\<lambda>ll.
       rd_end (RequestVote \<lparr>rv_term = t, rv_candidateId = c, rv_lastLogSeq = ll\<rparr>))))"
| "bodyReader T_VoteResponse =
     rd_bind rd_u64 (\<lambda>t. rd_bind rd_u32 (\<lambda>v. rd_bind rd_u8 (\<lambda>g. rd_bind (rd_end ()) (\<lambda>_.
       if g > 1 then rd_fail
       else rd_return (VoteResponse \<lparr>vr_term = t, vr_voterId = v, vr_granted = (g = 1)\<rparr>)))))"
| "bodyReader (T_Other _) = rd_fail"

definition decodeBody :: "MessageType \<Rightarrow> Buffer \<Rightarrow> Message option" where
  "decodeBody ty data = fst (bodyReader ty (new_reader data))"

section \<open>Composite codecs\<close>

lemma writes_nonempty [simp]:
  "w_u8 a out \<noteq> []" "w_u16 b out \<noteq> []" "w_u32 c out \<noteq> []" "w_u64 d out \<noteq> []" "w_i64 d out \<noteq> []" "w_str s out \<noteq> []"
  by (simp_all add: w_u8_def w_u16_def w_u32_def w_u64_def w_i64_def w_str_def le_bytes_def)

text \<open>Writing behind something already written is appending.\<close>

lemma writes_append [wire_simps]:
  "out \<noteq> [] \<Longrightarrow> w_u8 a out = out @ w_u8 a []" "out \<noteq> [] \<Longrightarrow> w_u16 b out = out @ w_u16 b []"
  "out \<noteq> [] \<Longrightarrow> w_u32 c out = out @ w_u32 c []" "out \<noteq> [] \<Longrightarrow> w_u64 d out = out @ w_u64 d []"
  "out \<noteq> [] \<Longrightarrow> w_i64 d out = out @ w_i64 d []" "out \<noteq> [] \<Longrightarrow> w_str s out = out @ w_str s []"
  by (rule codec_appends)+

lemma encodeCommand_append: "encodeCommand c out = out @ encodeCommand c []"
  by (cases c) (simp_all add: w_u8_def w_u32_def w_u64_def w_i64_def)

lemma encodeCommand_behind [wire_simps]: "out \<noteq> [] \<Longrightarrow> encodeCommand c out = out @ encodeCommand c []"
  by (rule encodeCommand_append)

lemma not_less_u8 [simp]: "\<not> (1 :: u8) < bool_byte b" "bool_byte b = 1 \<longleftrightarrow> b"
  by (simp_all add: bool_byte_def)

lemma rd_if [wire_simps]:
  "(if P then p else q) r = (Some y, r') \<longleftrightarrow> P \<and> p r = (Some y, r') \<or> \<not> P \<and> q r = (Some y, r')"
  by simp

interpretation c_cmd: codec encodeCommand decodeCommand "\<lambda>_. True"
proof
  fix r r' :: WireReader and x
  show "decodeCommand r = (Some x, r') \<longleftrightarrow> True \<and> reads r (encodeCommand x []) r'"
  proof (cases x)
    case (New n)
    obtain i ins sd ty tf p q where n: "n = \<lparr>no_id = i, no_instrument = ins, no_side = sd, no_type = ty, no_tif = tf,
      no_price = p, no_quantity = q\<rparr>" by (cases n)
    have "reads r (encodeCommand x []) r'" if "decodeCommand r = (Some x, r')"
      using that by (simp add: New n decodeCommand_def wire_simps, elim exE conjE, hypsubst)
        (simp add: code_of_code, intro exI conjI, assumption+)
    moreover have "decodeCommand r = (Some x, r')" if "reads r (encodeCommand x []) r'"
      using that by (simp add: New n decodeCommand_def wire_simps, elim exE conjE)
        (intro exI conjI, assumption+, simp_all)
    ultimately show ?thesis by blast
  next
    case (Cancel c)
    then show ?thesis
      by (cases c) (simp add: decodeCommand_def wire_simps)
  qed
qed (rule encodeCommand_append)

interpretation c_rec: codec encodeLogRecord decodeLogRecord "\<lambda>_. True"
proof
  fix r r' :: WireReader and x :: LogRecord
  obtain s t c where x: "x = \<lparr>lr_seq = s, lr_term = t, lr_command = c\<rparr>" by (cases x)
  have "encodeLogRecord x [] = w_u64 s [] @ w_u64 t [] @ encodeCommand c []"
    by (simp add: x encodeLogRecord_def wire_simps)
  then show "decodeLogRecord r = (Some x, r') \<longleftrightarrow> True \<and> reads r (encodeLogRecord x []) r'"
    by (auto simp: x decodeLogRecord_def wire_simps c_cmd.rd_iff)
next
  fix x out show "encodeLogRecord x out = out @ encodeLogRecord x []"
    using encodeCommand_append [of "lr_command x"] codec_appends(4)
    unfolding encodeLogRecord_def by (metis append.assoc)
qed

lemma fold_appends:
  assumes "\<And>x out. wr x out = out @ wr x []"
  shows "fold wr xs out = out @ concat (map (\<lambda>x. wr x []) xs)"
proof (induction xs arbitrary: out)
  case (Cons x xs)
  have "fold wr (x # xs) out = wr x out @ concat (map (\<lambda>x. wr x []) xs)" by (simp add: Cons.IH)
  also have "wr x out = out @ wr x []" by (rule assms)
  finally show ?case by simp
qed simp

context codec
begin

text \<open>A counted sequence of values is read back as such.\<close>

lemma rd_list_iff:
  assumes "reads r0 bs0 r"
  shows "rd_list n rd r = (Some xs, r') \<longleftrightarrow>
    length xs = n \<and> (\<forall>x\<in>set xs. ok x) \<and> reads r (concat (map (\<lambda>x. wr x []) xs)) r'"
  using assms
proof (induction n arbitrary: xs r r0 bs0)
  case 0
  then have "reads r [] r' \<longleftrightarrow> r = r'" by (auto simp: reads_def)
  then show ?case by (auto simp: wire_simps)
next
  case (Suc n)
  have "rd_list (Suc n) rd r = (Some xs, r') \<longleftrightarrow>
      (\<exists>x r1 ys. ok x \<and> reads r (wr x []) r1 \<and> rd_list n rd r1 = (Some ys, r') \<and> xs = x # ys)"
    by (auto simp: rd_bind_Some rd_return_Some rd_iff)
  also have "\<dots> \<longleftrightarrow> (\<exists>x ys. xs = x # ys \<and> ok x \<and> length ys = n \<and> (\<forall>y\<in>set ys. ok y) \<and>
      (\<exists>r1. reads r (wr x []) r1 \<and> reads r1 (concat (map (\<lambda>x. wr x []) ys)) r'))"
    using Suc.IH by blast
  also have "\<dots> \<longleftrightarrow> length xs = Suc n \<and> (\<forall>x\<in>set xs. ok x) \<and> reads r (concat (map (\<lambda>x. wr x []) xs)) r'"
    by (cases xs) (auto simp: reads_append)
  finally show ?case .
qed

end

section \<open>Decoding inverts encoding\<close>

text \<open>What the decoder admits: bounded addresses and bounded batches.\<close>

fun msg_ok :: "Message \<Rightarrow> bool" where
  "msg_ok (Hello m) \<longleftrightarrow> length (he_advertisedAddress m) \<le> unat kMaxAddressLen"
| "msg_ok (AppendEntries m) \<longleftrightarrow> length (ae_entries m) \<le> kMaxEntriesPerAppend"
| "msg_ok _ \<longleftrightarrow> True"

lemma rd_end_Some [wire_simps]: "rd_end x r = (Some y, r') \<longleftrightarrow> x = y \<and> r = r' \<and> rd_ok r \<and> rd_exhausted r"
  by (auto simp: rd_end_def)

lemma bool_byte_iff: "\<not> 1 < k \<Longrightarrow> (k = 1) = b \<longleftrightarrow> k = bool_byte b"
  by (auto simp: bool_byte_def not_less dest: u8_le_1_cases)

lemma bool_byte_eq: "\<not> 1 < k \<Longrightarrow> bool_byte (k = 1) = k"
  by (auto simp: bool_byte_def not_less dest: u8_le_1_cases)

text \<open>The state after a reader that ended at the end of the data is determined.\<close>

definition at_end :: "WireReader \<Rightarrow> bool" where
  "at_end r \<longleftrightarrow> rd_ok r \<and> rd_exhausted r"

lemma decodeI:
  assumes "\<And>m r'. bodyReader ty r = (Some m, r') \<longleftrightarrow> ok m \<and> reads r (encodeBody m []) r' \<and> at_end r'"
    and "r = new_reader data"
  shows "decodeBody ty data = Some m \<longleftrightarrow> ok m \<and> data = encodeBody m []"
proof -
  have "decodeBody ty data = Some m \<longleftrightarrow> (\<exists>r'. bodyReader ty r = (Some m, r'))"
    by (cases "bodyReader ty r") (auto simp: decodeBody_def assms(2))
  also have "\<dots> \<longleftrightarrow> ok m \<and> (\<exists>r'. reads (new_reader data) (encodeBody m []) r' \<and> at_end r')"
    using assms by blast
  also have "\<dots> \<longleftrightarrow> ok m \<and> data = encodeBody m []"
    using reads_finished [of data "encodeBody m []"] unfolding at_end_def by blast
  finally show ?thesis .
qed

lemmas body_simps = wire_simps c_cmd.rd_iff at_end_def

lemma counted_iff:
  "reads r (w_u32 n []) r1 \<and> \<not> kMaxEntriesPerAppend < unat n \<and> rd_list (unat n) decodeLogRecord r1 = (Some es, r') \<longleftrightarrow>
   n = of_nat (length es) \<and> length es \<le> kMaxEntriesPerAppend \<and> reads r (w_u32 (of_nat (length es)) []) r1 \<and>
     reads r1 (concat (map (\<lambda>x. encodeLogRecord x []) es)) r'"
proof -
  have "unat (of_nat (length es) :: u32) = length es" if "length es \<le> kMaxEntriesPerAppend"
    using that by (simp add: kMaxEntriesPerAppend_def unat_of_nat)
  then have "length es = unat n \<and> \<not> kMaxEntriesPerAppend < unat n \<longleftrightarrow>
      n = of_nat (length es) \<and> length es \<le> kMaxEntriesPerAppend"
    by auto
  then show ?thesis using c_rec.rd_list_iff [of r "w_u32 n []" r1 "unat n" es r'] by auto
qed

lemma bodyReader_type: "bodyReader ty r = (Some m, r') \<Longrightarrow> typeOf m = ty"
  by (cases ty) (auto simp: rd_bind_Some rd_return_Some rd_end_Some rd_fail_Some rd_if)

lemma bodyReader_iff:
  "bodyReader ty r = (Some m, r') \<longleftrightarrow> typeOf m = ty \<and> msg_ok m \<and> reads r (encodeBody m []) r' \<and> at_end r'"
proof (cases m)
  case (Hello h)
  obtain n v a where "h = \<lparr>he_nodeId = n, he_protocolVersion = v, he_advertisedAddress = a\<rparr>" by (cases h)
  then show ?thesis by (cases ty) (auto simp: Hello body_simps)
next
  case (Heartbeat h)
  obtain n c where "h = \<lparr>hb_nodeId = n, hb_counter = c\<rparr>" by (cases h)
  then show ?thesis by (cases ty) (auto simp: Heartbeat body_simps)
next
  case (CommandForward h)
  obtain n s c where "h = \<lparr>cf_originNodeId = n, cf_originSeq = s, cf_command = c\<rparr>" by (cases h)
  then show ?thesis by (cases ty) (auto simp: CommandForward body_simps)
next
  case (EventAck h)
  obtain n t c where "h = \<lparr>ea_nodeId = n, ea_throughEventSeq = t, ea_stateChecksum = c\<rparr>" by (cases h)
  then show ?thesis by (cases ty) (auto simp: EventAck body_simps)
next
  case (RequestVote h)
  obtain t c l where "h = \<lparr>rv_term = t, rv_candidateId = c, rv_lastLogSeq = l\<rparr>" by (cases h)
  then show ?thesis by (cases ty) (auto simp: RequestVote body_simps)
next
  case (VoteResponse h)
  obtain t v g where "h = \<lparr>vr_term = t, vr_voterId = v, vr_granted = g\<rparr>" by (cases h)
  note m = VoteResponse this
  show ?thesis
  proof (cases "ty = T_VoteResponse")
    case True
    have "reads r (encodeBody m []) r' \<and> at_end r'" if "bodyReader ty r = (Some m, r')"
      using that by (simp add: m True body_simps, elim exE conjE, hypsubst)
        (simp add: bool_byte_eq, intro exI conjI, assumption+)
    moreover have "bodyReader ty r = (Some m, r')" if "reads r (encodeBody m []) r' \<and> at_end r'"
      using that by (simp add: m True body_simps, elim exE conjE)
        (intro exI conjI, assumption+, simp_all)
    moreover have "typeOf m = ty" "msg_ok m" by (simp_all add: m True)
    ultimately show ?thesis by blast
  next
    case False
    then show ?thesis using bodyReader_type [of ty r m r'] by (auto simp: m(1))
  qed
next
  case (AppendResponse h)
  obtain t n l k a c where "h = \<lparr>ar_term = t, ar_nodeId = n, ar_lastLogSeq = l, ar_ok = k, ar_lastApplied = a,
    ar_stateChecksum = c\<rparr>" by (cases h)
  note m = AppendResponse this
  show ?thesis
  proof (cases "ty = T_AppendResponse")
    case True
    have "reads r (encodeBody m []) r' \<and> at_end r'" if "bodyReader ty r = (Some m, r')"
      using that by (simp add: m True body_simps, elim exE conjE, hypsubst)
        (simp add: bool_byte_eq, intro exI conjI, assumption+)
    moreover have "bodyReader ty r = (Some m, r')" if "reads r (encodeBody m []) r' \<and> at_end r'"
      using that by (simp add: m True body_simps, elim exE conjE)
        (intro exI conjI, assumption+, simp_all)
    moreover have "typeOf m = ty" "msg_ok m" by (simp_all add: m True)
    ultimately show ?thesis by blast
  next
    case False
    then show ?thesis using bodyReader_type [of ty r m r'] by (auto simp: m(1))
  qed
next
  case (AppendEntries h)
  obtain t l ps pt cs es where "h = \<lparr>ae_term = t, ae_leaderId = l, ae_prevSeq = ps, ae_prevTerm = pt,
    ae_commitSeq = cs, ae_entries = es\<rparr>" by (cases h)
  note m = AppendEntries this
  have enc: "encodeBody m [] = w_u64 t [] @ w_u32 l [] @ w_u64 ps [] @ w_u64 pt [] @ w_u64 cs [] @
      w_u32 (of_nat (length es)) [] @ concat (map (\<lambda>x. encodeLogRecord x []) es)"
    by (simp add: m fold_appends [of encodeLogRecord, OF c_rec.appends] wire_simps)
  show ?thesis
  proof (cases "ty = T_AppendEntries")
    case True
    have "bodyReader ty r = (Some m, r') \<longleftrightarrow> (\<exists>r1. reads r (w_u64 t []) r1 \<and> (\<exists>r2. reads r1 (w_u32 l []) r2 \<and>
        (\<exists>r3. reads r2 (w_u64 ps []) r3 \<and> (\<exists>r4. reads r3 (w_u64 pt []) r4 \<and> (\<exists>r5. reads r4 (w_u64 cs []) r5 \<and>
        (\<exists>n r6. (reads r5 (w_u32 n []) r6 \<and> \<not> kMaxEntriesPerAppend < unat n \<and>
           rd_list (unat n) decodeLogRecord r6 = (Some es, r')) \<and> at_end r'))))))"
      by (simp add: m True body_simps, rule iffI; elim exE conjE; (hypsubst)?; intro exI conjI) (assumption | rule refl)+
    moreover have "typeOf m = ty" "msg_ok m \<longleftrightarrow> length es \<le> kMaxEntriesPerAppend" by (simp_all add: m True)
    ultimately show ?thesis unfolding counted_iff enc reads_append by blast
  next
    case False
    then show ?thesis using bodyReader_type [of ty r m r'] by (auto simp: m(1))
  qed
qed

lemma decodeBody_iff:
  "decodeBody ty data = Some m \<longleftrightarrow> (typeOf m = ty \<and> msg_ok m) \<and> data = encodeBody m []"
  by (rule decodeI [where r = "new_reader data"]) (simp_all add: bodyReader_iff)

section \<open>The frame\<close>

lemma encodeBody_append: "encodeBody m out = out @ encodeBody m []"
proof -
  have rec: "fold encodeLogRecord es out = out @ concat (map (\<lambda>x. encodeLogRecord x []) es)" for es out
    by (rule fold_appends) (rule c_rec.appends)
  show ?thesis
    by (cases m) (simp_all add: rec encodeCommand_append [of _ "_ @ _"] w_u8_def w_u16_def w_u32_def w_u64_def w_str_def)
qed

definition frame_header :: "MessageType \<Rightarrow> u32 \<Rightarrow> Buffer" where
  "frame_header ty len = le_bytes 4 kMagic @ le_bytes 2 kVersion @ le_bytes 2 (type_value ty) @ le_bytes 4 len"

lemma length_frame_header [simp]: "length (frame_header ty len) = kHeaderSize"
  by (simp add: frame_header_def kHeaderSize_def)

lemma patch_bytes:
  "fold (\<lambda>i buf. buf[length pre + i := f i]) [0..<4] (pre @ [a, b, c, d] @ post) = pre @ [f 0, f 1, f 2, f 3] @ post"
  by (simp add: upt_rec list_update_append numeral_2_eq_2 numeral_3_eq_3)

lemma le_bytes_4: "le_bytes 4 v = [ucast (drop_bit (0 * 8) v AND 0xFF), ucast (drop_bit (1 * 8) v AND 0xFF),
    ucast (drop_bit (2 * 8) v AND 0xFF), ucast (drop_bit (3 * 8) v AND 0xFF)]"
  by (simp only: le_bytes_def) (simp add: upt_rec)

lemma encode_frame:
  "encode m out = out @ frame_header (typeOf m) (of_nat (length (encodeBody m []))) @ encodeBody m []"
proof -
  define pre where "pre = out @ le_bytes 4 kMagic @ le_bytes 2 kVersion @ le_bytes 2 (type_value (typeOf m))"
  have len: "length pre = length out + 8" by (simp add: pre_def)
  have zero: "le_bytes 4 (0 :: u32) = [0, 0, 0, 0]" by (simp add: le_bytes_4)
  have hdr: "w_u32 0 (w_u16 (type_value (typeOf m)) (w_u16 kVersion (w_u32 kMagic out))) = pre @ [0, 0, 0, 0]"
    by (simp add: pre_def w_u32_def w_u16_def le_bytes_2 zero)
  define l where "l = (of_nat (length (encodeBody m [])) :: u32)"
  have "encode m out = fold (\<lambda>i buf. buf[length pre + i := ucast (drop_bit (i * 8) l AND 0xFF)]) [0..<4]
      (pre @ [0, 0, 0, 0] @ encodeBody m [])"
    unfolding encode_def Let_def hdr encodeBody_append [of m "pre @ _"] l_def len by simp
  also have "\<dots> = pre @ le_bytes 4 l @ encodeBody m []"
    unfolding patch_bytes le_bytes_4 ..
  finally show ?thesis by (simp add: pre_def frame_header_def l_def)
qed

text \<open>Every admissible message fits into a frame.\<close>

lemma length_encodeCommand: "length (encodeCommand c []) \<le> 32"
  by (cases c) (simp_all add: w_u8_def w_u32_def w_u64_def w_i64_def)

lemma length_concat_bound:
  "(\<And>x. x \<in> set xs \<Longrightarrow> length (f x) \<le> n) \<Longrightarrow> length (concat (map f xs)) \<le> length xs * n"
  by (induction xs) fastforce+

lemma length_encodeBody:
  assumes "msg_ok m"
  shows "length (encodeBody m []) \<le> 24616"
proof (cases m)
  case (AppendEntries h)
  have rec: "fold encodeLogRecord es out = out @ concat (map (\<lambda>x. encodeLogRecord x []) es)" for es out
    by (rule fold_appends) (rule c_rec.appends)
  have "length (encodeLogRecord e []) \<le> 48" for e
    using length_encodeCommand [of "lr_command e"]
    by (simp add: encodeLogRecord_def encodeCommand_append [of _ "w_u64 _ _"]) (simp add: w_u64_def)
  then have "length (concat (map (\<lambda>x. encodeLogRecord x []) (ae_entries h))) \<le> length (ae_entries h) * 48"
    by (intro length_concat_bound)
  with assms AppendEntries show ?thesis
    by (simp add: rec w_u32_def w_u64_def kMaxEntriesPerAppend_def)
next
  case (CommandForward h)
  then show ?thesis
    using length_encodeCommand [of "cf_command h"]
    by (simp add: encodeCommand_append [of _ "w_u64 _ _"]) (simp add: w_u32_def w_u64_def)
qed (use assms in \<open>simp_all add: w_u8_def w_u16_def w_u32_def w_u64_def w_str_def kMaxAddressLen_def\<close>)

lemma type_of_value_value: "(\<And>v. ty \<noteq> T_Other v) \<Longrightarrow> type_of_value (type_value ty) = ty"
  by (cases ty) (simp_all add: type_of_value_def)

lemma type_of_value_typeOf [simp]: "type_of_value (type_value (typeOf m)) = typeOf m"
  by (cases m) (simp_all add: type_of_value_def)

end
