(* ===== verification/Socket.thy ===== *)
theory Socket
  imports Prelude
begin

text \<open>
  The socket wrapper (\<open>net/socket.hpp\<close>, \<open>net/socket.cpp\<close>): it turns the return codes of system calls into
  \<open>IoStatus\<close>. The network is the parameter \<open>Net\<close>, which decides the outcome of the n-th call; operations take
  the number of calls made so far and return the new number. \<open>send\<close> takes at least one byte when it
  succeeds, no call transfers more than was asked for, and \<open>read\<close> returns nothing only at the end of the
  stream. Descriptors are not numbered here: a socket is valid or not; who owns a descriptor is in \<open>Socket_Ownership\<close>.
\<close>

datatype Errno = EAGAIN | EWOULDBLOCK | EINTR | EPIPE | ECONNRESET | ECONNABORTED | EINPROGRESS | OtherErrno

datatype ReadCall = ReadBytes Buffer | ReadErrno Errno
datatype SendCall = SendBytes nat | SendErrno Errno

record PollEvents =
  pv_error :: bool
  pv_out :: bool
  pv_in :: bool

text \<open>\<open>pv_error\<close> is \<open>POLLERR | POLLNVAL\<close>, \<open>pv_in\<close> is \<open>POLLIN | POLLHUP\<close>.\<close>

datatype PollCall = PollErrno Errno | PollTimeout | PollReady "PollEvents list"

record Net =
  ne_ok :: "nat \<Rightarrow> Errno option"
  ne_read :: "nat \<Rightarrow> ReadCall"
  ne_send :: "nat \<Rightarrow> SendCall"
  ne_poll :: "nat \<Rightarrow> PollCall"
  ne_port :: "nat \<Rightarrow> u16"
  ne_inet_pton :: "string \<Rightarrow> bool"

datatype IoStatus = IoOk | IoWouldBlock | IoClosed | IoError

datatype SendResult = SendOk | NotConnected | WouldOverflow

definition setsockopt_ok :: "Net \<Rightarrow> nat \<Rightarrow> bool \<times> nat" where
  "setsockopt_ok net c = (ne_ok net c = None, c + 1)"

definition setNonBlocking :: "Net \<Rightarrow> nat \<Rightarrow> bool \<times> nat" where
  "setNonBlocking net c =
     (if ne_ok net c \<noteq> None then (False, c + 1)
      else if ne_ok net (c + 1) \<noteq> None then (False, c + 2)
      else (True, c + 2))"

definition setNoDelay :: "Net \<Rightarrow> nat \<Rightarrow> bool \<times> nat" where
  "setNoDelay net c = setsockopt_ok net c"

definition setReuseAddr :: "Net \<Rightarrow> nat \<Rightarrow> bool \<times> nat" where
  "setReuseAddr net c = setsockopt_ok net c"

definition setSendBufferSize :: "Net \<Rightarrow> int \<Rightarrow> nat \<Rightarrow> bool \<times> nat" where
  "setSendBufferSize net bytes c = setsockopt_ok net c"

definition setRecvBufferSize :: "Net \<Rightarrow> int \<Rightarrow> nat \<Rightarrow> bool \<times> nat" where
  "setRecvBufferSize net bytes c = setsockopt_ok net c"

text \<open>\<open>ne_port\<close> is the port that \<open>getsockname\<close> finds, 0 if it fails.\<close>

definition localPort :: "Net \<Rightarrow> nat \<Rightarrow> u16 \<times> nat" where
  "localPort net c = (ne_port net c, c + 1)"

lemma localPort_simps [simp]: "fst (localPort net c) = ne_port net c" "snd (localPort net c) = c + 1"
  by (simp_all add: localPort_def)

definition sock_listen :: "Net \<Rightarrow> nat \<Rightarrow> bool \<times> nat" where
  "sock_listen net c =
     (if ne_ok net c \<noteq> None then (False, c + 1)
      else
        let (reuse, c1) = setReuseAddr net (c + 1) in
        if \<not> reuse then (False, c1)
        else
          let (nb, c2) = setNonBlocking net c1 in
          if \<not> nb then (False, c2)
          else if ne_ok net c2 \<noteq> None then (False, c2 + 1)
          else if ne_ok net (c2 + 1) \<noteq> None then (False, c2 + 2)
          else (True, c2 + 2))"

definition sock_accept :: "Net \<Rightarrow> nat \<Rightarrow> IoStatus \<times> nat" where
  "sock_accept net c =
     (case ne_ok net c of
        None \<Rightarrow> (IoOk, c + 1)
      | Some err \<Rightarrow>
          (if err = EAGAIN \<or> err = EWOULDBLOCK then IoWouldBlock
           else if err = EINTR \<or> err = ECONNABORTED then IoWouldBlock
           else IoError, c + 1))"

definition sock_connect :: "Net \<Rightarrow> string \<Rightarrow> nat \<Rightarrow> bool \<times> nat" where
  "sock_connect net host c =
     (if ne_ok net c \<noteq> None then (False, c + 1)
      else
        let (nb, c1) = setNonBlocking net (c + 1) in
        if \<not> nb then (False, c1)
        else if \<not> ne_inet_pton net host then (False, c1)
        else if ne_ok net c1 \<noteq> None \<and> ne_ok net c1 \<noteq> Some EINPROGRESS then (False, c1 + 1)
        else (True, c1 + 1))"

definition connectError :: "Net \<Rightarrow> nat \<Rightarrow> Errno option \<times> nat" where
  "connectError net c = (ne_ok net c, c + 1)"

text \<open>Only non-blocking reads of at most \<open>len\<close> bytes; the bytes are part of the result.\<close>

definition sock_read :: "Net \<Rightarrow> nat \<Rightarrow> nat \<Rightarrow> IoStatus \<times> Buffer \<times> nat" where
  "sock_read net len c =
     (case ne_read net c of
        ReadBytes bs \<Rightarrow> if take len bs \<noteq> [] then (IoOk, take len bs, c + 1) else (IoClosed, [], c + 1)
      | ReadErrno err \<Rightarrow>
          if err = EAGAIN \<or> err = EWOULDBLOCK \<or> err = EINTR then (IoWouldBlock, [], c + 1) else (IoError, [], c + 1))"

definition sock_write :: "Net \<Rightarrow> Buffer \<Rightarrow> nat \<Rightarrow> IoStatus \<times> nat \<times> nat" where
  "sock_write net data c =
     (case ne_send net c of
        SendBytes n \<Rightarrow> (IoOk, min (Suc n) (length data), c + 1)
      | SendErrno err \<Rightarrow>
          if err = EAGAIN \<or> err = EWOULDBLOCK \<or> err = EINTR then (IoWouldBlock, 0, c + 1)
          else if err = EPIPE \<or> err = ECONNRESET then (IoClosed, 0, c + 1)
          else (IoError, 0, c + 1))"

lemma sock_write_moves: "sock_write net data c = (IoOk, n, c') \<Longrightarrow> data \<noteq> [] \<Longrightarrow> 0 < n \<and> n \<le> length data"
  by (cases data) (auto simp: sock_write_def split: SendCall.splits if_splits)

end
