(* ===== verification/Replicator.thy ===== *)
theory Replicator
  imports Byte_Hash Command_Log Ordered_Map Message Socket
begin

text \<open>
  State-machine replication (\<open>replication/replicator.hpp\<close>, \<open>replication/replicator.cpp\<close>): the leader
  appends commands to the log and ships them, a majority of match points moves the commit index, and
  every node applies committed entries to its engine in log order.

  The transport is reached through two functions, \<open>tsend\<close> and \<open>tsat\<close> below (\<open>Transport::send\<close> and
  \<open>Transport::isSaturated\<close>), on a transport state of any type; nothing is assumed of them, so every
  fact holds for any pattern of refused and failed sends. The engine's operations return \<open>None\<close> where
  an assertion of theirs fails, hence so do the replicator's. The diagnostic texts passed to the log
  callback are left out.
\<close>

section \<open>State\<close>

datatype Role = Primary | Backup

datatype ReplicationMode = Synchronous | Asynchronous

datatype SubmitStatus = Accepted | Busy | NotPrimary | NoBackup

record SubmitResult =
  sr_status :: SubmitStatus
  sr_seq :: Sequence

record ReplicationStats =
  st_submitted :: u64
  st_submitRejectedBusy :: u64
  st_applied :: u64
  st_entriesSent :: u64
  st_entriesReceived :: u64
  st_gapsDetected :: u64
  st_catchUpBatches :: u64
  st_probesSent :: u64
  st_checksumMismatches :: u64
  st_logTruncations :: u64
  st_roleChanges :: u64
  st_staleTermRejections :: u64
  st_logMatchRejections :: u64
  st_conflictingEntriesTruncated :: u64
  st_snapshotsInstalled :: u64
  st_snapshotsTaken :: u64
  st_recoveredFromLog :: u64
  st_commitAdvances :: u64

definition zero_stats :: ReplicationStats where
  "zero_stats = \<lparr>st_submitted = 0, st_submitRejectedBusy = 0, st_applied = 0, st_entriesSent = 0,
     st_entriesReceived = 0, st_gapsDetected = 0, st_catchUpBatches = 0, st_probesSent = 0,
     st_checksumMismatches = 0, st_logTruncations = 0, st_roleChanges = 0, st_staleTermRejections = 0,
     st_logMatchRejections = 0, st_conflictingEntriesTruncated = 0, st_snapshotsInstalled = 0,
     st_snapshotsTaken = 0, st_recoveredFromLog = 0, st_commitAdvances = 0\<rparr>"

record BackupState =
  bk_id :: NodeId
  bk_matchSeq :: Sequence
  bk_lastCommitSent :: Sequence
  bk_lastApplied :: Sequence
  bk_lastSent :: Sequence
  bk_lastChecksum :: u64
  bk_probing :: bool

definition fresh_backup :: BackupState where
  "fresh_backup = \<lparr>bk_id = 0, bk_matchSeq = 0, bk_lastCommitSent = 0, bk_lastApplied = 0, bk_lastSent = 0,
     bk_lastChecksum = 0, bk_probing = True\<rparr>"

record 't Replicator =
  rp_self :: NodeId
  rp_role :: Role
  rp_mode :: ReplicationMode
  rp_engine :: MatchingEngine
  rp_log :: CommandLog
  rp_transport :: 't
  rp_lastApplied :: Sequence
  rp_commitIndex :: Sequence
  rp_term :: u64
  rp_clusterSize :: nat
  rp_snapshotBase :: "EngineSnapshot option"
  rp_syncWindow :: u64
  rp_backups :: "(NodeId, BackupState) smap"
  rp_stats :: ReplicationStats

type_synonym 't sender = "NodeId \<Rightarrow> Message \<Rightarrow> 't \<Rightarrow> SendResult \<times> 't"
type_synonym 't saturation = "NodeId \<Rightarrow> 't \<Rightarrow> bool"

definition new_replicator :: "NodeId \<Rightarrow> Role \<Rightarrow> ReplicationMode \<Rightarrow> MatchingEngine \<Rightarrow> CommandLog \<Rightarrow> 't \<Rightarrow> 't Replicator" where
  "new_replicator self role mode engine log tr =
     \<lparr>rp_self = self, rp_role = role, rp_mode = mode, rp_engine = engine, rp_log = log, rp_transport = tr,
      rp_lastApplied = 0, rp_commitIndex = 0, rp_term = 0, rp_clusterSize = 2, rp_snapshotBase = None,
      rp_syncWindow = 1, rp_backups = [], rp_stats = zero_stats\<rparr>"

definition setTerm :: "u64 \<Rightarrow> 't Replicator \<Rightarrow> 't Replicator" where
  "setTerm t R = R\<lparr>rp_term := t\<rparr>"

definition setClusterSize :: "nat \<Rightarrow> 't Replicator \<Rightarrow> 't Replicator" where
  "setClusterSize n R = R\<lparr>rp_clusterSize := (if n < 1 then 1 else n)\<rparr>"

definition setSyncWindow :: "u64 \<Rightarrow> 't Replicator \<Rightarrow> 't Replicator" where
  "setSyncWindow n R = R\<lparr>rp_syncWindow := n\<rparr>"

definition rp_majority :: "'t Replicator \<Rightarrow> nat" where
  "rp_majority R = rp_clusterSize R div 2 + 1"

definition commitSeq :: "'t Replicator \<Rightarrow> Sequence" where
  "commitSeq R = rp_commitIndex R"

definition rp_count :: "(ReplicationStats \<Rightarrow> ReplicationStats) \<Rightarrow> 't Replicator \<Rightarrow> 't Replicator" where
  "rp_count f R = R\<lparr>rp_stats := f (rp_stats R)\<rparr>"

text \<open>Handing a message to the transport.\<close>

definition rp_send :: "'t sender \<Rightarrow> NodeId \<Rightarrow> Message \<Rightarrow> 't Replicator \<Rightarrow> SendResult \<times> 't Replicator" where
  "rp_send tsend to m R = (case tsend to m (rp_transport R) of (r, tr) \<Rightarrow> (r, R\<lparr>rp_transport := tr\<rparr>))"

section \<open>Applying\<close>

definition engine_step :: "Command \<Rightarrow> MatchingEngine \<Rightarrow> MatchingEngine option" where
  "engine_step cmd e = do { (e', sink) \<leftarrow> engine_apply cmd e []; Some e' }"

partial_function (option) applyCommitted :: "'t Replicator \<Rightarrow> 't Replicator option" where
  "applyCommitted R =
     (if rp_lastApplied R < rp_commitIndex R then
        (case log_at (rp_lastApplied R + 1) (rp_log R) of
           None \<Rightarrow> Some R
         | Some entry \<Rightarrow>
             Option.bind (engine_step (le_command entry) (rp_engine R))
               (\<lambda>e. applyCommitted (rp_count (\<lambda>s. s\<lparr>st_applied := st_applied s + 1\<rparr>)
                       (R\<lparr>rp_engine := e, rp_lastApplied := le_seq entry\<rparr>))))
      else Some R)"

text \<open>The loop of \<open>rebuildFromLog\<close>, from sequence \<open>seq\<close> on.\<close>

partial_function (option) replayLog :: "Sequence \<Rightarrow> 't Replicator \<Rightarrow> 't Replicator option" where
  "replayLog seq R =
     (if seq \<le> lg_lastSeq (rp_log R) then
        (case log_at seq (rp_log R) of
           None \<Rightarrow> Some R
         | Some entry \<Rightarrow>
             Option.bind (engine_step (le_command entry) (rp_engine R))
               (\<lambda>e. replayLog (seq + 1) (R\<lparr>rp_engine := e, rp_lastApplied := seq\<rparr>)))
      else Some R)"

declare applyCommitted.simps [code] replayLog.simps [code]

definition rebuildFromLog :: "'t Replicator \<Rightarrow> 't Replicator option" where
  "rebuildFromLog R = do {
     let fresh = new_engine (me_instrument (rp_engine R));
     e \<leftarrow> (case rp_snapshotBase R of
             None \<Rightarrow> Some fresh
           | Some base \<Rightarrow> do { (ok, e) \<leftarrow> restore base fresh; Some e });
     R1 \<leftarrow> replayLog (lg_snapshotSeq (rp_log R) + 1)
             (R\<lparr>rp_engine := e, rp_lastApplied := lg_snapshotSeq (rp_log R)\<rparr>);
     Some (if rp_lastApplied R1 < rp_commitIndex R1 then R1\<lparr>rp_commitIndex := rp_lastApplied R1\<rparr> else R1)
   }"

section \<open>Majority commit\<close>

text \<open>The vector \<open>matches\<close> before sorting: the leader's own log head, the match points of the known
  backups, and zero for every configured node that is not known.\<close>

definition match_points :: "'t Replicator \<Rightarrow> Sequence list" where
  "match_points R =
     (let known = lg_lastSeq (rp_log R) # map (\<lambda>(i, b). bk_matchSeq b) (rp_backups R)
      in known @ replicate (rp_clusterSize R - length known) 0)"

definition commit_candidate :: "'t Replicator \<Rightarrow> Sequence" where
  "commit_candidate R = rev (sort (match_points R)) ! (rp_majority R - 1)"

definition advanceCommitIndex :: "'t Replicator \<Rightarrow> 't Replicator option" where
  "advanceCommitIndex R =
     (if rp_role R \<noteq> Primary then Some R
      else
        let candidate = commit_candidate R in
        if candidate \<le> rp_commitIndex R then Some R
        else if termAt candidate (rp_log R) \<noteq> Some (rp_term R) then Some R
        else applyCommitted (rp_count (\<lambda>s. s\<lparr>st_commitAdvances := st_commitAdvances s + 1\<rparr>)
               (R\<lparr>rp_commitIndex := candidate\<rparr>)))"

section \<open>Leader side\<close>

definition value_or :: "'a option \<Rightarrow> 'a \<Rightarrow> 'a" where
  "value_or x d = (case x of None \<Rightarrow> d | Some y \<Rightarrow> y)"

definition record_of :: "LogEntry \<Rightarrow> LogRecord" where
  "record_of e = \<lparr>lr_seq = le_seq e, lr_term = le_term e, lr_command = le_command e\<rparr>"

definition sendAppend :: "'t sender \<Rightarrow> BackupState \<Rightarrow> bool \<Rightarrow> 't Replicator \<Rightarrow> BackupState \<times> 't Replicator" where
  "sendAppend tsend b probe R =
     (let log = rp_log R;
          msg = \<lparr>ae_term = rp_term R, ae_leaderId = rp_self R, ae_prevSeq = 0, ae_prevTerm = 0,
                 ae_commitSeq = commitSeq R, ae_entries = []\<rparr>;
          at_head = msg\<lparr>ae_prevSeq := lg_lastSeq log, ae_prevTerm := value_or (termAt (lg_lastSeq log) log) 0\<rparr>;
          frm = max (bk_matchSeq b) (bk_lastSent b) + 1
      in if probe then
           (case rp_send tsend (bk_id b) (AppendEntries at_head)
                   (rp_count (\<lambda>s. s\<lparr>st_probesSent := st_probesSent s + 1\<rparr>) R) of (res, R1) \<Rightarrow> (b, R1))
         else if lg_lastSeq log < frm then
           (if bk_lastCommitSent b < rp_commitIndex R then
              (case rp_send tsend (bk_id b) (AppendEntries at_head) R of (res, R1) \<Rightarrow>
                 (if res = SendOk then b\<lparr>bk_lastCommitSent := rp_commitIndex R1\<rparr> else b, R1))
            else (b, R))
         else if \<not> canServeFrom frm log then (b, R)
         else
           let entries = log_range frm (of_nat kMaxEntriesPerAppend) log in
           if entries = [] then (b, R)
           else
             let batch = msg\<lparr>ae_prevSeq := frm - 1, ae_prevTerm := value_or (termAt (frm - 1) log) 0,
                             ae_entries := map record_of entries\<rparr>;
                 R1 = (if 1 < length entries then rp_count (\<lambda>s. s\<lparr>st_catchUpBatches := st_catchUpBatches s + 1\<rparr>) R else R)
             in case rp_send tsend (bk_id b) (AppendEntries batch) R1 of (res, R2) \<Rightarrow>
                  if res \<noteq> SendOk then (b, R2)
                  else (b\<lparr>bk_lastSent := lr_seq (last (ae_entries batch)), bk_lastCommitSent := rp_commitIndex R2\<rparr>,
                        rp_count (\<lambda>s. s\<lparr>st_entriesSent := st_entriesSent s + of_nat (length entries)\<rparr>) R2))"

text \<open>A range-based \<open>for\<close> over \<open>backups_\<close> whose body may change the visited element.\<close>

fun for_backups :: "(NodeId \<Rightarrow> BackupState \<Rightarrow> 't Replicator \<Rightarrow> BackupState \<times> 't Replicator) \<Rightarrow>
    (NodeId, BackupState) smap \<Rightarrow> 't Replicator \<Rightarrow> (NodeId, BackupState) smap \<times> 't Replicator" where
  "for_backups f [] R = ([], R)"
| "for_backups f ((i, b) # m) R =
     (let (b', R1) = f i b R; (m', R2) = for_backups f m R1 in ((i, b') # m', R2))"

definition each_backup :: "(NodeId \<Rightarrow> BackupState \<Rightarrow> 't Replicator \<Rightarrow> BackupState \<times> 't Replicator) \<Rightarrow>
    't Replicator \<Rightarrow> 't Replicator" where
  "each_backup f R = (case for_backups f (rp_backups R) R of (m, R') \<Rightarrow> R'\<lparr>rp_backups := m\<rparr>)"

abbreviation node_before :: "NodeId \<Rightarrow> NodeId \<Rightarrow> bool" where
  "node_before \<equiv> (<)"

definition setRole :: "Role \<Rightarrow> 't Replicator \<Rightarrow> 't Replicator" where
  "setRole role R =
     (if role = rp_role R then R
      else rp_count (\<lambda>s. s\<lparr>st_roleChanges := st_roleChanges s + 1\<rparr>)
        (R\<lparr>rp_role := role,
           rp_backups := map (\<lambda>(i, b). (i, b\<lparr>bk_probing := True, bk_lastSent := 0, bk_lastApplied := 0,
             bk_matchSeq := 0, bk_lastCommitSent := 0\<rparr>)) (rp_backups R)\<rparr>))"

definition onPeerUp :: "'t sender \<Rightarrow> NodeId \<Rightarrow> 't Replicator \<Rightarrow> 't Replicator" where
  "onPeerUp tsend i R =
     (if rp_role R \<noteq> Primary then R
      else
        let b = (value_or (smap_find node_before i (rp_backups R)) fresh_backup)
                  \<lparr>bk_id := i, bk_probing := True, bk_lastSent := 0\<rparr>;
            (b', R1) = sendAppend tsend b True R
        in R1\<lparr>rp_backups := smap_alter node_before i fresh_backup (\<lambda>_. b') (rp_backups R1)\<rparr>)"

definition onPeerDown :: "NodeId \<Rightarrow> 't Replicator \<Rightarrow> 't Replicator" where
  "onPeerDown i R = R\<lparr>rp_backups := smap_erase node_before i (rp_backups R)\<rparr>"

definition submit :: "'t sender \<Rightarrow> 't saturation \<Rightarrow> Command \<Rightarrow> 't Replicator \<Rightarrow> (SubmitResult \<times> 't Replicator) option" where
  "submit tsend tsat cmd R =
     (let refuse = (\<lambda>st. Some (\<lparr>sr_status = st, sr_seq = 0\<rparr>,
             rp_count (\<lambda>s. s\<lparr>st_submitRejectedBusy := st_submitRejectedBusy s + 1\<rparr>) R))
      in if rp_role R \<noteq> Primary then Some (\<lparr>sr_status = NotPrimary, sr_seq = 0\<rparr>, R)
         else if rp_mode R = Synchronous \<and> rp_backups R = [] then refuse NoBackup
         else if rp_mode R = Synchronous \<and> rp_syncWindow R \<le> lg_lastSeq (rp_log R) - commitSeq R then refuse Busy
         else if \<exists>(i, b)\<in>set (rp_backups R). tsat i (rp_transport R) then refuse Busy
         else do {
           let (seq, log) = log_append cmd (rp_term R) (rp_log R);
           let R1 = rp_count (\<lambda>s. s\<lparr>st_submitted := st_submitted s + 1\<rparr>) (R\<lparr>rp_log := log\<rparr>);
           R2 \<leftarrow> (if rp_clusterSize R1 = 1 then advanceCommitIndex R1 else Some R1);
           Some (\<lparr>sr_status = Accepted, sr_seq = seq\<rparr>,
             each_backup (\<lambda>i b R. if \<not> bk_probing b then sendAppend tsend b False R else (b, R)) R2)
         })"

definition handleAppendResponse :: "'t sender \<Rightarrow> NodeId \<Rightarrow> AppendResponseMsg \<Rightarrow> 't Replicator \<Rightarrow> 't Replicator option" where
  "handleAppendResponse tsend frm msg R =
     (if rp_term R < ar_term msg then
        Some (rp_count (\<lambda>s. s\<lparr>st_staleTermRejections := st_staleTermRejections s + 1\<rparr>) R)
      else do {
        let b0 = value_or (smap_find node_before frm (rp_backups R)) (fresh_backup\<lparr>bk_id := frm\<rparr>);
        let b1 = b0\<lparr>bk_lastApplied := ar_lastApplied msg,
                    bk_matchSeq := (if ar_ok msg then ar_lastLogSeq msg else bk_matchSeq b0),
                    bk_lastChecksum := ar_stateChecksum msg, bk_probing := False,
                    bk_lastSent := (if \<not> ar_ok msg \<or> bk_lastSent b0 < ar_lastApplied msg then ar_lastApplied msg else bk_lastSent b0)\<rparr>;
        R1 \<leftarrow> advanceCommitIndex (R\<lparr>rp_backups := smap_alter node_before frm fresh_backup (\<lambda>_. b1) (rp_backups R)\<rparr>);
        let R2 = (if bk_lastApplied b1 = rp_lastApplied R1 \<and> bk_lastChecksum b1 \<noteq> stateChecksum (rp_engine R1)
                  then rp_count (\<lambda>s. s\<lparr>st_checksumMismatches := st_checksumMismatches s + 1\<rparr>) R1 else R1);
        Some (if bk_lastSent b1 < lg_lastSeq (rp_log R2) \<or> bk_lastCommitSent b1 < rp_commitIndex R2
              then (case sendAppend tsend b1 False R2 of (b2, R3) \<Rightarrow>
                      R3\<lparr>rp_backups := smap_alter node_before frm fresh_backup (\<lambda>_. b2) (rp_backups R3)\<rparr>)
              else R2)
      })"

definition rp_tick :: "'t sender \<Rightarrow> 't saturation \<Rightarrow> 't Replicator \<Rightarrow> 't Replicator" where
  "rp_tick tsend tsat R =
     (if rp_role R \<noteq> Primary then R
      else each_backup (\<lambda>i b R.
             if bk_probing b then (b, R)
             else if tsat i (rp_transport R) then (b, R)
             else if bk_lastSent b < lg_lastSeq (rp_log R) \<or> bk_lastCommitSent b < rp_commitIndex R
             then sendAppend tsend b False R else (b, R)) R)"

definition compactLog :: "'t Replicator \<Rightarrow> 't Replicator" where
  "compactLog R =
     (if rp_role R \<noteq> Primary \<or> rp_backups R = [] then R
      else
        let safe = min (commitSeq R) (rp_lastApplied R) in
        if safe = 0 then R
        else
          let R1 = R\<lparr>rp_log := log_truncateThrough safe (rp_log R)\<rparr> in
          if length (lg_entries (rp_log R1)) \<noteq> length (lg_entries (rp_log R))
          then rp_count (\<lambda>s. s\<lparr>st_logTruncations := st_logTruncations s + 1\<rparr>) R1 else R1)"

section \<open>Follower side\<close>

text \<open>The loop over the received records; the flag says that it was left by the early return that
  refuses to truncate a committed entry.\<close>

fun mergeRecords :: "LogRecord list \<Rightarrow> 't Replicator \<Rightarrow> (bool \<times> 't Replicator) option" where
  "mergeRecords [] R = Some (False, R)"
| "mergeRecords (r # rs) R =
     (let existing = termAt (lr_seq r) (rp_log R);
          append = (\<lambda>R.
            case appendAt (lr_seq r) (lr_term r) (lr_command r) (rp_log R) of
              (False, log) \<Rightarrow> Some (False, rp_count (\<lambda>s. s\<lparr>st_gapsDetected := st_gapsDetected s + 1\<rparr>) (R\<lparr>rp_log := log\<rparr>))
            | (True, log) \<Rightarrow> mergeRecords rs (rp_count (\<lambda>s. s\<lparr>st_entriesReceived := st_entriesReceived s + 1\<rparr>) (R\<lparr>rp_log := log\<rparr>)))
      in if existing \<noteq> None \<and> lr_seq r \<le> lg_lastSeq (rp_log R) then
           (if existing = Some (lr_term r) then mergeRecords rs R
            else if lr_seq r \<le> rp_commitIndex R then Some (True, R)
            else Option.bind
              (rebuildFromLog (rp_count (\<lambda>s. s\<lparr>st_conflictingEntriesTruncated := st_conflictingEntriesTruncated s + 1\<rparr>)
                 (R\<lparr>rp_log := truncateFrom (lr_seq r) (rp_log R)\<rparr>))) append)
         else append R)"

definition handleAppendEntries :: "'t sender \<Rightarrow> NodeId \<Rightarrow> AppendEntriesMsg \<Rightarrow> 't Replicator \<Rightarrow> 't Replicator option" where
  "handleAppendEntries tsend frm msg R =
     (let reply = (\<lambda>ok lastLog R. snd (rp_send tsend frm (AppendResponse \<lparr>ar_term = rp_term R, ar_nodeId = rp_self R,
             ar_lastLogSeq = lastLog, ar_ok = ok, ar_lastApplied = rp_lastApplied R,
             ar_stateChecksum = stateChecksum (rp_engine R)\<rparr>) R))
      in if ae_term msg < rp_term R then
           let R1 = rp_count (\<lambda>s. s\<lparr>st_staleTermRejections := st_staleTermRejections s + 1\<rparr>) R
           in Some (reply False (lg_lastSeq (rp_log R1)) R1)
         else
           let localPrevTerm = termAt (ae_prevSeq msg) (rp_log R) in
           if localPrevTerm \<noteq> Some (ae_prevTerm msg) then
             let R1 = (if localPrevTerm = None
                       then rp_count (\<lambda>s. s\<lparr>st_gapsDetected := st_gapsDetected s + 1\<rparr>) R
                       else rp_count (\<lambda>s. s\<lparr>st_logMatchRejections := st_logMatchRejections s + 1\<rparr>) R)
             in Some (reply False (lg_lastSeq (rp_log R1)) R1)
           else do {
             (refused, R1) \<leftarrow> mergeRecords (ae_entries msg) R;
             if refused then Some (reply False 0 R1)
             else do {
               let R2 = (if rp_commitIndex R1 < ae_commitSeq msg
                         then rp_count (\<lambda>s. s\<lparr>st_commitAdvances := st_commitAdvances s + 1\<rparr>)
                           (R1\<lparr>rp_commitIndex := min (ae_commitSeq msg) (lg_lastSeq (rp_log R1))\<rparr>)
                         else R1);
               R3 \<leftarrow> applyCommitted R2;
               Some (reply True (lg_lastSeq (rp_log R3)) R3)
             }
           })"

definition rp_onMessage :: "'t sender \<Rightarrow> NodeId \<Rightarrow> Message \<Rightarrow> 't Replicator \<Rightarrow> 't Replicator option" where
  "rp_onMessage tsend frm m R = (case m of
      AppendEntries a \<Rightarrow> handleAppendEntries tsend frm a R
    | AppendResponse r \<Rightarrow> handleAppendResponse tsend frm r R
    | _ \<Rightarrow> Some R)"

end
