(* ===== verification/Replication.thy ===== *)
theory Replication
  imports Replicator
begin

text \<open>
  What the replicator's operations do to the log and the engine. The invariant \<open>rep_inv ins hist R\<close> ties
  the engine to the log: \<open>hist\<close> is the list of all commands applied so far, the engine is the state a
  fresh engine reaches on it, and the retained log agrees with it. Every operation of a node keeps
  it; the follower's merge loop is shown equal to \<open>merge_spec\<close>, a function on plain entry lists, for
  which log matching is proved.
\<close>

section \<open>Replaying commands\<close>

fun replay :: "Command list \<Rightarrow> MatchingEngine \<Rightarrow> MatchingEngine option" where
  "replay [] e = Some e"
| "replay (c # cs) e = Option.bind (engine_step c e) (replay cs)"

lemma replay_append: "replay (xs @ ys) e = Option.bind (replay xs e) (replay ys)"
  by (induction xs arbitrary: e) (auto split: bind_splits)

lemma replay_snoc: "replay xs e = Some e' \<Longrightarrow> replay (xs @ [c]) e = engine_step c e'"
  by (simp add: replay_append) (auto split: bind_splits)

lemma engine_step_total:
  assumes "wf_engine e"
  obtains e' where "engine_step c e = Some e'" and "wf_engine e'" and "me_instrument e' = me_instrument e"
proof -
  obtain e' evs where "engine_apply c e [] = Some (e', [] @ evs)" "wf_engine e'" "me_instrument e' = me_instrument e"
    using assms by (rule engine_apply_total)
  with that show thesis by (simp add: engine_step_def)
qed

lemma replay_defined:
  assumes "wf_engine e"
  obtains e' where "replay cs e = Some e'" and "wf_engine e'" and "me_instrument e' = me_instrument e"
proof -
  have "\<exists>e'. replay cs e = Some e' \<and> wf_engine e' \<and> me_instrument e' = me_instrument e"
    using assms
  proof (induction cs arbitrary: e)
    case (Cons c cs)
    obtain e1 where "engine_step c e = Some e1" "wf_engine e1" "me_instrument e1 = me_instrument e"
      using Cons.prems by (rule engine_step_total)
    with Cons.IH [of e1] show ?case by simp
  qed simp
  with that show thesis by blast
qed

definition state_after :: "InstrumentId \<Rightarrow> Command list \<Rightarrow> MatchingEngine" where
  "state_after i cs = the (replay cs (new_engine i))"

lemma state_after:
  "replay cs (new_engine i) = Some (state_after i cs)" "wf_engine (state_after i cs)"
  "me_instrument (state_after i cs) = i"
proof -
  obtain e where "replay cs (new_engine i) = Some e" "wf_engine e" "me_instrument e = me_instrument (new_engine i)"
    using wf_new_engine by (rule replay_defined)
  then show "replay cs (new_engine i) = Some (state_after i cs)" "wf_engine (state_after i cs)" "me_instrument (state_after i cs) = i"
    by (simp_all add: state_after_def new_engine_def)
qed

lemma state_after_Nil [simp]: "state_after i [] = new_engine i"
  by (simp add: state_after_def)

lemma step_state_after: "engine_step c (state_after i cs) = Some (state_after i (cs @ [c]))"
  using state_after(1) [of cs i] state_after(1) [of "cs @ [c]" i] replay_snoc [of cs "new_engine i" _ c] by simp

section \<open>Invariant\<close>

definition rep_inv :: "InstrumentId \<Rightarrow> Command list \<Rightarrow> 't Replicator \<Rightarrow> bool" where
  "rep_inv ins hist R \<longleftrightarrow> log_ok (rp_log R) \<and> rp_snapshotBase R = None \<and>
     rp_engine R = state_after ins hist \<and>
     unat (rp_lastApplied R) = length hist \<and> log_base (rp_log R) \<le> length hist \<and>
     length hist \<le> log_base (rp_log R) + length (lg_entries (rp_log R)) \<and>
     rp_commitIndex R \<le> lg_lastSeq (rp_log R) \<and>
     drop (log_base (rp_log R)) hist = map le_command (take (length hist - log_base (rp_log R)) (lg_entries (rp_log R)))"

lemma rp_count_frame [simp]:
  "rp_log (rp_count f R) = rp_log R" "rp_engine (rp_count f R) = rp_engine R"
  "rp_lastApplied (rp_count f R) = rp_lastApplied R" "rp_commitIndex (rp_count f R) = rp_commitIndex R"
  "rp_snapshotBase (rp_count f R) = rp_snapshotBase R" "rp_term (rp_count f R) = rp_term R"
  "rp_role (rp_count f R) = rp_role R" "rp_self (rp_count f R) = rp_self R" "rp_backups (rp_count f R) = rp_backups R"
  "rp_clusterSize (rp_count f R) = rp_clusterSize R" "rp_transport (rp_count f R) = rp_transport R"
  by (simp_all add: rp_count_def)

text \<open>The invariant only looks at five fields.\<close>

lemma rep_inv_cong:
  assumes "rp_log R' = rp_log R" "rp_engine R' = rp_engine R" "rp_lastApplied R' = rp_lastApplied R"
    "rp_commitIndex R' = rp_commitIndex R" "rp_snapshotBase R' = rp_snapshotBase R"
  shows "rep_inv ins hist R' \<longleftrightarrow> rep_inv ins hist R"
  using assms by (simp add: rep_inv_def)

text \<open>A node that starts with an empty log and a fresh engine.\<close>

lemma rep_inv_new: "rep_inv ins [] (new_replicator self role mode (new_engine ins) new_log tr)"
  using new_log_ok by (simp add: rep_inv_def new_replicator_def new_log_def log_base_def new_engine_def state_after_def)

text \<open>The entry after the last applied one.\<close>

lemma rep_inv_next:
  assumes "rep_inv ins hist R" and "rp_lastApplied R < rp_commitIndex R"
  obtains entry where "log_at (rp_lastApplied R + 1) (rp_log R) = Some entry"
    and "unat (le_seq entry) = Suc (length hist)" and "le_seq entry = rp_lastApplied R + 1"
    and "\<And>s. rep_inv ins (hist @ [le_command entry]) (rp_count s (R\<lparr>rp_engine := state_after ins (hist @ [le_command entry]),
           rp_lastApplied := le_seq entry\<rparr>))"
proof -
  let ?L = "rp_log R" and ?b = "log_base (rp_log R)" and ?n = "length hist"
  have inv: "log_ok ?L" "unat (rp_lastApplied R) = ?n" "?b \<le> ?n" "rp_commitIndex R \<le> lg_lastSeq ?L"
    using assms(1) by (auto simp: rep_inv_def)
  have last: "unat (lg_lastSeq ?L) = ?b + length (lg_entries ?L)" using log_okD(1) [OF inv(1)] .
  have n: "?n < ?b + length (lg_entries ?L)"
    using assms(2) inv(2,4) last by (simp add: word_less_nat_alt word_le_nat_alt)
  have u: "unat (rp_lastApplied R + 1) = Suc ?n"
    using n last inv(2) log_okD(4) [OF inv(1)] by (simp add: unat_word_ariths)
  let ?e = "lg_entries ?L ! (?n - ?b)"
  have at: "log_at (rp_lastApplied R + 1) ?L = Some ?e" using n inv(3) u by (simp add: log_at_eq [OF inv(1)] Suc_diff_le)
  have seq: "unat (le_seq ?e) = Suc ?n" using log_okD(3) [OF inv(1), of "?n - ?b"] n inv(3) by simp
  then have eq: "le_seq ?e = rp_lastApplied R + 1" using u by (simp add: word_unat_eq_iff)
  have "drop ?b (hist @ [le_command ?e]) = map le_command (take (Suc ?n - ?b) (lg_entries ?L))"
    using assms(1) n inv(3) by (simp add: rep_inv_def Suc_diff_le take_Suc_conv_app_nth)
  then have "rep_inv ins (hist @ [le_command ?e]) (rp_count s (R\<lparr>rp_engine := state_after ins (hist @ [le_command ?e]),
      rp_lastApplied := le_seq ?e\<rparr>))" for s
    using assms(1) n inv seq by (simp add: rep_inv_def state_after(3))
  with at seq eq show thesis by (rule that)
qed

lemma applyCommitted_total:
  assumes "rep_inv ins hist R"
  obtains R' more where "applyCommitted R = Some R'" and "rep_inv ins (hist @ more) R'"
    and "rp_lastApplied R' = max (rp_lastApplied R) (rp_commitIndex R)"
    and "\<exists>st. R' = R\<lparr>rp_engine := rp_engine R', rp_lastApplied := rp_lastApplied R', rp_stats := st\<rparr>"
proof -
  have "\<exists>R' more. applyCommitted R = Some R' \<and> rep_inv ins (hist @ more) R' \<and>
      rp_lastApplied R' = max (rp_lastApplied R) (rp_commitIndex R) \<and>
      (\<exists>st. R' = R\<lparr>rp_engine := rp_engine R', rp_lastApplied := rp_lastApplied R', rp_stats := st\<rparr>)"
    using assms
  proof (induction "unat (rp_commitIndex R) - unat (rp_lastApplied R)" arbitrary: R hist rule: less_induct)
    case less
    show ?case
    proof (cases "rp_lastApplied R < rp_commitIndex R")
      case False
      then have "applyCommitted R = Some R" by (simp add: applyCommitted.simps)
      with less.prems False show ?thesis by (intro exI [of _ R] exI [of _ "[]"] conjI exI [of _ "rp_stats R"]) (auto simp: max_def not_less)
    next
      case True
      obtain entry where at: "log_at (rp_lastApplied R + 1) (rp_log R) = Some entry" "unat (le_seq entry) = Suc (length hist)"
        "le_seq entry = rp_lastApplied R + 1"
        and inv: "\<And>s. rep_inv ins (hist @ [le_command entry]) (rp_count s (R\<lparr>rp_engine := state_after ins (hist @ [le_command entry]),
           rp_lastApplied := le_seq entry\<rparr>))"
        using less.prems True by (rule rep_inv_next) blast
      let ?R1 = "rp_count (\<lambda>s. s\<lparr>st_applied := st_applied s + 1\<rparr>) (R\<lparr>rp_engine := state_after ins (hist @ [le_command entry]),
           rp_lastApplied := le_seq entry\<rparr>)"
      have "engine_step (le_command entry) (rp_engine R) = Some (state_after ins (hist @ [le_command entry]))"
        using less.prems step_state_after [of "le_command entry" ins hist] by (simp add: rep_inv_def)
      then have run: "applyCommitted R = applyCommitted ?R1" using True at by (subst applyCommitted.simps) simp
      have h: "unat (rp_lastApplied R) = length hist" using less.prems by (simp add: rep_inv_def)
      then have "unat (rp_commitIndex ?R1) - unat (rp_lastApplied ?R1) < unat (rp_commitIndex R) - unat (rp_lastApplied R)"
        using True at(2) by (simp add: word_less_nat_alt)
      from less.hyps [OF this inv] obtain R' more st where R': "applyCommitted ?R1 = Some R'" "rep_inv ins ((hist @ [le_command entry]) @ more) R'"
        "rp_lastApplied R' = max (rp_lastApplied ?R1) (rp_commitIndex ?R1)"
        "R' = ?R1\<lparr>rp_engine := rp_engine R', rp_lastApplied := rp_lastApplied R', rp_stats := st\<rparr>" by blast
      have "max (rp_lastApplied ?R1) (rp_commitIndex ?R1) = max (rp_lastApplied R) (rp_commitIndex R)"
        using True at(2) h by (auto simp: max_def word_less_nat_alt word_le_nat_alt)
      moreover have "R' = R\<lparr>rp_engine := rp_engine R', rp_lastApplied := rp_lastApplied R', rp_stats := st\<rparr>"
        using R'(4) by (simp add: rp_count_def)
      ultimately show ?thesis using run R'(1,2,3)
        by (intro exI [of _ R'] exI [of _ "le_command entry # more"] conjI exI [of _ st]) simp_all
    qed
  qed
  with that show thesis by blast
qed

section \<open>Rebuilding after a truncation\<close>

lemma replayLog_total:
  assumes "rep_inv ins hist R" and "log_room (rp_log R)" and "unat seq = Suc (length hist)"
  obtains R' more where "replayLog seq R = Some R'" and "rep_inv ins (hist @ more) R'"
    and "rp_lastApplied R' = lg_lastSeq (rp_log R)"
    and "R' = R\<lparr>rp_engine := rp_engine R', rp_lastApplied := rp_lastApplied R'\<rparr>"
proof -
  have "\<exists>R' more. replayLog seq R = Some R' \<and> rep_inv ins (hist @ more) R' \<and> rp_lastApplied R' = lg_lastSeq (rp_log R) \<and>
      R' = R\<lparr>rp_engine := rp_engine R', rp_lastApplied := rp_lastApplied R'\<rparr>"
    using assms
  proof (induction "unat (lg_lastSeq (rp_log R)) - length hist" arbitrary: R hist seq rule: less_induct)
    case less
    let ?L = "rp_log R"
    have inv: "log_ok ?L" "unat (rp_lastApplied R) = length hist" "length hist \<le> log_base ?L + length (lg_entries ?L)"
      using less.prems by (auto simp: rep_inv_def)
    have last: "unat (lg_lastSeq ?L) = log_base ?L + length (lg_entries ?L)" using log_okD(1) [OF inv(1)] .
    show ?case
    proof (cases "seq \<le> lg_lastSeq ?L")
      case False
      then have "length hist = unat (lg_lastSeq ?L)" using inv(3) last less.prems(3) by (simp add: word_le_nat_alt)
      then have "rp_lastApplied R = lg_lastSeq ?L" using inv(2) by (simp add: word_unat_eq_iff)
      moreover have "replayLog seq R = Some R" using False by (simp add: replayLog.simps)
      ultimately show ?thesis using less.prems(1) by (intro exI [of _ R] exI [of _ "[]"]) simp
    next
      case True
      have "unat (rp_lastApplied R + 1) = Suc (length hist)"
        using inv(2) True less.prems(3) unsigned_less [of seq, where 'a = nat] by (simp add: unat_word_ariths)
      then have seq: "rp_lastApplied R + 1 = seq" using less.prems(3) by (simp add: word_unat_eq_iff)
      let ?R0 = "R\<lparr>rp_commitIndex := lg_lastSeq ?L\<rparr>"
      have "rep_inv ins hist ?R0" "rp_lastApplied ?R0 < rp_commitIndex ?R0"
        using less.prems True inv(2) by (auto simp: rep_inv_def word_less_nat_alt word_le_nat_alt)
      then obtain entry where at: "log_at seq ?L = Some entry" "le_seq entry = seq"
        and inv0: "\<And>s. rep_inv ins (hist @ [le_command entry]) (rp_count s (?R0\<lparr>rp_engine := state_after ins (hist @ [le_command entry]),
           rp_lastApplied := le_seq entry\<rparr>))"
        by (rule rep_inv_next) (use seq in simp)
      let ?R1 = "R\<lparr>rp_engine := state_after ins (hist @ [le_command entry]), rp_lastApplied := seq\<rparr>"
      have i1: "rep_inv ins (hist @ [le_command entry]) ?R1"
        using inv0 less.prems(1) at(2) by (simp add: rep_inv_def)
      have "engine_step (le_command entry) (rp_engine R) = Some (state_after ins (hist @ [le_command entry]))"
        using less.prems step_state_after [of "le_command entry" ins hist] by (simp add: rep_inv_def)
      then have run: "replayLog seq R = replayLog (seq + 1) ?R1" using True at by (subst replayLog.simps) simp
      have "seq \<noteq> - 1" using True less.prems(2) antisym [OF word_n1_ge [of "lg_lastSeq ?L"]] by (auto simp: log_room_def)
      then have "unat (seq + 1) = Suc (Suc (length hist))"
        using less.prems(3) word_Suc_less [of seq] unatSuc [of seq] max_word_wrap [of seq] by (metis add.commute)
      then have "\<exists>R' more. replayLog (seq + 1) ?R1 = Some R' \<and> rep_inv ins ((hist @ [le_command entry]) @ more) R' \<and>
          rp_lastApplied R' = lg_lastSeq (rp_log ?R1) \<and> R' = ?R1\<lparr>rp_engine := rp_engine R', rp_lastApplied := rp_lastApplied R'\<rparr>"
        using i1 less.prems True by (intro less.hyps) (auto simp: word_le_nat_alt)
      then show ?thesis using run by auto
    qed
  qed
  with that show thesis by blast
qed

text \<open>With nothing compacted away the rebuilt engine is the replay of the whole surviving log, and
  everything in it counts as applied.\<close>

lemma rebuildFromLog_total:
  assumes "log_ok (rp_log R)" and "log_base (rp_log R) = 0" and "rp_snapshotBase R = None" and "log_room (rp_log R)"
    and "rp_commitIndex R \<le> lg_lastSeq (rp_log R)"
    and "me_instrument (rp_engine R) = ins"
  obtains R' where "rebuildFromLog R = Some R'" and "rep_inv ins (map le_command (lg_entries (rp_log R))) R'"
    and "R' = R\<lparr>rp_engine := rp_engine R', rp_lastApplied := lg_lastSeq (rp_log R)\<rparr>"
proof -
  let ?L = "rp_log R" and ?R0 = "R\<lparr>rp_engine := new_engine (me_instrument (rp_engine R)), rp_lastApplied := 0\<rparr>"
  have s: "lg_snapshotSeq ?L = 0" using log_okD(2) [OF assms(1)] assms(2) by (simp add: log_base_def unat_eq_zero)
  have i: "rep_inv ins [] ?R0" using assms by (simp add: rep_inv_def)
  obtain R' more where R': "replayLog 1 ?R0 = Some R'" "rep_inv ins more R'" "rp_lastApplied R' = lg_lastSeq ?L"
    "R' = ?R0\<lparr>rp_engine := rp_engine R', rp_lastApplied := rp_lastApplied R'\<rparr>"
    by (rule replayLog_total [OF i, of 1]) (use assms(4) in auto)
  have f: "rp_log R' = ?L" "rp_commitIndex R' = rp_commitIndex R" by (subst R'(4); simp)+
  have "length more = length (lg_entries ?L)"
    using R'(2,3) assms(2) log_okD(1) [OF assms(1)] by (simp add: rep_inv_def f)
  then have "more = map le_command (lg_entries ?L)" using R'(2) assms(2) by (simp add: rep_inv_def f)
  moreover have "rebuildFromLog R = Some R'"
    using R'(1,3) assms(3,5) s f by (simp add: rebuildFromLog_def Let_def not_less)
  ultimately show thesis using that [of R'] R' by simp
qed

section \<open>The merge loop on entry lists\<close>

definition entry_of :: "LogRecord \<Rightarrow> LogEntry" where
  "entry_of r = \<lparr>le_seq = lr_seq r, le_term = lr_term r, le_command = lr_command r\<rparr>"

lemma entry_of_record_of [simp]: "entry_of (record_of e) = e"
  by (simp add: entry_of_def record_of_def)

text \<open>Merging records into a log \<open>L\<close> of which the first \<open>c\<close> entries are committed. The flag says that a
  committed entry was in conflict.\<close>

fun merge_spec :: "nat \<Rightarrow> LogEntry list \<Rightarrow> LogRecord list \<Rightarrow> bool \<times> LogEntry list" where
  "merge_spec c L [] = (False, L)"
| "merge_spec c L (r # rs) =
     (let n = unat (lr_seq r) in
      if n = 0 then (if lr_term r = 0 then merge_spec c L rs else (True, L))
      else if n \<le> length L then
        (if le_term (L ! (n - 1)) = lr_term r then merge_spec c L rs
         else if n \<le> c then (True, L)
         else merge_spec c (take (n - 1) L @ [entry_of r]) rs)
      else if n = Suc (length L) then merge_spec c (L @ [entry_of r]) rs
      else (False, L))"

text \<open>How far the engine has got after the same merge, when \<open>a\<close> entries were applied before it: a
  conflict rebuilds the engine from the entries before it, everything else leaves it alone.\<close>

fun merge_applied :: "nat \<Rightarrow> LogEntry list \<Rightarrow> nat \<Rightarrow> LogRecord list \<Rightarrow> nat" where
  "merge_applied c L a [] = a"
| "merge_applied c L a (r # rs) =
     (let n = unat (lr_seq r) in
      if n = 0 then (if lr_term r = 0 then merge_applied c L a rs else a)
      else if n \<le> length L then
        (if le_term (L ! (n - 1)) = lr_term r then merge_applied c L a rs
         else if n \<le> c then a
         else merge_applied c (take (n - 1) L @ [entry_of r]) (n - 1) rs)
      else if n = Suc (length L) then merge_applied c (L @ [entry_of r]) a rs
      else a)"

text \<open>The part of the state the merge loop never touches.\<close>

definition merge_frame :: "'t Replicator \<Rightarrow> 't Replicator \<Rightarrow> bool" where
  "merge_frame R R' \<longleftrightarrow> rp_self R' = rp_self R \<and> rp_role R' = rp_role R \<and> rp_mode R' = rp_mode R \<and>
     rp_transport R' = rp_transport R \<and> rp_commitIndex R' = rp_commitIndex R \<and> rp_term R' = rp_term R \<and>
     rp_clusterSize R' = rp_clusterSize R \<and> rp_snapshotBase R' = rp_snapshotBase R \<and>
     rp_syncWindow R' = rp_syncWindow R \<and> rp_backups R' = rp_backups R"

lemma merge_frame_refl: "merge_frame R R"
  by (simp add: merge_frame_def)

lemma merge_frame_trans: "merge_frame R R1 \<Longrightarrow> merge_frame R1 R2 \<Longrightarrow> merge_frame R R2"
  by (simp add: merge_frame_def)

lemma merge_frame_upd [simp]:
  "merge_frame R (rp_count f R') \<longleftrightarrow> merge_frame R R'" "merge_frame R (R'\<lparr>rp_log := L\<rparr>) \<longleftrightarrow> merge_frame R R'"
  "merge_frame R (R'\<lparr>rp_engine := e\<rparr>) \<longleftrightarrow> merge_frame R R'" "merge_frame R (R'\<lparr>rp_lastApplied := n\<rparr>) \<longleftrightarrow> merge_frame R R'"
  by (simp_all add: merge_frame_def rp_count_def)

lemma termAt_uncompacted:
  assumes "log_ok L" and "log_base L = 0"
  shows "termAt seq L = (if seq = 0 then Some 0 else if unat seq \<le> length (lg_entries L)
    then Some (le_term (lg_entries L ! (unat seq - 1))) else None)"
  using assms log_okD(2) [OF assms(1)]
  by (auto simp: termAt_def log_at_eq [OF assms(1)] log_base_def unat_eq_zero unat_gt_0)

lemma log_roomI: "unat (lg_lastSeq L) < 2 ^ 64 - 1 \<Longrightarrow> log_room L"
  by (auto simp: log_room_def unsigned_minus_1_eq_mask mask_eq_exp_minus_1)

lemma appended:
  assumes "rep_inv ins hist R" and "log_room (rp_log R)" and "log_base (rp_log R) = 0"
    and "unat (lr_seq r) = Suc (length (lg_entries (rp_log R)))"
  obtains log where "appendAt (lr_seq r) (lr_term r) (lr_command r) (rp_log R) = (True, log)"
    and "rep_inv ins hist (rp_count s (R\<lparr>rp_log := log\<rparr>))" and "lg_entries log = lg_entries (rp_log R) @ [entry_of r]"
    and "log_base log = 0"
proof -
  let ?L = "rp_log R"
  have ok: "log_ok ?L" using assms(1) by (simp add: rep_inv_def)
  obtain seq log where a: "log_append (lr_command r) (lr_term r) ?L = (seq, log)" by fastforce
  note f = log_append_ok [OF ok assms(2) a]
  have last: "lg_lastSeq log = seq" "seq = lg_lastSeq ?L + 1" using a by (auto simp: log_append_def Let_def)
  have seq: "lr_seq r = seq" using f(3) assms(3,4) by (simp add: word_unat_eq_iff)
  have "lg_lastSeq ?L \<le> seq" using f(3) log_okD(1) [OF ok] by (simp add: word_le_nat_alt)
  then have "rep_inv ins hist (rp_count s (R\<lparr>rp_log := log\<rparr>))"
    using assms(1,3) f last by (auto simp: rep_inv_def)
  moreover have "appendAt (lr_seq r) (lr_term r) (lr_command r) ?L = (True, log)" using seq last a by (simp add: appendAt_eq)
  ultimately show thesis using that f(2,4) assms(3) seq by (simp add: entry_of_def)
qed

text \<open>What follows the conflict check in the body of the loop.\<close>

definition append_record :: "LogRecord \<Rightarrow> LogRecord list \<Rightarrow> 't Replicator \<Rightarrow> (bool \<times> 't Replicator) option" where
  "append_record r rs R = (case appendAt (lr_seq r) (lr_term r) (lr_command r) (rp_log R) of
       (False, log) \<Rightarrow> Some (False, rp_count (\<lambda>s. s\<lparr>st_gapsDetected := st_gapsDetected s + 1\<rparr>) (R\<lparr>rp_log := log\<rparr>))
     | (True, log) \<Rightarrow> mergeRecords rs (rp_count (\<lambda>s. s\<lparr>st_entriesReceived := st_entriesReceived s + 1\<rparr>) (R\<lparr>rp_log := log\<rparr>)))"

lemma mergeRecords_cases:
  assumes "existing = termAt (lr_seq r) (rp_log R)"
  shows "existing = Some (lr_term r) \<Longrightarrow> lr_seq r \<le> lg_lastSeq (rp_log R) \<Longrightarrow> mergeRecords (r # rs) R = mergeRecords rs R"
    and "existing = Some t \<Longrightarrow> t \<noteq> lr_term r \<Longrightarrow> lr_seq r \<le> lg_lastSeq (rp_log R) \<Longrightarrow> lr_seq r \<le> rp_commitIndex R \<Longrightarrow>
      mergeRecords (r # rs) R = Some (True, R)"
    and "existing = Some t \<Longrightarrow> t \<noteq> lr_term r \<Longrightarrow> lr_seq r \<le> lg_lastSeq (rp_log R) \<Longrightarrow> \<not> lr_seq r \<le> rp_commitIndex R \<Longrightarrow>
      mergeRecords (r # rs) R = Option.bind
        (rebuildFromLog (rp_count (\<lambda>s. s\<lparr>st_conflictingEntriesTruncated := st_conflictingEntriesTruncated s + 1\<rparr>)
           (R\<lparr>rp_log := truncateFrom (lr_seq r) (rp_log R)\<rparr>))) (append_record r rs)"
    and "\<not> lr_seq r \<le> lg_lastSeq (rp_log R) \<Longrightarrow> mergeRecords (r # rs) R = append_record r rs R"
  using assms by (simp_all add: Let_def append_record_def [abs_def])

lemma mergeRecords_refines:
  assumes "rep_inv ins hist R" and "log_base (rp_log R) = 0"
    and "length (lg_entries (rp_log R)) + length rs < 2 ^ 64 - 1"
  obtains R' hist' refused where "mergeRecords rs R = Some (refused, R')" and "rep_inv ins hist' R'" and "log_base (rp_log R') = 0"
    and "merge_spec (unat (rp_commitIndex R)) (lg_entries (rp_log R)) rs = (refused, lg_entries (rp_log R'))"
    and "merge_frame R R'"
    and "unat (rp_lastApplied R') = merge_applied (unat (rp_commitIndex R)) (lg_entries (rp_log R)) (unat (rp_lastApplied R)) rs"
proof -
  have "\<exists>R' hist' refused. mergeRecords rs R = Some (refused, R') \<and> rep_inv ins hist' R' \<and> log_base (rp_log R') = 0 \<and>
      merge_spec (unat (rp_commitIndex R)) (lg_entries (rp_log R)) rs = (refused, lg_entries (rp_log R')) \<and> merge_frame R R' \<and>
      unat (rp_lastApplied R') = merge_applied (unat (rp_commitIndex R)) (lg_entries (rp_log R)) (unat (rp_lastApplied R)) rs"
    using assms
  proof (induction rs arbitrary: R hist)
    case Nil
    then show ?case using merge_frame_refl by auto
  next
    case (Cons r rs)
    let ?L = "rp_log R" and ?es = "lg_entries (rp_log R)" and ?n = "unat (lr_seq r)"
    let ?recv = "\<lambda>s. s\<lparr>st_entriesReceived := st_entriesReceived s + 1\<rparr>"
    have ok: "log_ok ?L" and snap: "rp_snapshotBase R = None" and ci: "rp_commitIndex R \<le> lg_lastSeq ?L"
      using Cons.prems by (auto simp: rep_inv_def)
    have last: "unat (lg_lastSeq ?L) = length ?es" using log_okD(1) [OF ok] Cons.prems(2) by simp
    have room: "log_room ?L" using last Cons.prems(3) by (simp add: log_roomI)
    have le: "lr_seq r \<le> lg_lastSeq ?L \<longleftrightarrow> ?n \<le> length ?es" using last by (simp add: word_le_nat_alt)
    note trm = termAt_uncompacted [OF ok Cons.prems(2), of "lr_seq r"]
    have zero: "lr_seq r = 0 \<longleftrightarrow> ?n = 0" by (simp add: unat_eq_zero)
    have len: "length (lg_entries (rp_log R)) + length rs < 2 ^ 64 - 1" using Cons.prems(3) by simp
    have com: "lr_seq r \<le> rp_commitIndex R \<longleftrightarrow> ?n \<le> unat (rp_commitIndex R)" by (simp add: word_le_nat_alt)
    note step = mergeRecords_cases [OF trm [symmetric]]
    let ?t = "if ?n = 0 then 0 else le_term (?es ! (?n - 1))"
    consider (skip) "?n \<le> length ?es" "?t = lr_term r"
      | (refuse) "?n \<le> length ?es" "?t \<noteq> lr_term r" "?n \<le> unat (rp_commitIndex R)"
      | (conflict) "?n \<noteq> 0" "?n \<le> length ?es" "?t \<noteq> lr_term r" "unat (rp_commitIndex R) < ?n"
      | (append) "?n = Suc (length ?es)" | (gap) "Suc (length ?es) < ?n"
      by fastforce
    then show ?case
    proof cases
      case skip
      then have "mergeRecords (r # rs) R = mergeRecords rs R" using le zero by (intro step(1)) (auto split: if_splits)
      moreover have "merge_spec (unat (rp_commitIndex R)) ?es (r # rs) = merge_spec (unat (rp_commitIndex R)) ?es rs"
        "merge_applied (unat (rp_commitIndex R)) ?es a (r # rs) = merge_applied (unat (rp_commitIndex R)) ?es a rs" for a
        using skip by (auto split: if_splits)
      ultimately show ?thesis using Cons.IH [OF Cons.prems(1,2) len] by simp
    next
      case refuse
      then have "mergeRecords (r # rs) R = Some (True, R)" using le zero com by (intro step(2) [of ?t]) (auto split: if_splits)
      moreover have "merge_spec (unat (rp_commitIndex R)) ?es (r # rs) = (True, ?es)"
        "merge_applied (unat (rp_commitIndex R)) ?es (unat (rp_lastApplied R)) (r # rs) = unat (rp_lastApplied R)"
        using refuse by (auto split: if_splits)
      ultimately show ?thesis using Cons.prems merge_frame_refl by metis
    next
      case append
      obtain log where a: "appendAt (lr_seq r) (lr_term r) (lr_command r) ?L = (True, log)"
        "rep_inv ins hist (rp_count ?recv (R\<lparr>rp_log := log\<rparr>))" "lg_entries log = ?es @ [entry_of r]" "log_base log = 0"
        using Cons.prems(1) room Cons.prems(2) append by (rule appended)
      have fr: "merge_frame R (rp_count ?recv (R\<lparr>rp_log := log\<rparr>))" by (simp add: merge_frame_refl)
      have "mergeRecords (r # rs) R = mergeRecords rs (rp_count ?recv (R\<lparr>rp_log := log\<rparr>))"
        using append le by (subst step(4)) (auto simp: append_record_def a(1))
      then show ?thesis
        using Cons.IH [OF a(2)] a(3,4) append Cons.prems(3) merge_frame_trans [OF fr] by auto
    next
      case gap
      let ?R' = "rp_count (\<lambda>s. s\<lparr>st_gapsDetected := st_gapsDetected s + 1\<rparr>) R"
      have "lr_seq r \<noteq> lg_lastSeq ?L + 1" using gap last next_seq_unat [of ?L] room by (auto simp: log_room_def)
      then have "mergeRecords (r # rs) R = Some (False, ?R')"
        using gap le by (simp add: step(4) append_record_def appendAt_def)
      moreover have "merge_frame R ?R'"
        by (simp add: merge_frame_refl)
      moreover have "rep_inv ins hist ?R'" using Cons.prems(1) by (subst rep_inv_cong [of _ R]) simp_all
      ultimately show ?thesis using gap Cons.prems(2) by auto
    next
      case conflict
      let ?R0 = "rp_count (\<lambda>s. s\<lparr>st_conflictingEntriesTruncated := st_conflictingEntriesTruncated s + 1\<rparr>)
           (R\<lparr>rp_log := truncateFrom (lr_seq r) ?L\<rparr>)"
      note tr = truncateFrom_eq [OF ok, of "lr_seq r"]
      have cut: "lg_entries (rp_log ?R0) = take (?n - 1) ?es" "log_base (rp_log ?R0) = 0" "log_ok (rp_log ?R0)"
        using tr Cons.prems(2) by simp_all
      have last0: "unat (lg_lastSeq (rp_log ?R0)) = ?n - 1" using log_okD(1) [OF cut(3)] cut conflict by simp
      have room0: "log_room (rp_log ?R0)" using last0 conflict(2) Cons.prems(3) by (intro log_roomI) simp
      have ins: "me_instrument (rp_engine ?R0) = ins" using Cons.prems(1) by (simp add: rep_inv_def state_after(3))
      obtain R1 where R1: "rebuildFromLog ?R0 = Some R1" "rep_inv ins (map le_command (lg_entries (rp_log ?R0))) R1"
        "R1 = ?R0\<lparr>rp_engine := rp_engine R1, rp_lastApplied := lg_lastSeq (rp_log ?R0)\<rparr>"
        by (rule rebuildFromLog_total [of ?R0 ins])
          (use ins cut snap room0 last0 conflict(4) in \<open>auto simp: word_le_nat_alt\<close>)
      have L1: "rp_log R1 = truncateFrom (lr_seq r) ?L" "rp_commitIndex R1 = rp_commitIndex R" by (subst R1(3); simp)+
      have app1: "unat (rp_lastApplied R1) = ?n - 1" by (subst R1(3)) (use last0 in simp)
      have fr1: "merge_frame R R1"
        by (subst R1(3)) (simp add: merge_frame_refl)
      have "unat (lr_seq r) = Suc (length (lg_entries (rp_log R1)))" using cut conflict L1 by simp
      then obtain log where a: "appendAt (lr_seq r) (lr_term r) (lr_command r) (rp_log R1) = (True, log)"
        "rep_inv ins (map le_command (lg_entries (rp_log ?R0))) (rp_count ?recv (R1\<lparr>rp_log := log\<rparr>))"
        "lg_entries log = take (?n - 1) ?es @ [entry_of r]" "log_base log = 0"
        using appended [OF R1(2)] room0 cut L1 by auto
      have "merge_frame R1 (rp_count ?recv (R1\<lparr>rp_log := log\<rparr>))"
        by (simp add: merge_frame_refl)
      with fr1 have fr: "merge_frame R (rp_count ?recv (R1\<lparr>rp_log := log\<rparr>))" by (rule merge_frame_trans)
      have "mergeRecords (r # rs) R = append_record r rs R1"
        using conflict le zero com R1(1) by (subst step(3) [of ?t]) auto
      then have "mergeRecords (r # rs) R = mergeRecords rs (rp_count ?recv (R1\<lparr>rp_log := log\<rparr>))" by (simp add: append_record_def a(1))
      then show ?thesis
        using Cons.IH [OF a(2)] a(3,4) conflict L1(2) app1 Cons.prems(3) merge_frame_trans [OF fr] by (auto simp: Let_def)
    qed
  qed
  with that show thesis by blast
qed

section \<open>Log matching\<close>

text \<open>Two logs match when entries of equal number and term are equal together with everything before
  them (the Log Matching property of Raft).\<close>

definition log_matching :: "LogEntry list \<Rightarrow> LogEntry list \<Rightarrow> bool" where
  "log_matching L LL \<longleftrightarrow> (\<forall>i<min (length L) (length LL). le_term (L ! i) = le_term (LL ! i) \<longrightarrow> take (Suc i) L = take (Suc i) LL)"

lemma log_matching_take: "log_matching (take n LL) LL"
  by (auto simp: log_matching_def min_def)

lemma prefix_take_le: "m \<le> n \<Longrightarrow> prefix (take m xs) (take n xs)"
  using take_is_prefix [of m "take n xs"] by (simp add: min_def)

lemma merge_spec_leader:
  assumes "\<forall>i<length LL. unat (le_seq (LL ! i)) = Suc i" and "log_matching L LL"
    and "p \<le> length L" and "take p L = take p LL"
    and "merge_spec c L (map record_of (take k (drop p LL))) = (refused, L')"
  shows "(refused \<longrightarrow> L' = L \<and> (\<exists>i<min (length L) (length LL). i < c \<and> L ! i \<noteq> LL ! i)) \<and>
    (\<not> refused \<longrightarrow> L' = (if prefix (take (p + k) LL) L then L else take (p + k) LL))"
  using assms(2-)
proof (induction k arbitrary: p L)
  case 0
  then show ?case by (simp, metis take_is_prefix)
next
  case (Suc k)
  show ?case
  proof (cases "p < length LL")
    case False
    then have "refused = False" "L' = L" using Suc.prems(4) by simp_all
    moreover have "take (p + Suc k) LL = take p L" using False Suc.prems(3) by simp
    ultimately show ?thesis by (simp add: take_is_prefix)
  next
    case True
    let ?e = "LL ! p"
    have recs: "map record_of (take (Suc k) (drop p LL)) = record_of ?e # map record_of (take k (drop (Suc p) LL))"
      using True by (simp add: Cons_nth_drop_Suc [symmetric])
    have n: "unat (lr_seq (record_of ?e)) = Suc p" "lr_term (record_of ?e) = le_term ?e"
      using assms(1) True by (simp_all add: record_of_def)
    have tk: "take (Suc p) LL = take p L @ [?e]" using True Suc.prems(3) by (simp add: take_Suc_conv_app_nth)
    have extend: "?thesis" if m: "merge_spec c (take p L @ [?e]) (map record_of (take k (drop (Suc p) LL))) = (refused, L')"
      and diff: "\<not> prefix (take (Suc p) LL) L"
    proof -
      have IH: "(refused \<longrightarrow> L' = take (Suc p) LL \<and> (\<exists>i<min (length (take (Suc p) LL)) (length LL). i < c \<and> take (Suc p) LL ! i \<noteq> LL ! i)) \<and>
          (\<not> refused \<longrightarrow> L' = (if prefix (take (Suc p + k) LL) (take (Suc p) LL) then take (Suc p) LL else take (Suc p + k) LL))"
        using m True by (intro Suc.IH) (auto simp: tk [symmetric] log_matching_take)
      then have "\<not> refused" by auto
      moreover have "L' = take (p + Suc k) LL"
      proof (cases "prefix (take (Suc p + k) LL) (take (Suc p) LL)")
        case True
        moreover have "prefix (take (Suc p) LL) (take (Suc p + k) LL)" by (rule prefix_take_le) simp
        ultimately have "take (Suc p + k) LL = take (Suc p) LL" by (rule prefix_order.antisym)
        with IH \<open>\<not> refused\<close> show ?thesis by simp
      next
        case False
        with IH \<open>\<not> refused\<close> show ?thesis by simp
      qed
      moreover have "\<not> prefix (take (p + Suc k) LL) L"
      proof
        assume "prefix (take (p + Suc k) LL) L"
        moreover have "prefix (take (Suc p) LL) (take (p + Suc k) LL)" by (rule prefix_take_le) simp
        ultimately show False using diff prefix_order.trans by blast
      qed
      ultimately show ?thesis by simp
    qed
    consider (same) "p < length L" "le_term (L ! p) = le_term ?e" | (differ) "p < length L" "le_term (L ! p) \<noteq> le_term ?e" | (after) "p = length L"
      using Suc.prems(2) by linarith
    then show ?thesis
    proof cases
      case same
      have "take (Suc p) L = take (Suc p) LL" using Suc.prems(1) same True by (simp add: log_matching_def)
      moreover have "merge_spec c L (map record_of (take k (drop (Suc p) LL))) = (refused, L')"
        using Suc.prems(4) same n by (simp add: recs)
      ultimately show ?thesis using Suc.IH [of L "Suc p"] Suc.prems(1) same by simp
    next
      case differ
      have "\<not> prefix (take (Suc p) LL) L"
      proof
        assume "prefix (take (Suc p) LL) L"
        then obtain zs where "L = (take p L @ [?e]) @ zs" unfolding tk by (elim prefixE)
        then have "L ! p = ?e" using differ(1) by (metis append.assoc append_Cons length_take min.absorb4 nth_append_length)
        with differ(2) show False by simp
      qed
      note diff = this
      show ?thesis
      proof (cases "Suc p \<le> c")
        case True
        have "refused" "L' = L" using Suc.prems(4) differ n True by (simp_all add: recs)
        moreover have "p < length LL" "L ! p \<noteq> ?e" using \<open>p < length LL\<close> differ(2) by auto
        ultimately show ?thesis using differ(1) True by (auto intro!: exI [of _ p])
      next
        case False
        then have "merge_spec c (take p L @ [?e]) (map record_of (take k (drop (Suc p) LL))) = (refused, L')"
          using Suc.prems(4) differ n by (simp add: recs)
        then show ?thesis using diff by (rule extend)
      qed
    next
      case after
      then have "\<not> prefix (take (Suc p) LL) L" using True by (auto dest!: prefix_length_le)
      moreover have "merge_spec c (take p L @ [?e]) (map record_of (take k (drop (Suc p) LL))) = (refused, L')"
        using Suc.prems(4) [unfolded recs] after n by simp
      ultimately show ?thesis by (intro extend)
    qed
  qed
qed

lemma longest_common_prefix_fork:
  "x \<noteq> y \<Longrightarrow> longest_common_prefix (ps @ x # xs) (ps @ y # ys) = ps"
  by (induction ps) simp_all

text \<open>The leader's records leave the applied position alone unless they replace a tail; then it is where
  the two logs part.\<close>

lemma merge_applied_leader:
  assumes "\<forall>i<length LL. unat (le_seq (LL ! i)) = Suc i" and "log_matching L LL"
    and "p \<le> length L" and "take p L = take p LL"
    and "\<not> fst (merge_spec c L (map record_of (take k (drop p LL))))"
  shows "merge_applied c L a (map record_of (take k (drop p LL))) =
    (if prefix L (take (p + k) LL) \<or> prefix (take (p + k) LL) L then a else length (longest_common_prefix L (take (p + k) LL)))"
  using assms(2-)
proof (induction k arbitrary: p L a)
  case 0
  then show ?case by (simp, metis take_is_prefix)
next
  case (Suc k)
  show ?case
  proof (cases "p < length LL")
    case False
    moreover have "take (p + Suc k) LL = take p L" using False Suc.prems(3) by simp
    ultimately show ?thesis by (simp add: take_is_prefix)
  next
    case True
    let ?e = "LL ! p"
    have recs: "map record_of (take (Suc k) (drop p LL)) = record_of ?e # map record_of (take k (drop (Suc p) LL))"
      using True by (simp add: Cons_nth_drop_Suc [symmetric])
    have n: "unat (lr_seq (record_of ?e)) = Suc p" "lr_term (record_of ?e) = le_term ?e"
      using assms(1) True by (simp_all add: record_of_def)
    have tk: "take (Suc p) LL = take p L @ [?e]" using True Suc.prems(3) by (simp add: take_Suc_conv_app_nth)
    have sent: "take (p + Suc k) LL = take p L @ ?e # take k (drop (Suc p) LL)"
      using Suc.prems(3) take_add [of p "Suc k" LL] True by (simp add: Cons_nth_drop_Suc [symmetric])
    have longer: "merge_applied c (take p L @ [?e]) b (map record_of (take k (drop (Suc p) LL))) = b"
      if "\<not> fst (merge_spec c (take p L @ [?e]) (map record_of (take k (drop (Suc p) LL))))" for b
      using that True by (subst Suc.IH) (auto simp: tk [symmetric] log_matching_take prefix_take_le)
    consider (same) "p < length L" "le_term (L ! p) = le_term ?e" | (differ) "p < length L" "le_term (L ! p) \<noteq> le_term ?e" | (after) "p = length L"
      using Suc.prems(2) by linarith
    then show ?thesis
    proof cases
      case same
      have "take (Suc p) L = take (Suc p) LL" using Suc.prems(1) same True by (simp add: log_matching_def)
      then show ?thesis using Suc.IH [of L "Suc p"] Suc.prems(1,4) same n by (simp add: recs)
    next
      case differ
      obtain ps x xs where own: "L = ps @ x # xs" "ps = take p L" "x = L ! p" using differ(1) id_take_nth_drop by blast
      have d: "x \<noteq> ?e" using differ(2) own(3) by auto
      have "longest_common_prefix L (take (p + Suc k) LL) = ps" "\<not> prefix L (take (p + Suc k) LL)" "\<not> prefix (take (p + Suc k) LL) L"
        unfolding sent own(2) [symmetric] unfolding own(1) using d by (simp_all add: longest_common_prefix_fork)
      moreover have "length ps = p" using differ(1) own(2) by simp
      ultimately show ?thesis using longer [of p] Suc.prems(4) differ n by (simp add: recs Let_def split: if_splits)
    next
      case after
      then have "prefix L (take (p + Suc k) LL)" unfolding sent by simp
      moreover have "merge_applied c L a (record_of ?e # map record_of (take k (drop (Suc p) LL))) = a"
        using longer [of a] Suc.prems(4) [unfolded recs] after n by simp
      ultimately show ?thesis unfolding recs by simp
    qed
  qed
qed

end
