(* ===== verification/Replication_Steps.thy ===== *)
theory Replication_Steps
  imports Replication
begin

text \<open>
  The operations of a node one by one. Sending leaves log, engine and commit point alone. The leader moves
  the commit point only to an entry of the current term that a majority of match points has reached; what
  its operations keep is proved once, in the locale \<open>replica_law\<close>, for nodes that replay their log and
  for nodes that have lost their state. A follower merges the leader's records: on an uncompacted log as
  \<open>merge_spec\<close> says, on a compacted one it extends the log or loses its state.
\<close>

section \<open>Sending\<close>

definition core_eq :: "'t Replicator \<Rightarrow> 't Replicator \<Rightarrow> bool" where
  "core_eq R R' \<longleftrightarrow> rp_self R' = rp_self R \<and> rp_role R' = rp_role R \<and> rp_engine R' = rp_engine R \<and> rp_log R' = rp_log R \<and>
     rp_lastApplied R' = rp_lastApplied R \<and> rp_commitIndex R' = rp_commitIndex R \<and> rp_term R' = rp_term R \<and>
     rp_clusterSize R' = rp_clusterSize R \<and> rp_snapshotBase R' = rp_snapshotBase R"

lemma core_eq_refl [simp]: "core_eq R R"
  by (simp add: core_eq_def)

lemma core_eq_trans: "core_eq R R1 \<Longrightarrow> core_eq R1 R2 \<Longrightarrow> core_eq R R2"
  by (simp add: core_eq_def)

lemma core_eq_upd [simp]:
  "core_eq R (rp_count f R') \<longleftrightarrow> core_eq R R'" "core_eq R (R'\<lparr>rp_backups := m\<rparr>) \<longleftrightarrow> core_eq R R'"
  "core_eq R (R'\<lparr>rp_transport := tr\<rparr>) \<longleftrightarrow> core_eq R R'"
  "core_eq (rp_count f R) R' \<longleftrightarrow> core_eq R R'" "core_eq (R\<lparr>rp_backups := m\<rparr>) R' \<longleftrightarrow> core_eq R R'"
  by (simp_all add: core_eq_def)

lemma core_eq_inv: "core_eq R R' \<Longrightarrow> rep_inv ins hist R' \<longleftrightarrow> rep_inv ins hist R"
  by (intro rep_inv_cong) (simp_all add: core_eq_def)

lemma core_eq_step: "core_eq R R' \<Longrightarrow> rep_inv ins hist R \<Longrightarrow> \<exists>hist'. rep_inv ins hist' R' \<and> rp_commitIndex R \<le> rp_commitIndex R'"
  using core_eq_inv [of R R' ins hist] by (auto simp: core_eq_def)

lemma rp_send_core: "rp_send tsend to m R = (res, R') \<Longrightarrow> core_eq R R' \<and> rp_backups R' = rp_backups R"
  by (auto simp: rp_send_def core_eq_refl split: prod.splits)

lemma sendAppend_core:
  assumes "sendAppend tsend b probe R = (b', R')"
  shows "core_eq R R'" and "rp_backups R' = rp_backups R" and "bk_matchSeq b' = bk_matchSeq b"
  using assms
  by (auto simp: sendAppend_def Let_def split: if_splits prod.splits dest!: rp_send_core intro: core_eq_trans [rotated])

lemma for_backups_core:
  assumes "\<And>i b R b' R'. f i b R = (b', R') \<Longrightarrow> core_eq R R' \<and> rp_backups R' = rp_backups R \<and> bk_matchSeq b' = bk_matchSeq b"
    and "for_backups f m R = (m', R')"
  shows "core_eq R R' \<and> map fst m' = map fst m \<and> map (bk_matchSeq \<circ> snd) m' = map (bk_matchSeq \<circ> snd) m"
  using assms(2)
proof (induction m arbitrary: R m' R')
  case (Cons x m)
  obtain i b where x: "x = (i, b)" by fastforce
  obtain b1 R1 where f: "f i b R = (b1, R1)" by fastforce
  obtain m2 R2 where r: "for_backups f m R1 = (m2, R2)" by fastforce
  show ?case using Cons.IH [OF r] assms(1) [OF f] Cons.prems x f r by (auto intro: core_eq_trans)
qed (auto simp: core_eq_refl)

lemma each_backup_core:
  assumes "\<And>i b R b' R'. f i b R = (b', R') \<Longrightarrow> core_eq R R' \<and> rp_backups R' = rp_backups R \<and> bk_matchSeq b' = bk_matchSeq b"
  shows "core_eq R (each_backup f R)"
proof -
  obtain m R' where r: "for_backups f (rp_backups R) R = (m, R')" by fastforce
  from for_backups_core [OF assms r] show ?thesis by (simp add: each_backup_def r)
qed

section \<open>Majority commit\<close>

lemma sorted_desc_nth_count:
  fixes xs :: "'a :: linorder list"
  assumes "k < length xs"
  shows "k < length (filter (\<lambda>x. rev (sort xs) ! k \<le> x) xs)"
proof -
  let ?ys = "rev (sort xs)" and ?P = "\<lambda>x. rev (sort xs) ! k \<le> x"
  have "\<forall>y\<in>set (take (Suc k) ?ys). ?P y"
  proof
    fix y assume "y \<in> set (take (Suc k) ?ys)"
    then obtain i where i: "i \<le> k" "y = ?ys ! i" "i < length ?ys" by (auto simp: in_set_conv_nth less_Suc_eq_le)
    then show "?P y" using assms by (auto simp: rev_nth intro!: sorted_nth_mono)
  qed
  then have "filter ?P (take (Suc k) ?ys) = take (Suc k) ?ys" by (simp add: filter_id_conv)
  then have "Suc k \<le> length (filter ?P (take (Suc k) ?ys @ drop (Suc k) ?ys))" using assms by (simp del: append_take_drop_id)
  also have "length (filter ?P (take (Suc k) ?ys @ drop (Suc k) ?ys)) = length (filter ?P xs)"
    by (simp only: append_take_drop_id rev_filter [symmetric] filter_sort length_rev length_sort)
  finally show ?thesis by simp
qed

text \<open>The backups whose match point has reached \<open>c\<close>.\<close>

definition holders :: "Sequence \<Rightarrow> 't Replicator \<Rightarrow> NodeId list" where
  "holders c R = map fst (filter (\<lambda>(i, b). c \<le> bk_matchSeq b) (rp_backups R))"

lemma length_filter_replicate: "length (filter P (replicate n x)) = (if P x then n else 0)"
  by (induction n) auto

lemma candidate_held_by_majority:
  assumes "0 < commit_candidate R"
  shows "rp_majority R \<le> Suc (length (holders (commit_candidate R) R))"
proof -
  let ?c = "commit_candidate R"
  have "rp_majority R - 1 < length (match_points R)" by (auto simp: rp_majority_def match_points_def Let_def)
  from sorted_desc_nth_count [OF this] have "rp_majority R \<le> length (filter (\<lambda>x. ?c \<le> x) (match_points R))"
    by (simp add: commit_candidate_def rp_majority_def)
  also have "\<dots> \<le> Suc (length (filter (\<lambda>x. ?c \<le> x) (map (\<lambda>(i, b). bk_matchSeq b) (rp_backups R))))"
    using assms by (simp add: match_points_def Let_def length_filter_replicate not_le del: length_filter_map)
  also have "\<dots> = Suc (length (holders ?c R))" by (simp add: holders_def filter_map o_def case_prod_unfold)
  finally show ?thesis .
qed

lemma termAt_le_last:
  assumes "log_ok L" and "termAt seq L = Some t"
  shows "seq \<le> lg_lastSeq L"
proof -
  have "lg_truncatedThrough L \<le> lg_lastSeq L" using log_okD(1) [OF assms(1)] by (simp add: word_le_nat_alt log_base_def)
  then show ?thesis using assms log_okD(1,2) [OF assms(1)]
    by (auto simp: termAt_def log_at_eq word_le_nat_alt split: if_splits option.splits)
qed

lemma smap_alter_alter: "(\<And>k. \<not> lt k k) \<Longrightarrow> smap_alter lt k d (\<lambda>_. v) (smap_alter lt k d' (\<lambda>_. u) m) = smap_alter lt k d (\<lambda>_. v) m"
  by (induction m) auto

lemma smap_alter_matches:
  assumes "bk_matchSeq b = bk_matchSeq b'"
  shows "map (\<lambda>(i, b). (i, bk_matchSeq b)) (smap_alter lt k d (\<lambda>_. b) m) = map (\<lambda>(i, b). (i, bk_matchSeq b)) (smap_alter lt k d (\<lambda>_. b') m)"
  using assms by (induction m) auto

lemma holders_eq: "holders c R = map fst (filter (\<lambda>(i, s). c \<le> s) (map (\<lambda>(i, b). (i, bk_matchSeq b)) (rp_backups R)))"
  by (simp add: holders_def filter_map o_def case_prod_unfold)

lemma holders_cong:
  "map (\<lambda>(i, b). (i, bk_matchSeq b)) (rp_backups R') = map (\<lambda>(i, b). (i, bk_matchSeq b)) (rp_backups R) \<Longrightarrow> holders c R' = holders c R"
  by (simp add: holders_eq)

lemma each_backup_holders:
  assumes "\<And>i b R b' R'. f i b R = (b', R') \<Longrightarrow> core_eq R R' \<and> rp_backups R' = rp_backups R \<and> bk_matchSeq b' = bk_matchSeq b"
  shows "holders c (each_backup f R) = holders c R"
proof -
  obtain m R' where r: "for_backups f (rp_backups R) R = (m, R')" by fastforce
  have "map fst m = map fst (rp_backups R)" "map (bk_matchSeq \<circ> snd) m = map (bk_matchSeq \<circ> snd) (rp_backups R)"
    using for_backups_core [OF assms r] by simp_all
  then have "zip (map fst m) (map (bk_matchSeq \<circ> snd) m) = zip (map fst (rp_backups R)) (map (bk_matchSeq \<circ> snd) (rp_backups R))" by simp
  then have "map (\<lambda>(i, b). (i, bk_matchSeq b)) m = map (\<lambda>(i, b). (i, bk_matchSeq b)) (rp_backups R)"
    by (simp add: zip_map_map zip_same_conv_map o_def case_prod_unfold)
  then show ?thesis by (intro holders_cong) (simp add: each_backup_def r)
qed

lemma submit_refuses:
  assumes "submit tsend tsat cmd R = Some (r, R')" and "sr_status r \<noteq> Accepted"
  shows "core_eq R R' \<and> rp_transport R' = rp_transport R \<and> rp_backups R' = rp_backups R"
  using assms by (auto simp: submit_def Let_def split: if_splits bind_splits prod.splits)

lemma rep_inv_append:
  assumes "rep_inv ins hist R" and "log_room (rp_log R)" and "log_append cmd trm (rp_log R) = (seq, log)"
  shows "rep_inv ins hist (R\<lparr>rp_log := log\<rparr>)"
proof -
  have ok: "log_ok (rp_log R)" using assms(1) by (simp add: rep_inv_def)
  note f = log_append_ok [OF ok assms(2,3)]
  have "lg_lastSeq log = seq" using assms(3) by (auto simp: log_append_def Let_def)
  moreover have "lg_lastSeq (rp_log R) \<le> seq" using f(3) log_okD(1) [OF ok] by (simp add: word_le_nat_alt)
  ultimately show ?thesis using assms(1) f by (auto simp: rep_inv_def)
qed

section \<open>The leader's operations\<close>

text \<open>
  A node that has compacted its log and then had to replace a tail ends in the state \<open>rep_lost\<close>: the
  engine is empty, nothing counts as applied, and the entries the engine would need are gone. The
  leader's operations treat such a node like any other, so what they do is stated once, for any
  predicate \<open>I\<close> that the log operations and \<open>applyCommitted\<close> respect; \<open>applied\<close> tells how far the
  engine gets. It holds of \<open>rep_inv\<close> and of \<open>rep_lost\<close>.
\<close>

locale replica_law =
  fixes I :: "Command list \<Rightarrow> 't Replicator \<Rightarrow> bool" and applied :: "Sequence \<Rightarrow> Sequence \<Rightarrow> Sequence"
  assumes log_law: "I hist R \<Longrightarrow> log_ok (rp_log R)"
    and core_law: "core_eq R R' \<Longrightarrow> I hist R \<Longrightarrow> I hist R'"
    and commit_law: "I hist R \<Longrightarrow> c \<le> lg_lastSeq (rp_log R) \<Longrightarrow> I hist (R\<lparr>rp_commitIndex := c\<rparr>)"
    and append_law: "I hist R \<Longrightarrow> log_room (rp_log R) \<Longrightarrow> log_append cmd t (rp_log R) = (seq, log) \<Longrightarrow> I hist (R\<lparr>rp_log := log\<rparr>)"
    and apply_law: "I hist R \<Longrightarrow> \<exists>R' more st. applyCommitted R = Some R' \<and> I (hist @ more) R' \<and>
      rp_lastApplied R' = applied (rp_lastApplied R) (rp_commitIndex R) \<and>
      R' = R\<lparr>rp_engine := rp_engine R', rp_lastApplied := rp_lastApplied R', rp_stats := st\<rparr>"
begin

lemma apply_holds:
  assumes "I hist R"
  obtains R' more st where "applyCommitted R = Some R'" and "I (hist @ more) R'"
    and "rp_lastApplied R' = applied (rp_lastApplied R) (rp_commitIndex R)"
    and "R' = R\<lparr>rp_engine := rp_engine R', rp_lastApplied := rp_lastApplied R', rp_stats := st\<rparr>"
  using apply_law [OF assms] by blast

lemma advance_holds:
  assumes "I hist R"
  obtains R' more where "advanceCommitIndex R = Some R'" and "I (hist @ more) R'"
    and "rp_log R' = rp_log R" and "rp_backups R' = rp_backups R" and "rp_term R' = rp_term R" and "rp_role R' = rp_role R"
    and "rp_clusterSize R' = rp_clusterSize R" and "rp_commitIndex R \<le> rp_commitIndex R'"
    and "rp_commitIndex R' \<noteq> rp_commitIndex R \<Longrightarrow> rp_role R = Primary \<and> rp_commitIndex R' = commit_candidate R \<and>
      rp_lastApplied R' = applied (rp_lastApplied R) (commit_candidate R) \<and>
      termAt (commit_candidate R) (rp_log R) = Some (rp_term R)"
    and "rp_commitIndex R' \<noteq> rp_commitIndex R \<Longrightarrow> rp_majority R \<le> Suc (length (holders (rp_commitIndex R') R))"
proof (cases "rp_role R \<noteq> Primary \<or> commit_candidate R \<le> rp_commitIndex R \<or> termAt (commit_candidate R) (rp_log R) \<noteq> Some (rp_term R)")
  case True
  then have "advanceCommitIndex R = Some R" by (auto simp: advanceCommitIndex_def Let_def)
  then show thesis using that [of R "[]"] assms by simp
next
  case False
  let ?c = "commit_candidate R"
  let ?R1 = "rp_count (\<lambda>s. s\<lparr>st_commitAdvances := st_commitAdvances s + 1\<rparr>) (R\<lparr>rp_commitIndex := ?c\<rparr>)"
  have "?c \<le> lg_lastSeq (rp_log R)" using termAt_le_last [OF log_law [OF assms]] False by blast
  then have "I hist (R\<lparr>rp_commitIndex := ?c\<rparr>)" using assms commit_law by blast
  then have "I hist ?R1" by (rule core_law [rotated]) simp
  then obtain R' more st where R': "applyCommitted ?R1 = Some R'" "I (hist @ more) R'"
    "rp_lastApplied R' = applied (rp_lastApplied ?R1) (rp_commitIndex ?R1)"
    and e: "R' = ?R1\<lparr>rp_engine := rp_engine R', rp_lastApplied := rp_lastApplied R', rp_stats := st\<rparr>"
    by (rule apply_holds)
  have f: "rp_log R' = rp_log R" "rp_backups R' = rp_backups R" "rp_term R' = rp_term R" "rp_role R' = rp_role R"
    "rp_clusterSize R' = rp_clusterSize R" "rp_commitIndex R' = ?c"
    by (subst e; simp)+
  have "0 < ?c" using False word_gt_0 [of ?c] by auto
  then have "rp_majority R \<le> Suc (length (holders ?c R))" by (rule candidate_held_by_majority)
  moreover have "advanceCommitIndex R = Some R'" using False R'(1) by (simp add: advanceCommitIndex_def Let_def)
  ultimately show thesis using that [of R' more] R'(2,3) f False by auto
qed

lemma response_holds:
  assumes "I hist R"
  obtains R' more where "handleAppendResponse tsend frm msg R = Some R'" and "I (hist @ more) R'"
    and "rp_log R' = rp_log R" and "rp_commitIndex R \<le> rp_commitIndex R'" and "rp_term R' = rp_term R"
    and "rp_commitIndex R' \<noteq> rp_commitIndex R \<Longrightarrow> rp_role R = Primary \<and>
      termAt (rp_commitIndex R') (rp_log R) = Some (rp_term R) \<and> rp_lastApplied R' = applied (rp_lastApplied R) (rp_commitIndex R') \<and>
      rp_majority R \<le> Suc (length (holders (rp_commitIndex R') R'))"
proof (cases "rp_term R < ar_term msg")
  case True
  let ?R' = "rp_count (\<lambda>s. s\<lparr>st_staleTermRejections := st_staleTermRejections s + 1\<rparr>) R"
  have "I hist ?R'" using assms by (rule core_law [rotated]) simp
  with True show thesis by (intro that [of ?R' "[]"]) (simp_all add: handleAppendResponse_def)
next
  case False
  define b0 where "b0 = value_or (smap_find node_before frm (rp_backups R)) (fresh_backup\<lparr>bk_id := frm\<rparr>)"
  define b1 where "b1 = b0\<lparr>bk_lastApplied := ar_lastApplied msg,
      bk_matchSeq := (if ar_ok msg then ar_lastLogSeq msg else bk_matchSeq b0),
      bk_lastChecksum := ar_stateChecksum msg, bk_probing := False,
      bk_lastSent := (if \<not> ar_ok msg \<or> bk_lastSent b0 < ar_lastApplied msg then ar_lastApplied msg else bk_lastSent b0)\<rparr>"
  define R0 where "R0 = R\<lparr>rp_backups := smap_alter node_before frm fresh_backup (\<lambda>_. b1) (rp_backups R)\<rparr>"
  have core0: "core_eq R R0" by (simp add: R0_def)
  then have "I hist R0" using assms core_law by blast
  then obtain R1 more where R1: "advanceCommitIndex R0 = Some R1" "I (hist @ more) R1"
    "rp_log R1 = rp_log R0" "rp_backups R1 = rp_backups R0" "rp_term R1 = rp_term R0" "rp_role R1 = rp_role R0"
    "rp_clusterSize R1 = rp_clusterSize R0" "rp_commitIndex R0 \<le> rp_commitIndex R1"
    and adv: "rp_commitIndex R1 \<noteq> rp_commitIndex R0 \<Longrightarrow> rp_role R0 = Primary \<and> rp_commitIndex R1 = commit_candidate R0 \<and>
      rp_lastApplied R1 = applied (rp_lastApplied R0) (commit_candidate R0) \<and> termAt (commit_candidate R0) (rp_log R0) = Some (rp_term R0)"
    and maj: "rp_commitIndex R1 \<noteq> rp_commitIndex R0 \<Longrightarrow> rp_majority R0 \<le> Suc (length (holders (rp_commitIndex R1) R0))"
    by (rule advance_holds) blast
  define R2 where "R2 = (if bk_lastApplied b1 = rp_lastApplied R1 \<and> bk_lastChecksum b1 \<noteq> stateChecksum (rp_engine R1)
      then rp_count (\<lambda>s. s\<lparr>st_checksumMismatches := st_checksumMismatches s + 1\<rparr>) R1 else R1)"
  obtain b2 R3 where sa: "sendAppend tsend b1 False R2 = (b2, R3)" by fastforce
  define R' where "R' = (if bk_lastSent b1 < lg_lastSeq (rp_log R2) \<or> bk_lastCommitSent b1 < rp_commitIndex R2
      then R3\<lparr>rp_backups := smap_alter node_before frm fresh_backup (\<lambda>_. b2) (rp_backups R3)\<rparr> else R2)"
  have run: "handleAppendResponse tsend frm msg R = Some R'"
    by (simp only: handleAppendResponse_def Let_def if_not_P [OF False] b0_def [symmetric] b1_def [symmetric]
        R0_def [symmetric] R1(1) Option.bind.bind_lunit R2_def [symmetric] sa prod.case R'_def)
  have core2: "core_eq R1 R2" "rp_backups R2 = rp_backups R1" by (simp_all add: R2_def)
  note sc = sendAppend_core [OF sa]
  have core': "core_eq R1 R'" using core2 sc by (auto simp: R'_def intro: core_eq_trans)
  have "holders c R' = holders c R0" for c
    using sc core2 R1(4) smap_alter_matches [of b2 b1]
    by (intro holders_cong) (auto simp: R'_def R0_def smap_alter_alter)
  note h = this
  show thesis
    using run core' core0 R1 adv maj core_law [OF core'] h
    by (intro that [of R' more]) (auto simp: core_eq_def rp_majority_def)
qed

lemma submit_holds:
  assumes "I hist R" and "log_room (rp_log R)"
  obtains r R' more where "submit tsend tsat cmd R = Some (r, R')" and "I (hist @ more) R'"
    and "rp_commitIndex R \<le> rp_commitIndex R'"
    and "sr_status r \<noteq> Accepted \<Longrightarrow> core_eq R R'"
    and "sr_status r = Accepted \<Longrightarrow> rp_role R = Primary \<and> (sr_seq r, rp_log R') = log_append cmd (rp_term R) (rp_log R)"
    and "sr_status r = Accepted \<Longrightarrow> rp_clusterSize R \<noteq> 1 \<Longrightarrow> rp_commitIndex R' = rp_commitIndex R \<and> rp_engine R' = rp_engine R"
    and "rp_commitIndex R' \<noteq> rp_commitIndex R \<Longrightarrow> rp_role R = Primary \<and> rp_lastApplied R' = applied (rp_lastApplied R) (rp_commitIndex R') \<and>
      termAt (rp_commitIndex R') (rp_log R') = Some (rp_term R') \<and> rp_majority R \<le> Suc (length (holders (rp_commitIndex R') R'))"
proof -
  obtain seq log where la: "log_append cmd (rp_term R) (rp_log R) = (seq, log)" by fastforce
  let ?R1 = "rp_count (\<lambda>s. s\<lparr>st_submitted := st_submitted s + 1\<rparr>) (R\<lparr>rp_log := log\<rparr>)"
  have "I hist (R\<lparr>rp_log := log\<rparr>)" using assms la by (rule append_law)
  then have i1: "I hist ?R1" by (rule core_law [rotated]) simp
  obtain R2 more where R2: "(if rp_clusterSize ?R1 = 1 then advanceCommitIndex ?R1 else Some ?R1) = Some R2" "I (hist @ more) R2"
    "rp_log R2 = log" "rp_commitIndex R \<le> rp_commitIndex R2" "rp_clusterSize R \<noteq> 1 \<longrightarrow> R2 = ?R1"
    and adv: "rp_commitIndex R2 \<noteq> rp_commitIndex R \<longrightarrow> rp_role R = Primary \<and> rp_lastApplied R2 = applied (rp_lastApplied R) (rp_commitIndex R2) \<and>
      termAt (rp_commitIndex R2) (rp_log R2) = Some (rp_term R2) \<and> rp_majority R \<le> Suc (length (holders (rp_commitIndex R2) R2))"
  proof (cases "rp_clusterSize R = 1")
    case True
    obtain R2 more where a: "advanceCommitIndex ?R1 = Some R2" "I (hist @ more) R2" "rp_log R2 = rp_log ?R1" "rp_backups R2 = rp_backups ?R1"
      "rp_term R2 = rp_term ?R1" "rp_commitIndex ?R1 \<le> rp_commitIndex R2"
      "rp_commitIndex R2 \<noteq> rp_commitIndex ?R1 \<Longrightarrow> rp_role ?R1 = Primary \<and> rp_commitIndex R2 = commit_candidate ?R1 \<and>
        rp_lastApplied R2 = applied (rp_lastApplied ?R1) (commit_candidate ?R1) \<and> termAt (commit_candidate ?R1) (rp_log ?R1) = Some (rp_term ?R1)"
      "rp_commitIndex R2 \<noteq> rp_commitIndex ?R1 \<Longrightarrow> rp_majority ?R1 \<le> Suc (length (holders (rp_commitIndex R2) ?R1))"
      by (rule advance_holds [OF i1]) blast
    moreover have "holders c R2 = holders c ?R1" for c using a(4) by (simp add: holders_def)
    ultimately show thesis using True by (intro that [of R2 more]) (auto simp: rp_majority_def)
  next
    case False
    then show thesis using that [of ?R1 "[]"] i1 by simp
  qed
  let ?f = "\<lambda>i b R. if \<not> bk_probing b then sendAppend tsend b False R else (b, R)"
  have core: "core_eq R2 (each_backup ?f R2)" and hold: "holders c (each_backup ?f R2) = holders c R2" for c
    by (rule each_backup_core each_backup_holders; auto split: if_splits dest: sendAppend_core)+
  let ?busy = "rp_role R \<noteq> Primary \<or> rp_mode R = Synchronous \<and> rp_backups R = [] \<or>
    rp_mode R = Synchronous \<and> rp_syncWindow R \<le> lg_lastSeq (rp_log R) - commitSeq R \<or>
    (\<exists>(i, b)\<in>set (rp_backups R). tsat i (rp_transport R))"
  obtain r R' where sub: "submit tsend tsat cmd R = Some (r, R')"
    and cs: "sr_status r \<noteq> Accepted \<and> core_eq R R' \<or> sr_status r = Accepted \<and> sr_seq r = seq \<and> R' = each_backup ?f R2 \<and> rp_role R = Primary"
  proof (cases ?busy)
    case True
    then have "\<exists>r R'. submit tsend tsat cmd R = Some (r, R') \<and> sr_status r \<noteq> Accepted \<and> core_eq R R'"
      by (simp add: submit_def Let_def) force
    with that show thesis by blast
  next
    case False
    then have "submit tsend tsat cmd R = Some (\<lparr>sr_status = Accepted, sr_seq = seq\<rparr>, each_backup ?f R2)"
      using la R2(1) by (simp add: submit_def Let_def)
    with that False show thesis by fastforce
  qed
  from cs show thesis
  proof (elim disjE conjE)
    assume "sr_status r \<noteq> Accepted" "core_eq R R'"
    then show thesis using sub assms(1) core_law [of R R'] by (intro that [of r R' "[]"]) (auto simp: core_eq_def)
  next
    assume a: "sr_status r = Accepted" "sr_seq r = seq" "R' = each_backup ?f R2" "rp_role R = Primary"
    show thesis
      by (rule that [of r R' more]) (use sub a R2 core core_law [OF core] la adv hold in \<open>auto simp: core_eq_def\<close>)
  qed
qed

end

lemma rep_inv_core: "core_eq R R' \<Longrightarrow> rep_inv ins hist R \<Longrightarrow> rep_inv ins hist R'"
  using core_eq_inv by blast

lemma rep_inv_commit: "rep_inv ins hist R \<Longrightarrow> c \<le> lg_lastSeq (rp_log R) \<Longrightarrow> rep_inv ins hist (R\<lparr>rp_commitIndex := c\<rparr>)"
  by (simp add: rep_inv_def)

lemma rep_inv_apply:
  assumes "rep_inv ins hist R"
  shows "\<exists>R' more st. applyCommitted R = Some R' \<and> rep_inv ins (hist @ more) R' \<and>
    rp_lastApplied R' = max (rp_lastApplied R) (rp_commitIndex R) \<and>
    R' = R\<lparr>rp_engine := rp_engine R', rp_lastApplied := rp_lastApplied R', rp_stats := st\<rparr>"
  using applyCommitted_total [OF assms] by metis

interpretation full: replica_law "rep_inv ins" max for ins
  by unfold_locales (simp add: rep_inv_def, (rule rep_inv_core rep_inv_commit rep_inv_append rep_inv_apply; assumption)+)

lemmas advanceCommitIndex_total = full.advance_holds
lemmas handleAppendResponse_total = full.response_holds
lemmas submit_total = full.submit_holds

text \<open>The state a compacted node falls to.\<close>

definition rep_lost :: "InstrumentId \<Rightarrow> Command list \<Rightarrow> 't Replicator \<Rightarrow> bool" where
  "rep_lost ins hist R \<longleftrightarrow> hist = [] \<and> log_ok (rp_log R) \<and> rp_snapshotBase R = None \<and> 0 < log_base (rp_log R) \<and>
     rp_engine R = new_engine ins \<and> rp_lastApplied R = 0 \<and> rp_commitIndex R \<le> lg_lastSeq (rp_log R)"

lemma rep_lost_core: "core_eq R R' \<Longrightarrow> rep_lost ins hist R \<Longrightarrow> rep_lost ins hist R'"
  by (simp add: rep_lost_def core_eq_def)

lemma rep_lost_append:
  assumes "rep_lost ins hist R" and "log_room (rp_log R)" and "log_append cmd trm (rp_log R) = (seq, log)"
  shows "rep_lost ins hist (R\<lparr>rp_log := log\<rparr>)"
proof -
  have ok: "log_ok (rp_log R)" using assms(1) by (simp add: rep_lost_def)
  note f = log_append_ok [OF ok assms(2,3)]
  have "lg_lastSeq log = seq" using assms(3) by (auto simp: log_append_def Let_def)
  moreover have "lg_lastSeq (rp_log R) \<le> seq" using f(3) log_okD(1) [OF ok] by (simp add: word_le_nat_alt)
  ultimately show ?thesis using assms(1) f by (auto simp: rep_lost_def)
qed

lemma rep_lost_apply: "rep_lost ins hist R \<Longrightarrow> applyCommitted R = Some R"
  by (subst applyCommitted.simps) (auto simp: rep_lost_def log_at_eq)

lemma rep_lost_law:
  "rep_lost ins hist R \<Longrightarrow> \<exists>R' more st. applyCommitted R = Some R' \<and> rep_lost ins (hist @ more) R' \<and> rp_lastApplied R' = rp_lastApplied R \<and>
      R' = R\<lparr>rp_engine := rp_engine R', rp_lastApplied := rp_lastApplied R', rp_stats := st\<rparr>"
  using rep_lost_apply by (intro exI [of _ R] exI [of _ "[]"] exI [of _ "rp_stats R"]) simp

lemma rep_lost_commit: "rep_lost ins hist R \<Longrightarrow> c \<le> lg_lastSeq (rp_log R) \<Longrightarrow> rep_lost ins hist (R\<lparr>rp_commitIndex := c\<rparr>)"
  by (simp add: rep_lost_def)

interpretation lost: replica_law "rep_lost ins" "\<lambda>a c. a" for ins
  by unfold_locales (simp add: rep_lost_def, (rule rep_lost_core rep_lost_commit rep_lost_append rep_lost_law; assumption)+)

section \<open>Follower\<close>

text \<open>The answer a follower sends, with the state it reports.\<close>

definition append_reply :: "bool \<Rightarrow> Sequence \<Rightarrow> 't Replicator \<Rightarrow> Message" where
  "append_reply ok lastLog R = AppendResponse \<lparr>ar_term = rp_term R, ar_nodeId = rp_self R, ar_lastLogSeq = lastLog,
     ar_ok = ok, ar_lastApplied = rp_lastApplied R, ar_stateChecksum = stateChecksum (rp_engine R)\<rparr>"

lemma append_reply_transport [simp]: "append_reply ok l (R\<lparr>rp_transport := tr\<rparr>) = append_reply ok l R"
  by (simp add: append_reply_def)

lemma snd_rp_send: "snd (rp_send tsend to m R) = R\<lparr>rp_transport := snd (tsend to m (rp_transport R))\<rparr>"
  by (simp add: rp_send_def split_beta)

lemma handleAppendEntries_rejects:
  assumes "ae_term msg < rp_term R \<or> termAt (ae_prevSeq msg) (rp_log R) \<noteq> Some (ae_prevTerm msg)"
  obtains R' where "handleAppendEntries tsend frm msg R = Some R'" and "core_eq R R'" and "rp_backups R' = rp_backups R"
    and "rp_transport R' = snd (tsend frm (append_reply False (lg_lastSeq (rp_log R')) R') (rp_transport R))"
  using assms
  by (intro that [of "the (handleAppendEntries tsend frm msg R)"])
    (auto simp: handleAppendEntries_def Let_def snd_rp_send append_reply_def)

lemma handleAppendEntries_merges:
  assumes inv: "rep_inv ins hist R" and base: "log_base (rp_log R) = 0"
    and room: "length (lg_entries (rp_log R)) + length (ae_entries msg) < 2 ^ 64 - 1"
    and ok: "\<not> ae_term msg < rp_term R" "termAt (ae_prevSeq msg) (rp_log R) = Some (ae_prevTerm msg)"
  obtains R' hist' refused where "handleAppendEntries tsend frm msg R = Some R'" and "rep_inv ins hist' R'" and "log_base (rp_log R') = 0"
    and "merge_spec (unat (rp_commitIndex R)) (lg_entries (rp_log R)) (ae_entries msg) = (refused, lg_entries (rp_log R'))"
    and "rp_commitIndex R' = (if refused then rp_commitIndex R else max (rp_commitIndex R) (min (ae_commitSeq msg) (lg_lastSeq (rp_log R'))))"
    and "\<not> refused \<Longrightarrow> rp_commitIndex R' \<le> rp_lastApplied R'"
    and "rp_transport R' = snd (tsend frm (append_reply (\<not> refused) (if refused then 0 else lg_lastSeq (rp_log R')) R') (rp_transport R))"
    and "rp_term R' = rp_term R" and "rp_role R' = rp_role R" and "rp_self R' = rp_self R"
    and "\<not> refused \<Longrightarrow> unat (rp_lastApplied R') = max (merge_applied (unat (rp_commitIndex R)) (lg_entries (rp_log R)) (unat (rp_lastApplied R)) (ae_entries msg))
      (unat (rp_commitIndex R'))"
proof -
  obtain R1 hist1 refused where R1: "mergeRecords (ae_entries msg) R = Some (refused, R1)" "rep_inv ins hist1 R1" "log_base (rp_log R1) = 0"
    "merge_spec (unat (rp_commitIndex R)) (lg_entries (rp_log R)) (ae_entries msg) = (refused, lg_entries (rp_log R1))" "merge_frame R R1"
    "unat (rp_lastApplied R1) = merge_applied (unat (rp_commitIndex R)) (lg_entries (rp_log R)) (unat (rp_lastApplied R)) (ae_entries msg)"
    using inv base room by (rule mergeRecords_refines)
  have c: "rp_commitIndex R1 = rp_commitIndex R" using R1(5) by (simp add: merge_frame_def)
  have le: "rp_commitIndex R1 \<le> lg_lastSeq (rp_log R1)" using R1(2) by (simp add: rep_inv_def)
  show thesis
  proof (cases refused)
    case True
    then have h: "handleAppendEntries tsend frm msg R = Some (snd (rp_send tsend frm (append_reply False 0 R1) R1))"
      using ok R1(1) by (simp add: handleAppendEntries_def Let_def append_reply_def)
    let ?R' = "R1\<lparr>rp_transport := snd (tsend frm (append_reply False 0 R1) (rp_transport R1))\<rparr>"
    have "rep_inv ins hist1 ?R'" using R1(2) by (subst rep_inv_cong [of _ R1]) simp_all
    with h show thesis using True R1 c by (intro that [of ?R' hist1 True]) (simp_all add: snd_rp_send merge_frame_def)
  next
    case False
    let ?R2 = "if rp_commitIndex R1 < ae_commitSeq msg
        then rp_count (\<lambda>s. s\<lparr>st_commitAdvances := st_commitAdvances s + 1\<rparr>)
           (R1\<lparr>rp_commitIndex := min (ae_commitSeq msg) (lg_lastSeq (rp_log R1))\<rparr>) else R1"
    have c2: "rp_commitIndex ?R2 = max (rp_commitIndex R) (min (ae_commitSeq msg) (lg_lastSeq (rp_log R1)))"
      using c le by (auto simp: max_def min_def)
    have f2: "rp_log ?R2 = rp_log R1" "rp_transport ?R2 = rp_transport R1" "rp_term ?R2 = rp_term R1" "rp_role ?R2 = rp_role R1"
      "rp_self ?R2 = rp_self R1" by simp_all
    have "rep_inv ins hist1 ?R2" using R1(2) by (simp add: rep_inv_def)
    then obtain R3 more where R3: "applyCommitted ?R2 = Some R3" "rep_inv ins (hist1 @ more) R3"
      "rp_lastApplied R3 = max (rp_lastApplied ?R2) (rp_commitIndex ?R2)"
      "\<exists>st. R3 = ?R2\<lparr>rp_engine := rp_engine R3, rp_lastApplied := rp_lastApplied R3, rp_stats := st\<rparr>"
      by (rule applyCommitted_total)
    from R3(4) obtain st where e: "R3 = ?R2\<lparr>rp_engine := rp_engine R3, rp_lastApplied := rp_lastApplied R3, rp_stats := st\<rparr>" ..
    have f3: "rp_log R3 = rp_log R1" "rp_transport R3 = rp_transport R" "rp_term R3 = rp_term R" "rp_role R3 = rp_role R" "rp_self R3 = rp_self R"
      by (subst e; use f2 R1(5) in \<open>simp add: merge_frame_def\<close>)+
    have c3: "rp_commitIndex R3 = max (rp_commitIndex R) (min (ae_commitSeq msg) (lg_lastSeq (rp_log R1)))"
      by (subst e) (use c2 in simp)
    let ?R' = "R3\<lparr>rp_transport := snd (tsend frm (append_reply True (lg_lastSeq (rp_log R3)) R3) (rp_transport R3))\<rparr>"
    have h: "handleAppendEntries tsend frm msg R = Some ?R'"
      using ok R1(1) False R3(1) by (simp add: handleAppendEntries_def Let_def append_reply_def snd_rp_send)
    have "rep_inv ins (hist1 @ more) ?R'" using R3(2) by (subst rep_inv_cong [of _ R3]) simp_all
    moreover have "rp_lastApplied R3 = max (rp_lastApplied R1) (rp_commitIndex R3)" using R3(3) c2 c3 by simp
    then have "rp_commitIndex R3 \<le> rp_lastApplied R3" "unat (rp_lastApplied R3) = max (unat (rp_lastApplied R1)) (unat (rp_commitIndex R3))"
      by (simp_all add: max_def word_le_nat_alt)
    ultimately show thesis using h False R1(3,4) R1(6) [symmetric] c3 f3
      by (intro that [of ?R' "hist1 @ more" False]) simp_all
  qed
qed

section \<open>Merging into a compacted log\<close>

text \<open>Any state a node can be in: a replay of its log, or lost. No operation of the node sets a snapshot
  boundary in the log.\<close>

definition rep_any :: "InstrumentId \<Rightarrow> Command list \<Rightarrow> 't Replicator \<Rightarrow> bool" where
  "rep_any ins hist R \<longleftrightarrow> lg_snapshotSeq (rp_log R) = 0 \<and> (rep_inv ins hist R \<or> rep_lost ins hist R)"

lemma rep_any_parts:
  assumes "rep_any ins hist R"
  shows "log_ok (rp_log R)" and "rp_snapshotBase R = None" and "rp_commitIndex R \<le> lg_lastSeq (rp_log R)"
    and "me_instrument (rp_engine R) = ins" and "lg_snapshotSeq (rp_log R) = 0" and "rp_engine R = state_after ins hist"
    and "unat (rp_lastApplied R) = length hist"
  using assms by (auto simp: rep_any_def rep_inv_def rep_lost_def state_after(3) new_engine_def)

lemma rep_any_core: "core_eq R R' \<Longrightarrow> rep_any ins hist R \<Longrightarrow> rep_any ins hist R'"
  using rep_inv_core [of R R' ins hist] rep_lost_core [of R R' ins hist] by (auto simp: rep_any_def) (simp_all add: core_eq_def)

lemma rep_any_commit: "rep_any ins hist R \<Longrightarrow> c \<le> lg_lastSeq (rp_log R) \<Longrightarrow> rep_any ins hist (R\<lparr>rp_commitIndex := c\<rparr>)"
  using rep_inv_commit [of ins hist R c] rep_lost_commit [of ins hist R c] by (auto simp: rep_any_def)

lemma rep_any_append:
  assumes "rep_any ins hist R" and "log_room (rp_log R)" and "log_append cmd t (rp_log R) = (seq, log)"
  shows "rep_any ins hist (R\<lparr>rp_log := log\<rparr>)"
proof -
  have "lg_snapshotSeq log = lg_snapshotSeq (rp_log R)" using assms(3) by (auto simp: log_append_def Let_def)
  then show ?thesis using assms(1) rep_inv_append [OF _ assms(2,3)] rep_lost_append [OF _ assms(2,3)] by (auto simp: rep_any_def)
qed

lemma rep_any_uncompacted: "log_base (rp_log R) = 0 \<Longrightarrow> rep_any ins hist R \<longleftrightarrow> rep_inv ins hist R"
  using log_okD(2) [of "rp_log R"] by (auto simp: rep_any_def rep_lost_def rep_inv_def log_base_def unat_eq_zero)

lemma rep_any_apply:
  assumes "rep_any ins hist R"
  obtains R' more st where "applyCommitted R = Some R'" and "rep_any ins (hist @ more) R'"
    and "R' = R\<lparr>rp_engine := rp_engine R', rp_lastApplied := rp_lastApplied R', rp_stats := st\<rparr>"
    and "rep_lost ins hist R \<Longrightarrow> rep_lost ins (hist @ more) R'"
proof (cases "rep_lost ins hist R")
  case True
  then show thesis using assms rep_lost_apply [OF True] by (intro that [of R "[]" "rp_stats R"]) simp_all
next
  case False
  then have inv: "rep_inv ins hist R" and z: "lg_snapshotSeq (rp_log R) = 0" using assms by (auto simp: rep_any_def)
  obtain R' more st where R': "applyCommitted R = Some R'" "rep_inv ins (hist @ more) R'"
    "R' = R\<lparr>rp_engine := rp_engine R', rp_lastApplied := rp_lastApplied R', rp_stats := st\<rparr>"
    using full.apply_holds [OF inv] by metis
  have "rp_log R' = rp_log R" by (subst R'(3)) simp
  then have "rep_any ins (hist @ more) R'" using R'(2) z by (simp add: rep_any_def)
  from that [OF R'(1) this R'(3)] False show thesis by blast
qed

text \<open>A rebuild of a compacted log.\<close>

lemma rebuild_loses:
  assumes "log_ok (rp_log R)" and "0 < log_base (rp_log R)" and "lg_snapshotSeq (rp_log R) = 0" and "rp_snapshotBase R = None"
    and "me_instrument (rp_engine R) = ins"
  shows "rebuildFromLog R = Some (R\<lparr>rp_engine := new_engine ins, rp_lastApplied := 0, rp_commitIndex := 0\<rparr>)"
proof -
  have "log_at 1 (rp_log R) = None" using assms(2) by (simp add: log_at_eq [OF assms(1)])
  then have "replayLog 1 (R\<lparr>rp_engine := new_engine ins, rp_lastApplied := 0\<rparr>) = Some (R\<lparr>rp_engine := new_engine ins, rp_lastApplied := 0\<rparr>)"
    by (subst replayLog.simps) simp
  with assms(3-) show ?thesis by (simp add: rebuildFromLog_def Let_def word_gt_0)
qed

lemma termAt_no_snapshot:
  "lg_snapshotSeq L = 0 \<Longrightarrow> termAt seq L = (if seq = 0 then Some 0 else map_option le_term (log_at seq L))"
  by (auto simp: termAt_def split: option.splits)

text \<open>What a merge does to a compacted log: it extends it, or the node is lost.\<close>

definition kept_or_lost :: "InstrumentId \<Rightarrow> Command list \<Rightarrow> 't Replicator \<Rightarrow> Command list \<Rightarrow> 't Replicator \<Rightarrow> bool" where
  "kept_or_lost ins hist R hist' R' \<longleftrightarrow> rep_any ins hist' R' \<and> log_base (rp_log R') = log_base (rp_log R) \<and>
     merge_frame (R\<lparr>rp_commitIndex := rp_commitIndex R'\<rparr>) R' \<and>
     (rep_lost ins hist R \<longrightarrow> rep_lost ins hist' R') \<and> (rp_commitIndex R' = rp_commitIndex R \<or> rp_commitIndex R' = 0) \<and>
     (rep_lost ins hist' R' \<or> prefix (lg_entries (rp_log R)) (lg_entries (rp_log R')) \<and> rp_commitIndex R' = rp_commitIndex R)"

lemma kept_or_lost_refl: "rep_any ins hist R \<Longrightarrow> kept_or_lost ins hist R hist R"
  by (simp add: kept_or_lost_def merge_frame_refl)

lemma kept_or_lost_trans:
  "kept_or_lost ins hist R hist1 R1 \<Longrightarrow> kept_or_lost ins hist1 R1 hist2 R2 \<Longrightarrow> kept_or_lost ins hist R hist2 R2"
  by (auto simp: kept_or_lost_def merge_frame_def)

lemma kept_or_lost_append:
  assumes "rep_any ins hist R" and "log_room (rp_log R)" and "appendAt seq t cmd (rp_log R) = (ok, log)"
  shows "kept_or_lost ins hist R hist (rp_count f (R\<lparr>rp_log := log\<rparr>))" and "unat (lg_lastSeq log) \<le> Suc (unat (lg_lastSeq (rp_log R)))"
proof -
  have c: "core_eq (R\<lparr>rp_log := log\<rparr>) (rp_count f (R\<lparr>rp_log := log\<rparr>))" by simp
  consider "log = rp_log R" | "log_append cmd t (rp_log R) = (seq, log)"
    using assms(3) by (auto simp: appendAt_def log_append_def Let_def split: if_splits)
  then have "rep_any ins hist (R\<lparr>rp_log := log\<rparr>) \<and> log_base log = log_base (rp_log R) \<and> prefix (lg_entries (rp_log R)) (lg_entries log) \<and>
      unat (lg_lastSeq log) \<le> Suc (unat (lg_lastSeq (rp_log R))) \<and> (rep_lost ins hist R \<longrightarrow> rep_lost ins hist (R\<lparr>rp_log := log\<rparr>))"
  proof cases
    case 2
    note f = log_append_ok [OF rep_any_parts(1) [OF assms(1)] assms(2) 2]
    have "lg_lastSeq log = seq" using 2 by (auto simp: log_append_def Let_def)
    then show ?thesis using f log_okD(1) [OF rep_any_parts(1) [OF assms(1)]] rep_any_append [OF assms(1,2) 2] rep_lost_append [OF _ assms(2) 2] by simp
  qed (use assms(1) in simp)
  then show "kept_or_lost ins hist R hist (rp_count f (R\<lparr>rp_log := log\<rparr>))" "unat (lg_lastSeq log) \<le> Suc (unat (lg_lastSeq (rp_log R)))"
    using rep_any_core [OF c] rep_lost_core [OF c] by (simp_all add: kept_or_lost_def merge_frame_refl)
qed

lemma kept_or_lost_rebuild:
  assumes "rep_any ins hist R" and "0 < log_base (rp_log R)"
  obtains R' where "rebuildFromLog (rp_count f (R\<lparr>rp_log := truncateFrom seq (rp_log R)\<rparr>)) = Some R'"
    and "kept_or_lost ins hist R [] R'" and "lg_lastSeq (rp_log R') \<le> lg_lastSeq (rp_log R)"
proof -
  let ?R0 = "rp_count f (R\<lparr>rp_log := truncateFrom seq (rp_log R)\<rparr>)"
  let ?R' = "?R0\<lparr>rp_engine := new_engine ins, rp_lastApplied := 0, rp_commitIndex := 0\<rparr>"
  note p = rep_any_parts [OF assms(1)] and t = truncateFrom_eq [OF rep_any_parts(1) [OF assms(1)], of seq]
  have z: "lg_snapshotSeq (truncateFrom seq (rp_log R)) = 0" using p(5) by (simp add: truncateFrom_def Let_def)
  have "rebuildFromLog ?R0 = Some ?R'" by (rule rebuild_loses) (use p t z assms(2) in simp_all)
  moreover have "rep_lost ins [] ?R'" using p t assms(2) by (simp add: rep_lost_def)
  then have "kept_or_lost ins hist R [] ?R'"
    using t z by (simp add: kept_or_lost_def rep_any_def) (simp add: merge_frame_def rp_count_def)
  moreover have "lg_lastSeq (truncateFrom seq (rp_log R)) \<le> lg_lastSeq (rp_log R)"
    using log_okD(1) [OF p(1)] log_okD(1) [OF t(3)] t(1,2) by (simp add: word_le_nat_alt)
  ultimately show thesis using that by simp
qed

lemma mergeRecords_compacted:
  assumes "rep_any ins hist R" and "0 < log_base (rp_log R)" and "unat (lg_lastSeq (rp_log R)) + length rs < 2 ^ 64 - 1"
  shows "\<exists>R' hist' refused. mergeRecords rs R = Some (refused, R') \<and> kept_or_lost ins hist R hist' R'"
  using assms
proof (induction rs arbitrary: R hist)
  case Nil
  then show ?case using kept_or_lost_refl by fastforce
next
  case (Cons r rs)
  let ?L = "rp_log R"
  have appended: "\<exists>R' hist' refused. append_record r rs R1 = Some (refused, R') \<and> kept_or_lost ins hist R hist' R'"
    if k: "kept_or_lost ins hist R hist1 R1" and l: "lg_lastSeq (rp_log R1) \<le> lg_lastSeq ?L" for hist1 R1
  proof -
    have any: "rep_any ins hist1 R1" and b: "0 < log_base (rp_log R1)" using k Cons.prems(2) by (simp_all add: kept_or_lost_def)
    have room: "log_room (rp_log R1)" using l Cons.prems(3) by (intro log_roomI) (simp add: word_le_nat_alt)
    obtain ok log where a: "appendAt (lr_seq r) (lr_term r) (lr_command r) (rp_log R1) = (ok, log)" by fastforce
    note ap = kept_or_lost_append [OF any room a]
    show ?thesis
    proof (cases ok)
      case True
      let ?R2 = "rp_count (\<lambda>s. s\<lparr>st_entriesReceived := st_entriesReceived s + 1\<rparr>) (R1\<lparr>rp_log := log\<rparr>)"
      have k2: "kept_or_lost ins hist1 R1 hist1 ?R2" by (rule ap(1))
      then have "rep_any ins hist1 ?R2" "0 < log_base (rp_log ?R2)" using b by (simp_all add: kept_or_lost_def)
      from Cons.IH [OF this] obtain R' hist' refused where "mergeRecords rs ?R2 = Some (refused, R')" "kept_or_lost ins hist1 ?R2 hist' R'"
        using ap(2) l Cons.prems(3) by (auto simp: word_le_nat_alt)
      moreover from this(2) have "kept_or_lost ins hist R hist' R'" using k k2 kept_or_lost_trans by blast
      ultimately show ?thesis using a True by (auto simp: append_record_def)
    next
      case False
      let ?R2 = "rp_count (\<lambda>s. s\<lparr>st_gapsDetected := st_gapsDetected s + 1\<rparr>) (R1\<lparr>rp_log := log\<rparr>)"
      have "kept_or_lost ins hist R hist1 ?R2" using k ap(1) kept_or_lost_trans by blast
      then show ?thesis using a False by (auto simp: append_record_def)
    qed
  qed
  note step = mergeRecords_cases [OF refl, of r R]
  consider (new) "termAt (lr_seq r) ?L = None" | (past) "\<not> lr_seq r \<le> lg_lastSeq ?L"
    | (old) t where "termAt (lr_seq r) ?L = Some t" "lr_seq r \<le> lg_lastSeq ?L" by fastforce
  then show ?case
  proof cases
    case new
    then have "mergeRecords (r # rs) R = append_record r rs R" by (simp add: Let_def append_record_def)
    then show ?thesis using appended [OF kept_or_lost_refl [OF Cons.prems(1)]] by simp
  next
    case past
    then show ?thesis using appended [OF kept_or_lost_refl [OF Cons.prems(1)]] step(4) by simp
  next
    case old
    consider "t = lr_term r" | "t \<noteq> lr_term r" "lr_seq r \<le> rp_commitIndex R" | "t \<noteq> lr_term r" "\<not> lr_seq r \<le> rp_commitIndex R" by blast
    then show ?thesis
    proof cases
      case 1
      then show ?thesis using step(1) old Cons.IH [OF Cons.prems(1,2)] Cons.prems(3) by simp
    next
      case 2
      then show ?thesis using step(2) [OF old(1)] old kept_or_lost_refl [OF Cons.prems(1)] by blast
    next
      case 3
      obtain R1 where R1: "rebuildFromLog (rp_count (\<lambda>s. s\<lparr>st_conflictingEntriesTruncated := st_conflictingEntriesTruncated s + 1\<rparr>)
          (R\<lparr>rp_log := truncateFrom (lr_seq r) ?L\<rparr>)) = Some R1" "kept_or_lost ins hist R [] R1" "lg_lastSeq (rp_log R1) \<le> lg_lastSeq ?L"
        using Cons.prems(1,2) by (rule kept_or_lost_rebuild)
      then show ?thesis using step(3) [OF old(1)] 3 old appended [OF R1(2,3)] by simp
    qed
  qed
qed

lemma handleAppendEntries_compacted:
  assumes any: "rep_any ins hist R" and base: "0 < log_base (rp_log R)"
    and room: "unat (lg_lastSeq (rp_log R)) + length (ae_entries msg) < 2 ^ 64 - 1"
    and ok: "\<not> ae_term msg < rp_term R" "termAt (ae_prevSeq msg) (rp_log R) = Some (ae_prevTerm msg)"
  obtains R' hist' where "handleAppendEntries tsend frm msg R = Some R'" and "rep_any ins hist' R'" and "log_base (rp_log R') = log_base (rp_log R)"
    and "rep_lost ins hist' R' \<or> prefix (lg_entries (rp_log R)) (lg_entries (rp_log R')) \<and> rp_commitIndex R \<le> rp_commitIndex R'"
    and "rp_commitIndex R' = rp_commitIndex R \<or> rp_commitIndex R' = 0 \<or> rp_commitIndex R' = min (ae_commitSeq msg) (lg_lastSeq (rp_log R'))"
proof -
  obtain R1 hist1 refused where R1: "mergeRecords (ae_entries msg) R = Some (refused, R1)" "kept_or_lost ins hist R hist1 R1"
    using mergeRecords_compacted [OF any base room] by blast
  note k = R1(2) [unfolded kept_or_lost_def]
  show thesis
  proof (cases refused)
    case True
    let ?R' = "R1\<lparr>rp_transport := snd (tsend frm (append_reply False 0 R1) (rp_transport R1))\<rparr>"
    have "handleAppendEntries tsend frm msg R = Some ?R'"
      using ok R1(1) True by (simp add: handleAppendEntries_def Let_def append_reply_def snd_rp_send)
    moreover have "core_eq R1 ?R'" by simp
    ultimately show thesis using k rep_any_core [of R1 ?R'] rep_lost_core [of R1 ?R'] by (intro that [of ?R' hist1]) auto
  next
    case False
    define R2 where "R2 = (if rp_commitIndex R1 < ae_commitSeq msg
        then rp_count (\<lambda>s. s\<lparr>st_commitAdvances := st_commitAdvances s + 1\<rparr>)
           (R1\<lparr>rp_commitIndex := min (ae_commitSeq msg) (lg_lastSeq (rp_log R1))\<rparr>) else R1)"
    have le: "rp_commitIndex R1 \<le> lg_lastSeq (rp_log R1)" using k rep_any_parts(3) by blast
    have c2: "rp_commitIndex R1 \<le> rp_commitIndex R2" "rp_commitIndex R2 = rp_commitIndex R1 \<or> rp_commitIndex R2 = min (ae_commitSeq msg) (lg_lastSeq (rp_log R1))"
      "rp_log R2 = rp_log R1" using le by (auto simp: R2_def)
    have c: "core_eq (R1\<lparr>rp_commitIndex := rp_commitIndex R2\<rparr>) R2" by (simp add: R2_def core_eq_def)
    have le2: "rp_commitIndex R2 \<le> lg_lastSeq (rp_log R1)" using c2(2) le by auto
    have any2: "rep_any ins hist1 R2" and lost2: "rep_lost ins hist1 R1 \<Longrightarrow> rep_lost ins hist1 R2"
      using rep_any_core [OF c] rep_any_commit [OF _ le2] rep_lost_core [OF c] rep_lost_commit [OF _ le2] k by blast+
    obtain R3 more st where R3: "applyCommitted R2 = Some R3" "rep_any ins (hist1 @ more) R3"
      "R3 = R2\<lparr>rp_engine := rp_engine R3, rp_lastApplied := rp_lastApplied R3, rp_stats := st\<rparr>"
      "rep_lost ins hist1 R2 \<Longrightarrow> rep_lost ins (hist1 @ more) R3" using any2 by (rule rep_any_apply) blast
    have f3: "rp_log R3 = rp_log R1" "rp_commitIndex R3 = rp_commitIndex R2" by (subst R3(3); simp add: c2(3))+
    let ?R' = "R3\<lparr>rp_transport := snd (tsend frm (append_reply True (lg_lastSeq (rp_log R3)) R3) (rp_transport R3))\<rparr>"
    have "handleAppendEntries tsend frm msg R = Some ?R'"
      using ok R1(1) False R3(1) by (simp add: handleAppendEntries_def Let_def append_reply_def snd_rp_send R2_def)
    moreover have "core_eq R3 ?R'" by simp
    then have "rep_any ins (hist1 @ more) ?R'" "rep_lost ins hist1 R1 \<Longrightarrow> rep_lost ins (hist1 @ more) ?R'"
      using rep_any_core rep_lost_core lost2 R3(2,4) by blast+
    ultimately show thesis using k f3 c2 by (intro that [of ?R' "hist1 @ more"]) auto
  qed
qed

lemma compactLog_inv:
  assumes "rep_inv ins hist R"
  shows "rep_inv ins hist (compactLog R)" and "rp_commitIndex (compactLog R) = rp_commitIndex R" and "rp_engine (compactLog R) = rp_engine R"
proof -
  let ?s = "min (commitSeq R) (rp_lastApplied R)" and ?L = "rp_log R"
  let ?b = "log_base ?L" and ?es = "lg_entries ?L"
  have inv: "log_ok ?L" "unat (rp_lastApplied R) = length hist" "?b \<le> length hist" "length hist \<le> ?b + length ?es"
    "drop ?b hist = map le_command (take (length hist - ?b) ?es)"
    using assms by (auto simp: rep_inv_def)
  note t = log_truncateThrough_eq [OF inv(1), of ?s]
  have s: "unat ?s \<le> length hist" using inv(2) by (auto simp: min_def word_le_nat_alt)
  have last: "lg_lastSeq (log_truncateThrough ?s ?L) = lg_lastSeq ?L" by (simp add: log_truncateThrough_def split_beta)
  have "drop (?b + (unat ?s - ?b)) hist = map le_command (take (length hist - ?b - (unat ?s - ?b)) (drop (unat ?s - ?b) ?es))"
    by (simp only: drop_drop [symmetric] add.commute [of ?b] inv(5) drop_map drop_take)
  moreover have "min (unat ?s - ?b) (length ?es) = unat ?s - ?b" using s inv(4) by simp
  ultimately have "rep_inv ins hist (R\<lparr>rp_log := log_truncateThrough ?s ?L\<rparr>)"
    using assms t s inv(3,4) last by (simp add: rep_inv_def)
  then show "rep_inv ins hist (compactLog R)"
    using assms rep_inv_cong [of "rp_count f (R\<lparr>rp_log := log_truncateThrough ?s ?L\<rparr>)" "R\<lparr>rp_log := log_truncateThrough ?s ?L\<rparr>" for f]
    by (simp add: compactLog_def Let_def)
  show "rp_commitIndex (compactLog R) = rp_commitIndex R" "rp_engine (compactLog R) = rp_engine R" by (simp_all add: compactLog_def Let_def)
qed

lemma other_ops_core:
  "core_eq R (onPeerUp tsend i R)" "core_eq R (onPeerDown i R)" "core_eq R (rp_tick tsend tsat R)"
proof -
  obtain b' R1 where "sendAppend tsend ((value_or (smap_find node_before i (rp_backups R)) fresh_backup)
      \<lparr>bk_id := i, bk_probing := True, bk_lastSent := 0\<rparr>) True R = (b', R1)" by fastforce
  then show "core_eq R (onPeerUp tsend i R)" using sendAppend_core(1) by (fastforce simp: onPeerUp_def Let_def)
  show "core_eq R (onPeerDown i R)" by (simp add: onPeerDown_def)
  show "core_eq R (rp_tick tsend tsat R)"
    unfolding rp_tick_def by (auto intro!: each_backup_core split: if_splits dest: sendAppend_core)
qed

lemma compactLog_any: "rep_any ins hist R \<Longrightarrow> rep_any ins hist (compactLog R)"
proof -
  assume any: "rep_any ins hist R"
  have "lg_snapshotSeq (rp_log (compactLog R)) = 0"
    using rep_any_parts(5) [OF any] by (auto simp: compactLog_def Let_def log_truncateThrough_def split: prod.splits)
  moreover have "compactLog R = R" if "rp_lastApplied R = 0" using that by (simp add: compactLog_def Let_def)
  ultimately show ?thesis using any compactLog_inv(1) by (auto simp: rep_any_def rep_lost_def)
qed

end
