(* ===== verification/Replication_Runs.thy ===== *)
theory Replication_Runs
  imports Replication_Steps
begin

text \<open>
  The life of a node: \<open>node_step\<close> is the relation of everything its owner may call, \<open>node_reachable\<close> its
  closure from a fresh node. Every step keeps \<open>rep_any\<close>; how it moves the commit point and what it
  does to the committed part of the log is stated for every kind of step.
\<close>

section \<open>A node's life\<close>

text \<open>The steps of a node: every public operation of \<open>Replicator\<close> that changes its state, with any
  arguments and any message. Only the 64-bit sequence counter is bounded.\<close>

inductive node_step :: "'t sender \<Rightarrow> 't saturation \<Rightarrow> 't Replicator \<Rightarrow> 't Replicator \<Rightarrow> bool" for tsend tsat where
  Submit: "log_room (rp_log R) \<Longrightarrow> submit tsend tsat cmd R = Some (r, R') \<Longrightarrow> node_step tsend tsat R R'"
| Append: "unat (lg_lastSeq (rp_log R)) + length (ae_entries msg) < 2 ^ 64 - 1 \<Longrightarrow>
    rp_onMessage tsend frm (AppendEntries msg) R = Some R' \<Longrightarrow> node_step tsend tsat R R'"
| Message: "(\<nexists>a. m = AppendEntries a) \<Longrightarrow> rp_onMessage tsend frm m R = Some R' \<Longrightarrow> node_step tsend tsat R R'"
| PeerUp: "node_step tsend tsat R (onPeerUp tsend i R)"
| PeerDown: "node_step tsend tsat R (onPeerDown i R)"
| Tick: "node_step tsend tsat R (rp_tick tsend tsat R)"
| SetRole: "node_step tsend tsat R (setRole role R)"
| SetTerm: "node_step tsend tsat R (setTerm t R)"
| SetSyncWindow: "node_step tsend tsat R (setSyncWindow w R)"
| SetClusterSize: "node_step tsend tsat R (setClusterSize n R)"
| Apply: "applyCommitted R = Some R' \<Longrightarrow> node_step tsend tsat R R'"
| Compact: "node_step tsend tsat R (compactLog R)"

inductive_cases node_stepE: "node_step tsend tsat R R'"

inductive node_reachable :: "'t sender \<Rightarrow> 't saturation \<Rightarrow> InstrumentId \<Rightarrow> 't Replicator \<Rightarrow> bool" for tsend tsat i where
  start: "node_reachable tsend tsat i (setClusterSize n (new_replicator self role mode (new_engine i) new_log tr))"
| step: "node_reachable tsend tsat i R \<Longrightarrow> node_step tsend tsat R R' \<Longrightarrow> node_reachable tsend tsat i R'"

text \<open>How the commit point moves. The leader moves it to an entry of its own term that a majority of
  match points has reached; a follower moves it to what the leader tells it, as far as its log goes; a
  compacted node that replaces a tail is lost.\<close>

definition leader_commit :: "'t Replicator \<Rightarrow> 't Replicator \<Rightarrow> bool" where
  "leader_commit R R' \<longleftrightarrow> rp_role R = Primary \<and> termAt (rp_commitIndex R') (rp_log R') = Some (rp_term R') \<and>
     rp_clusterSize R < 2 * (1 + length (holders (rp_commitIndex R') R'))"

lemma majority_more: "rp_majority R \<le> Suc n \<Longrightarrow> rp_clusterSize R < 2 * (1 + n)"
  by (simp add: rp_majority_def)

lemma submit_any:
  assumes any: "rep_any ins hist R" and room: "log_room (rp_log R)" and s: "submit tsend tsat cmd R = Some (r, R')"
  obtains hist' where "rep_any ins hist' R'" and "rp_commitIndex R \<le> rp_commitIndex R'"
    and "rp_log R' = rp_log R \<or> (\<exists>seq. log_append cmd (rp_term R) (rp_log R) = (seq, rp_log R'))"
    and "rp_commitIndex R' \<noteq> rp_commitIndex R \<Longrightarrow> leader_commit R R' \<and> (rp_commitIndex R' \<le> rp_lastApplied R' \<or> rep_lost ins [] R')"
proof -
  have z: "lg_snapshotSeq (rp_log R) = 0" using any by (simp add: rep_any_def)
  from any consider "rep_inv ins hist R" | "rep_lost ins hist R" by (auto simp: rep_any_def)
  then have "\<exists>hist'. (rep_inv ins hist' R' \<or> rep_lost ins hist' R') \<and> rp_commitIndex R \<le> rp_commitIndex R' \<and>
      (rp_log R' = rp_log R \<or> (\<exists>seq. log_append cmd (rp_term R) (rp_log R) = (seq, rp_log R'))) \<and>
      (rp_commitIndex R' \<noteq> rp_commitIndex R \<longrightarrow> leader_commit R R' \<and> (rp_commitIndex R' \<le> rp_lastApplied R' \<or> rep_lost ins [] R'))"
  proof cases
    case 1
    show ?thesis
      by (rule full.submit_holds [OF 1 room, of tsend tsat cmd], cases "sr_status r = Accepted")
        (use s in \<open>auto simp: core_eq_def leader_commit_def eq_commute [of "(sr_seq r, rp_log R')"] dest!: majority_more\<close>)
  next
    case 2
    show ?thesis
      by (rule lost.submit_holds [OF 2 room, of tsend tsat cmd], cases "sr_status r = Accepted")
        (use s in \<open>auto simp: core_eq_def leader_commit_def rep_lost_def eq_commute [of "(sr_seq r, rp_log R')"] dest!: majority_more\<close>)
  qed
  then obtain hist' where h: "rep_inv ins hist' R' \<or> rep_lost ins hist' R'" "rp_commitIndex R \<le> rp_commitIndex R'"
    "rp_log R' = rp_log R \<or> (\<exists>seq. log_append cmd (rp_term R) (rp_log R) = (seq, rp_log R'))"
    "rp_commitIndex R' \<noteq> rp_commitIndex R \<longrightarrow> leader_commit R R' \<and> (rp_commitIndex R' \<le> rp_lastApplied R' \<or> rep_lost ins [] R')" by blast
  have "lg_snapshotSeq (rp_log R') = 0" using h(3) z by (auto simp: log_append_def Let_def dest: sym)
  with h that show thesis by (simp add: rep_any_def)
qed


section \<open>What stays in the log\<close>

lemma merge_spec_keeps:
  assumes "merge_spec c L rs = (refused, L')" and "c \<le> length L"
  shows "take c L' = take c L \<and> c \<le> length L'"
  using assms
proof (induction rs arbitrary: L)
  case (Cons r rs)
  let ?n = "unat (lr_seq r)"
  consider "merge_spec c L rs = (refused, L')" | "L' = L"
    | "\<not> ?n \<le> c" "merge_spec c (take (?n - 1) L @ [entry_of r]) rs = (refused, L')" "?n \<le> length L"
    | "merge_spec c (L @ [entry_of r]) rs = (refused, L')"
    using Cons.prems(1) by (auto simp: Let_def split: if_splits)
  then show ?case
  proof cases
    case 1
    then show ?thesis using Cons by blast
  next
    case 3
    then have "c \<le> ?n - 1" "?n - 1 \<le> length L" by linarith+
    with Cons.IH [OF 3(2)] show ?thesis by (simp add: min_absorb1 min_absorb2)
  next
    case 4
    with Cons.IH [OF 4] Cons.prems(2) show ?thesis by simp
  qed (use Cons.prems in auto)
qed simp

lemma log_at_cong_take:
  assumes "log_ok L" and "log_ok L'" and "log_base L' = log_base L" and "unat seq \<le> log_base L + c"
    and "take c (lg_entries L') = take c (lg_entries L)" and "c \<le> length (lg_entries L)" and "c \<le> length (lg_entries L')"
  shows "log_at seq L' = log_at seq L"
proof (cases "log_base L < unat seq")
  case True
  with assms(4) have "unat seq - log_base L - 1 < c" by simp
  then have "lg_entries L' ! (unat seq - log_base L - 1) = lg_entries L ! (unat seq - log_base L - 1)"
    using assms(5) by (metis nth_take)
  with assms show ?thesis by (simp add: log_at_eq)
qed (use assms in \<open>simp add: log_at_eq\<close>)

lemma log_at_truncateThrough:
  assumes "log_ok L" and "log_base (log_truncateThrough s L) < unat seq"
  shows "log_at seq (log_truncateThrough s L) = log_at seq L"
proof -
  note t = log_truncateThrough_eq [OF assms(1), of s]
  have "lg_entries (log_truncateThrough s L) ! (unat seq - log_base (log_truncateThrough s L) - 1) = lg_entries L ! (unat seq - log_base L - 1)"
    if "unat seq \<le> log_base L + length (lg_entries L)"
  proof -
    from that assms(2) t(2) have "unat s - log_base L \<le> length (lg_entries L)" by linarith
    then show ?thesis using t(1,2) assms(2) that by (simp add: min_absorb1)
  qed
  with t assms show ?thesis by (auto simp: log_at_eq)
qed

text \<open>A retained entry that has been applied.\<close>

lemma applied_entry:
  assumes inv: "rep_inv ins hist R" and at: "log_at seq (rp_log R) = Some entry" and le: "seq \<le> rp_lastApplied R"
  shows "le_seq entry = seq \<and> le_command entry = hist ! (unat seq - 1)"
proof -
  let ?L = "rp_log R" and ?i = "unat seq - log_base (rp_log R) - 1"
  have ok: "log_ok ?L" and app: "drop (log_base ?L) hist = map le_command (take (length hist - log_base ?L) (lg_entries ?L))"
    and la: "unat (rp_lastApplied R) = length hist" "log_base ?L \<le> length hist" using inv by (auto simp: rep_inv_def)
  have b: "log_base ?L < unat seq" "unat seq \<le> log_base ?L + length (lg_entries ?L)" "entry = lg_entries ?L ! ?i"
    using at by (auto simp: log_at_eq [OF ok] split: if_splits)
  have i: "?i < length hist - log_base ?L" "?i < length (lg_entries ?L)" using b le la by (auto simp: word_le_nat_alt)
  have "unat (le_seq entry) = unat seq" using log_okD(3) [OF ok i(2)] b by simp
  moreover have "drop (log_base ?L) hist ! ?i = le_command entry" using app i b(3) by simp
  ultimately show ?thesis using b(1) la(2) by (simp add: word_unat_eq_iff)
qed

section \<open>Every kind of step\<close>

lemma response_any:
  assumes any: "rep_any ins hist R" and h: "handleAppendResponse tsend frm msg R = Some R'"
  obtains hist' where "rep_any ins hist' R'" and "rp_commitIndex R \<le> rp_commitIndex R'" and "rp_log R' = rp_log R"
    and "rp_commitIndex R' \<noteq> rp_commitIndex R \<Longrightarrow> leader_commit R R' \<and> (rp_commitIndex R' \<le> rp_lastApplied R' \<or> rep_lost ins [] R')"
proof -
  have z: "lg_snapshotSeq (rp_log R) = 0" using any by (simp add: rep_any_def)
  from any consider "rep_inv ins hist R" | "rep_lost ins hist R" by (auto simp: rep_any_def)
  then have "\<exists>hist'. (rep_inv ins hist' R' \<or> rep_lost ins hist' R') \<and> rp_commitIndex R \<le> rp_commitIndex R' \<and> rp_log R' = rp_log R \<and>
      (rp_commitIndex R' \<noteq> rp_commitIndex R \<longrightarrow> leader_commit R R' \<and> (rp_commitIndex R' \<le> rp_lastApplied R' \<or> rep_lost ins [] R'))"
  proof cases
    case 1
    show ?thesis
      by (rule full.response_holds [OF 1, of tsend frm msg]) (use h in \<open>auto simp: leader_commit_def dest!: majority_more\<close>)
  next
    case 2
    show ?thesis
      by (rule lost.response_holds [OF 2, of tsend frm msg]) (use h in \<open>auto simp: leader_commit_def rep_lost_def dest!: majority_more\<close>)
  qed
  with z that show thesis by (auto simp: rep_any_def)
qed

text \<open>What an AppendEntries message does to any node, compacted or not.\<close>

definition follower_commit :: "AppendEntriesMsg \<Rightarrow> 't Replicator \<Rightarrow> 't Replicator \<Rightarrow> bool" where
  "follower_commit msg R R' \<longleftrightarrow> \<not> ae_term msg < rp_term R \<and> termAt (ae_prevSeq msg) (rp_log R) = Some (ae_prevTerm msg) \<and>
     rp_commitIndex R' = min (ae_commitSeq msg) (lg_lastSeq (rp_log R'))"

lemma append_any:
  assumes any: "rep_any ins hist R" and room: "unat (lg_lastSeq (rp_log R)) + length (ae_entries msg) < 2 ^ 64 - 1"
    and h: "handleAppendEntries tsend frm msg R = Some R'"
  obtains hist' where "rep_any ins hist' R'" and "log_base (rp_log R') = log_base (rp_log R)"
    and "rp_commitIndex R' \<noteq> rp_commitIndex R \<Longrightarrow>
      follower_commit msg R R' \<and> (rp_commitIndex R' \<le> rp_lastApplied R' \<or> 0 < log_base (rp_log R)) \<or> rp_commitIndex R' = 0 \<and> rep_lost ins [] R'"
    and "rep_lost ins hist' R' \<or> rp_commitIndex R \<le> rp_commitIndex R' \<and>
      take (unat (rp_commitIndex R) - log_base (rp_log R)) (lg_entries (rp_log R')) = take (unat (rp_commitIndex R) - log_base (rp_log R)) (lg_entries (rp_log R)) \<and>
      unat (rp_commitIndex R) - log_base (rp_log R) \<le> length (lg_entries (rp_log R'))"
proof -
  note p = rep_any_parts [OF any]
  have len: "unat (rp_commitIndex R) - log_base (rp_log R) \<le> length (lg_entries (rp_log R))"
    using p(3) log_okD(1) [OF p(1)] by (simp add: word_le_nat_alt)
  show thesis
  proof (cases "ae_term msg < rp_term R \<or> termAt (ae_prevSeq msg) (rp_log R) \<noteq> Some (ae_prevTerm msg)")
    case True
    then obtain R1 where "handleAppendEntries tsend frm msg R = Some R1" "core_eq R R1" by (rule handleAppendEntries_rejects)
    then have c: "core_eq R R'" using h by simp
    then show thesis
      using rep_any_core [OF c any] that [of hist] len by (simp add: core_eq_def)
  next
    case False
    then have ok: "\<not> ae_term msg < rp_term R" "termAt (ae_prevSeq msg) (rp_log R) = Some (ae_prevTerm msg)" by auto
    show thesis
    proof (cases "log_base (rp_log R) = 0")
      case True
      then have inv: "rep_inv ins hist R" and room': "length (lg_entries (rp_log R)) + length (ae_entries msg) < 2 ^ 64 - 1"
        using any rep_any_uncompacted room log_okD(1) [OF p(1)] by auto
      obtain hist' refused where R': "rep_inv ins hist' R'" "log_base (rp_log R') = 0"
        "merge_spec (unat (rp_commitIndex R)) (lg_entries (rp_log R)) (ae_entries msg) = (refused, lg_entries (rp_log R'))"
        "rp_commitIndex R' = (if refused then rp_commitIndex R else max (rp_commitIndex R) (min (ae_commitSeq msg) (lg_lastSeq (rp_log R'))))"
        "\<not> refused \<Longrightarrow> rp_commitIndex R' \<le> rp_lastApplied R'"
        by (rule handleAppendEntries_merges [OF inv True room' ok, of tsend frm]) (use h in auto)
      have keep: "take (unat (rp_commitIndex R)) (lg_entries (rp_log R')) = take (unat (rp_commitIndex R)) (lg_entries (rp_log R)) \<and>
          unat (rp_commitIndex R) \<le> length (lg_entries (rp_log R'))"
        using merge_spec_keeps [OF R'(3)] len True by simp
      have "rep_any ins hist' R'" using R'(1,2) rep_any_uncompacted by blast
      then show thesis
        by (rule that) (use R'(2,4,5) keep True ok in \<open>auto simp: follower_commit_def max_def split: if_splits\<close>)
    next
      case False
      then have base: "0 < log_base (rp_log R)" by simp
      obtain hist' where R': "rep_any ins hist' R'" "log_base (rp_log R') = log_base (rp_log R)"
        "rep_lost ins hist' R' \<or> prefix (lg_entries (rp_log R)) (lg_entries (rp_log R')) \<and> rp_commitIndex R \<le> rp_commitIndex R'"
        "rp_commitIndex R' = rp_commitIndex R \<or> rp_commitIndex R' = 0 \<or> rp_commitIndex R' = min (ae_commitSeq msg) (lg_lastSeq (rp_log R'))"
        by (rule handleAppendEntries_compacted [OF any base room ok, of tsend frm]) (use h in auto)
      have zero: "rep_lost ins [] R'" if "rp_commitIndex R' = 0" "rp_commitIndex R' \<noteq> rp_commitIndex R"
        using R'(3) that word_le_0_iff by (auto simp: rep_lost_def)
      show thesis
      proof (rule that [OF R'(1,2)])
        assume "rp_commitIndex R' \<noteq> rp_commitIndex R"
        then show "follower_commit msg R R' \<and> (rp_commitIndex R' \<le> rp_lastApplied R' \<or> 0 < log_base (rp_log R)) \<or> rp_commitIndex R' = 0 \<and> rep_lost ins [] R'"
          using R'(4) zero ok base by (auto simp: follower_commit_def)
      next
        show "rep_lost ins hist' R' \<or> rp_commitIndex R \<le> rp_commitIndex R' \<and>
          take (unat (rp_commitIndex R) - log_base (rp_log R)) (lg_entries (rp_log R')) = take (unat (rp_commitIndex R) - log_base (rp_log R)) (lg_entries (rp_log R)) \<and>
          unat (rp_commitIndex R) - log_base (rp_log R) \<le> length (lg_entries (rp_log R'))"
          using R'(3) len by (auto simp: prefix_def)
      qed
    qed
  qed
qed

text \<open>The remaining operations.\<close>

lemma setters_any:
  assumes "rep_any ins hist R" and "R' = setRole role R \<or> R' = setTerm t R \<or> R' = setSyncWindow w R \<or> R' = setClusterSize n R"
  shows "rep_any ins hist R'" and "rp_commitIndex R' = rp_commitIndex R" and "rp_log R' = rp_log R"
proof -
  have f: "rp_log R' = rp_log R" "rp_engine R' = rp_engine R" "rp_lastApplied R' = rp_lastApplied R"
    "rp_commitIndex R' = rp_commitIndex R" "rp_snapshotBase R' = rp_snapshotBase R"
    using assms(2) by (auto simp: setRole_def setTerm_def setSyncWindow_def setClusterSize_def)
  show "rep_any ins hist R'" using assms(1) unfolding rep_any_def rep_inv_def rep_lost_def f .
qed (use assms(2) in \<open>auto simp: setRole_def setTerm_def setSyncWindow_def setClusterSize_def\<close>)

lemma apply_any:
  assumes "rep_any ins hist R" and "applyCommitted R = Some R'"
  shows "\<exists>hist'. rep_any ins hist' R'" and "rp_log R' = rp_log R \<and> rp_commitIndex R' = rp_commitIndex R"
proof -
  obtain more st where R': "rep_any ins (hist @ more) R'" "R' = R\<lparr>rp_engine := rp_engine R', rp_lastApplied := rp_lastApplied R', rp_stats := st\<rparr>"
    by (rule rep_any_apply [OF assms(1)]) (use assms(2) in auto)
  then show "\<exists>hist'. rep_any ins hist' R'" by blast
  show "rp_log R' = rp_log R \<and> rp_commitIndex R' = rp_commitIndex R" by (subst (1 2) R'(2)) simp
qed

lemma core_step_cases:
  assumes "node_step tsend tsat R R'"
  obtains (submit) cmd r where "log_room (rp_log R)" "submit tsend tsat cmd R = Some (r, R')"
    | (append) frm msg where "unat (lg_lastSeq (rp_log R)) + length (ae_entries msg) < 2 ^ 64 - 1"
        "rp_onMessage tsend frm (AppendEntries msg) R = Some R'" "handleAppendEntries tsend frm msg R = Some R'"
    | (response) frm msg where "handleAppendResponse tsend frm msg R = Some R'"
    | (core) "core_eq R R'"
    | (set) role t w n where "R' = setRole role R \<or> R' = setTerm t R \<or> R' = setSyncWindow w R \<or> R' = setClusterSize n R"
    | (applied) "applyCommitted R = Some R'"
    | (compact) "R' = compactLog R"
  using assms
proof cases
  case (Append msg frm)
  then show thesis using append by (simp add: rp_onMessage_def)
next
  case (Message m frm)
  then show thesis using response core by (cases m) (auto simp: rp_onMessage_def)
next
  case (Submit cmd r)
  then show thesis by (rule submit)
next
  case (PeerUp i)
  show thesis by (rule core) (simp add: PeerUp other_ops_core)
next
  case (PeerDown i)
  show thesis by (rule core) (simp add: PeerDown other_ops_core)
next
  case Tick
  show thesis by (rule core) (simp add: Tick other_ops_core)
next
  case (SetRole role)
  then show thesis using set [of role 0 0 0] by simp
next
  case (SetTerm t)
  then show thesis using set [of Primary t 0 0] by simp
next
  case (SetSyncWindow w)
  then show thesis using set [of Primary 0 w 0] by simp
next
  case (SetClusterSize n)
  then show thesis using set [of Primary 0 0 n] by simp
next
  case Apply
  then show thesis by (rule applied)
next
  case Compact
  then show thesis by (rule compact)
qed

lemma node_step_any:
  assumes "node_step tsend tsat R R'" and any: "rep_any ins hist R"
  shows "\<exists>hist'. rep_any ins hist' R'"
  using assms(1)
proof (cases rule: core_step_cases)
  case (submit cmd r)
  then show ?thesis using submit_any [OF any] by metis
next
  case (append frm msg)
  then show ?thesis using append_any [OF any] by metis
next
  case (response frm msg)
  then show ?thesis using response_any [OF any] by metis
qed (use rep_any_core [OF _ any] setters_any(1) [OF any] apply_any(1) [OF any] compactLog_any [OF any] in blast)+

lemma reachable_any: "node_reachable tsend tsat ins R \<Longrightarrow> \<exists>hist. rep_any ins hist R"
proof (induction rule: node_reachable.induct)
  case (start n self role mode tr)
  let ?R = "new_replicator self role mode (new_engine ins) new_log tr"
  have "rep_inv ins [] (setClusterSize n ?R)"
    by (subst rep_inv_cong [of _ ?R]) (simp_all add: setClusterSize_def rep_inv_new)
  then have "rep_any ins [] (setClusterSize n ?R)"
    by (subst rep_any_uncompacted) (simp_all add: setClusterSize_def new_replicator_def new_log_def log_base_def)
  then show ?case ..
next
  case (step R R')
  then show ?case using node_step_any by metis
qed

lemma reachable_rep_inv:
  "node_reachable tsend tsat ins R \<Longrightarrow> log_base (rp_log R) = 0 \<Longrightarrow> \<exists>hist. rep_inv ins hist R"
  using reachable_any rep_any_uncompacted by metis

lemma step_commit:
  assumes "node_step tsend tsat R R'" and any: "rep_any ins hist R" and ne: "rp_commitIndex R' \<noteq> rp_commitIndex R"
  shows "leader_commit R R' \<and> rp_commitIndex R < rp_commitIndex R' \<and> (rp_commitIndex R' \<le> rp_lastApplied R' \<or> rep_lost ins [] R') \<or>
    (\<exists>frm msg. rp_onMessage tsend frm (AppendEntries msg) R = Some R' \<and>
      (follower_commit msg R R' \<and> (rp_commitIndex R' \<le> rp_lastApplied R' \<or> 0 < log_base (rp_log R)) \<or>
       0 < log_base (rp_log R) \<and> rp_commitIndex R' = 0 \<and> rep_lost ins [] R'))"
  using assms(1)
proof (cases rule: core_step_cases)
  case (submit cmd r)
  then show ?thesis using submit_any [OF any, of tsend tsat cmd r R'] ne by (metis order.not_eq_order_implies_strict)
next
  case (append frm msg)
  have "follower_commit msg R R' \<and> (rp_commitIndex R' \<le> rp_lastApplied R' \<or> 0 < log_base (rp_log R)) \<or>
      0 < log_base (rp_log R) \<and> rp_commitIndex R' = 0 \<and> rep_lost ins [] R'"
    by (rule append_any [OF any append(1,3)]) (use ne in \<open>auto simp: rep_lost_def\<close>)
  with append(2) show ?thesis by blast
next
  case (response frm msg)
  then show ?thesis using response_any [OF any, of tsend frm msg R'] ne by (metis order.not_eq_order_implies_strict)
next
  case set
  then show ?thesis using ne setters_any(2) [OF any] by blast
next
  case applied
  then show ?thesis using ne apply_any(2) [OF any] by blast
qed (use ne in \<open>auto simp: core_eq_def compactLog_def Let_def split: if_splits\<close>)

lemma step_keeps_committed:
  assumes "node_step tsend tsat R R'" and any: "rep_any ins hist R"
  shows "rp_commitIndex R \<le> rp_commitIndex R' \<and>
      (\<forall>seq. seq \<le> rp_commitIndex R \<and> log_base (rp_log R') < unat seq \<longrightarrow> log_at seq (rp_log R') = log_at seq (rp_log R)) \<or>
    0 < log_base (rp_log R) \<and> (\<exists>frm msg. rp_onMessage tsend frm (AppendEntries msg) R = Some R') \<and> rep_lost ins [] R'"
    (is "?kept \<or> ?gone")
  using assms(1)
proof (cases rule: core_step_cases)
  case (submit cmd r)
  note p = rep_any_parts [OF any]
  obtain hist' where R': "rp_commitIndex R \<le> rp_commitIndex R'"
    "rp_log R' = rp_log R \<or> (\<exists>seq. log_append cmd (rp_term R) (rp_log R) = (seq, rp_log R'))"
    using submit_any [OF any submit] by metis
  have "log_at seq (rp_log R') = log_at seq (rp_log R)" if le: "seq \<le> rp_commitIndex R" for seq
    using R'(2)
  proof (elim disjE exE)
    fix n assume la: "log_append cmd (rp_term R) (rp_log R) = (n, rp_log R')"
    note f = log_append_ok [OF p(1) submit(1) la]
    have "unat seq \<le> unat (lg_lastSeq (rp_log R))" using le p(3) by (simp add: word_le_nat_alt)
    then show ?thesis
      by (intro log_at_cong_take [OF p(1) f(1,2), of _ "length (lg_entries (rp_log R))"]) (use log_okD(1) [OF p(1)] f(4) in auto)
  qed simp
  with R'(1) show ?thesis by blast
next
  case (append frm msg)
  note p = rep_any_parts [OF any]
  let ?c = "unat (rp_commitIndex R) - log_base (rp_log R)"
  have len: "?c \<le> length (lg_entries (rp_log R))" using p(3) log_okD(1) [OF p(1)] by (simp add: word_le_nat_alt)
  obtain hist' where R': "rep_any ins hist' R'" "log_base (rp_log R') = log_base (rp_log R)"
    "rep_lost ins hist' R' \<or> rp_commitIndex R \<le> rp_commitIndex R' \<and> take ?c (lg_entries (rp_log R')) = take ?c (lg_entries (rp_log R)) \<and>
      ?c \<le> length (lg_entries (rp_log R'))"
    using append_any [OF any append(1,3)] by metis
  have "log_at seq (rp_log R') = log_at seq (rp_log R)"
    if "seq \<le> rp_commitIndex R" "log_base (rp_log R') < unat seq" "\<not> rep_lost ins hist' R'" for seq
    by (rule log_at_cong_take [OF p(1) rep_any_parts(1) [OF R'(1)] R'(2), of _ ?c]) (use that R'(2,3) len in \<open>auto simp: word_le_nat_alt\<close>)
  moreover have "?gone" if "rep_lost ins hist' R'" using that append(2) R'(2) by (auto simp: rep_lost_def)
  ultimately show ?thesis using R'(3) by blast
next
  case (response frm msg)
  then show ?thesis using response_any [OF any, of tsend frm msg R'] by metis
next
  case compact
  have "rp_log R' = rp_log R \<or> (\<exists>s. rp_log R' = log_truncateThrough s (rp_log R))" "rp_commitIndex R' = rp_commitIndex R"
    using compact by (auto simp: compactLog_def Let_def)
  then show ?thesis using log_at_truncateThrough [OF rep_any_parts(1) [OF any]] by auto
next
  case set
  then show ?thesis using setters_any(2,3) [OF any set] by simp
next
  case applied
  then show ?thesis using apply_any(2) [OF any] by simp
qed (auto simp: core_eq_def)

end
