(* ===== verification/Replication_Properties.thy ===== *)
theory Replication_Properties
  imports Replication_Runs
begin

text \<open>
  The properties of replication: the engine is always the replay of the applied part of the log, a
  follower ends with the leader's entries, the commit point moves only to what a majority has
  acknowledged or the leader has announced, committed entries stay unless a compacted log is merged
  into, and replicas whose logs match never raise a checksum alarm; and two behaviours of
  \<open>rebuildFromLog\<close> that contradict its comments.
\<close>

section \<open>A concrete node\<close>

definition rec_send :: "(NodeId \<times> Message) list sender" where
  "rec_send to m tr = (SendOk, tr @ [(to, m)])"

definition no_sat :: "(NodeId \<times> Message) list saturation" where
  "no_sat i tr = False"

definition demo_order :: "u64 \<Rightarrow> Side \<Rightarrow> Command" where
  "demo_order k s = New \<lparr>no_id = k, no_instrument = 7, no_side = s, no_type = Limit, no_tif = GoodTillCancel,
     no_price = 100, no_quantity = 5\<rparr>"

definition demo_leader0 :: "(NodeId \<times> Message) list Replicator" where
  "demo_leader0 = setClusterSize 3 (new_replicator 1 Primary Asynchronous (new_engine 7) new_log [])"

definition demo_leader :: "(NodeId \<times> Message) list Replicator" where
  "demo_leader = snd (the (submit rec_send no_sat (demo_order 11 Buy) (onPeerUp rec_send 2 (setTerm 1 demo_leader0))))"

definition demo_ack :: AppendResponseMsg where
  "demo_ack = \<lparr>ar_term = 1, ar_nodeId = 2, ar_lastLogSeq = 1, ar_ok = True, ar_lastApplied = 0, ar_stateChecksum = 0\<rparr>"

definition demo_follower :: "(NodeId \<times> Message) list Replicator" where
  "demo_follower = setClusterSize 3 (new_replicator 2 Backup Asynchronous (new_engine 7) new_log [])"

lemma demo_submit:
  "submit rec_send no_sat (demo_order 11 Buy) (onPeerUp rec_send 2 (setTerm 1 demo_leader0)) =
     Some (\<lparr>sr_status = Accepted, sr_seq = 1\<rparr>, demo_leader)"
proof -
  have "map_option fst (submit rec_send no_sat (demo_order 11 Buy) (onPeerUp rec_send 2 (setTerm 1 demo_leader0))) =
      Some \<lparr>sr_status = Accepted, sr_seq = 1\<rparr>" by code_simp
  then show ?thesis by (auto simp: demo_leader_def)
qed

lemma demo_leader_reachable: "node_reachable rec_send no_sat 7 demo_leader"
proof -
  have "node_reachable rec_send no_sat 7 demo_leader0" unfolding demo_leader0_def by (rule node_reachable.start)
  then have "node_reachable rec_send no_sat 7 (onPeerUp rec_send 2 (setTerm 1 demo_leader0))"
    by (intro node_reachable.step [OF node_reachable.step [OF _ node_step.SetTerm] node_step.PeerUp])
  moreover have "log_room (rp_log (onPeerUp rec_send 2 (setTerm 1 demo_leader0)))" by code_simp
  ultimately show ?thesis using node_reachable.step node_step.Submit demo_submit by metis
qed

text \<open>The leader after the acknowledgement: one entry, committed and applied.\<close>

definition demo_committed :: "(NodeId \<times> Message) list Replicator" where
  "demo_committed = the (rp_onMessage rec_send 2 (AppendResponse demo_ack) demo_leader)"

lemma demo_acked: "rp_onMessage rec_send 2 (AppendResponse demo_ack) demo_leader = Some demo_committed"
proof -
  have "map_option rp_commitIndex (rp_onMessage rec_send 2 (AppendResponse demo_ack) demo_leader) = Some 1" by code_simp
  then show ?thesis by (auto simp: demo_committed_def)
qed

lemma demo_committed_step: "node_step rec_send no_sat demo_leader demo_committed"
  using demo_acked by (intro node_step.Message) auto

lemma demo_committed_reachable: "node_reachable rec_send no_sat 7 demo_committed"
  using demo_leader_reachable demo_committed_step by (rule node_reachable.step)

lemma demo_follower_reachable: "node_reachable rec_send no_sat 7 demo_follower"
  unfolding demo_follower_def by (rule node_reachable.start)

section \<open>State machine replication\<close>

text \<open>C11: The engine is the replay of the applied log. In every state a node can reach (submitting,
  merging any message, acknowledging, changing roles and terms, compacting, merging after a compaction, with any
  behaviour of the network), its engine is the state a fresh engine reaches on a list of commands as long
  as \<open>lastApplied\<close>, every retained log entry up to there carries its sequence number and exactly the command
  applied at that number, and the commit point is within the log. Either the applied position is within the log and not before its
  first retained entry, or the node is one that compacted its log and had to rebuild from it: then nothing is
  applied and the engine is empty.\<close>
theorem engine_is_log_replay:
  assumes "node_reachable tsend tsat ins R"
  shows "\<exists>hist. replay hist (new_engine ins) = Some (rp_engine R) \<and> unat (rp_lastApplied R) = length hist \<and>
    rp_commitIndex R \<le> lg_lastSeq (rp_log R) \<and>
    (\<forall>seq entry. log_at seq (rp_log R) = Some entry \<and> seq \<le> rp_lastApplied R \<longrightarrow>
       le_seq entry = seq \<and> le_command entry = hist ! (unat seq - 1)) \<and>
    (log_base (rp_log R) \<le> length hist \<and> rp_lastApplied R \<le> lg_lastSeq (rp_log R) \<or> 0 < log_base (rp_log R) \<and> hist = [])"
proof -
  obtain hist where any: "rep_any ins hist R" using assms reachable_any by blast
  note p = rep_any_parts [OF any]
  have at: "le_seq entry = seq \<and> le_command entry = hist ! (unat seq - 1)"
    if "log_at seq (rp_log R) = Some entry" "seq \<le> rp_lastApplied R" for seq entry
    using any that applied_entry [of ins hist R seq entry] by (auto simp: rep_any_def rep_lost_def log_at_eq split: if_splits)
  have "log_base (rp_log R) \<le> length hist \<and> rp_lastApplied R \<le> lg_lastSeq (rp_log R) \<or> 0 < log_base (rp_log R) \<and> hist = []"
    using any p(7) log_okD(1) [OF p(1)] by (auto simp: rep_any_def rep_inv_def rep_lost_def word_le_nat_alt)
  then show ?thesis using at p(3,6,7) state_after(1) by (intro exI [of _ hist]) auto
qed

theorem engine_is_log_replay_witness:
  "\<exists>hist. replay hist (new_engine 7) = Some (rp_engine demo_committed) \<and> length hist = 1 \<and> hist ! 0 = demo_order 11 Buy"
proof -
  have c: "rp_lastApplied demo_committed = 1" "map_option le_command (log_at 1 (rp_log demo_committed)) = Some (demo_order 11 Buy)" by code_simp+
  then obtain e where e: "log_at 1 (rp_log demo_committed) = Some e" "le_command e = demo_order 11 Buy" by auto
  obtain hist where "replay hist (new_engine 7) = Some (rp_engine demo_committed)" "unat (rp_lastApplied demo_committed) = length hist"
    "\<forall>seq entry. log_at seq (rp_log demo_committed) = Some entry \<and> seq \<le> rp_lastApplied demo_committed \<longrightarrow>
       le_seq entry = seq \<and> le_command entry = hist ! (unat seq - 1)"
    using engine_is_log_replay [OF demo_committed_reachable] by blast
  moreover from this(3) c(1) e have "hist ! (unat (1 :: u64) - 1) = demo_order 11 Buy" by fastforce
  ultimately show ?thesis using c(1) by (intro exI [of _ hist]) simp
qed

section \<open>Log matching\<close>

lemma prev_matches:
  assumes "log_ok L" and "log_base L = 0" and "log_ok LL" and "log_base LL = 0"
    and "log_matching (lg_entries L) (lg_entries LL)"
    and "termAt s L = termAt s LL" and "termAt s LL \<noteq> None"
  shows "unat s \<le> length (lg_entries L)" and "take (unat s) (lg_entries L) = take (unat s) (lg_entries LL)"
proof -
  show le: "unat s \<le> length (lg_entries L)"
    using assms(6,7) by (auto simp: termAt_uncompacted [OF assms(1,2)] split: if_splits)
  show "take (unat s) (lg_entries L) = take (unat s) (lg_entries LL)"
  proof (cases "s = 0")
    case False
    then have s: "unat s \<noteq> 0" by (simp add: unat_eq_zero)
    have "unat s \<le> length (lg_entries LL)" "le_term (lg_entries L ! (unat s - 1)) = le_term (lg_entries LL ! (unat s - 1))"
      using assms(6,7) le False by (auto simp: termAt_uncompacted [OF assms(1,2)] termAt_uncompacted [OF assms(3,4)] split: if_splits)
    moreover from this(1) s le have "unat s - 1 < min (length (lg_entries L)) (length (lg_entries LL))" by linarith
    moreover note assms(5)
    ultimately have "take (Suc (unat s - 1)) (lg_entries L) = take (Suc (unat s - 1)) (lg_entries LL)"
      unfolding log_matching_def by blast
    with s show ?thesis by (simp add: unat_gt_0)
  qed simp
qed

text \<open>C12: A follower takes over the leader's log. Let neither log be compacted, let a message carry the
  leader's entries after \<open>prevSeq\<close> together with the term of the entry at \<open>prevSeq\<close>, let the follower's log match
  the leader's in Raft's sense, and let no committed entry of the follower contradict the leader's log. If the
  follower's own entry at \<open>prevSeq\<close> has that term and the message is not from an older term, the
  follower processes it completely: its log then starts with everything the leader sent (its own
  longer log is kept if it agrees, a divergent tail is replaced) and still matches; its commit point is the
  larger of its own and the announced one, as far as its log goes; it answers with success and its log head. If one
  log continues the other, it has applied exactly up to the larger of its old applied position and the
  commit point; if a divergent tail was replaced, up to the larger of the commit point and the
  place where the logs part, so that entries before that place which are not committed may be applied.\<close>
theorem append_matches_leader:
  assumes "node_reachable tsend tsat ins R" and "log_base (rp_log R) = 0"
    and "length (lg_entries (rp_log R)) + length (ae_entries msg) < 2 ^ 64 - 1"
    and "log_ok LG" and "log_base LG = 0" and "log_matching (lg_entries (rp_log R)) (lg_entries LG)"
    and "ae_entries msg = map record_of (take k (drop (unat (ae_prevSeq msg)) (lg_entries LG)))"
    and "termAt (ae_prevSeq msg) LG = Some (ae_prevTerm msg)"
    and "\<not> ae_term msg < rp_term R" and "termAt (ae_prevSeq msg) (rp_log R) = Some (ae_prevTerm msg)"
    and "\<forall>i<min (length (lg_entries (rp_log R))) (length (lg_entries LG)). i < unat (rp_commitIndex R) \<longrightarrow>
      lg_entries (rp_log R) ! i = lg_entries LG ! i"
  shows "\<exists>R'. rp_onMessage tsend frm (AppendEntries msg) R = Some R' \<and>
    (let sent = take (unat (ae_prevSeq msg) + k) (lg_entries LG) in
      lg_entries (rp_log R') = (if prefix sent (lg_entries (rp_log R)) then lg_entries (rp_log R) else sent)) \<and>
    log_matching (lg_entries (rp_log R')) (lg_entries LG) \<and>
    rp_commitIndex R' = max (rp_commitIndex R) (min (ae_commitSeq msg) (lg_lastSeq (rp_log R'))) \<and>
    unat (rp_lastApplied R') = max (unat (rp_commitIndex R'))
      (let sent = take (unat (ae_prevSeq msg) + k) (lg_entries LG); own = lg_entries (rp_log R) in
       if prefix own sent \<or> prefix sent own then unat (rp_lastApplied R) else length (longest_common_prefix own sent)) \<and>
    rp_transport R' = snd (tsend frm (append_reply True (lg_lastSeq (rp_log R')) R') (rp_transport R))"
proof -
  obtain hist where inv: "rep_inv ins hist R" using assms(1,2) reachable_rep_inv by blast
  have ok: "log_ok (rp_log R)" using inv by (simp add: rep_inv_def)
  let ?L = "lg_entries (rp_log R)" and ?LL = "lg_entries LG" and ?p = "unat (ae_prevSeq msg)"
  have p: "?p \<le> length ?L" "take ?p ?L = take ?p ?LL"
    using prev_matches [OF ok assms(2,4,5,6), of "ae_prevSeq msg"] assms(8,10) by simp_all
  have num: "\<forall>i<length ?LL. unat (le_seq (?LL ! i)) = Suc i" using log_okD(3) [OF assms(4)] assms(5) by simp
  obtain R' hist' refused where R': "handleAppendEntries tsend frm msg R = Some R'" "rep_inv ins hist' R'" "log_base (rp_log R') = 0"
    "merge_spec (unat (rp_commitIndex R)) ?L (ae_entries msg) = (refused, lg_entries (rp_log R'))"
    "rp_commitIndex R' = (if refused then rp_commitIndex R else max (rp_commitIndex R) (min (ae_commitSeq msg) (lg_lastSeq (rp_log R'))))"
    "\<not> refused \<Longrightarrow> unat (rp_lastApplied R') = max (merge_applied (unat (rp_commitIndex R)) ?L (unat (rp_lastApplied R)) (ae_entries msg)) (unat (rp_commitIndex R'))"
    "rp_transport R' = snd (tsend frm (append_reply (\<not> refused) (if refused then 0 else lg_lastSeq (rp_log R')) R') (rp_transport R))"
    by (rule handleAppendEntries_merges [OF inv assms(2,3,9,10), of tsend frm]) blast
  have m: "(refused \<longrightarrow> lg_entries (rp_log R') = ?L \<and> (\<exists>i<min (length ?L) (length ?LL). i < unat (rp_commitIndex R) \<and> ?L ! i \<noteq> ?LL ! i)) \<and>
    (\<not> refused \<longrightarrow> lg_entries (rp_log R') = (if prefix (take (?p + k) ?LL) ?L then ?L else take (?p + k) ?LL))"
    by (rule merge_spec_leader [OF num assms(6) p]) (use R'(4) assms(7) in simp)
  then have acc: "\<not> refused" using assms(11) by blast
  have "merge_applied (unat (rp_commitIndex R)) ?L (unat (rp_lastApplied R)) (ae_entries msg) =
      (if prefix ?L (take (?p + k) ?LL) \<or> prefix (take (?p + k) ?LL) ?L then unat (rp_lastApplied R) else length (longest_common_prefix ?L (take (?p + k) ?LL)))"
    unfolding assms(7) by (rule merge_applied_leader [OF num assms(6) p]) (use R'(4) assms(7) acc in simp)
  then have "unat (rp_lastApplied R') = max (unat (rp_commitIndex R'))
      (if prefix ?L (take (?p + k) ?LL) \<or> prefix (take (?p + k) ?LL) ?L then unat (rp_lastApplied R) else length (longest_common_prefix ?L (take (?p + k) ?LL)))"
    using R'(6) acc by (simp add: max.commute)
  then show ?thesis using acc R'(1,5,7) m assms(6) log_matching_take by (simp add: rp_onMessage_def Let_def)
qed

text \<open>The leader's message for the entry just submitted.\<close>

definition demo_append :: AppendEntriesMsg where
  "demo_append = \<lparr>ae_term = 1, ae_leaderId = 1, ae_prevSeq = 0, ae_prevTerm = 0, ae_commitSeq = 0,
     ae_entries = map record_of (lg_entries (rp_log demo_leader))\<rparr>"

text \<open>A follower that holds an entry of an earlier leader in its place.\<close>

definition demo_earlier :: AppendEntriesMsg where
  "demo_earlier = \<lparr>ae_term = 0, ae_leaderId = 3, ae_prevSeq = 0, ae_prevTerm = 0, ae_commitSeq = 0,
     ae_entries = [\<lparr>lr_seq = 1, lr_term = 0, lr_command = demo_order 12 Sell\<rparr>]\<rparr>"

definition demo_divergent :: "(NodeId \<times> Message) list Replicator" where
  "demo_divergent = the (rp_onMessage rec_send 3 (AppendEntries demo_earlier) demo_follower)"

lemma demo_divergent_reachable: "node_reachable rec_send no_sat 7 demo_divergent"
proof -
  have c: "map_option rp_lastApplied (rp_onMessage rec_send 3 (AppendEntries demo_earlier) demo_follower) = Some 0"
    "unat (lg_lastSeq (rp_log demo_follower)) = 0" "length (ae_entries demo_earlier) = 1" by code_simp+
  then have "rp_onMessage rec_send 3 (AppendEntries demo_earlier) demo_follower = Some demo_divergent" by (auto simp: demo_divergent_def)
  then show ?thesis using c(2,3)
    by (intro node_reachable.step [OF demo_follower_reachable] node_step.Append [of _ demo_earlier]) auto
qed

theorem append_matches_leader_witness:
  "\<exists>R'. lg_entries (rp_log demo_divergent) \<noteq> [] \<and> rp_onMessage rec_send 1 (AppendEntries demo_append) demo_divergent = Some R' \<and>
     lg_entries (rp_log R') = lg_entries (rp_log demo_leader) \<and> rp_lastApplied R' = 0"
proof -
  let ?LG = "rp_log demo_leader" and ?L = "lg_entries (rp_log demo_divergent)"
  have f: "log_base (rp_log demo_divergent) = 0" "rp_term demo_divergent = 0" "rp_commitIndex demo_divergent = 0" "rp_lastApplied demo_divergent = 0"
    "termAt 0 (rp_log demo_divergent) = Some 0" "log_ok ?LG" "log_base ?LG = 0" "termAt 0 ?LG = Some 0"
    by code_simp+
  have e: "length ?L = 1" "length (lg_entries ?LG) = 1" "le_term (?L ! 0) = 0" "le_term (lg_entries ?LG ! 0) = 1" by code_simp+
  then obtain x y where xy: "?L = [x]" "lg_entries ?LG = [y]" by (auto simp: length_Suc_conv)
  with e have "x \<noteq> y" by auto
  with append_matches_leader [OF demo_divergent_reachable f(1), of demo_append ?LG 1 1] f e xy
  show ?thesis by (auto simp: demo_append_def log_matching_def unat_eq_zero)
qed

text \<open>What a follower refuses. A message from an older term, or one whose previous entry the follower
  does not have with that term, changes nothing but statistics and is answered by a failure that
  reports the follower's term, log head, applied position and checksum.\<close>
theorem append_rejected:
  assumes "ae_term msg < rp_term R \<or> termAt (ae_prevSeq msg) (rp_log R) \<noteq> Some (ae_prevTerm msg)"
  shows "\<exists>R'. rp_onMessage tsend frm (AppendEntries msg) R = Some R' \<and> rp_log R' = rp_log R \<and> rp_engine R' = rp_engine R \<and>
    rp_commitIndex R' = rp_commitIndex R \<and> rp_lastApplied R' = rp_lastApplied R \<and> rp_backups R' = rp_backups R \<and>
    rp_transport R' = snd (tsend frm (AppendResponse \<lparr>ar_term = rp_term R, ar_nodeId = rp_self R,
      ar_lastLogSeq = lg_lastSeq (rp_log R), ar_ok = False, ar_lastApplied = rp_lastApplied R,
      ar_stateChecksum = stateChecksum (rp_engine R)\<rparr>) (rp_transport R))"
  using assms by (rule handleAppendEntries_rejects) (auto simp: rp_onMessage_def core_eq_def append_reply_def)

theorem append_rejected_witness:
  "\<exists>R'. rp_onMessage rec_send 1 (AppendEntries (demo_append\<lparr>ae_prevSeq := 5\<rparr>)) demo_follower = Some R' \<and>
     rp_log R' = rp_log demo_follower"
proof -
  have "termAt 5 (rp_log demo_follower) \<noteq> Some (ae_prevTerm (demo_append\<lparr>ae_prevSeq := 5\<rparr>))" by code_simp
  then show ?thesis using append_rejected [of "demo_append\<lparr>ae_prevSeq := 5\<rparr>" demo_follower rec_send 1] by auto
qed

section \<open>Commitment\<close>

text \<open>C14: How the commit point moves. Whatever a node does, when its commit point changes, one of two
  things has happened. Either it is the primary, the commit point has grown to an entry of
  its own current term (the Figure 8 rule), and counting the node itself more than half of the configured
  cluster has acknowledged at least that sequence (the match points it has recorded), and everything up to
  it has been applied unless the node had lost its state. Or it has handled an AppendEntries message: if
  that message is not of an older term and its previous entry is in the log, the commit point is the announced one,
  as far as the log goes; the only other case is a node that had compacted its log and lost its state, whose commit point falls to zero.\<close>
theorem commit_needs_majority:
  assumes "node_reachable tsend tsat ins R" and "node_step tsend tsat R R'" and "rp_commitIndex R' \<noteq> rp_commitIndex R"
  shows "rp_role R = Primary \<and> rp_commitIndex R < rp_commitIndex R' \<and>
      termAt (rp_commitIndex R') (rp_log R') = Some (rp_term R') \<and>
      rp_clusterSize R < 2 * (1 + length (filter (\<lambda>(i, b). rp_commitIndex R' \<le> bk_matchSeq b) (rp_backups R'))) \<and>
      (rp_commitIndex R' \<le> rp_lastApplied R' \<or> 0 < log_base (rp_log R') \<and> rp_lastApplied R' = 0) \<or>
    (\<exists>frm msg. rp_onMessage tsend frm (AppendEntries msg) R = Some R' \<and>
      (\<not> ae_term msg < rp_term R \<and> termAt (ae_prevSeq msg) (rp_log R) = Some (ae_prevTerm msg) \<and>
         rp_commitIndex R' = min (ae_commitSeq msg) (lg_lastSeq (rp_log R')) \<or>
       0 < log_base (rp_log R) \<and> rp_commitIndex R' = 0 \<and> rp_lastApplied R' = 0 \<and> rp_engine R' = new_engine ins))"
proof -
  obtain hist where any: "rep_any ins hist R" using assms(1) reachable_any by blast
  from step_commit [OF assms(2) any assms(3)] show ?thesis
    by (auto simp: leader_commit_def follower_commit_def rep_lost_def holders_def)
qed

theorem commit_needs_majority_witness:
  "rp_commitIndex demo_committed = 1 \<and>
     rp_clusterSize demo_leader < 2 * (1 + length (filter (\<lambda>(i, b). rp_commitIndex demo_committed \<le> bk_matchSeq b) (rp_backups demo_committed)))"
proof -
  have c: "rp_commitIndex demo_committed = 1" "rp_commitIndex demo_leader = 0" "log_base (rp_log demo_leader) = 0"
    "rp_clusterSize demo_leader = 3" "length (filter (\<lambda>(i, b). 1 \<le> bk_matchSeq b) (rp_backups demo_committed)) = 1" by code_simp+
  then show ?thesis using commit_needs_majority [OF demo_leader_reachable demo_committed_step] by auto
qed

text \<open>C13: What is committed stays, until a compacted log is merged into. Whatever a node does, its commit
  point never moves back and every entry up to the commit point that is still retained afterwards is
  unchanged: no message, not even a conflicting one, replaces a committed entry. The only exception is an
  AppendEntries message handled by a node that has compacted its log, and after it the node has lost everything it
  had applied: its engine is empty and its applied position zero. A node that has compacted nothing is
  never in that case.\<close>
theorem committed_prefix_stable:
  assumes "node_reachable tsend tsat ins R" and "node_step tsend tsat R R'"
  shows "rp_commitIndex R \<le> rp_commitIndex R' \<and>
      (\<forall>seq. seq \<le> rp_commitIndex R \<and> log_base (rp_log R') < unat seq \<longrightarrow> log_at seq (rp_log R') = log_at seq (rp_log R)) \<or>
    0 < log_base (rp_log R) \<and> (\<exists>frm msg. rp_onMessage tsend frm (AppendEntries msg) R = Some R') \<and>
      rp_engine R' = new_engine ins \<and> rp_lastApplied R' = 0"
proof -
  obtain hist where any: "rep_any ins hist R" using assms(1) reachable_any by blast
  from step_keeps_committed [OF assms(2) any] show ?thesis by (auto simp: rep_lost_def)
qed

text \<open>A message of a later term that disagrees with the committed entry.\<close>

definition demo_conflict :: AppendEntriesMsg where
  "demo_conflict = \<lparr>ae_term = 2, ae_leaderId = 3, ae_prevSeq = 0, ae_prevTerm = 0, ae_commitSeq = 0,
     ae_entries = [\<lparr>lr_seq = 1, lr_term = 2, lr_command = demo_order 12 Sell\<rparr>]\<rparr>"

theorem committed_prefix_stable_witness:
  "\<exists>R'. rp_onMessage rec_send 3 (AppendEntries demo_conflict) demo_committed = Some R' \<and> rp_commitIndex demo_committed = 1 \<and>
     1 \<le> rp_commitIndex R' \<and> log_at 1 (rp_log R') = log_at 1 (rp_log demo_committed)"
proof -
  have c: "map_option (\<lambda>R. log_base (rp_log R)) (rp_onMessage rec_send 3 (AppendEntries demo_conflict) demo_committed) = Some 0"
    "rp_commitIndex demo_committed = 1" "log_base (rp_log demo_committed) = 0"
    "unat (lg_lastSeq (rp_log demo_committed)) = 1" "length (ae_entries demo_conflict) = 1" by code_simp+
  then obtain R' where R': "rp_onMessage rec_send 3 (AppendEntries demo_conflict) demo_committed = Some R'" "log_base (rp_log R') = 0" by auto
  then have st: "node_step rec_send no_sat demo_committed R'" using c by (intro node_step.Append [of _ demo_conflict]) auto
  with committed_prefix_stable [OF demo_committed_reachable st] R' c show ?thesis by auto
qed

section \<open>Checksums\<close>

lemma applyCommitted_mismatches:
  "applyCommitted R = Some R' \<Longrightarrow> st_checksumMismatches (rp_stats R') = st_checksumMismatches (rp_stats R)"
  by (erule applyCommitted.raw_induct [rotated]) (auto simp: rp_count_def split: if_splits option.splits bind_splits)

lemma advanceCommitIndex_mismatches:
  "advanceCommitIndex R = Some R' \<Longrightarrow> st_checksumMismatches (rp_stats R') = st_checksumMismatches (rp_stats R)"
  by (auto simp: advanceCommitIndex_def Let_def rp_count_def split: if_splits dest!: applyCommitted_mismatches)

lemma rp_send_stats: "rp_send tsend to m R = (res, R') \<Longrightarrow> rp_stats R' = rp_stats R"
  by (auto simp: rp_send_def split: prod.splits)

lemma sendAppend_mismatches:
  "sendAppend tsend b probe R = (b', R') \<Longrightarrow> st_checksumMismatches (rp_stats R') = st_checksumMismatches (rp_stats R)"
  by (auto simp: sendAppend_def Let_def rp_count_def split: if_splits prod.splits dest!: rp_send_stats)

text \<open>The two halves of the leader's handling of an answer: moving the commit point, then comparing
  checksums and sending on.\<close>

definition after_response :: "'t sender \<Rightarrow> NodeId \<Rightarrow> BackupState \<Rightarrow> 't Replicator \<Rightarrow> 't Replicator" where
  "after_response tsend frm b R1 =
     (let R2 = (if bk_lastApplied b = rp_lastApplied R1 \<and> bk_lastChecksum b \<noteq> stateChecksum (rp_engine R1)
                then rp_count (\<lambda>s. s\<lparr>st_checksumMismatches := st_checksumMismatches s + 1\<rparr>) R1 else R1)
      in if bk_lastSent b < lg_lastSeq (rp_log R2) \<or> bk_lastCommitSent b < rp_commitIndex R2
         then (case sendAppend tsend b False R2 of (b2, R3) \<Rightarrow>
                 R3\<lparr>rp_backups := smap_alter node_before frm fresh_backup (\<lambda>_. b2) (rp_backups R3)\<rparr>)
         else R2)"

lemma handleAppendResponse_halves:
  assumes "\<not> rp_term R < ar_term msg"
  obtains b where "bk_lastApplied b = ar_lastApplied msg" and "bk_lastChecksum b = ar_stateChecksum msg"
    and "handleAppendResponse tsend frm msg R =
      Option.bind (advanceCommitIndex (R\<lparr>rp_backups := smap_alter node_before frm fresh_backup (\<lambda>_. b) (rp_backups R)\<rparr>))
        (\<lambda>R1. Some (after_response tsend frm b R1))"
proof -
  define b0 where "b0 = value_or (smap_find node_before frm (rp_backups R)) (fresh_backup\<lparr>bk_id := frm\<rparr>)"
  define b1 where "b1 = b0\<lparr>bk_lastApplied := ar_lastApplied msg,
      bk_matchSeq := (if ar_ok msg then ar_lastLogSeq msg else bk_matchSeq b0),
      bk_lastChecksum := ar_stateChecksum msg, bk_probing := False,
      bk_lastSent := (if \<not> ar_ok msg \<or> bk_lastSent b0 < ar_lastApplied msg then ar_lastApplied msg else bk_lastSent b0)\<rparr>"
  have "handleAppendResponse tsend frm msg R =
      Option.bind (advanceCommitIndex (R\<lparr>rp_backups := smap_alter node_before frm fresh_backup (\<lambda>_. b1) (rp_backups R)\<rparr>))
        (\<lambda>R1. Some (after_response tsend frm b1 R1))"
    by (simp only: handleAppendResponse_def after_response_def Let_def if_not_P [OF assms] b0_def [symmetric] b1_def [symmetric])
  moreover have "bk_lastApplied b1 = ar_lastApplied msg" "bk_lastChecksum b1 = ar_stateChecksum msg" by (simp_all add: b1_def)
  ultimately show thesis using that by blast
qed

lemma after_response_mismatches:
  assumes "bk_lastApplied b = rp_lastApplied R1 \<Longrightarrow> bk_lastChecksum b = stateChecksum (rp_engine R1)"
  shows "st_checksumMismatches (rp_stats (after_response tsend frm b R1)) = st_checksumMismatches (rp_stats R1)"
  using assms by (auto simp: after_response_def Let_def split: if_splits prod.splits dest!: sendAppend_mismatches)

text \<open>Nodes that have applied the same part of matching logs.\<close>

lemma same_applied_engines:
  assumes "rep_inv ins hist F" and "log_base (rp_log F) = 0" and "rep_inv ins hist' L" and "log_base (rp_log L) = 0"
    and "log_matching (lg_entries (rp_log F)) (lg_entries (rp_log L))"
    and "termAt (rp_lastApplied F) (rp_log F) = termAt (rp_lastApplied F) (rp_log L)" and "rp_lastApplied F = rp_lastApplied L"
  shows "rp_engine F = rp_engine L"
proof -
  have ok: "log_ok (rp_log F)" "log_ok (rp_log L)" using assms(1,3) by (simp_all add: rep_inv_def)
  have "unat (rp_lastApplied F) \<le> length (lg_entries (rp_log F))" using assms(1,2) by (simp add: rep_inv_def)
  then have "termAt (rp_lastApplied F) (rp_log L) \<noteq> None" unfolding assms(6) [symmetric] by (simp add: termAt_uncompacted [OF ok(1) assms(2)])
  from prev_matches(2) [OF ok(1) assms(2) ok(2) assms(4,5,6) this] show ?thesis using assms(1-4,7) by (simp add: rep_inv_def)
qed

text \<open>C15: No false checksum alarm. Take a leader and a follower in any states they can reach on the same
  instrument with nothing compacted, let their logs match in Raft's sense, and let the last entry the follower has applied be the
  leader's (same term at that position). When the leader handles an answer the follower sends in this state,
  accepting or refusing, it never counts a checksum mismatch; and if it has then applied as many entries as the
  follower, their engines are equal, the whole book included.\<close>
theorem no_false_checksum_alarm:
  assumes "node_reachable tsend tsat ins L" and "node_reachable tsend' tsat' ins F"
    and "log_base (rp_log L) = 0" and "log_base (rp_log F) = 0"
    and "log_matching (lg_entries (rp_log F)) (lg_entries (rp_log L))"
    and "termAt (rp_lastApplied F) (rp_log F) = termAt (rp_lastApplied F) (rp_log L)"
    and "rp_onMessage tsend frm (append_reply ok s F) L = Some L'"
  shows "st_checksumMismatches (rp_stats L') = st_checksumMismatches (rp_stats L) \<and>
    (rp_lastApplied L' = rp_lastApplied F \<longrightarrow> rp_engine L' = rp_engine F)"
proof -
  obtain hist hist' where inv: "rep_inv ins hist L" "rep_inv ins hist' F" using assms(1-4) reachable_rep_inv by metis
  define r where "r = \<lparr>ar_term = rp_term F, ar_nodeId = rp_self F, ar_lastLogSeq = s, ar_ok = ok, ar_lastApplied = rp_lastApplied F,
     ar_stateChecksum = stateChecksum (rp_engine F)\<rparr>"
  have h: "handleAppendResponse tsend frm r L = Some L'" using assms(7) by (simp add: append_reply_def rp_onMessage_def r_def)
  have same: "rp_engine L2 = rp_engine F" if "rep_inv ins hist2 L2" "rp_log L2 = rp_log L" "rp_lastApplied L2 = rp_lastApplied F" for hist2 L2
    by (rule same_applied_engines [OF inv(2) assms(4) that(1), symmetric]) (simp_all only: that(2,3) assms(3,5,6))
  obtain more where L': "rep_inv ins (hist @ more) L'" "rp_log L' = rp_log L"
    by (rule handleAppendResponse_total [OF inv(1), of tsend frm r]) (use h in auto)
  have "st_checksumMismatches (rp_stats L') = st_checksumMismatches (rp_stats L)"
  proof (cases "rp_term L < ar_term r")
    case True
    then show ?thesis using h by (auto simp: handleAppendResponse_def rp_count_def)
  next
    case False
    obtain b where b: "bk_lastApplied b = ar_lastApplied r" "bk_lastChecksum b = ar_stateChecksum r"
      and run: "handleAppendResponse tsend frm r L =
        Option.bind (advanceCommitIndex (L\<lparr>rp_backups := smap_alter node_before frm fresh_backup (\<lambda>_. b) (rp_backups L)\<rparr>))
          (\<lambda>R1. Some (after_response tsend frm b R1))"
      using False by (rule handleAppendResponse_halves)
    let ?L = "L\<lparr>rp_backups := smap_alter node_before frm fresh_backup (\<lambda>_. b) (rp_backups L)\<rparr>"
    obtain R1 where R1: "advanceCommitIndex ?L = Some R1" "L' = after_response tsend frm b R1"
      using run h by (auto split: bind_splits)
    have "core_eq L ?L" by simp
    then have "rep_inv ins hist ?L" using inv(1) rep_inv_core by blast
    then obtain more1 where "rep_inv ins (hist @ more1) R1" "rp_log R1 = rp_log L"
      by (rule advanceCommitIndex_total) (use R1(1) in auto)
    note eng = same [OF this]
    have "st_checksumMismatches (rp_stats L') = st_checksumMismatches (rp_stats R1)"
      unfolding R1(2) by (rule after_response_mismatches) (use b eng in \<open>simp add: r_def\<close>)
    then show ?thesis using advanceCommitIndex_mismatches [OF R1(1)] by simp
  qed
  with same [OF L'] show ?thesis by simp
qed

text \<open>The follower after the leader's next message: the same entry, committed and applied.\<close>

definition demo_applied :: "(NodeId \<times> Message) list Replicator" where
  "demo_applied = the (rp_onMessage rec_send 1 (AppendEntries (demo_append\<lparr>ae_commitSeq := 1\<rparr>)) demo_follower)"

lemma demo_applied_reachable: "node_reachable rec_send no_sat 7 demo_applied"
proof -
  have c: "map_option rp_lastApplied (rp_onMessage rec_send 1 (AppendEntries (demo_append\<lparr>ae_commitSeq := 1\<rparr>)) demo_follower) = Some 1"
    "unat (lg_lastSeq (rp_log demo_follower)) = 0" "length (ae_entries (demo_append\<lparr>ae_commitSeq := 1\<rparr>)) = 1" by code_simp+
  then have "rp_onMessage rec_send 1 (AppendEntries (demo_append\<lparr>ae_commitSeq := 1\<rparr>)) demo_follower = Some demo_applied" by (auto simp: demo_applied_def)
  then show ?thesis using c(2,3)
    by (intro node_reachable.step [OF demo_follower_reachable] node_step.Append [of _ "demo_append\<lparr>ae_commitSeq := 1\<rparr>"]) auto
qed

theorem no_false_checksum_alarm_witness:
  "\<exists>L'. rp_onMessage rec_send 2 (append_reply True 1 demo_applied) demo_committed = Some L' \<and> rp_lastApplied L' = 1 \<and>
     st_checksumMismatches (rp_stats L') = 0 \<and> rp_engine L' = rp_engine demo_applied"
proof -
  let ?m = "append_reply True 1 demo_applied"
  have c: "rp_lastApplied demo_applied = 1" "rp_lastApplied demo_committed = 1" "log_base (rp_log demo_committed) = 0" "log_base (rp_log demo_applied) = 0"
    by code_simp+
  have e: "lg_entries (rp_log demo_applied) = lg_entries (rp_log demo_committed)" "length (lg_entries (rp_log demo_committed)) = 1"
    "st_checksumMismatches (rp_stats demo_committed) = 0" "termAt 1 (rp_log demo_applied) = termAt 1 (rp_log demo_committed)"
    by code_simp+
  obtain hist where inv: "rep_inv 7 hist demo_committed" using reachable_rep_inv [OF demo_committed_reachable c(3)] by blast
  obtain L' more where L': "rp_onMessage rec_send 2 ?m demo_committed = Some L'" "rep_inv 7 (hist @ more) L'" "rp_log L' = rp_log demo_committed"
    unfolding append_reply_def rp_onMessage_def Message.case by (rule handleAppendResponse_total [OF inv])
  have "unat (rp_lastApplied demo_committed) = length hist" using inv unfolding rep_inv_def by blast
  moreover have "length (hist @ more) \<le> log_base (rp_log L') + length (lg_entries (rp_log L'))" "unat (rp_lastApplied L') = length (hist @ more)"
    using L'(2) unfolding rep_inv_def by blast+
  ultimately have la: "rp_lastApplied L' = 1" using L'(3) c(2,3) e(2) by (simp add: word_unat_eq_iff)
  have "log_matching (lg_entries (rp_log demo_applied)) (lg_entries (rp_log demo_committed))" by (simp add: e(1) log_matching_def)
  from no_false_checksum_alarm [OF demo_committed_reachable demo_applied_reachable c(3,4) this _ L'(1)] c(1) e(3,4) L'(1) la
  show ?thesis by auto
qed

section \<open>Rebuilding\<close>

text \<open>What a rebuild does. With nothing compacted, \<open>rebuildFromLog\<close> leaves the log and the commit
  point as they are and replays the whole log into a fresh engine: the engine then holds every entry of
  the log, the ones after the commit point included, and \<open>lastApplied\<close> is the log head. So a follower
  that truncates a conflict applies uncommitted entries, which the comment on \<open>applyCommitted\<close> rules out.\<close>
theorem rebuild_applies_whole_log:
  assumes "node_reachable tsend tsat ins R" and "log_base (rp_log R) = 0" and "log_room (rp_log R)"
  shows "\<exists>R'. rebuildFromLog R = Some R' \<and> rp_log R' = rp_log R \<and> rp_commitIndex R' = rp_commitIndex R \<and>
    rp_lastApplied R' = lg_lastSeq (rp_log R) \<and>
    replay (map le_command (lg_entries (rp_log R))) (new_engine ins) = Some (rp_engine R')"
proof -
  obtain hist where inv: "rep_inv ins hist R" using assms(1,2) reachable_rep_inv by blast
  then have pre: "log_ok (rp_log R)" "rp_snapshotBase R = None" "rp_commitIndex R \<le> lg_lastSeq (rp_log R)"
    "me_instrument (rp_engine R) = ins" by (auto simp: rep_inv_def state_after(3))
  obtain R' where R': "rebuildFromLog R = Some R'" "rep_inv ins (map le_command (lg_entries (rp_log R))) R'"
    "R' = R\<lparr>rp_engine := rp_engine R', rp_lastApplied := lg_lastSeq (rp_log R)\<rparr>"
    using pre(1) assms(2) pre(2) assms(3) pre(3,4) by (rule rebuildFromLog_total)
  have "rp_log R' = rp_log R" "rp_commitIndex R' = rp_commitIndex R" "rp_lastApplied R' = lg_lastSeq (rp_log R)"
    by (subst R'(3); simp)+
  with R'(1,2) show ?thesis using state_after(1) by (auto simp: rep_inv_def)
qed

theorem rebuild_applies_whole_log_witness:
  "\<exists>R'. rebuildFromLog demo_leader = Some R' \<and> rp_commitIndex R' = 0 \<and> rp_lastApplied R' = 1"
proof -
  have c: "log_base (rp_log demo_leader) = 0" "log_room (rp_log demo_leader)" "rp_commitIndex demo_leader = 0"
    "lg_lastSeq (rp_log demo_leader) = 1" by code_simp+
  from rebuild_applies_whole_log [OF demo_leader_reachable c(1,2)] c(3,4) show ?thesis by auto
qed

text \<open>C16: A rebuild after compaction loses the state. \<open>compactLog\<close> drops the log prefix without
  recording a snapshot for it, so once anything has been compacted \<open>rebuildFromLog\<close> finds no entry to
  start from: the engine becomes empty and both the applied and the committed position fall to zero.\<close>
theorem rebuild_after_compaction_loses_state:
  assumes "node_reachable tsend tsat ins R" and "0 < log_base (rp_log R)" and "lg_snapshotSeq (rp_log R) = 0"
  shows "\<exists>R'. rebuildFromLog R = Some R' \<and> rp_engine R' = new_engine ins \<and> rp_lastApplied R' = 0 \<and> rp_commitIndex R' = 0"
proof -
  obtain hist where any: "rep_any ins hist R" using assms(1) reachable_any by blast
  have "rebuildFromLog R = Some (R\<lparr>rp_engine := new_engine ins, rp_lastApplied := 0, rp_commitIndex := 0\<rparr>)"
    by (rule rebuild_loses) (use rep_any_parts [OF any] assms(2,3) in simp_all)
  then show ?thesis by simp
qed

definition demo_compacted :: "(NodeId \<times> Message) list Replicator" where
  "demo_compacted = compactLog demo_committed"

lemma demo_compacted_reachable: "node_reachable rec_send no_sat 7 demo_compacted"
  unfolding demo_compacted_def by (rule node_reachable.step [OF demo_committed_reachable node_step.Compact])

theorem rebuild_after_compaction_loses_state_witness:
  "rp_lastApplied demo_compacted = 1 \<and> (\<exists>R'. rebuildFromLog demo_compacted = Some R' \<and> rp_lastApplied R' = 0)"
proof -
  have c: "log_base (rp_log demo_compacted) = 1" "lg_snapshotSeq (rp_log demo_compacted) = 0" "rp_lastApplied demo_compacted = 1" by code_simp+
  then show ?thesis using rebuild_after_compaction_loses_state [OF demo_compacted_reachable] by auto
qed

end
