(* ===== verification/Os_File.thy ===== *)
theory Os_File
  imports Prelude
begin

text \<open>
  What the storage code uses of a POSIX file descriptor: the bytes of the file, the file offset, and
  the system calls \<open>read\<close>, \<open>write\<close>, \<open>lseek\<close>, \<open>ftruncate\<close>, \<open>fdatasync\<close>. The operating system is the
  parameter \<open>SysCalls\<close>: it decides for the n-th call whether it succeeds, is interrupted, or transfers
  only part of the bytes. \<open>read\<close> transfers at least one byte before the end of the file and none at it,
  and no call transfers more than was asked for; a write beyond the end fills the hole with zeros.

  The loops \<open>writeAll\<close> and the reading loop of \<open>replay\<close> repeat interrupted and partial transfers; as they may
  be interrupted forever they are partial, and \<open>live\<close> is the assumption under which they return.
\<close>

datatype SysResult = Done nat | Interrupted | Failed

record SysCalls =
  sc_ok :: "nat \<Rightarrow> bool"
  sc_transfer :: "nat \<Rightarrow> SysResult"

record OsFile =
  of_bytes :: Buffer
  of_pos :: nat
  of_calls :: nat

definition next_call :: "OsFile \<Rightarrow> OsFile" where
  "next_call f = f\<lparr>of_calls := of_calls f + 1\<rparr>"

definition os_lseek :: "SysCalls \<Rightarrow> nat \<Rightarrow> OsFile \<Rightarrow> bool \<times> OsFile" where
  "os_lseek sys n f = (if sc_ok sys (of_calls f) then (True, (next_call f)\<lparr>of_pos := n\<rparr>) else (False, next_call f))"

definition os_ftruncate :: "SysCalls \<Rightarrow> nat \<Rightarrow> OsFile \<Rightarrow> bool \<times> OsFile" where
  "os_ftruncate sys n f =
     (if sc_ok sys (of_calls f)
      then (True, (next_call f)\<lparr>of_bytes := take n (of_bytes f @ replicate (n - length (of_bytes f)) 0)\<rparr>)
      else (False, next_call f))"

definition os_fdatasync :: "SysCalls \<Rightarrow> OsFile \<Rightarrow> bool \<times> OsFile" where
  "os_fdatasync sys f = (sc_ok sys (of_calls f), next_call f)"

definition put_bytes :: "Buffer \<Rightarrow> OsFile \<Rightarrow> OsFile" where
  "put_bytes data f = f\<lparr>of_bytes := take (of_pos f) (of_bytes f @ replicate (of_pos f - length (of_bytes f)) 0) @ data @
     drop (of_pos f + length data) (of_bytes f), of_pos := of_pos f + length data\<rparr>"

partial_function (option) writeAll :: "SysCalls \<Rightarrow> Buffer \<Rightarrow> nat \<Rightarrow> OsFile \<Rightarrow> (bool \<times> OsFile) option" where
  "writeAll sys data written f =
     (if written < length data then
        (case sc_transfer sys (of_calls f) of
           Interrupted \<Rightarrow> writeAll sys data written (next_call f)
         | Failed \<Rightarrow> Some (False, next_call f)
         | Done n \<Rightarrow>
             let k = min n (length data - written)
             in writeAll sys data (written + k) (put_bytes (take k (drop written data)) (next_call f)))
      else Some (True, f))"

text \<open>The reading loops: with \<open>got\<close> bytes in the buffer they ask for \<open>ask got\<close> more and stop at the end of the file
  or when nothing more is wanted. \<open>None\<close> inside is a read error.\<close>

partial_function (option) readLoop :: "SysCalls \<Rightarrow> (nat \<Rightarrow> nat) \<Rightarrow> Buffer \<Rightarrow> OsFile \<Rightarrow> (Buffer option \<times> OsFile) option" where
  "readLoop sys ask buf f =
     (if ask (length buf) = 0 then Some (Some buf, f)
      else (case sc_transfer sys (of_calls f) of
          Interrupted \<Rightarrow> readLoop sys ask buf (next_call f)
        | Failed \<Rightarrow> Some (None, next_call f)
        | Done n \<Rightarrow>
            let k = min (Suc n) (min (ask (length buf)) (length (of_bytes f) - of_pos f))
            in if k = 0 then Some (Some buf, next_call f)
               else readLoop sys ask (buf @ take k (drop (of_pos f) (of_bytes f))) ((next_call f)\<lparr>of_pos := of_pos f + k\<rparr>)))"

text \<open>The loop of \<open>WriteAheadLog::replay\<close> and \<open>readSnapshotFile\<close> reads the whole file in chunks of 64 KiB.\<close>

definition readAll :: "SysCalls \<Rightarrow> OsFile \<Rightarrow> (Buffer option \<times> OsFile) option" where
  "readAll sys f = readLoop sys (\<lambda>_. 64 * 1024) [] f"

text \<open>The loop of \<open>StableStore::open\<close> fills a buffer of a given size.\<close>

definition readUpTo :: "SysCalls \<Rightarrow> nat \<Rightarrow> OsFile \<Rightarrow> (Buffer option \<times> OsFile) option" where
  "readUpTo sys cap f = readLoop sys (\<lambda>got. cap - got) [] f"

declare writeAll.simps [code] readLoop.simps [code]

section \<open>Progress\<close>

text \<open>No call fails, and however often transfers are interrupted or empty, one that moves something
  comes eventually.\<close>

definition live :: "SysCalls \<Rightarrow> bool" where
  "live sys \<longleftrightarrow> (\<forall>n. sc_ok sys n) \<and> (\<forall>n. sc_transfer sys n \<noteq> Failed) \<and> (\<forall>n. \<exists>m\<ge>n. \<exists>k>0. sc_transfer sys m = Done k)"

definition file_end :: "OsFile \<Rightarrow> bool" where
  "file_end f \<longleftrightarrow> of_pos f = length (of_bytes f)"

lemma put_bytes_end:
  assumes "file_end f"
  shows "of_bytes (put_bytes data f) = of_bytes f @ data" and "file_end (put_bytes data f)"
  using assms by (simp_all add: file_end_def put_bytes_def)

lemma next_call_frame [simp]:
  "of_bytes (next_call f) = of_bytes f" "of_pos (next_call f) = of_pos f" "file_end (next_call f) \<longleftrightarrow> file_end f"
  "of_calls (next_call f) = Suc (of_calls f)"
  by (simp_all add: next_call_def file_end_def)

text \<open>How many calls pass before one that moves something.\<close>

definition wait :: "SysCalls \<Rightarrow> nat \<Rightarrow> nat" where
  "wait sys n = (LEAST d. \<exists>k>0. sc_transfer sys (n + d) = Done k)"

lemma wait_decreases:
  assumes "live sys" and "\<And>k. sc_transfer sys n = Done k \<Longrightarrow> k = 0"
  shows "wait sys (Suc n) < wait sys n"
proof -
  let ?P = "\<lambda>d. \<exists>k>0. sc_transfer sys (n + d) = Done k"
  have "\<exists>m\<ge>n. \<exists>k>0. sc_transfer sys m = Done k" using assms(1) unfolding live_def by blast
  then obtain d where "?P d" by (metis le_Suc_ex)
  moreover have "\<not> ?P 0" using assms(2) by auto
  ultimately have "(LEAST d. ?P d) = Suc (LEAST d. ?P (Suc d))" by (rule Least_Suc)
  then show ?thesis by (simp add: wait_def)
qed

lemma take_drop_split: "take k (drop n xs) @ drop (n + k) xs = drop n xs"
  using append_take_drop_id [of k "drop n xs"] by (simp add: add.commute)

lemma writeAll_end:
  assumes "live sys" and "file_end f" and "written \<le> length data"
  obtains f' where "writeAll sys data written f = Some (True, f')" and "of_bytes f' = of_bytes f @ drop written data" and "file_end f'"
proof -
  have "\<exists>f'. writeAll sys data written f = Some (True, f') \<and> of_bytes f' = of_bytes f @ drop written data \<and> file_end f'"
    using assms(2,3)
  proof (induction "(length data - written, wait sys (of_calls f))" arbitrary: written f
      rule: wf_induct_rule [OF wf_lex_prod [OF wf_less_than wf_less_than]])
    case (1 written f)
    note IH = "1.hyps" [simplified]
    consider (fin) "\<not> written < length data" | (again) "written < length data" "sc_transfer sys (of_calls f) = Interrupted"
      | (move) n where "written < length data" "sc_transfer sys (of_calls f) = Done n"
      using assms(1) by (cases "sc_transfer sys (of_calls f)") (auto simp: live_def)
    then show ?case
    proof cases
      case fin
      then show ?thesis using "1.prems" by (simp add: writeAll.simps)
    next
      case again
      then have "wait sys (of_calls (next_call f)) < wait sys (of_calls f)" using wait_decreases [OF assms(1), of "of_calls f"] by simp
      then show ?thesis using IH [of written "next_call f"] "1.prems" again by (simp add: writeAll.simps [of sys data written f])
    next
      case (move n)
      define k where "k = min n (length data - written)"
      let ?f = "put_bytes (take k (drop written data)) (next_call f)"
      have k: "written + k \<le> length data" "n \<noteq> 0 \<Longrightarrow> k \<noteq> 0" using move(1) by (auto simp: k_def)
      have e: "of_bytes ?f = of_bytes f @ take k (drop written data)" "file_end ?f"
        using put_bytes_end [of "next_call f"] "1.prems" by simp_all
      have c: "of_calls ?f = Suc (of_calls f)" by (simp add: put_bytes_def)
      have "length data - (written + k) < length data - written \<or>
          length data - (written + k) = length data - written \<and> wait sys (of_calls ?f) < wait sys (of_calls f)"
      proof (cases "n = 0")
        case True
        then show ?thesis using wait_decreases [OF assms(1), of "of_calls f"] move c by (simp add: k_def)
      qed (use move(1) k in auto)
      then obtain f' where f': "writeAll sys data (written + k) ?f = Some (True, f')" "of_bytes f' = of_bytes ?f @ drop (written + k) data" "file_end f'"
        using IH [of "written + k" ?f] e(2) k(1) by blast
      have "writeAll sys data written f = writeAll sys data (written + k) ?f"
        by (subst writeAll.simps) (simp add: move k_def Let_def)
      then show ?thesis using f' e(1) take_drop_split [of k written data] by simp
    qed
  qed
  with that show thesis by blast
qed

text \<open>Whatever the system does, a loop that reports success wrote everything.\<close>

lemma writeAll_complete:
  assumes "writeAll sys data written f = Some (ok, f')" and "ok" and "file_end f" and "written \<le> length data"
  shows "of_bytes f' = of_bytes f @ drop written data"
proof -
  have "fst r \<longrightarrow> file_end f \<longrightarrow> written \<le> length data \<longrightarrow> of_bytes (snd r) = of_bytes f @ drop written data"
    if "writeAll sys data written f = Some r" for r
    using that
  proof (rule writeAll.raw_induct [rotated], goal_cases)
    case (1 wa sys data written f r)
    note IH = 1(1)
    show ?case
    proof (cases "written < length data")
      case True
      then show ?thesis
      proof (cases "sc_transfer sys (of_calls f)")
        case (Done n)
        define k where "k = min n (length data - written)"
        let ?f = "put_bytes (take k (drop written data)) (next_call f)"
        have "wa sys data (written + k) ?f = Some r" using 1(2) True Done by (simp add: k_def Let_def)
        from IH [OF this] have "fst r \<longrightarrow> file_end ?f \<longrightarrow> written + k \<le> length data \<longrightarrow>
            of_bytes (snd r) = of_bytes ?f @ drop (written + k) data" .
        moreover have "written + k \<le> length data" using True by (simp add: k_def)
        ultimately show ?thesis
          using put_bytes_end [of "next_call f"] take_drop_split [of k written data] by auto
      next
        case Interrupted
        then show ?thesis using IH [of sys data written "next_call f" r] 1(2) True by auto
      qed (use 1(2) True in auto)
    qed (use 1(2) in auto)
  qed
  from this [OF assms(1)] show ?thesis using assms(2-) by simp
qed

lemma readLoop_from:
  assumes "live sys" and "of_pos f \<le> length (of_bytes f)"
  shows "\<exists>k f'. readLoop sys ask acc f = Some (Some (acc @ take k (drop (of_pos f) (of_bytes f))), f') \<and>
    of_bytes f' = of_bytes f \<and> of_pos f' = of_pos f + k \<and> k \<le> length (of_bytes f) - of_pos f \<and>
    (ask (length acc + k) = 0 \<or> k = length (of_bytes f) - of_pos f) \<and>
    ((\<forall>got. got + ask got \<le> max cap got) \<longrightarrow> length acc \<le> cap \<longrightarrow> length acc + k \<le> cap)"
  using assms(2)
proof (induction "(length (of_bytes f) - of_pos f, wait sys (of_calls f))" arbitrary: acc f
    rule: wf_induct_rule [OF wf_lex_prod [OF wf_less_than wf_less_than]])
  case (1 f acc)
  note IH = "1.hyps" [simplified]
  consider (stop) "ask (length acc) = 0" | (again) "0 < ask (length acc)" "sc_transfer sys (of_calls f) = Interrupted"
    | (move) n where "0 < ask (length acc)" "sc_transfer sys (of_calls f) = Done n"
    using assms(1) by (cases "sc_transfer sys (of_calls f)") (auto simp: live_def)
  then show ?case
  proof cases
    case stop
    then show ?thesis using "1.prems" by (intro exI [of _ 0] exI [of _ f]) (simp add: readLoop.simps)
  next
    case again
    then have "wait sys (of_calls (next_call f)) < wait sys (of_calls f)" using wait_decreases [OF assms(1), of "of_calls f"] by simp
    then show ?thesis using IH [of "next_call f" acc] "1.prems" again by (simp add: readLoop.simps [of sys ask acc f])
  next
    case (move n)
    define k where "k = min (Suc n) (min (ask (length acc)) (length (of_bytes f) - of_pos f))"
    have step: "readLoop sys ask acc f = (if k = 0 then Some (Some acc, next_call f)
        else readLoop sys ask (acc @ take k (drop (of_pos f) (of_bytes f))) ((next_call f)\<lparr>of_pos := of_pos f + k\<rparr>))"
      using move by (subst readLoop.simps) (simp only: SysResult.case Let_def k_def [symmetric] less_numeral_extra if_False neq0_conv [symmetric] simp_thms)
    show ?thesis
    proof (cases "k = 0")
      case True
      then have "length (of_bytes f) - of_pos f = 0" using move(1) by (simp add: k_def)
      then show ?thesis using step True by (intro exI [of _ 0] exI [of _ "next_call f"]) simp
    next
      case False
      let ?f = "(next_call f)\<lparr>of_pos := of_pos f + k\<rparr>" and ?acc = "acc @ take k (drop (of_pos f) (of_bytes f))"
      have k: "k \<le> length (of_bytes f) - of_pos f" "k \<le> ask (length acc)" by (simp_all add: k_def)
      then have "length (of_bytes ?f) - of_pos ?f < length (of_bytes f) - of_pos f" "of_pos ?f \<le> length (of_bytes ?f)"
        using False "1.prems" by simp_all
      then obtain j f' where j: "readLoop sys ask ?acc ?f = Some (Some (?acc @ take j (drop (of_pos ?f) (of_bytes ?f))), f')"
        "of_bytes f' = of_bytes ?f" "of_pos f' = of_pos ?f + j" "j \<le> length (of_bytes ?f) - of_pos ?f"
        "ask (length ?acc + j) = 0 \<or> j = length (of_bytes ?f) - of_pos ?f"
        "(\<forall>got. got + ask got \<le> max cap got) \<longrightarrow> length ?acc \<le> cap \<longrightarrow> length ?acc + j \<le> cap"
        using IH [of ?f ?acc] by blast
      have len: "length ?acc = length acc + k" using k(1) by simp
      have "take k (drop (of_pos f) (of_bytes f)) @ take j (drop (of_pos f + k) (of_bytes f)) = take (k + j) (drop (of_pos f) (of_bytes f))"
        by (simp add: take_add add.commute [of k "of_pos f"])
      moreover have "length acc + k \<le> cap" if "\<forall>got. got + ask got \<le> max cap got" "length acc \<le> cap"
        using that(1) [THEN spec, of "length acc"] that(2) k(2) by simp
      ultimately show ?thesis using step False j len k(1) "1.prems"
        by (intro exI [of _ "k + j"] exI [of _ f']) (auto simp: add.assoc)
    qed
  qed
qed

lemma readAll_from:
  assumes "live sys" and "of_pos f \<le> length (of_bytes f)"
  obtains f' where "readAll sys f = Some (Some (drop (of_pos f) (of_bytes f)), f')" and "of_bytes f' = of_bytes f" and "file_end f'"
  using readLoop_from [OF assms, of "\<lambda>_. 64 * 1024" "[]"] assms(2) that by (auto simp: readAll_def file_end_def)

lemma readUpTo_from:
  assumes "live sys" and "of_pos f \<le> length (of_bytes f)"
  obtains f' where "readUpTo sys cap f = Some (Some (take cap (drop (of_pos f) (of_bytes f))), f')"
    and "of_bytes f' = of_bytes f"
proof -
  obtain k f' where k: "readUpTo sys cap f = Some (Some (take k (drop (of_pos f) (of_bytes f))), f')" "of_bytes f' = of_bytes f"
    "k \<le> length (of_bytes f) - of_pos f" "cap \<le> k \<or> k = length (of_bytes f) - of_pos f" "k \<le> cap"
    using readLoop_from [OF assms, of "\<lambda>got. cap - got" "[]" cap] by (auto simp: readUpTo_def)
  then have "take k (drop (of_pos f) (of_bytes f)) = take cap (drop (of_pos f) (of_bytes f))" by auto
  with k that show thesis by simp
qed

end
