(* ===== verification/File_Replace.thy ===== *)
theory File_Replace
  imports Os_File
begin

text \<open>
  Replacing a whole file, as \<open>StableStore::save\<close> and \<open>writeSnapshotFile\<close> do it: write a temporary, flush it,
  rename it over the target, flush the directory. A \<open>Slot\<close> is a path and its temporary: the content of
  each, or nothing. Any call may fail; a crash at some point leaves what a failure of the next call
  leaves. The outcome says how far the replacement got. Written bytes
  count as durable at once; what a flush adds is only that it may fail.
\<close>

record Slot =
  sl_target :: "Buffer option"
  sl_tmp :: "Buffer option"
  sl_calls :: nat

definition slot_call :: "Slot \<Rightarrow> Slot" where
  "slot_call S = S\<lparr>sl_calls := sl_calls S + 1\<rparr>"

datatype Outcome = NotFlushed | Flushed | Replaced

text \<open>\<open>syncParentDirectory\<close> opens the directory and flushes it.\<close>

definition syncParentDirectory :: "SysCalls \<Rightarrow> Slot \<Rightarrow> bool \<times> Slot" where
  "syncParentDirectory sys S =
     (if \<not> sc_ok sys (sl_calls S) then (False, slot_call S)
      else (sc_ok sys (sl_calls (slot_call S)), slot_call (slot_call S)))"

definition os_rename :: "SysCalls \<Rightarrow> Slot \<Rightarrow> bool \<times> Slot" where
  "os_rename sys S =
     (if \<not> sc_ok sys (sl_calls S) then (False, slot_call S)
      else (True, (slot_call S)\<lparr>sl_target := sl_tmp S, sl_tmp := None\<rparr>))"

definition replaceFile :: "SysCalls \<Rightarrow> Buffer \<Rightarrow> Slot \<Rightarrow> (Outcome \<times> Slot) option" where
  "replaceFile sys data S =
     (if \<not> sc_ok sys (sl_calls S) then Some (NotFlushed, slot_call S)
      else do {
        (ok, f) \<leftarrow> writeAll sys data 0 \<lparr>of_bytes = [], of_pos = 0, of_calls = sl_calls S + 1\<rparr>;
        let S1 = S\<lparr>sl_tmp := Some (of_bytes f), sl_calls := of_calls f\<rparr>;
        Some (if \<not> ok \<or> \<not> sc_ok sys (sl_calls S1) then (NotFlushed, if ok then slot_call S1 else S1)
              else
                let (renamed, S2) = os_rename sys (slot_call S1) in
                if \<not> renamed then (Flushed, S2)
                else
                  let (synced, S3) = syncParentDirectory sys S2
                  in (if synced then Replaced else Flushed, S3))
      })"

text \<open>Whatever fails, the target holds the whole old content or the whole new one.\<close>

lemma replaceFile_target:
  assumes "replaceFile sys data S = Some (r, S')"
  shows "sl_target S' = sl_target S \<or> sl_target S' = Some data" and "r = Replaced \<Longrightarrow> sl_target S' = Some data"
    and "r = NotFlushed \<Longrightarrow> sl_target S' = sl_target S"
proof -
  let ?f = "\<lparr>of_bytes = [], of_pos = 0, of_calls = sl_calls S + 1\<rparr> :: OsFile"
  have "(sl_target S' = sl_target S \<or> sl_target S' = Some data) \<and> (r = Replaced \<longrightarrow> sl_target S' = Some data) \<and>
      (r = NotFlushed \<longrightarrow> sl_target S' = sl_target S)"
  proof (cases "sc_ok sys (sl_calls S)")
    case True
    then obtain ok f where f: "writeAll sys data 0 ?f = Some (ok, f)"
      using assms by (auto simp: replaceFile_def bind_eq_Some_conv)
    have "of_bytes f = data" if "ok" using writeAll_complete [OF f that] by (simp add: file_end_def)
    then show ?thesis using assms True f
      by (auto simp: replaceFile_def os_rename_def syncParentDirectory_def slot_call_def Let_def split: if_splits)
  qed (use assms in \<open>auto simp: replaceFile_def slot_call_def\<close>)
  then show "sl_target S' = sl_target S \<or> sl_target S' = Some data" "r = Replaced \<Longrightarrow> sl_target S' = Some data"
    "r = NotFlushed \<Longrightarrow> sl_target S' = sl_target S" by blast+
qed

lemma replaceFile_live:
  assumes "live sys"
  obtains S' where "replaceFile sys data S = Some (Replaced, S')" and "sl_target S' = Some data" and "sl_tmp S' = None"
proof -
  let ?f = "\<lparr>of_bytes = [], of_pos = 0, of_calls = sl_calls S + 1\<rparr> :: OsFile"
  obtain f where f: "writeAll sys data 0 ?f = Some (True, f)" "of_bytes f = of_bytes ?f @ drop 0 data"
    by (rule writeAll_end [OF assms, of ?f 0 data]) (auto simp: file_end_def)
  then have "\<exists>S'. replaceFile sys data S = Some (Replaced, S') \<and> sl_target S' = Some data \<and> sl_tmp S' = None"
    using assms by (simp add: replaceFile_def os_rename_def syncParentDirectory_def slot_call_def live_def)
  with that show thesis by blast
qed

text \<open>Opening the target for reading: it is missing, cannot be opened, or has a content.\<close>

datatype OpenResult = OpenFailed | NotFound | Opened OsFile

definition os_open :: "SysCalls \<Rightarrow> Slot \<Rightarrow> OpenResult" where
  "os_open sys S =
     (if \<not> sc_ok sys (sl_calls S) then OpenFailed
      else case sl_target S of None \<Rightarrow> NotFound
        | Some bs \<Rightarrow> Opened \<lparr>of_bytes = bs, of_pos = 0, of_calls = sl_calls S + 1\<rparr>)"

lemma os_open_live:
  "live sys \<Longrightarrow> os_open sys S = (case sl_target S of None \<Rightarrow> NotFound | Some bs \<Rightarrow> Opened \<lparr>of_bytes = bs, of_pos = 0, of_calls = sl_calls S + 1\<rparr>)"
  by (simp add: os_open_def live_def)

end
