(* ===== verification/Crc.thy ===== *)
theory Crc
  imports Byte_Hash
begin

text \<open>
  CRC-32 of the write-ahead log (\<open>storage/wal.cpp\<close>): the table built at start-up and the byte-wise loop
  over it. The reference is the bit-serial shift register \<open>crc_bits\<close>; the table-driven routine is shown
  equal to it, and its byte step satisfies the contract \<open>byte_hash\<close>.
\<close>

section \<open>The code\<close>

text \<open>The body of the inner loop of \<open>makeCrcTable\<close>.\<close>

definition crc_bit :: "u32 \<Rightarrow> u32" where
  "crc_bit c = (if c AND 1 \<noteq> 0 then 0xEDB88320 XOR drop_bit 1 c else drop_bit 1 c)"

definition makeCrcTable :: "u32 list" where
  "makeCrcTable = map (\<lambda>i. (crc_bit ^^ 8) (of_nat i)) [0..<256]"

definition crc_step :: "Byte \<Rightarrow> u32 \<Rightarrow> u32" where
  "crc_step b c = makeCrcTable ! unat ((c XOR ucast b) AND 0xFF) XOR drop_bit 8 c"

definition crc32 :: "Buffer \<Rightarrow> u32" where
  "crc32 data = fold crc_step data 0xFFFFFFFF XOR 0xFFFFFFFF"

section \<open>The reference\<close>

text \<open>Bit by bit, least significant bit first.\<close>

definition crc_bits :: "Buffer \<Rightarrow> u32" where
  "crc_bits data = fold (\<lambda>b c. (crc_bit ^^ 8) (c XOR ucast b)) data 0xFFFFFFFF XOR 0xFFFFFFFF"

section \<open>One bit\<close>

lemma and_one_iff: "(c :: u32) AND 1 \<noteq> 0 \<longleftrightarrow> bit c 0"
  by (simp add: and_one_eq odd_iff_mod_2_eq_one bit_0)

lemma crc_bit_alt: "crc_bit c = drop_bit 1 c XOR (if bit c 0 then 0xEDB88320 else 0)"
  by (simp add: crc_bit_def and_one_iff xor.commute)

lemma crc_bit_xor: "crc_bit (a XOR b) = crc_bit a XOR crc_bit b"
proof -
  have "drop_bit 1 (a XOR b) = drop_bit 1 a XOR drop_bit 1 b" by (rule drop_bit_xor)
  moreover have "bit (a XOR b) 0 \<longleftrightarrow> bit a 0 \<noteq> bit b 0" by (simp add: bit_xor_iff)
  ultimately show ?thesis by (simp add: crc_bit_alt xor.assoc xor.left_commute)
qed

lemma crc_bit_inj: "crc_bit a = crc_bit b \<Longrightarrow> a = b"
proof -
  assume eq: "crc_bit a = crc_bit b"
  have top: "bit (crc_bit c) 31 \<longleftrightarrow> bit c 0" for c
  proof -
    have "\<not> bit (drop_bit 1 c) 31" by (auto simp: bit_drop_bit_eq dest: bit_imp_le_length)
    then show ?thesis by (simp add: crc_bit_alt bit_xor_iff)
  qed
  have low: "bit a 0 \<longleftrightarrow> bit b 0" using top [of a] top [of b] eq by simp
  then have "drop_bit 1 a = drop_bit 1 b" using eq by (simp add: crc_bit_alt xor_right_cancel split: if_splits)
  then have "bit a (Suc n) \<longleftrightarrow> bit b (Suc n)" for n by (metis bit_drop_bit_eq comp_apply plus_1_eq_Suc)
  with low show "a = b" by (intro bit_word_eqI) (metis not0_implies_Suc)
qed

lemma crc_bit_pow_xor: "(crc_bit ^^ n) (a XOR b) = (crc_bit ^^ n) a XOR (crc_bit ^^ n) b"
  by (induction n) (simp_all add: crc_bit_xor)

lemma crc_bit_pow_inj: "(crc_bit ^^ n) a = (crc_bit ^^ n) b \<Longrightarrow> a = b"
  by (induction n) (auto dest: crc_bit_inj)

lemma crc_bit_pow_high: "(\<And>k. k < n \<Longrightarrow> \<not> bit c k) \<Longrightarrow> (crc_bit ^^ n) c = drop_bit n c"
proof (induction n arbitrary: c)
  case (Suc n)
  have "crc_bit c = drop_bit 1 c" using Suc.prems [of 0] by (simp add: crc_bit_alt)
  moreover have "(crc_bit ^^ n) (drop_bit 1 c) = drop_bit n (drop_bit 1 c)"
    using Suc.prems by (intro Suc.IH) (simp add: bit_drop_bit_eq)
  ultimately show ?case by (simp add: funpow_swap1 del: funpow.simps add: funpow_Suc_right)
qed simp

section \<open>One byte\<close>

lemma crc_step_bits: "crc_step b c = (crc_bit ^^ 8) (c XOR ucast b)"
proof -
  define m :: u32 where "m = 0xFF"
  let ?x = "c XOR ucast b"
  have m: "bit m k \<longleftrightarrow> k < 8" if "k < 32" for k using bit_mask_ff [where 'a = 32, of k] that by (simp add: m_def)
  have split: "?x = (?x AND m) XOR (?x AND NOT m)"
    by (intro bit_word_eqI) (auto simp: bit_xor_iff bit_and_iff bit_not_iff)
  have "bit m (8 + k) = False" for k using m [of "8 + k"] bit_imp_le_length [of m "8 + k"] by auto
  moreover have "bit (ucast b :: u32) (8 + k) = False" for k using bit_imp_le_length [of b "8 + k"] by (auto simp: bit_ucast_iff)
  ultimately have "drop_bit 8 (?x AND NOT m) = drop_bit 8 c"
    by (intro bit_word_eqI) (auto simp: bit_drop_bit_eq bit_xor_iff bit_and_iff bit_not_iff dest: bit_imp_le_length)
  then have hi: "(crc_bit ^^ 8) (?x AND NOT m) = drop_bit 8 c"
    by (subst crc_bit_pow_high) (use m in \<open>auto simp: bit_and_iff bit_not_iff\<close>)
  have "?x AND m \<le> m" by (rule word_and_le1)
  then have "unat (?x AND m) < 256" by (simp add: word_le_nat_alt m_def)
  then have lo: "makeCrcTable ! unat (?x AND m) = (crc_bit ^^ 8) (?x AND m)"
    by (simp add: makeCrcTable_def)
  have "(crc_bit ^^ 8) ?x = (crc_bit ^^ 8) (?x AND m) XOR (crc_bit ^^ 8) (?x AND NOT m)"
    by (subst split) (rule crc_bit_pow_xor)
  then show ?thesis by (simp only: crc_step_def lo hi m_def [symmetric])
qed

interpretation crc: byte_hash crc_step
proof
  fix b c c' assume "crc_step b c = crc_step b c'"
  then have "c XOR ucast b = c' XOR ucast b" unfolding crc_step_bits by (rule crc_bit_pow_inj)
  then show "c = c'" by (simp only: xor_right_cancel)
next
  fix b b' c assume "crc_step b c = crc_step b' c"
  then have "c XOR ucast b = c XOR ucast b'" unfolding crc_step_bits by (rule crc_bit_pow_inj)
  then have "(ucast b :: u32) = ucast b'" by (simp only: xor_left_cancel)
  then show "b = b'" by (rule ucast_byte_inj [rotated]) simp
qed

lemma crc32_eq_bits [code]: "crc32 data = fold (\<lambda>b c. (crc_bit ^^ 8) (c XOR ucast b)) data 0xFFFFFFFF XOR 0xFFFFFFFF"
  by (simp add: crc32_def crc_step_bits [abs_def])

lemma crc32_one_byte: "b \<noteq> b' \<Longrightarrow> crc32 (xs @ b # ys) \<noteq> crc32 (xs @ b' # ys)"
  using crc.one_byte_differs [of b b' xs ys] by (simp only: crc32_def xor_right_cancel not_False_eq_True)

end
