(* ===== verification/Byte_Stream.thy ===== *)
theory Byte_Stream
  imports Prelude
begin

text \<open>
  Self-delimiting records in a byte stream. Both the network framing and the write-ahead log
  scan a growing byte string record by record; the locales state what one scanning step must
  satisfy and prove once that the scan does not depend on how the bytes were cut into chunks,
  and that a stream cut anywhere yields exactly the records that are completely there.
\<close>

locale byte_stream =
  fixes step :: "'b list \<Rightarrow> ('f \<times> 'b list) option"
    and scan :: "'b list \<Rightarrow> 'f list \<times> 'b list"
  assumes step_shrinks: "step bs = Some (f, rest) \<Longrightarrow> length rest < length bs"
    and step_append: "step bs = Some (f, rest) \<Longrightarrow> step (bs @ ys) = Some (f, rest @ ys)"
    and scan_unfold: "scan bs = (case step bs of None \<Rightarrow> ([], bs)
      | Some (f, rest) \<Rightarrow> (case scan rest of (fs, r) \<Rightarrow> (f # fs, r)))"
begin

lemma scan_rest:
  assumes "scan bs = (fs, r)"
  shows "step r = None"
  using assms
proof (induction "length bs" arbitrary: bs fs rule: less_induct)
  case less
  show ?case
  proof (cases "step bs")
    case None
    with less.prems scan_unfold [of bs] show ?thesis by simp
  next
    case (Some p)
    obtain f rest where p: "p = (f, rest)" by fastforce
    obtain gs r' where g: "scan rest = (gs, r')" by fastforce
    have "length rest < length bs" using step_shrinks Some p by blast
    moreover have "r' = r" using less.prems scan_unfold [of bs] Some p g by simp
    ultimately show ?thesis using less.hyps g by blast
  qed
qed

lemma scan_append:
  assumes "scan xs = (fs, r)" and "scan (r @ ys) = (gs, r')"
  shows "scan (xs @ ys) = (fs @ gs, r')"
  using assms
proof (induction "length xs" arbitrary: xs fs rule: less_induct)
  case less
  show ?case
  proof (cases "step xs")
    case None
    with less.prems scan_unfold [of xs] show ?thesis by simp
  next
    case (Some p)
    obtain f rest where p: "p = (f, rest)" by fastforce
    obtain fs' r1 where s: "scan rest = (fs', r1)" by fastforce
    have eq: "fs = f # fs'" "r1 = r" using less.prems(1) scan_unfold [of xs] Some p s by simp_all
    have "length rest < length xs" using step_shrinks Some p by blast
    then have "scan (rest @ ys) = (fs' @ gs, r')" using less.hyps s less.prems(2) eq by blast
    moreover have "step (xs @ ys) = Some (f, rest @ ys)" using step_append Some p by blast
    ultimately show ?thesis using scan_unfold [of "xs @ ys"] eq by simp
  qed
qed

end

text \<open>A record writer whose records the step recognises, and no proper prefix of them.\<close>

locale record_stream = byte_stream +
  fixes enc :: "'a \<Rightarrow> 'b list"
    and good :: "'a \<Rightarrow> bool"
  assumes step_enc: "good f \<Longrightarrow> step (enc f @ ys) = Some (f, ys)"
    and step_torn: "good f \<Longrightarrow> n < length (enc f) \<Longrightarrow> step (take n (enc f)) = None"
begin

lemma scan_encoded:
  assumes "\<forall>f\<in>set fs. good f"
  shows "scan (concat (map enc fs) @ ys) = (fs @ fst (scan ys), snd (scan ys))"
  using assms
proof (induction fs)
  case (Cons f fs)
  have "step ((enc f @ concat (map enc fs)) @ ys) = Some (f, concat (map enc fs) @ ys)"
    using Cons.prems by (simp add: step_enc)
  then show ?case using Cons scan_unfold [of "(enc f @ concat (map enc fs)) @ ys"] by simp
qed simp

lemma scan_torn:
  assumes "\<forall>f\<in>set fs. good f" and "n \<le> length (concat (map enc fs))"
  obtains k where "scan (take n (concat (map enc fs))) = (take k fs, take (n - length (concat (map enc (take k fs)))) (concat (map enc (drop k fs))))"
    and "k \<le> length fs" and "length (concat (map enc (take k fs))) \<le> n"
    and "k < length fs \<Longrightarrow> n < length (concat (map enc (take (Suc k) fs)))"
proof -
  have "\<exists>k. scan (take n (concat (map enc fs))) = (take k fs, take (n - length (concat (map enc (take k fs)))) (concat (map enc (drop k fs)))) \<and>
      k \<le> length fs \<and> length (concat (map enc (take k fs))) \<le> n \<and>
      (k < length fs \<longrightarrow> n < length (concat (map enc (take (Suc k) fs))))"
    using assms
  proof (induction fs arbitrary: n)
    case Nil
    have "scan [] = ([], [])"
    proof (cases "step []")
      case (Some p)
      then show ?thesis using step_shrinks [of "[]" "fst p" "snd p"] by simp
    qed (use scan_unfold [of "[]"] in simp)
    with Nil show ?case by simp
  next
    case (Cons f fs)
    show ?case
    proof (cases "length (enc f) \<le> n")
      case False
      then have "step (take n (enc f)) = None" using Cons.prems step_torn by simp
      then have "scan (take n (enc f)) = ([], take n (enc f))" using scan_unfold [of "take n (enc f)"] by simp
      with False show ?thesis by (intro exI [of _ 0]) simp
    next
      case True
      let ?m = "n - length (enc f)"
      have m: "?m \<le> length (concat (map enc fs))" and ok: "\<forall>f\<in>set fs. good f"
        using Cons.prems True by auto
      obtain k where k: "scan (take ?m (concat (map enc fs))) = (take k fs, take (?m - length (concat (map enc (take k fs)))) (concat (map enc (drop k fs))))"
        "k \<le> length fs" "length (concat (map enc (take k fs))) \<le> ?m"
        "k < length fs \<longrightarrow> ?m < length (concat (map enc (take (Suc k) fs)))"
        using Cons.IH [OF ok m] by blast
      have "take n (concat (map enc (f # fs))) = enc f @ take ?m (concat (map enc fs))" using True by simp
      moreover have "step (enc f @ take ?m (concat (map enc fs))) = Some (f, take ?m (concat (map enc fs)))"
        using Cons.prems step_enc by simp
      ultimately have "scan (take n (concat (map enc (f # fs)))) =
          (f # take k fs, take (?m - length (concat (map enc (take k fs)))) (concat (map enc (drop k fs))))"
        using k(1) scan_unfold [of "enc f @ take ?m (concat (map enc fs))"] by simp
      with k True show ?thesis by (intro exI [of _ "Suc k"]) (auto simp: less_diff_conv2)
    qed
  qed
  with that show thesis by blast
qed

end

end
