(* ===== verification/Wal.thy ===== *)
theory Wal
  imports Crc Byte_Stream Os_File
begin

text \<open>
  The write-ahead log (\<open>storage/wal.hpp\<close>, \<open>storage/wal.cpp\<close>). A record on disk is a 16-byte header
  (magic, sequence, length, CRC-32 of the payload) followed by the payload; \<open>open\<close> replays the file up to
  the first record that is not complete and intact and cuts the rest off.

  The file behind \<open>fd_\<close> is part of the state; the operating system is the parameter \<open>sys\<close> of
  \<open>Os_File\<close>. An operation returns whether it succeeded; it has no value only if the system interrupts
  it forever. The texts put into \<open>error\<close> are left out. One scanning step satisfies the contract
  \<open>record_stream\<close>, which gives the behaviour on a file cut anywhere.
\<close>

section \<open>State\<close>

definition kWalMagic :: u32 where "kWalMagic = 0x4C41575F"
definition kWalHeaderSize :: nat where "kWalHeaderSize = 16"
definition kMaxRecordSize :: u32 where "kMaxRecordSize = push_bit 20 8"

datatype SyncPolicy = EveryWrite | Batched | Never

record WalRecord =
  wr_seq :: u32
  wr_payload :: Buffer

record WalStats =
  ws_appends :: u64
  ws_fsyncs :: u64
  ws_bytesWritten :: u64
  ws_recordsReplayed :: u64
  ws_truncatedTailBytes :: u64
  ws_tailWasTorn :: bool

definition zero_wal_stats :: WalStats where
  "zero_wal_stats = \<lparr>ws_appends = 0, ws_fsyncs = 0, ws_bytesWritten = 0, ws_recordsReplayed = 0,
     ws_truncatedTailBytes = 0, ws_tailWasTorn = False\<rparr>"

record WriteAheadLog =
  wl_isOpen :: bool
  wl_file :: OsFile
  wl_policy :: SyncPolicy
  wl_batchSize :: nat
  wl_sinceSync :: nat
  wl_bytesOnDisk :: u64
  wl_records :: "WalRecord list"
  wl_stats :: WalStats

definition new_wal :: WriteAheadLog where
  "new_wal = \<lparr>wl_isOpen = False, wl_file = \<lparr>of_bytes = [], of_pos = 0, of_calls = 0\<rparr>, wl_policy = EveryWrite,
     wl_batchSize = 64, wl_sinceSync = 0, wl_bytesOnDisk = 0, wl_records = [], wl_stats = zero_wal_stats\<rparr>"

definition wal_count :: "(WalStats \<Rightarrow> WalStats) \<Rightarrow> WriteAheadLog \<Rightarrow> WriteAheadLog" where
  "wal_count f W = W\<lparr>wl_stats := f (wl_stats W)\<rparr>"

section \<open>Records on disk\<close>

definition putU32 :: "u32 \<Rightarrow> Buffer" where
  "putU32 v = le_bytes 4 v"

definition getU32 :: "Buffer \<Rightarrow> u32" where
  "getU32 p = le_value (take 4 p)"

definition wal_frame :: "WalRecord \<Rightarrow> Buffer" where
  "wal_frame r = putU32 kWalMagic @ putU32 (wr_seq r) @ putU32 (of_nat (length (wr_payload r))) @
     putU32 (crc32 (wr_payload r)) @ wr_payload r"

text \<open>The scanning loop of \<open>replay\<close>: offset, records and the number of records so far.\<close>

function replayLoop :: "Buffer \<Rightarrow> nat \<Rightarrow> WalRecord list \<Rightarrow> nat \<times> WalRecord list" where
  "replayLoop bytes offset recs =
     (if offset + kWalHeaderSize \<le> length bytes then
        let header = drop offset bytes;
            magic = getU32 header;
            seq = getU32 (drop 4 header);
            len = getU32 (drop 8 header);
            expectedCrc = getU32 (drop 12 header)
        in if magic \<noteq> kWalMagic \<or> kMaxRecordSize < len then (offset, recs)
           else if length bytes < offset + kWalHeaderSize + unat len then (offset, recs)
           else
             let payload = take (unat len) (drop (offset + kWalHeaderSize) bytes)
             in if crc32 payload \<noteq> expectedCrc then (offset, recs)
                else replayLoop bytes (offset + kWalHeaderSize + unat len) (recs @ [\<lparr>wr_seq = seq, wr_payload = payload\<rparr>])
      else (offset, recs))"
  by pat_completeness auto
termination
  by (relation "measure (\<lambda>(bytes, offset, recs). length bytes - offset)") (auto simp: kWalHeaderSize_def)

declare replayLoop.simps [simp del]

section \<open>Operations\<close>

definition wal_close :: "WriteAheadLog \<Rightarrow> WriteAheadLog" where
  "wal_close W = W\<lparr>wl_isOpen := False\<rparr>"

definition wal_replay :: "SysCalls \<Rightarrow> WriteAheadLog \<Rightarrow> (bool \<times> WriteAheadLog) option" where
  "wal_replay sys W =
     (let (ok, f0) = os_lseek sys 0 (wl_file W) in
      if \<not> ok then Some (False, W\<lparr>wl_file := f0\<rparr>)
      else do {
        (content, f1) \<leftarrow> readAll sys f0;
        (case content of
           None \<Rightarrow> Some (False, W\<lparr>wl_file := f1\<rparr>)
         | Some bytes \<Rightarrow>
             let (offset, recs) = replayLoop bytes 0 (wl_records W);
                 W1 = wal_count (\<lambda>s. s\<lparr>ws_recordsReplayed := ws_recordsReplayed s + of_nat (length recs - length (wl_records W))\<rparr>)
                        (W\<lparr>wl_file := f1, wl_records := recs\<rparr>);
                 (cut, W2) =
                   (if offset < length bytes then
                      let W' = wal_count (\<lambda>s. s\<lparr>ws_tailWasTorn := True, ws_truncatedTailBytes := of_nat (length bytes - offset)\<rparr>) W1;
                          (ok, f2) = os_ftruncate sys offset (wl_file W')
                      in (ok, W'\<lparr>wl_file := f2\<rparr>)
                    else (True, W1))
             in if \<not> cut then Some (False, W2)
                else
                  let W3 = W2\<lparr>wl_bytesOnDisk := of_nat offset\<rparr>;
                      (ok, f3) = os_lseek sys offset (wl_file W3)
                  in Some (ok, W3\<lparr>wl_file := f3\<rparr>))
      })"

text \<open>\<open>found\<close> is the content of the file at the path, empty when \<open>O_CREAT\<close> creates it.\<close>

definition wal_open :: "SysCalls \<Rightarrow> Buffer \<Rightarrow> SyncPolicy \<Rightarrow> WriteAheadLog \<Rightarrow> (bool \<times> WriteAheadLog) option" where
  "wal_open sys found policy W =
     (let W1 = (wal_close W)\<lparr>wl_policy := policy, wl_records := [], wl_stats := zero_wal_stats, wl_sinceSync := 0\<rparr>;
          f = \<lparr>of_bytes = found, of_pos = 0, of_calls = of_calls (wl_file W1) + 1\<rparr>
      in if \<not> sc_ok sys (of_calls (wl_file W1)) then Some (False, W1\<lparr>wl_file := next_call (wl_file W1)\<rparr>)
         else wal_replay sys (W1\<lparr>wl_isOpen := True, wl_file := f\<rparr>))"

definition wal_sync :: "SysCalls \<Rightarrow> WriteAheadLog \<Rightarrow> bool \<times> WriteAheadLog" where
  "wal_sync sys W =
     (if \<not> wl_isOpen W then (True, W)
      else if wl_policy W = Never then (True, W\<lparr>wl_sinceSync := 0\<rparr>)
      else
        let (ok, f) = os_fdatasync sys (wl_file W) in
        if \<not> ok then (False, W\<lparr>wl_file := f\<rparr>)
        else (True, wal_count (\<lambda>s. s\<lparr>ws_fsyncs := ws_fsyncs s + 1\<rparr>) (W\<lparr>wl_file := f, wl_sinceSync := 0\<rparr>)))"

definition wal_append :: "SysCalls \<Rightarrow> u32 \<Rightarrow> Buffer \<Rightarrow> WriteAheadLog \<Rightarrow> (bool \<times> WriteAheadLog) option" where
  "wal_append sys seq data W =
     (if \<not> wl_isOpen W then Some (False, W)
      else if unat kMaxRecordSize < length data then Some (False, W)
      else
        let frame = putU32 kWalMagic @ putU32 seq @ putU32 (of_nat (length data)) @ putU32 (crc32 data) @ data
        in do {
          (ok, f) \<leftarrow> writeAll sys frame 0 (wl_file W);
          Some (if \<not> ok then (False, W\<lparr>wl_file := f\<rparr>)
                else
                  let W1 = wal_count (\<lambda>s. s\<lparr>ws_bytesWritten := ws_bytesWritten s + of_nat (length frame), ws_appends := ws_appends s + 1\<rparr>)
                             (W\<lparr>wl_file := f, wl_bytesOnDisk := wl_bytesOnDisk W + of_nat (length frame),
                                wl_sinceSync := wl_sinceSync W + 1,
                                wl_records := wl_records W @ [\<lparr>wr_seq = seq, wr_payload = data\<rparr>]\<rparr>)
                  in if wl_policy W1 = EveryWrite then wal_sync sys W1
                     else if wl_policy W1 = Batched \<and> wl_batchSize W1 \<le> wl_sinceSync W1 then wal_sync sys W1
                     else (True, W1))
        })"

definition wal_reset :: "SysCalls \<Rightarrow> WriteAheadLog \<Rightarrow> bool \<times> WriteAheadLog" where
  "wal_reset sys W =
     (if \<not> wl_isOpen W then (False, W)
      else
        let (cut, f1) = os_ftruncate sys 0 (wl_file W) in
        if \<not> cut then (False, W\<lparr>wl_file := f1\<rparr>)
        else
          let (ok, f2) = os_lseek sys 0 f1 in
          if \<not> ok then (False, W\<lparr>wl_file := f2\<rparr>)
          else wal_sync sys (W\<lparr>wl_file := f2, wl_records := [], wl_bytesOnDisk := 0, wl_sinceSync := 0\<rparr>))"

fun wal_appendAll :: "SysCalls \<Rightarrow> WalRecord list \<Rightarrow> WriteAheadLog \<Rightarrow> (bool \<times> WriteAheadLog) option" where
  "wal_appendAll sys [] W = Some (True, W)"
| "wal_appendAll sys (r # rs) W = do {
     (ok, W1) \<leftarrow> wal_append sys (wr_seq r) (wr_payload r) W;
     if \<not> ok then Some (False, W1) else wal_appendAll sys rs W1
   }"

definition wal_truncateThrough :: "SysCalls \<Rightarrow> u32 \<Rightarrow> WriteAheadLog \<Rightarrow> (bool \<times> WriteAheadLog) option" where
  "wal_truncateThrough sys seq W =
     (if \<not> wl_isOpen W then Some (False, W)
      else
        let keep = filter (\<lambda>r. seq < wr_seq r) (wl_records W);
            (ok, W1) = wal_reset sys W
        in if \<not> ok then Some (False, W1)
           else do {
             (ok, W2) \<leftarrow> wal_appendAll sys keep W1;
             Some (if \<not> ok then (False, W2) else wal_sync sys W2)
           })"

end
