(* ===== verification/Wal_Scan.thy ===== *)
theory Wal_Scan
  imports Wal
begin

text \<open>
  What scanning, opening and appending do to the file. \<open>wal_scan\<close> reads records off a byte string and is
  what the scanning loop of \<open>replay\<close> computes; with \<open>wal_frame\<close> it satisfies \<open>record_stream\<close>. The invariant
  \<open>wal_ok\<close> says that the file holds exactly the records mirrored in memory and the offset is at its end.
\<close>

section \<open>Scanning\<close>

definition wal_step :: "Buffer \<Rightarrow> (WalRecord \<times> Buffer) option" where
  "wal_step bs =
     (if 16 \<le> length bs \<and> getU32 bs = kWalMagic \<and> getU32 (drop 8 bs) \<le> kMaxRecordSize \<and>
         16 + unat (getU32 (drop 8 bs)) \<le> length bs \<and>
         crc32 (take (unat (getU32 (drop 8 bs))) (drop 16 bs)) = getU32 (drop 12 bs)
      then Some (\<lparr>wr_seq = getU32 (drop 4 bs), wr_payload = take (unat (getU32 (drop 8 bs))) (drop 16 bs)\<rparr>,
                 drop (16 + unat (getU32 (drop 8 bs))) bs)
      else None)"

lemma wal_step_shrinks: "wal_step bs = Some (r, rem) \<Longrightarrow> length rem < length bs"
  by (auto simp: wal_step_def split: if_splits)

function wal_scan :: "Buffer \<Rightarrow> WalRecord list \<times> Buffer" where
  "wal_scan bs = (case wal_step bs of None \<Rightarrow> ([], bs)
     | Some (r, rem) \<Rightarrow> (case wal_scan rem of (rs, r') \<Rightarrow> (r # rs, r')))"
  by pat_completeness auto
termination
  by (relation "measure length") (auto simp: wal_step_shrinks)

declare wal_scan.simps [simp del]

definition wal_good :: "WalRecord \<Rightarrow> bool" where
  "wal_good r \<longleftrightarrow> length (wr_payload r) \<le> unat kMaxRecordSize"

lemma getU32_putU32 [simp]: "getU32 (putU32 v @ bs) = v"
  using le_value_le_bytes [of 4 v] by (simp add: getU32_def putU32_def)

lemma length_putU32 [simp]: "length (putU32 v) = 4"
  by (simp add: putU32_def)

lemma getU32_append: "4 \<le> length bs \<Longrightarrow> getU32 (bs @ ys) = getU32 bs"
  by (simp add: getU32_def)

lemma kMaxRecordSize_eq: "unat kMaxRecordSize = 8388608" "kMaxRecordSize = 8388608"
  by (simp_all add: kMaxRecordSize_def)

lemma payload_length: "wal_good r \<Longrightarrow> unat (of_nat (length (wr_payload r)) :: u32) = length (wr_payload r)"
  by (simp add: wal_good_def kMaxRecordSize_eq unat_of_nat)

lemma drop_putU32:
  "drop 4 (putU32 a @ bs) = bs" "drop 8 (putU32 a @ putU32 b @ bs) = bs"
  "drop 12 (putU32 a @ putU32 b @ putU32 c @ bs) = bs" "drop 16 (putU32 a @ putU32 b @ putU32 c @ putU32 d @ bs) = bs"
  by simp_all

lemma wal_step_frame:
  assumes "wal_good r"
  shows "wal_step (wal_frame r @ ys) = Some (r, ys)"
proof -
  let ?len = "length (wr_payload r)"
  define bs where "bs = wal_frame r @ ys"
  have bs: "bs = putU32 kWalMagic @ putU32 (wr_seq r) @ putU32 (of_nat ?len) @ putU32 (crc32 (wr_payload r)) @ wr_payload r @ ys"
    by (simp add: wal_frame_def bs_def)
  have f: "getU32 bs = kWalMagic" "getU32 (drop 4 bs) = wr_seq r" "getU32 (drop 8 bs) = of_nat ?len"
    "getU32 (drop 12 bs) = crc32 (wr_payload r)" "drop 16 bs = wr_payload r @ ys"
    by (simp_all only: bs drop_putU32 getU32_putU32)
  have len: "unat (of_nat ?len :: u32) = ?len" using assms by (rule payload_length)
  have "(of_nat ?len :: u32) \<le> kMaxRecordSize" using assms len by (simp add: word_le_nat_alt wal_good_def)
  moreover have "length bs = 16 + ?len + length ys" by (simp add: bs)
  moreover have "drop (16 + ?len) bs = ys"
    using f(5) by (simp only: add.commute [of 16] drop_drop [symmetric] drop_length_append)
  ultimately show ?thesis unfolding bs_def [symmetric] by (simp add: wal_step_def f len)
qed

lemma wal_step_take:
  assumes "wal_good r" and "n < length (wal_frame r)"
  shows "wal_step (take n (wal_frame r)) = None"
proof (cases "16 \<le> n")
  case True
  let ?len = "length (wr_payload r)"
  have "take n (wal_frame r) = putU32 kWalMagic @ putU32 (wr_seq r) @ putU32 (of_nat ?len) @ putU32 (crc32 (wr_payload r)) @ take (n - 16) (wr_payload r)"
    using True by (simp add: wal_frame_def)
  then have "getU32 (drop 8 (take n (wal_frame r))) = of_nat ?len" by (simp only: drop_putU32 getU32_putU32)
  moreover have "n < 16 + ?len" using assms(2) by (simp add: wal_frame_def)
  ultimately show ?thesis using payload_length [OF assms(1)] by (simp add: wal_step_def)
qed (simp add: wal_step_def)

lemma wal_step_append:
  assumes "wal_step bs = Some (r, rem)"
  shows "wal_step (bs @ ys) = Some (r, rem @ ys)"
proof -
  have len: "16 \<le> length bs" "16 + unat (getU32 (drop 8 bs)) \<le> length bs" using assms by (auto simp: wal_step_def split: if_splits)
  then have "getU32 (bs @ ys) = getU32 bs" "getU32 (drop 4 (bs @ ys)) = getU32 (drop 4 bs)" "getU32 (drop 8 (bs @ ys)) = getU32 (drop 8 bs)"
    "getU32 (drop 12 (bs @ ys)) = getU32 (drop 12 bs)" by (simp_all add: getU32_append)
  with assms len show ?thesis by (auto simp: wal_step_def split: if_splits)
qed

interpretation wal: record_stream wal_step wal_scan wal_frame wal_good
  by unfold_locales
    (simp_all only: wal_step_shrinks wal_step_append wal_step_frame wal_step_take wal_scan.simps [symmetric])

text \<open>A record recognised at the front of a byte string is there byte for byte.\<close>

lemma getU32_bytes: "4 \<le> length bs \<Longrightarrow> putU32 (getU32 bs) = take 4 bs"
  using le_bytes_le_value [where 'a = 32, of 4 "take 4 bs"] by (simp add: getU32_def putU32_def)

lemma replayLoop_scan:
  assumes "offset \<le> length bytes"
  shows "replayLoop bytes offset recs =
    (length bytes - length (snd (wal_scan (drop offset bytes))), recs @ fst (wal_scan (drop offset bytes)))"
  using assms
proof (induction bytes offset recs rule: replayLoop.induct)
  case (1 bytes offset recs)
  let ?bs = "drop offset bytes" and ?len = "unat (getU32 (drop 8 (drop offset bytes)))"
  have dp: "drop (offset + 16) bytes = drop 16 ?bs" "drop (offset + 16 + ?len) bytes = drop (16 + ?len) ?bs"
    by (simp_all add: ac_simps)
  show ?case
  proof (cases "wal_step ?bs")
    case None
    then have "replayLoop bytes offset recs = (offset, recs)"
      using "1.prems" by (subst replayLoop.simps) (auto simp: wal_step_def kWalHeaderSize_def Let_def dp(1) not_less split: if_splits)
    with None "1.prems" show ?thesis by (simp add: wal_scan.simps)
  next
    case (Some p)
    obtain r rem where p: "p = (r, rem)" by fastforce
    have c: "16 \<le> length ?bs" "getU32 ?bs = kWalMagic" "getU32 (drop 8 ?bs) \<le> kMaxRecordSize" "16 + ?len \<le> length ?bs"
      "crc32 (take ?len (drop 16 ?bs)) = getU32 (drop 12 ?bs)" "rem = drop (16 + ?len) ?bs"
      "r = \<lparr>wr_seq = getU32 (drop 4 ?bs), wr_payload = take ?len (drop 16 ?bs)\<rparr>"
      using Some p by (auto simp: wal_step_def split: if_splits)
    have le: "offset + kWalHeaderSize \<le> length bytes" "\<not> length bytes < offset + kWalHeaderSize + ?len"
      "\<not> (getU32 ?bs \<noteq> kWalMagic \<or> kMaxRecordSize < getU32 (drop 8 ?bs))"
      "\<not> crc32 (take ?len (drop (offset + kWalHeaderSize) bytes)) \<noteq> getU32 (drop 12 ?bs)"
      using c(1-5) "1.prems" dp(1) by (auto simp: kWalHeaderSize_def not_less simp del: drop_drop)
    have run: "replayLoop bytes offset recs = replayLoop bytes (offset + 16 + ?len) (recs @ [r])"
      by (subst replayLoop.simps) (simp only: Let_def kWalHeaderSize_def dp(1) le [unfolded kWalHeaderSize_def dp(1)] if_True if_False c(7))
    have "replayLoop bytes (offset + 16 + ?len) (recs @ [r]) =
        (length bytes - length (snd (wal_scan rem)), (recs @ [r]) @ fst (wal_scan rem))"
      using "1.IH" [OF le(1) refl refl refl refl refl le(3,2) refl le(4)] le(2)
      unfolding kWalHeaderSize_def dp c(6) [symmetric] c(7) [symmetric] by simp
    with run show ?thesis by (simp add: wal_scan.simps [of ?bs] Some p split_beta)
  qed
qed

section \<open>The operations\<close>

lemma live_ok [simp]: "live sys \<Longrightarrow> sc_ok sys n"
  by (simp add: live_def)

text \<open>The file holds the encodings of the mirrored records and nothing else.\<close>

definition wal_ok :: "WriteAheadLog \<Rightarrow> bool" where
  "wal_ok W \<longleftrightarrow> wl_isOpen W \<and> file_end (wl_file W) \<and> of_bytes (wl_file W) = concat (map wal_frame (wl_records W)) \<and>
     (\<forall>r\<in>set (wl_records W). wal_good r)"

lemma wal_count_frame [simp]:
  "wl_isOpen (wal_count f W) = wl_isOpen W" "wl_file (wal_count f W) = wl_file W" "wl_records (wal_count f W) = wl_records W"
  "wl_policy (wal_count f W) = wl_policy W"
  by (simp_all add: wal_count_def)

lemma wal_sync_live:
  assumes "live sys" and "wal_sync sys W = (ok, W')"
  shows "ok" and "wl_records W' = wl_records W" and "of_bytes (wl_file W') = of_bytes (wl_file W)" and "wal_ok W \<Longrightarrow> wal_ok W'"
    and "wl_policy W' = wl_policy W" and "wl_isOpen W' = wl_isOpen W" and "file_end (wl_file W') = file_end (wl_file W)"
  using assms by (auto simp: wal_sync_def os_fdatasync_def wal_ok_def split: if_splits)

lemma wal_replay_live:
  assumes "live sys" and "wl_isOpen W" and "wl_records W = []" and "wal_scan (of_bytes (wl_file W)) = (rs, tail)"
  obtains W' where "wal_replay sys W = Some (True, W')" and "wl_records W' = rs" and "wl_isOpen W'" and "file_end (wl_file W')"
    and "of_bytes (wl_file W') = take (length (of_bytes (wl_file W)) - length tail) (of_bytes (wl_file W))"
    and "wl_policy W' = wl_policy W" and "ws_tailWasTorn (wl_stats W') \<longleftrightarrow> ws_tailWasTorn (wl_stats W) \<or> tail \<noteq> []"
proof -
  let ?bs = "of_bytes (wl_file W)" and ?f0 = "(next_call (wl_file W))\<lparr>of_pos := 0\<rparr>"
  obtain f1 where f1: "readAll sys ?f0 = Some (Some (drop (of_pos ?f0) (of_bytes ?f0)), f1)" "of_bytes f1 = of_bytes ?f0" "file_end f1"
    by (rule readAll_from [OF assms(1), of ?f0]) simp
  have loop: "replayLoop ?bs 0 [] = (length ?bs - length tail, rs)" using replayLoop_scan [of 0 ?bs "[]"] assms(4) by simp
  have sz: "length tail \<le> length ?bs"
  proof -
    have "length (snd (wal_scan bs)) \<le> length bs" for bs
      by (induction bs rule: wal_scan.induct)
        (use wal_step_shrinks in \<open>subst wal_scan.simps, fastforce split: option.splits prod.splits\<close>)
    from this [of ?bs] show ?thesis using assms(4) by simp
  qed
  show thesis
  proof (cases "tail = []")
    case True
    with f1 loop assms show thesis
      by (intro that [of "snd (the (wal_replay sys W))"]) (simp_all add: wal_replay_def os_lseek_def Let_def file_end_def wal_count_def)
  next
    case False
    then have "length ?bs - length tail < length ?bs" using sz by (cases tail) simp_all
    with False f1 loop assms show thesis
      by (intro that [of "snd (the (wal_replay sys W))"])
        (simp_all add: wal_replay_def os_lseek_def os_ftruncate_def Let_def file_end_def wal_count_def)
  qed
qed

lemma wal_open_live:
  assumes "live sys" and "wal_scan found = (rs, tail)"
  obtains W' where "wal_open sys found policy W = Some (True, W')" and "wl_records W' = rs" and "wl_isOpen W'" and "file_end (wl_file W')"
    and "of_bytes (wl_file W') = take (length found - length tail) found" and "wl_policy W' = policy"
    and "ws_tailWasTorn (wl_stats W') \<longleftrightarrow> tail \<noteq> []"
proof -
  let ?W = "(wal_close W)\<lparr>wl_policy := policy, wl_records := [], wl_stats := zero_wal_stats, wl_sinceSync := 0, wl_isOpen := True,
      wl_file := \<lparr>of_bytes = found, of_pos = 0, of_calls = of_calls (wl_file W) + 1\<rparr>\<rparr>"
  have run: "wal_open sys found policy W = wal_replay sys ?W"
    using assms(1) by (simp add: wal_open_def Let_def wal_close_def)
  show thesis
    by (rule wal_replay_live [OF assms(1), of ?W rs tail]) (use assms that run in \<open>simp_all add: zero_wal_stats_def\<close>)
qed

lemma scan_frames_exact: "\<forall>r\<in>set rs. wal_good r \<Longrightarrow> wal_scan (concat (map wal_frame rs)) = (rs, [])"
  using wal.scan_encoded [of rs "[]"] by (simp add: wal_scan.simps [of "[]"] wal_step_def)

text \<open>Opening a log that was cut at any byte.\<close>

lemma wal_open_cut:
  assumes "live sys" and "\<forall>r\<in>set rs. wal_good r" and "n \<le> length (concat (map wal_frame rs))"
  obtains k W' where "wal_open sys (take n (concat (map wal_frame rs))) policy W = Some (True, W')" and "wl_records W' = take k rs"
    and "wal_ok W'" and "k \<le> length rs" and "length (concat (map wal_frame (take k rs))) \<le> n"
    and "k < length rs \<longrightarrow> n < length (concat (map wal_frame (take (Suc k) rs)))"
    and "ws_tailWasTorn (wl_stats W') \<longleftrightarrow> length (concat (map wal_frame (take k rs))) < n"
proof -
  let ?F = "concat (map wal_frame rs)"
  obtain k where k: "wal_scan (take n ?F) = (take k rs, take (n - length (concat (map wal_frame (take k rs)))) (concat (map wal_frame (drop k rs))))"
    "k \<le> length rs" "length (concat (map wal_frame (take k rs))) \<le> n" "k < length rs \<longrightarrow> n < length (concat (map wal_frame (take (Suc k) rs)))"
    using assms(2,3) by (rule wal.scan_torn) blast
  let ?p = "concat (map wal_frame (take k rs))" and ?q = "concat (map wal_frame (drop k rs))"
  have F: "?F = ?p @ ?q" by (metis append_take_drop_id concat_append map_append)
  have tail: "length (take (n - length ?p) ?q) = n - length ?p" using assms(3) F by simp
  then have cut: "take (length (take n ?F) - length (take (n - length ?p) ?q)) (take n ?F) = ?p"
    using assms(3) k(3) F by (simp add: min_def)
  have torn: "take (n - length ?p) ?q \<noteq> [] \<longleftrightarrow> length ?p < n" using tail by (metis length_0_conv zero_less_diff neq0_conv)
  obtain W' where W': "wal_open sys (take n ?F) policy W = Some (True, W')" "wl_records W' = take k rs" "wl_isOpen W'" "file_end (wl_file W')"
    "of_bytes (wl_file W') = take (length (take n ?F) - length (take (n - length ?p) ?q)) (take n ?F)"
    "ws_tailWasTorn (wl_stats W') \<longleftrightarrow> take (n - length ?p) ?q \<noteq> []"
    by (rule wal_open_live [OF assms(1) k(1), of policy W]) blast
  have "wal_ok W'" using W' cut assms(2) by (auto simp: wal_ok_def dest: in_set_takeD)
  with W' k torn that show thesis by blast
qed

text \<open>An append writes the record's frame at the end of the file, whatever the file holds.\<close>

lemma wal_append_file:
  assumes "live sys" and "wl_isOpen W" and "file_end (wl_file W)" and "length data \<le> unat kMaxRecordSize"
  obtains W' where "wal_append sys seq data W = Some (True, W')" and "wl_isOpen W'" and "file_end (wl_file W')"
    and "of_bytes (wl_file W') = of_bytes (wl_file W) @ wal_frame \<lparr>wr_seq = seq, wr_payload = data\<rparr>"
    and "wl_records W' = wl_records W @ [\<lparr>wr_seq = seq, wr_payload = data\<rparr>]" and "wl_policy W' = wl_policy W"
proof -
  let ?r = "\<lparr>wr_seq = seq, wr_payload = data\<rparr>"
  have frame: "wal_frame ?r = putU32 kWalMagic @ putU32 seq @ putU32 (of_nat (length data)) @ putU32 (crc32 data) @ data"
    by (simp add: wal_frame_def)
  obtain f where f: "writeAll sys (wal_frame ?r) 0 (wl_file W) = Some (True, f)"
    "of_bytes f = of_bytes (wl_file W) @ drop 0 (wal_frame ?r)" "file_end f"
    by (rule writeAll_end [OF assms(1,3), where written = 0 and data = "wal_frame ?r"]) auto
  define W1 where "W1 = wal_count (\<lambda>s. s\<lparr>ws_bytesWritten := ws_bytesWritten s + of_nat (length (wal_frame ?r)), ws_appends := ws_appends s + 1\<rparr>)
      (W\<lparr>wl_file := f, wl_bytesOnDisk := wl_bytesOnDisk W + of_nat (length (wal_frame ?r)),
         wl_sinceSync := wl_sinceSync W + 1, wl_records := wl_records W @ [?r]\<rparr>)"
  have W1: "wl_isOpen W1" "wl_file W1 = f" "wl_records W1 = wl_records W @ [?r]" "wl_policy W1 = wl_policy W"
    using assms(2) by (simp_all add: W1_def)
  obtain ok W2 where s: "wal_sync sys W1 = (ok, W2)" by fastforce
  note sy = wal_sync_live [OF assms(1) s]
  have "wal_append sys seq data W = Some (True, if wl_policy W1 = EveryWrite \<or> wl_policy W1 = Batched \<and> wl_batchSize W1 \<le> wl_sinceSync W1 then W2 else W1)"
  proof -
    have g: "(\<not> wl_isOpen W) = False" "(unat kMaxRecordSize < length data) = False" using assms(2,4) by simp_all
    show ?thesis
      by (simp only: wal_append_def g if_False Let_def frame [symmetric] f(1) Option.bind.bind_lunit prod.case not_True_eq_False
          W1_def [symmetric] s) (simp add: sy(1))
  qed
  then show thesis using that [of W1] that [of W2] W1 sy f by (simp split: if_splits)
qed

lemma wal_append_live:
  assumes "live sys" and "wal_ok W" and "length data \<le> unat kMaxRecordSize"
  obtains W' where "wal_append sys seq data W = Some (True, W')" and "wal_ok W'"
    and "wl_records W' = wl_records W @ [\<lparr>wr_seq = seq, wr_payload = data\<rparr>]" and "wl_policy W' = wl_policy W"
proof -
  have pre: "wl_isOpen W" "file_end (wl_file W)" using assms(2) by (simp_all add: wal_ok_def)
  show thesis
    by (rule wal_append_file [OF assms(1) pre assms(3), of seq]) (use that assms(2,3) in \<open>auto simp: wal_ok_def wal_good_def\<close>)
qed

lemma wal_appendAll_live:
  assumes "live sys" and "wal_ok W" and "\<forall>r\<in>set rs. wal_good r"
  obtains W' where "wal_appendAll sys rs W = Some (True, W')" and "wal_ok W'" and "wl_records W' = wl_records W @ rs"
    and "wl_policy W' = wl_policy W"
proof -
  have "\<exists>W'. wal_appendAll sys rs W = Some (True, W') \<and> wal_ok W' \<and> wl_records W' = wl_records W @ rs \<and> wl_policy W' = wl_policy W"
    using assms(2,3)
  proof (induction rs arbitrary: W)
    case (Cons r rs)
    obtain W1 where W1: "wal_append sys (wr_seq r) (wr_payload r) W = Some (True, W1)" "wal_ok W1"
      "wl_records W1 = wl_records W @ [\<lparr>wr_seq = wr_seq r, wr_payload = wr_payload r\<rparr>]" "wl_policy W1 = wl_policy W"
      by (rule wal_append_live [OF assms(1) Cons.prems(1)]) (use Cons.prems(2) in \<open>auto simp: wal_good_def\<close>)
    from Cons.IH [OF W1(2)] Cons.prems(2) W1 show ?case by auto
  qed simp
  with that show thesis by blast
qed

lemma wal_reset_live:
  assumes "live sys" and "wal_ok W"
  obtains W' where "wal_reset sys W = (True, W')" and "wal_ok W'" and "wl_records W' = []"
proof -
  let ?f = "(next_call ((next_call (wl_file W))\<lparr>of_bytes := []\<rparr>))\<lparr>of_pos := 0\<rparr>"
  let ?W0 = "W\<lparr>wl_file := ?f, wl_records := [], wl_bytesOnDisk := 0, wl_sinceSync := 0\<rparr>"
  obtain ok W1 where r: "wal_sync sys ?W0 = (ok, W1)" by fastforce
  have "wal_reset sys W = (ok, W1)"
    using assms r by (simp add: wal_reset_def wal_ok_def os_ftruncate_def os_lseek_def Let_def)
  moreover have "wal_ok ?W0" using assms(2) by (simp add: wal_ok_def file_end_def)
  ultimately show thesis using that wal_sync_live [OF assms(1) r] by simp
qed

lemma wal_truncateThrough_live:
  assumes "live sys" and "wal_ok W"
  obtains W' where "wal_truncateThrough sys seq W = Some (True, W')" and "wal_ok W'"
    and "wl_records W' = filter (\<lambda>r. seq < wr_seq r) (wl_records W)"
proof -
  let ?keep = "filter (\<lambda>r. seq < wr_seq r) (wl_records W)"
  obtain W1 where W1: "wal_reset sys W = (True, W1)" "wal_ok W1" "wl_records W1 = []"
    using assms by (rule wal_reset_live)
  have good: "\<forall>r\<in>set ?keep. wal_good r" using assms(2) by (simp add: wal_ok_def)
  obtain W2 where W2: "wal_appendAll sys ?keep W1 = Some (True, W2)" "wal_ok W2" "wl_records W2 = wl_records W1 @ ?keep"
    by (rule wal_appendAll_live [OF assms(1) W1(2) good])
  obtain ok3 W3 where s: "wal_sync sys W2 = (ok3, W3)" by fastforce
  note sy = wal_sync_live [OF assms(1) s]
  have "wal_truncateThrough sys seq W = Some (True, W3)"
    using assms(2) W1(1) W2(1) s sy(1) by (simp add: wal_truncateThrough_def wal_ok_def)
  then show thesis using that sy W2 W1(3) by simp
qed

section \<open>Sealed buffers\<close>

text \<open>The small files end in the CRC of what is before it. No single changed byte goes unnoticed, whether it
  is in the body or in the CRC.\<close>

lemma crc32_update:
  assumes "i < length bs" and "b \<noteq> bs ! i"
  shows "crc32 (bs[i := b]) \<noteq> crc32 bs"
proof -
  have "crc32 (take i bs @ b # drop (Suc i) bs) \<noteq> crc32 (take i bs @ bs ! i # drop (Suc i) bs)"
    using assms(2) by (rule crc32_one_byte)
  then show ?thesis unfolding upd_conv_take_nth_drop [OF assms(1)] id_take_nth_drop [OF assms(1), symmetric] .
qed

lemma getU32_inj: "length bs = 4 \<Longrightarrow> length bs' = 4 \<Longrightarrow> getU32 bs = getU32 bs' \<Longrightarrow> bs = bs'"
  by (metis getU32_bytes order_refl take_all)

lemma sealed_damaged:
  assumes "i < length data + 4" and "b \<noteq> (data @ putU32 (crc32 data)) ! i" and "bs = (data @ putU32 (crc32 data))[i := b]"
  shows "crc32 (take (length data) bs) \<noteq> getU32 (drop (length data) bs)"
proof (cases "i < length data")
  case True
  then have "take (length data) bs = data[i := b]" "drop (length data) bs = putU32 (crc32 data)"
    using assms(3) by (simp_all add: list_update_append)
  moreover have "getU32 (putU32 v) = v" for v using getU32_putU32 [of v "[]"] by simp
  ultimately show ?thesis using crc32_update [OF True, of b] assms(2) True by (simp add: nth_append)
next
  case False
  let ?j = "i - length data"
  have j: "?j < 4" using False assms(1) by linarith
  have bs: "take (length data) bs = data" "drop (length data) bs = (putU32 (crc32 data))[?j := b]"
    using False assms(3) by (simp_all add: list_update_append)
  have "(putU32 (crc32 data))[?j := b] \<noteq> putU32 (crc32 data)"
    using assms(2) False j by (metis length_putU32 nth_append nth_list_update_eq)
  then have "getU32 ((putU32 (crc32 data))[?j := b]) \<noteq> getU32 (putU32 (crc32 data))"
    using getU32_inj [of "(putU32 (crc32 data))[?j := b]" "putU32 (crc32 data)"] by auto
  then show ?thesis using bs getU32_putU32 [of "crc32 data" "[]"] by auto
qed

end
