(* ===== verification/Stable_Store.thy ===== *)
theory Stable_Store
  imports File_Replace Wal_Scan Message
begin

text \<open>
  The vote and term file (\<open>storage/stable_store.hpp\<close>, \<open>storage/stable_store.cpp\<close>): 20 bytes with a magic number
  and a CRC, replaced as a whole on every \<open>save\<close> and read back by \<open>open\<close>. The store keeps the file's slot in
  its state; the error texts are left out.
\<close>

section \<open>The code\<close>

definition kStableMagic :: u32 where "kStableMagic = 0x42545353"
definition kFileSize :: nat where "kFileSize = 20"

definition putU64 :: "u64 \<Rightarrow> Buffer" where
  "putU64 v = le_bytes 8 v"

definition getU64 :: "Buffer \<Rightarrow> u64" where
  "getU64 p = le_value (take 8 p)"

record StableState =
  ss_currentTerm :: u64
  ss_votedFor :: NodeId

definition new_stable_state :: StableState where
  "new_stable_state = \<lparr>ss_currentTerm = 0, ss_votedFor = 0\<rparr>"

record StableStoreStats =
  sx_writes :: u64
  sx_fsyncs :: u64
  sx_loadedExisting :: bool
  sx_recoveredFromCorruption :: bool

definition new_stable_stats :: StableStoreStats where
  "new_stable_stats = \<lparr>sx_writes = 0, sx_fsyncs = 0, sx_loadedExisting = False, sx_recoveredFromCorruption = False\<rparr>"

record StableStore =
  sb_slot :: Slot
  sb_state :: StableState
  sb_stats :: StableStoreStats

text \<open>The file buffer that \<open>save\<close> fills.\<close>

definition stable_file :: "StableState \<Rightarrow> Buffer" where
  "stable_file st =
     (let buf = putU32 kStableMagic @ putU64 (ss_currentTerm st) @ putU32 (ss_votedFor st)
      in buf @ putU32 (crc32 buf))"

text \<open>\<open>S\<close> is what is found at the path.\<close>

definition stable_open :: "SysCalls \<Rightarrow> Slot \<Rightarrow> (bool \<times> StableStore) option" where
  "stable_open sys S =
     (let B = \<lparr>sb_slot = slot_call S, sb_state = new_stable_state, sb_stats = new_stable_stats\<rparr> in
      case os_open sys S of
        NotFound \<Rightarrow> Some (True, B)
      | OpenFailed \<Rightarrow> Some (False, B)
      | Opened f0 \<Rightarrow> do {
          (content, f) \<leftarrow> readUpTo sys kFileSize f0;
          let B1 = B\<lparr>sb_slot := (sb_slot B)\<lparr>sl_calls := of_calls f\<rparr>\<rparr>;
          Some (case content of
              None \<Rightarrow> (False, B1)
            | Some buf \<Rightarrow>
                if length buf \<noteq> kFileSize \<or> getU32 buf \<noteq> kStableMagic \<or>
                   crc32 (take (kFileSize - 4) buf) \<noteq> getU32 (drop (kFileSize - 4) buf)
                then (True, B1\<lparr>sb_stats := (sb_stats B1)\<lparr>sx_recoveredFromCorruption := True\<rparr>, sb_state := new_stable_state\<rparr>)
                else (True, B1\<lparr>sb_state := \<lparr>ss_currentTerm = getU64 (drop 4 buf), ss_votedFor = getU32 (drop 12 buf)\<rparr>,
                               sb_stats := (sb_stats B1)\<lparr>sx_loadedExisting := True\<rparr>\<rparr>))
        })"

definition stable_save :: "SysCalls \<Rightarrow> StableState \<Rightarrow> StableStore \<Rightarrow> (bool \<times> StableStore) option" where
  "stable_save sys st B = do {
     (r, S) \<leftarrow> replaceFile sys (stable_file st) (sb_slot B);
     Some (case r of
         NotFlushed \<Rightarrow> (False, B\<lparr>sb_slot := S\<rparr>)
       | Flushed \<Rightarrow> (False, B\<lparr>sb_slot := S, sb_stats := (sb_stats B)\<lparr>sx_fsyncs := sx_fsyncs (sb_stats B) + 1\<rparr>\<rparr>)
       | Replaced \<Rightarrow> (True, B\<lparr>sb_slot := S, sb_state := st,
           sb_stats := (sb_stats B)\<lparr>sx_fsyncs := sx_fsyncs (sb_stats B) + 1 + 1, sx_writes := sx_writes (sb_stats B) + 1\<rparr>\<rparr>))
   }"

section \<open>Reading what was written\<close>

lemma length_stable_file [simp]: "length (stable_file st) = 20"
  by (simp add: stable_file_def putU64_def Let_def)

lemma getU64_putU64 [simp]: "getU64 (putU64 v @ bs) = v"
  using le_value_le_bytes [of 8 v] by (simp add: getU64_def putU64_def)

lemma drop_stable_file:
  "getU32 (stable_file st) = kStableMagic" "getU64 (drop 4 (stable_file st)) = ss_currentTerm st"
  "getU32 (drop 12 (stable_file st)) = ss_votedFor st"
  "getU32 (drop 16 (stable_file st)) = crc32 (take 16 (stable_file st))"
proof -
  have l: "length (putU64 v) = 8" for v by (simp add: putU64_def)
  show "getU32 (stable_file st) = kStableMagic" "getU64 (drop 4 (stable_file st)) = ss_currentTerm st"
    "getU32 (drop 12 (stable_file st)) = ss_votedFor st"
    by (simp_all add: stable_file_def Let_def l)
  have "getU32 (putU32 v) = v" for v using getU32_putU32 [of v "[]"] by simp
  then show "getU32 (drop 16 (stable_file st)) = crc32 (take 16 (stable_file st))"
    by (simp add: stable_file_def Let_def l)
qed

lemma stable_open_missing:
  assumes "live sys" and "sl_target S = None"
  shows "\<exists>B. stable_open sys S = Some (True, B) \<and> sb_state B = new_stable_state \<and> sl_target (sb_slot B) = None \<and>
    sb_stats B = new_stable_stats"
  using assms by (simp add: stable_open_def os_open_live slot_call_def Let_def)

lemma stable_open_content:
  assumes "live sys" and "sl_target S = Some bs"
  obtains B where "stable_open sys S = Some (True, B)" and "sl_target (sb_slot B) = Some bs"
    and "sb_state B = (if length (take 20 bs) = 20 \<and> getU32 bs = kStableMagic \<and> crc32 (take 16 bs) = getU32 (drop 16 bs)
      then \<lparr>ss_currentTerm = getU64 (drop 4 bs), ss_votedFor = getU32 (drop 12 bs)\<rparr> else new_stable_state)"
    and "sx_recoveredFromCorruption (sb_stats B) \<longleftrightarrow>
      \<not> (length (take 20 bs) = 20 \<and> getU32 bs = kStableMagic \<and> crc32 (take 16 bs) = getU32 (drop 16 bs))"
proof -
  let ?f = "\<lparr>of_bytes = bs, of_pos = 0, of_calls = sl_calls S + 1\<rparr> :: OsFile"
  obtain f where f: "readUpTo sys 20 ?f = Some (Some (take 20 (drop (of_pos ?f) (of_bytes ?f))), f)"
    by (rule readUpTo_from [OF assms(1), of ?f 20]) simp_all
  have g: "getU32 (take 20 bs) = getU32 bs" "getU32 (take 4 (drop 16 bs)) = getU32 (drop 16 bs)"
    "getU64 (take 16 (drop 4 bs)) = getU64 (drop 4 bs)" "getU32 (take 8 (drop 12 bs)) = getU32 (drop 12 bs)"
    by (simp_all add: getU32_def getU64_def min_def)
  show thesis
    by (rule that [of "snd (the (stable_open sys S))"])
      (use assms f in \<open>simp_all add: stable_open_def os_open_live slot_call_def Let_def kFileSize_def new_stable_stats_def drop_take g\<close>)
qed

lemma stable_open_saved:
  assumes "live sys" and "sl_target S = Some (stable_file st)"
  obtains B where "stable_open sys S = Some (True, B)" and "sl_target (sb_slot B) = Some (stable_file st)"
    and "sb_state B = st" and "\<not> sx_recoveredFromCorruption (sb_stats B)"
  by (rule stable_open_content [OF assms]) (use that in \<open>simp add: drop_stable_file\<close>)

end
