(* ===== verification/Snapshot_Codec.thy ===== *)
theory Snapshot_Codec
  imports Engine_Snapshot Message
begin

text \<open>
  The byte format of a snapshot (\<open>storage/snapshot.hpp\<close>, \<open>encodeSnapshot\<close> and \<open>decodeSnapshot\<close> of
  \<open>storage/snapshot.cpp\<close>) on the wire primitives. The top of the book and an order are written and read by
  composites that satisfy \<open>codec\<close>, so that a decoded snapshot is byte for byte the encoding of the result.
\<close>

section \<open>The code\<close>

definition kSnapMagic :: u32 where "kSnapMagic = 0x50414E53"
definition kSnapVersion :: u16 where "kSnapVersion = 1"
definition kMaxOrders :: u32 where "kMaxOrders = push_bit 20 50"

record SnapshotRecord =
  sr_lastIncludedSeq :: u64
  sr_lastIncludedTerm :: u64
  sr_stateChecksum :: u64
  sr_engine :: EngineSnapshot

definition encodeTop :: "TopOfBook \<Rightarrow> Buffer \<Rightarrow> Buffer" where
  "encodeTop t out =
     w_u64 (askQuantity t) (w_i64 (askPrice t) (w_u8 (bool_byte (hasAsk t))
       (w_u64 (bidQuantity t) (w_i64 (bidPrice t) (w_u8 (bool_byte (hasBid t)) out)))))"

definition encodeOrder :: "RestingOrder \<Rightarrow> Buffer \<Rightarrow> Buffer" where
  "encodeOrder x out =
     w_u64 (ro_arrival x) (w_u64 (ro_quantity x) (w_i64 (ro_price x) (w_u8 (side_code (ro_side x)) (w_u64 (ro_id x) out))))"

definition encodeSnapshot :: "SnapshotRecord \<Rightarrow> Buffer \<Rightarrow> Buffer" where
  "encodeSnapshot snap out =
     (let e = sr_engine snap in
      fold encodeOrder (sn_orders e) (w_u32 (of_nat (length (sn_orders e))) (encodeTop (sn_lastTop e)
        (w_u64 (sn_arrivalCounter e) (w_u64 (sn_eventSeq e) (w_u64 (sn_commandSeq e) (w_u32 (sn_instrument e)
          (w_u64 (sr_stateChecksum snap) (w_u64 (sr_lastIncludedTerm snap) (w_u64 (sr_lastIncludedSeq snap)
            (w_u16 kSnapVersion (w_u32 kSnapMagic out))))))))))))"

definition decodeTop :: "TopOfBook reader" where
  "decodeTop =
     rd_bind rd_u8 (\<lambda>hb. rd_bind rd_i64 (\<lambda>bp. rd_bind rd_u64 (\<lambda>bq. rd_bind rd_u8 (\<lambda>ha. rd_bind rd_i64 (\<lambda>ap. rd_bind rd_u64 (\<lambda>aq.
       if hb > 1 \<or> ha > 1 then rd_fail
       else rd_return \<lparr>hasBid = (hb = 1), bidPrice = bp, bidQuantity = bq, hasAsk = (ha = 1), askPrice = ap, askQuantity = aq\<rparr>))))))"

definition decodeOrder :: "RestingOrder reader" where
  "decodeOrder =
     rd_bind rd_u64 (\<lambda>i. rd_bind rd_u8 (\<lambda>side. rd_bind rd_i64 (\<lambda>p. rd_bind rd_u64 (\<lambda>q. rd_bind rd_u64 (\<lambda>a.
       if side > 1 then rd_fail
       else rd_return \<lparr>ro_id = i, ro_side = side_of_code side, ro_price = p, ro_quantity = q, ro_arrival = a\<rparr>)))))"

definition snapshotReader :: "SnapshotRecord reader" where
  "snapshotReader =
     rd_bind rd_u32 (\<lambda>magic. rd_bind rd_u16 (\<lambda>version.
       if magic \<noteq> kSnapMagic \<or> version \<noteq> kSnapVersion then rd_fail
       else rd_bind rd_u64 (\<lambda>s. rd_bind rd_u64 (\<lambda>t. rd_bind rd_u64 (\<lambda>ck.
         rd_bind rd_u32 (\<lambda>ins. rd_bind rd_u64 (\<lambda>cs. rd_bind rd_u64 (\<lambda>es. rd_bind rd_u64 (\<lambda>ac.
         rd_bind decodeTop (\<lambda>top. rd_bind rd_u32 (\<lambda>count.
           if count > kMaxOrders then rd_fail
           else rd_bind (rd_list (unat count) decodeOrder) (\<lambda>xs.
             rd_end \<lparr>sr_lastIncludedSeq = s, sr_lastIncludedTerm = t, sr_stateChecksum = ck,
               sr_engine = \<lparr>sn_instrument = ins, sn_commandSeq = cs, sn_eventSeq = es, sn_arrivalCounter = ac,
                 sn_lastTop = top, sn_orders = xs\<rparr>\<rparr>))))))))))))"

definition decodeSnapshot :: "Buffer \<Rightarrow> SnapshotRecord option" where
  "decodeSnapshot data = fst (snapshotReader (new_reader data))"

section \<open>Composite codecs\<close>

interpretation c_top: codec encodeTop decodeTop "\<lambda>_. True"
proof
  fix r r' :: WireReader and x :: TopOfBook
  obtain hb bp bq ha ap aq where x: "x = \<lparr>hasBid = hb, bidPrice = bp, bidQuantity = bq, hasAsk = ha, askPrice = ap, askQuantity = aq\<rparr>"
    by (cases x)
  have "reads r (encodeTop x []) r'" if "decodeTop r = (Some x, r')"
    using that by (simp add: x decodeTop_def encodeTop_def wire_simps, elim exE conjE, hypsubst)
      (simp add: bool_byte_eq, intro exI conjI, assumption+)
  moreover have "decodeTop r = (Some x, r')" if "reads r (encodeTop x []) r'"
    using that by (simp add: x decodeTop_def encodeTop_def wire_simps, elim exE conjE)
      (intro exI conjI, assumption+, simp_all)
  ultimately show "decodeTop r = (Some x, r') \<longleftrightarrow> True \<and> reads r (encodeTop x []) r'" by blast
qed (simp add: encodeTop_def w_u8_def w_i64_def w_u64_def)

interpretation c_order: codec encodeOrder decodeOrder "\<lambda>_. True"
proof
  fix r r' :: WireReader and x :: RestingOrder
  obtain i s p q a where x: "x = \<lparr>ro_id = i, ro_side = s, ro_price = p, ro_quantity = q, ro_arrival = a\<rparr>"
    by (cases x)
  have "reads r (encodeOrder x []) r'" if "decodeOrder r = (Some x, r')"
    using that by (simp add: x decodeOrder_def encodeOrder_def wire_simps, elim exE conjE, hypsubst)
      (simp add: code_of_code, intro exI conjI, assumption+)
  moreover have "decodeOrder r = (Some x, r')" if "reads r (encodeOrder x []) r'"
    using that by (simp add: x decodeOrder_def encodeOrder_def wire_simps, elim exE conjE)
      (intro exI conjI, assumption+, simp_all)
  ultimately show "decodeOrder r = (Some x, r') \<longleftrightarrow> True \<and> reads r (encodeOrder x []) r'" by blast
qed (simp add: encodeOrder_def w_u8_def w_i64_def w_u64_def)

section \<open>Decoding inverts encoding\<close>

definition snap_ok :: "SnapshotRecord \<Rightarrow> bool" where
  "snap_ok snap \<longleftrightarrow> length (sn_orders (sr_engine snap)) \<le> unat kMaxOrders"

lemma encodeTop_behind [wire_simps]: "out \<noteq> [] \<Longrightarrow> encodeTop x out = out @ encodeTop x []"
  by (rule c_top.appends)

lemma encodeTop_nonempty [simp]: "encodeTop x out \<noteq> []"
  by (simp add: encodeTop_def)

lemma counted_orders:
  "reads r (w_u32 n []) r1 \<and> \<not> kMaxOrders < n \<and> rd_list (unat n) decodeOrder r1 = (Some xs, r') \<longleftrightarrow>
   n = of_nat (length xs) \<and> length xs \<le> unat kMaxOrders \<and> reads r (w_u32 (of_nat (length xs)) []) r1 \<and>
     reads r1 (concat (map (\<lambda>x. encodeOrder x []) xs)) r'"
proof -
  have "unat (of_nat (length xs) :: u32) = length xs" if "length xs \<le> unat kMaxOrders"
    using that by (simp add: kMaxOrders_def unat_of_nat)
  then have "length xs = unat n \<and> \<not> kMaxOrders < n \<longleftrightarrow> n = of_nat (length xs) \<and> length xs \<le> unat kMaxOrders"
    by (auto simp: not_less word_le_nat_alt)
  then show ?thesis using c_order.rd_list_iff [of r "w_u32 n []" r1 "unat n" xs r'] by auto
qed

lemma snapshotReader_iff:
  "snapshotReader r = (Some snap, r') \<longleftrightarrow> snap_ok snap \<and> reads r (encodeSnapshot snap []) r' \<and> at_end r'"
proof -
  obtain s t ck ins cs es ac top xs where x: "snap = \<lparr>sr_lastIncludedSeq = s, sr_lastIncludedTerm = t, sr_stateChecksum = ck,
      sr_engine = \<lparr>sn_instrument = ins, sn_commandSeq = cs, sn_eventSeq = es, sn_arrivalCounter = ac, sn_lastTop = top, sn_orders = xs\<rparr>\<rparr>"
    by (metis (full_types) SnapshotRecord.cases EngineSnapshot.cases)
  have enc: "encodeSnapshot snap [] = w_u32 kSnapMagic [] @ w_u16 kSnapVersion [] @ w_u64 s [] @ w_u64 t [] @ w_u64 ck [] @ w_u32 ins [] @
      w_u64 cs [] @ w_u64 es [] @ w_u64 ac [] @ encodeTop top [] @ w_u32 (of_nat (length xs)) [] @ concat (map (\<lambda>x. encodeOrder x []) xs)"
    by (simp add: x encodeSnapshot_def fold_appends [of encodeOrder, OF c_order.appends] wire_simps)
  have "snapshotReader r = (Some snap, r') \<longleftrightarrow> (\<exists>r1. reads r (w_u32 kSnapMagic []) r1 \<and> (\<exists>r2. reads r1 (w_u16 kSnapVersion []) r2 \<and>
      (\<exists>r3. reads r2 (w_u64 s []) r3 \<and> (\<exists>r4. reads r3 (w_u64 t []) r4 \<and> (\<exists>r5. reads r4 (w_u64 ck []) r5 \<and>
      (\<exists>r6. reads r5 (w_u32 ins []) r6 \<and> (\<exists>r7. reads r6 (w_u64 cs []) r7 \<and> (\<exists>r8. reads r7 (w_u64 es []) r8 \<and>
      (\<exists>r9. reads r8 (w_u64 ac []) r9 \<and> (\<exists>r10. reads r9 (encodeTop top []) r10 \<and>
      (\<exists>n r11. (reads r10 (w_u32 n []) r11 \<and> \<not> kMaxOrders < n \<and> rd_list (unat n) decodeOrder r11 = (Some xs, r')) \<and> at_end r')))))))))))"
    by (simp add: x snapshotReader_def wire_simps c_top.rd_iff at_end_def, rule iffI; elim exE conjE; (hypsubst)?; intro exI conjI)
      (assumption | rule refl)+
  moreover have "snap_ok snap \<longleftrightarrow> length xs \<le> unat kMaxOrders" by (simp add: snap_ok_def x)
  ultimately show ?thesis unfolding counted_orders enc reads_append by blast
qed

lemma decodeSnapshot_iff: "decodeSnapshot data = Some snap \<longleftrightarrow> snap_ok snap \<and> data = encodeSnapshot snap []"
proof -
  have "decodeSnapshot data = Some snap \<longleftrightarrow> (\<exists>r'. snapshotReader (new_reader data) = (Some snap, r'))"
    by (cases "snapshotReader (new_reader data)") (auto simp: decodeSnapshot_def)
  also have "\<dots> \<longleftrightarrow> snap_ok snap \<and> (\<exists>r'. reads (new_reader data) (encodeSnapshot snap []) r' \<and> at_end r')"
    by (simp add: snapshotReader_iff)
  also have "\<dots> \<longleftrightarrow> snap_ok snap \<and> data = encodeSnapshot snap []"
    using reads_finished [of data "encodeSnapshot snap []"] unfolding at_end_def by blast
  finally show ?thesis .
qed

end
