(* ===== verification/Snapshot_File.thy ===== *)
theory Snapshot_File
  imports Snapshot_Codec File_Replace Wal_Scan
begin

text \<open>
  Writing and loading the snapshot file (\<open>writeSnapshotFile\<close>, \<open>readSnapshotFile\<close> of \<open>storage/snapshot.cpp\<close>). The
  file is the encoding and its CRC. Loading checks the CRC, decodes, restores the snapshot into a probe
  engine and compares the checksum of the result with the recorded one.
\<close>

section \<open>The code\<close>

datatype SnapError = CannotOpen | CannotRead | TooSmall | ChecksumMismatch | CannotDecode | CannotRestore | StateMismatch

definition snapshot_file :: "SnapshotRecord \<Rightarrow> Buffer" where
  "snapshot_file snap = (let body = encodeSnapshot snap [] in body @ putU32 (crc32 body))"

definition writeSnapshotFile :: "SysCalls \<Rightarrow> SnapshotRecord \<Rightarrow> Slot \<Rightarrow> (bool \<times> Slot) option" where
  "writeSnapshotFile sys snap S = map_option (\<lambda>(r, S'). (r = Replaced, S')) (replaceFile sys (snapshot_file snap) S)"

text \<open>What \<open>readSnapshotFile\<close> does with the bytes. The outer \<open>None\<close> would be a failed assertion of the probe.\<close>

definition loadSnapshot :: "Buffer \<Rightarrow> (SnapError + SnapshotRecord) option" where
  "loadSnapshot bytes =
     (if length bytes < 4 then Some (Inl TooSmall)
      else
        let bodySize = length bytes - 4 in
        if crc32 (take bodySize bytes) \<noteq> getU32 (drop bodySize bytes) then Some (Inl ChecksumMismatch)
        else case decodeSnapshot (take bodySize bytes) of
            None \<Rightarrow> Some (Inl CannotDecode)
          | Some snap \<Rightarrow> do {
              (ok, probe) \<leftarrow> restore (sr_engine snap) (new_engine (sn_instrument (sr_engine snap)));
              Some (if \<not> ok then Inl CannotRestore
                    else if stateChecksum probe \<noteq> sr_stateChecksum snap then Inl StateMismatch
                    else Inr snap)
            })"

text \<open>The result and, when it is empty, the error; a missing file is not an error.\<close>

definition readSnapshotFile :: "SysCalls \<Rightarrow> Slot \<Rightarrow> (SnapshotRecord option \<times> SnapError option \<times> Slot) option" where
  "readSnapshotFile sys S =
     (case os_open sys S of
        NotFound \<Rightarrow> Some (None, None, slot_call S)
      | OpenFailed \<Rightarrow> Some (None, Some CannotOpen, slot_call S)
      | Opened f0 \<Rightarrow> do {
          (content, f) \<leftarrow> readAll sys f0;
          let S1 = S\<lparr>sl_calls := of_calls f\<rparr>;
          case content of
            None \<Rightarrow> Some (None, Some CannotRead, S1)
          | Some bytes \<Rightarrow>
              map_option (\<lambda>res. case res of Inl err \<Rightarrow> (None, Some err, S1) | Inr snap \<Rightarrow> (Some snap, None, S1)) (loadSnapshot bytes)
        })"

section \<open>Loading what was written\<close>

text \<open>A record that is what it claims: taken of a well-formed engine that fits the format.\<close>

definition snapshot_of :: "MatchingEngine \<Rightarrow> u64 \<Rightarrow> u64 \<Rightarrow> SnapshotRecord" where
  "snapshot_of e seq term = \<lparr>sr_lastIncludedSeq = seq, sr_lastIncludedTerm = term, sr_stateChecksum = stateChecksum e, sr_engine = snapshot e\<rparr>"

definition fits :: "MatchingEngine \<Rightarrow> bool" where
  "fits e \<longleftrightarrow> length (sn_orders (snapshot e)) \<le> unat kMaxOrders"

lemma loadSnapshot_file:
  assumes "snap_ok snap"
  shows "loadSnapshot (snapshot_file snap) = do {
      (ok, probe) \<leftarrow> restore (sr_engine snap) (new_engine (sn_instrument (sr_engine snap)));
      Some (if \<not> ok then Inl CannotRestore else if stateChecksum probe \<noteq> sr_stateChecksum snap then Inl StateMismatch else Inr snap) }"
proof -
  let ?b = "encodeSnapshot snap []"
  have "getU32 (putU32 v) = v" for v using getU32_putU32 [of v "[]"] by simp
  moreover have "decodeSnapshot ?b = Some snap" using assms by (simp add: decodeSnapshot_iff)
  ultimately show ?thesis by (simp add: loadSnapshot_def snapshot_file_def Let_def)
qed

lemma loadSnapshot_of:
  assumes "wf_engine e" and "fits e"
  shows "loadSnapshot (snapshot_file (snapshot_of e seq term)) = Some (Inr (snapshot_of e seq term))"
proof -
  have ok: "snap_ok (snapshot_of e seq term)" using assms(2) by (simp add: snap_ok_def snapshot_of_def fits_def)
  have "me_instrument (new_engine (sn_instrument (snapshot e))) = me_instrument e" by (simp add: snapshot_def new_engine_def)
  from restore_snapshot [OF assms(1) this] show ?thesis
    unfolding loadSnapshot_file [OF ok] by (simp add: snapshot_of_def)
qed

text \<open>Loading always returns, whatever the bytes.\<close>

lemma loadSnapshot_total: "\<exists>res. loadSnapshot bytes = Some res"
proof -
  have total: "\<exists>ok e'. restore snap e = Some (ok, e')" for snap e
  proof (cases "\<exists>x\<in>set (sn_orders snap). ro_quantity x = 0 \<or> sint (ro_price x) \<le> 0")
    case False
    then have "\<forall>x\<in>set (sn_orders snap). 0 < ro_quantity x" by (auto simp: word_neq_0_conv)
    then obtain ok b where "restoreOrders (sn_orders snap) empty_book = Some (ok, b)"
      by (rule restoreOrders_total [OF wf_empty_book])
    with False show ?thesis by (cases "sn_instrument snap = me_instrument e") (simp_all add: restore_def, blast)
  qed (auto simp: restore_def)
  show ?thesis
  proof (cases "decodeSnapshot (take (length bytes - 4) bytes)")
    case (Some snap)
    then show ?thesis using total [of "sr_engine snap" "new_engine (sn_instrument (sr_engine snap))"]
      by (auto simp: loadSnapshot_def Let_def)
  qed (simp add: loadSnapshot_def Let_def)
qed

lemma readSnapshotFile_live:
  assumes "live sys"
  obtains S' where "readSnapshotFile sys S = Some (case sl_target S of None \<Rightarrow> (None, None, S')
      | Some bytes \<Rightarrow> (case the (loadSnapshot bytes) of Inl err \<Rightarrow> (None, Some err, S') | Inr snap \<Rightarrow> (Some snap, None, S')))"
    and "sl_target S' = sl_target S"
proof (cases "sl_target S")
  case None
  then show thesis using that [of "slot_call S"] assms by (simp add: readSnapshotFile_def os_open_live slot_call_def)
next
  case (Some bytes)
  let ?f = "\<lparr>of_bytes = bytes, of_pos = 0, of_calls = sl_calls S + 1\<rparr> :: OsFile"
  obtain f where f: "readAll sys ?f = Some (Some (drop (of_pos ?f) (of_bytes ?f)), f)"
    by (rule readAll_from [OF assms, of ?f]) simp_all
  obtain res where "loadSnapshot bytes = Some res" using loadSnapshot_total by blast
  then show thesis using that [of "S\<lparr>sl_calls := of_calls f\<rparr>"] Some f assms
    by (simp add: readSnapshotFile_def os_open_live split: sum.splits)
qed

end
