(* ===== verification/Durable_State.thy ===== *)
theory Durable_State
  imports Stable_Store Snapshot_File Command_Log
begin

text \<open>
  The durability layer (\<open>storage/durable_state.hpp\<close>, \<open>storage/durable_state.cpp\<close>): the vote file, the write-ahead
  log and the snapshot file of a node, recovery from them, and the operations that keep them up to
  date. The three files live on one disk; each has its own sequence of system calls, so the system is a
  record of three \<open>SysCalls\<close> and the result of \<open>mkdir\<close> (created, or already there).
\<close>

section \<open>Log entries on disk\<close>

definition encodeLogEntry :: "LogEntry \<Rightarrow> Buffer \<Rightarrow> Buffer" where
  "encodeLogEntry entry out =
     (let w = w_u64 (le_term entry) (w_u64 (le_seq entry) out) in
      case le_command entry of
        New n \<Rightarrow> w_u64 (no_quantity n) (w_i64 (no_price n) (w_u8 (tif_code (no_tif n)) (w_u8 (type_code (no_type n))
          (w_u8 (side_code (no_side n)) (w_u32 (no_instrument n) (w_u64 (no_id n) (w_u8 0 w)))))))
      | Cancel c \<Rightarrow> w_u64 (co_id c) (w_u8 1 w))"

definition logEntryReader :: "LogEntry reader" where
  "logEntryReader =
     rd_bind rd_u64 (\<lambda>s. rd_bind rd_u64 (\<lambda>t. rd_bind rd_u8 (\<lambda>tag.
       if tag = 0 then
         rd_bind rd_u64 (\<lambda>i. rd_bind rd_u32 (\<lambda>instr. rd_bind rd_u8 (\<lambda>side. rd_bind rd_u8 (\<lambda>ty.
         rd_bind rd_u8 (\<lambda>tif. rd_bind rd_i64 (\<lambda>price. rd_bind rd_u64 (\<lambda>qty.
           if side > 1 \<or> ty > 1 \<or> tif > 1 then rd_fail
           else rd_end \<lparr>le_seq = s, le_term = t, le_command =
             New \<lparr>no_id = i, no_instrument = instr, no_side = side_of_code side, no_type = type_of_code ty,
               no_tif = tif_of_code tif, no_price = price, no_quantity = qty\<rparr>\<rparr>)))))))
       else if tag = 1 then rd_bind rd_u64 (\<lambda>i. rd_end \<lparr>le_seq = s, le_term = t, le_command = Cancel \<lparr>co_id = i\<rparr>\<rparr>)
       else rd_fail)))"

definition decodeLogEntry :: "Buffer \<Rightarrow> LogEntry option" where
  "decodeLogEntry data = fst (logEntryReader (new_reader data))"

section \<open>State\<close>

record RecoveryReport =
  rr_hadSnapshot :: bool
  rr_snapshotSeq :: u64
  rr_entriesReplayed :: u64
  rr_lastLogSeq :: u64
  rr_currentTerm :: u64
  rr_votedFor :: NodeId
  rr_tornTailDiscarded :: bool
  rr_tornTailBytes :: u64

definition new_report :: RecoveryReport where
  "new_report = \<lparr>rr_hadSnapshot = False, rr_snapshotSeq = 0, rr_entriesReplayed = 0, rr_lastLogSeq = 0, rr_currentTerm = 0,
     rr_votedFor = 0, rr_tornTailDiscarded = False, rr_tornTailBytes = 0\<rparr>"

record DurableState =
  ds_wal :: WriteAheadLog
  ds_stable :: StableStore
  ds_slot :: Slot
  ds_snapshot :: "SnapshotRecord option"

record DiskCalls =
  dc_mkdir :: bool
  dc_state :: SysCalls
  dc_wal :: SysCalls
  dc_snapshot :: SysCalls

record Disk =
  dk_state :: Slot
  dk_wal :: Buffer
  dk_snapshot :: Slot

section \<open>Operations\<close>

definition durable_open :: "DiskCalls \<Rightarrow> Disk \<Rightarrow> SyncPolicy \<Rightarrow> DurableState \<Rightarrow> (bool \<times> DurableState) option" where
  "durable_open sys disk policy D =
     (if \<not> dc_mkdir sys then Some (False, D)
      else do {
        (ok, B) \<leftarrow> stable_open (dc_state sys) (dk_state disk);
        let D1 = D\<lparr>ds_stable := B\<rparr>;
        if \<not> ok then Some (False, D1)
        else do {
          (ok, W) \<leftarrow> wal_open (dc_wal sys) (dk_wal disk) policy (ds_wal D1);
          let D2 = D1\<lparr>ds_wal := W\<rparr>;
          if \<not> ok then Some (False, D2)
          else do {
            (snap, err, S) \<leftarrow> readSnapshotFile (dc_snapshot sys) (dk_snapshot disk);
            Some (True, D2\<lparr>ds_slot := S, ds_snapshot := (if snap = None \<and> err \<noteq> None then None else snap)\<rparr>)
          }
        }
      })"

text \<open>The replay loop; the number counts the entries applied.\<close>

fun recoverLoop :: "WalRecord list \<Rightarrow> Sequence \<Rightarrow> MatchingEngine \<Rightarrow> CommandLog \<Rightarrow> u64 \<Rightarrow>
    (MatchingEngine \<times> CommandLog \<times> u64) option" where
  "recoverLoop [] startAfter e L n = Some (e, L, n)"
| "recoverLoop (r # rs) startAfter e L n =
     (case decodeLogEntry (wr_payload r) of
        None \<Rightarrow> Some (e, L, n)
      | Some entry \<Rightarrow>
          if le_seq entry \<le> startAfter then recoverLoop rs startAfter e L n
          else
            let (ok, L') = appendAt (le_seq entry) (le_term entry) (le_command entry) L in
            if \<not> ok then Some (e, L', n)
            else do {
              (e', sink) \<leftarrow> engine_apply (le_command entry) e [];
              recoverLoop rs startAfter e' L' (n + 1)
            })"

definition durable_recover :: "DurableState \<Rightarrow> MatchingEngine \<Rightarrow> CommandLog \<Rightarrow>
    (bool \<times> MatchingEngine \<times> CommandLog \<times> RecoveryReport) option" where
  "durable_recover D e L =
     (let rep = new_report\<lparr>rr_currentTerm := ss_currentTerm (sb_state (ds_stable D)), rr_votedFor := ss_votedFor (sb_state (ds_stable D)),
            rr_tornTailDiscarded := ws_tailWasTorn (wl_stats (ds_wal D)), rr_tornTailBytes := ws_truncatedTailBytes (wl_stats (ds_wal D))\<rparr>;
          replay_from = (\<lambda>startAfter e L rep. do {
            (e', L', n) \<leftarrow> recoverLoop (wl_records (ds_wal D)) startAfter e L 0;
            Some (True, e', L', rep\<lparr>rr_entriesReplayed := n, rr_lastLogSeq := lg_lastSeq L'\<rparr>)
          })
      in case ds_snapshot D of
           None \<Rightarrow> replay_from 0 e L rep
         | Some snap \<Rightarrow> do {
             (ok, e1) \<leftarrow> restore (sr_engine snap) e;
             if \<not> ok then Some (False, e1, L, rep)
             else replay_from (sr_lastIncludedSeq snap) e1 (setSnapshotBoundary (sr_lastIncludedSeq snap) (sr_lastIncludedTerm snap) L)
                    (rep\<lparr>rr_hadSnapshot := True, rr_snapshotSeq := sr_lastIncludedSeq snap\<rparr>)
           })"

definition appendEntry :: "DiskCalls \<Rightarrow> LogEntry \<Rightarrow> DurableState \<Rightarrow> (bool \<times> DurableState) option" where
  "appendEntry sys entry D =
     map_option (\<lambda>(ok, W). (ok, D\<lparr>ds_wal := W\<rparr>))
       (wal_append (dc_wal sys) (ucast (le_seq entry)) (encodeLogEntry entry []) (ds_wal D))"

definition saveVote :: "DiskCalls \<Rightarrow> u64 \<Rightarrow> NodeId \<Rightarrow> DurableState \<Rightarrow> (bool \<times> DurableState) option" where
  "saveVote sys trm votedFor D =
     map_option (\<lambda>(ok, B). (ok, D\<lparr>ds_stable := B\<rparr>))
       (stable_save (dc_state sys) \<lparr>ss_currentTerm = trm, ss_votedFor = votedFor\<rparr> (ds_stable D))"

definition takeSnapshot :: "DiskCalls \<Rightarrow> MatchingEngine \<Rightarrow> u64 \<Rightarrow> u64 \<Rightarrow> DurableState \<Rightarrow> (bool \<times> DurableState) option" where
  "takeSnapshot sys e lastIncludedSeq lastIncludedTerm D =
     (let snap = \<lparr>sr_lastIncludedSeq = lastIncludedSeq, sr_lastIncludedTerm = lastIncludedTerm,
            sr_stateChecksum = stateChecksum e, sr_engine = snapshot e\<rparr>
      in do {
        (ok, S) \<leftarrow> writeSnapshotFile (dc_snapshot sys) snap (ds_slot D);
        let D1 = D\<lparr>ds_slot := S\<rparr>;
        if \<not> ok then Some (False, D1)
        else
          let D2 = D1\<lparr>ds_snapshot := Some snap\<rparr> in
          map_option (\<lambda>(ok, W). (ok, D2\<lparr>ds_wal := W\<rparr>)) (wal_truncateThrough (dc_wal sys) (ucast lastIncludedSeq) (ds_wal D2))
      })"

definition installSnapshot :: "DiskCalls \<Rightarrow> SnapshotRecord \<Rightarrow> MatchingEngine \<Rightarrow> CommandLog \<Rightarrow> DurableState \<Rightarrow>
    (bool \<times> MatchingEngine \<times> CommandLog \<times> DurableState) option" where
  "installSnapshot sys snap e L D = do {
     (ok, e1) \<leftarrow> restore (sr_engine snap) e;
     if \<not> ok then Some (False, e1, L, D)
     else if stateChecksum e1 \<noteq> sr_stateChecksum snap then Some (False, e1, L, D)
     else do {
       (ok, S) \<leftarrow> writeSnapshotFile (dc_snapshot sys) snap (ds_slot D);
       let D1 = D\<lparr>ds_slot := S\<rparr>;
       if \<not> ok then Some (False, e1, L, D1)
       else
         let L' = setSnapshotBoundary (sr_lastIncludedSeq snap) (sr_lastIncludedTerm snap) (log_clear L);
             (ok, W) = wal_reset (dc_wal sys) (ds_wal D1)
         in Some (ok, e1, L', D1\<lparr>ds_snapshot := Some snap, ds_wal := W\<rparr>)
     }
   }"

definition durable_sync :: "DiskCalls \<Rightarrow> DurableState \<Rightarrow> bool \<times> DurableState" where
  "durable_sync sys D = (case wal_sync (dc_wal sys) (ds_wal D) of (ok, W) \<Rightarrow> (ok, D\<lparr>ds_wal := W\<rparr>))"

section \<open>Entries round-trip\<close>

lemma encodeLogEntry_command: "encodeLogEntry entry out = encodeCommand (le_command entry) (w_u64 (le_term entry) (w_u64 (le_seq entry) out))"
  by (simp add: encodeLogEntry_def Let_def split: Command.splits)

lemma rd_bind_assoc: "rd_bind (rd_bind p f) g = rd_bind p (\<lambda>x. rd_bind (f x) g)"
  by (rule ext) (auto simp: rd_bind_def split: prod.splits option.splits)

lemma rd_bind_simps: "rd_bind (rd_return x) g = g x" "rd_bind rd_fail g = rd_fail" "rd_bind (if c then p else q) g = (if c then rd_bind p g else rd_bind q g)"
  by (auto simp: rd_bind_def rd_return_def rd_fail_def)

lemma logEntryReader_command:
  "logEntryReader = rd_bind rd_u64 (\<lambda>s. rd_bind rd_u64 (\<lambda>t. rd_bind decodeCommand (\<lambda>c. rd_end \<lparr>le_seq = s, le_term = t, le_command = c\<rparr>)))"
  by (simp only: decodeCommand_def logEntryReader_def rd_bind_assoc rd_bind_simps)

lemma decodeLogEntry_iff: "decodeLogEntry data = Some entry \<longleftrightarrow> data = encodeLogEntry entry []"
proof -
  obtain s t c where e: "entry = \<lparr>le_seq = s, le_term = t, le_command = c\<rparr>" by (cases entry)
  have enc: "encodeLogEntry entry [] = w_u64 s [] @ w_u64 t [] @ encodeCommand c []"
    by (simp add: e encodeLogEntry_command wire_simps)
  have "logEntryReader r = (Some entry, r') \<longleftrightarrow> reads r (encodeLogEntry entry []) r' \<and> at_end r'" for r r'
    unfolding enc by (auto simp: e logEntryReader_command wire_simps c_cmd.rd_iff at_end_def)
  moreover have "decodeLogEntry data = Some entry \<longleftrightarrow> (\<exists>r'. logEntryReader (new_reader data) = (Some entry, r'))"
    by (cases "logEntryReader (new_reader data)") (auto simp: decodeLogEntry_def)
  ultimately show ?thesis using reads_finished [of data "encodeLogEntry entry []"] unfolding at_end_def by blast
qed

lemma decode_encodeLogEntry [simp]: "decodeLogEntry (encodeLogEntry entry []) = Some entry"
  by (simp add: decodeLogEntry_iff)

lemma length_encodeLogEntry: "length (encodeLogEntry entry []) \<le> 48"
  using length_encodeCommand [of "le_command entry"]
  by (simp add: encodeLogEntry_command encodeCommand_append [of _ "w_u64 _ _"]) (simp add: w_u64_def)

end
