(* ===== verification/Durable_Recovery.thy ===== *)
theory Durable_Recovery
  imports Durable_State Replication
begin

text \<open>
  What the durability layer keeps on disk and what recovery makes of it. \<open>durable_inv ins es k k0 D\<close> says
  that the disk of a node whose log holds the entries \<open>es\<close> has a snapshot of the engine after the first \<open>k\<close> of
  them and a write-ahead log with every entry after the first \<open>k0 \<le> k\<close>, preceded perhaps by older ones.
  \<open>durable_run\<close> is the step relation of such a node; the invariant holds along it by rule induction.
\<close>

section \<open>The replay loop\<close>

definition wal_of :: "LogEntry \<Rightarrow> WalRecord" where
  "wal_of e = \<lparr>wr_seq = ucast (le_seq e), wr_payload = encodeLogEntry e []\<rparr>"

lemma wal_of_good [simp]: "wal_good (wal_of e)"
  using length_encodeLogEntry [of e] by (simp add: wal_good_def wal_of_def kMaxRecordSize_eq)

lemma wal_of_payload [simp]: "decodeLogEntry (wr_payload (wal_of e)) = Some e"
  by (simp add: wal_of_def)

lemma recoverLoop_skip:
  "\<forall>x\<in>set xs. le_seq x \<le> start \<Longrightarrow> recoverLoop (map wal_of xs @ rs) start e L n = recoverLoop rs start e L n"
  by (induction xs) simp_all

lemma apply_state_after: "\<exists>sink. engine_apply c (state_after i cs) [] = Some (state_after i (cs @ [c]), sink)"
  using step_state_after [of c i cs] by (auto simp: engine_step_def bind_eq_Some_conv)

lemma recoverLoop_run:
  assumes "\<forall>i<length ys. unat (le_seq (ys ! i)) = unat (lg_lastSeq L) + 1 + i" and "unat start \<le> unat (lg_lastSeq L)"
  shows "recoverLoop (map wal_of ys) start (state_after ins cs) L n =
    Some (state_after ins (cs @ map le_command ys),
      L\<lparr>lg_entries := lg_entries L @ ys, lg_lastSeq := lg_lastSeq L + of_nat (length ys)\<rparr>, n + of_nat (length ys))"
  using assms
proof (induction ys arbitrary: L cs n)
  case (Cons y ys)
  have y: "unat (le_seq y) = unat (lg_lastSeq L) + 1" using Cons.prems(1) [rule_format, of 0] by simp
  then have "(of_nat (unat (le_seq y)) :: Sequence) = of_nat (unat (lg_lastSeq L) + 1)" by simp
  then have seq: "le_seq y = lg_lastSeq L + 1" by simp
  let ?L = "L\<lparr>lg_entries := lg_entries L @ [y], lg_lastSeq := lg_lastSeq L + 1\<rparr>"
  have app: "appendAt (le_seq y) (le_term y) (le_command y) L = (True, ?L)" using seq by (simp add: appendAt_def)
  have new: "\<not> le_seq y \<le> start" using y Cons.prems(2) by (simp add: word_le_nat_alt)
  obtain sink where ap: "engine_apply (le_command y) (state_after ins cs) [] = Some (state_after ins (cs @ [le_command y]), sink)"
    using apply_state_after by blast
  have "\<forall>i<length ys. unat (le_seq (ys ! i)) = unat (lg_lastSeq ?L) + 1 + i"
    using Cons.prems(1) y seq by (auto simp: nth_Cons_Suc [symmetric] simp del: nth_Cons_Suc)
  from Cons.IH [OF this, of "cs @ [le_command y]" "n + 1"] Cons.prems(2) y seq app new ap show ?case
    by (simp add: add.assoc)
qed simp

section \<open>What is on disk\<close>

definition numbered :: "LogEntry list \<Rightarrow> bool" where
  "numbered es \<longleftrightarrow> length es < 2 ^ 32 \<and> (\<forall>i<length es. unat (le_seq (es ! i)) = i + 1)"

text \<open>The engine after the first \<open>k\<close> entries, and a snapshot of it.\<close>

definition engine_at :: "InstrumentId \<Rightarrow> LogEntry list \<Rightarrow> nat \<Rightarrow> MatchingEngine" where
  "engine_at ins es k = state_after ins (map le_command (take k es))"

definition snap_at :: "InstrumentId \<Rightarrow> LogEntry list \<Rightarrow> nat \<Rightarrow> u64 \<Rightarrow> SnapshotRecord" where
  "snap_at ins es k trm = snapshot_of (engine_at ins es k) (of_nat k) trm"

text \<open>The snapshot on disk: none, or one of the engine after \<open>k\<close> entries.\<close>

definition stored :: "InstrumentId \<Rightarrow> LogEntry list \<Rightarrow> nat \<Rightarrow> SnapshotRecord option \<Rightarrow> bool" where
  "stored ins es k so \<longleftrightarrow> (case so of None \<Rightarrow> k = 0 | Some snap \<Rightarrow> (\<exists>trm. snap = snap_at ins es k trm) \<and> fits (engine_at ins es k))"

definition covers :: "LogEntry list \<Rightarrow> nat \<Rightarrow> WalRecord list \<Rightarrow> bool" where
  "covers es k rs \<longleftrightarrow> (\<exists>xs. rs = map wal_of (xs @ drop k es) \<and> (\<forall>x\<in>set xs. unat (le_seq x) \<le> k))"

definition durable_inv :: "InstrumentId \<Rightarrow> LogEntry list \<Rightarrow> nat \<Rightarrow> nat \<Rightarrow> DurableState \<Rightarrow> bool" where
  "durable_inv ins es k k0 D \<longleftrightarrow> numbered es \<and> k0 \<le> k \<and> k \<le> length es \<and> wal_ok (ds_wal D) \<and> covers es k0 (wl_records (ds_wal D)) \<and>
     (\<exists>so. sl_target (ds_slot D) = map_option snapshot_file so \<and> stored ins es k so) \<and>
     (case ds_snapshot D of None \<Rightarrow> k0 = 0 | Some snap \<Rightarrow> unat (sr_lastIncludedSeq snap) = k0)"

lemma engine_at_wf [simp]: "wf_engine (engine_at ins es k)" "me_instrument (engine_at ins es k) = ins"
  by (simp_all add: engine_at_def state_after)

lemma engine_at_take [simp]: "k \<le> m \<Longrightarrow> engine_at ins (take m es) k = engine_at ins es k"
  by (simp add: engine_at_def min_def)

lemma engine_at_append [simp]: "k \<le> length es \<Longrightarrow> engine_at ins (es @ ys) k = engine_at ins es k"
  by (simp add: engine_at_def)

lemma snap_at_seq [simp]: "sr_lastIncludedSeq (snap_at ins es k trm) = of_nat k" "sr_lastIncludedTerm (snap_at ins es k trm) = trm"
  "sr_engine (snap_at ins es k trm) = snapshot (engine_at ins es k)" "sr_stateChecksum (snap_at ins es k trm) = stateChecksum (engine_at ins es k)"
  by (simp_all add: snap_at_def snapshot_of_def)

lemma numbered_unat: "numbered es \<Longrightarrow> k \<le> length es \<Longrightarrow> unat (of_nat k :: u64) = k \<and> unat (of_nat k :: u32) = k"
  by (simp add: numbered_def unat_of_nat)

lemma numbered_take [simp]: "numbered es \<Longrightarrow> numbered (take m es)"
  by (auto simp: numbered_def)

lemma numbered_snoc: "numbered es \<Longrightarrow> unat (le_seq e) = length es + 1 \<Longrightarrow> length es + 1 < 2 ^ 32 \<Longrightarrow> numbered (es @ [e])"
  by (auto simp: numbered_def nth_append less_Suc_eq)

lemma numbered_prefix: "numbered es \<Longrightarrow> x \<in> set (take k es) \<Longrightarrow> unat (le_seq x) \<le> k"
  by (auto simp: numbered_def in_set_conv_nth)

lemma numbered_suffix: "numbered es \<Longrightarrow> x \<in> set (drop k es) \<Longrightarrow> k < unat (le_seq x) \<and> unat (le_seq x) < 2 ^ 32"
  by (auto simp: numbered_def in_set_conv_nth)

text \<open>A later starting point is covered too, and so is what is left of the log after a cut.\<close>

lemma covers_cut:
  assumes "numbered es" and "covers es k0 rs" and "k0 \<le> k" and "k \<le> length es" and "q \<le> length rs"
  obtains m where "k \<le> m" and "m \<le> length es" and "covers (take m es) k (take q rs)" and "q = length rs \<Longrightarrow> m = length es"
proof -
  obtain xs where xs: "rs = map wal_of (xs @ drop k0 es)" "\<forall>x\<in>set xs. unat (le_seq x) \<le> k0" using assms(2) by (auto simp: covers_def)
  define p where "p = q - length xs"
  define m where "m = max k (k0 + p)"
  have p: "k0 + p \<le> length es" using assms(3,4,5) xs(1) by (simp add: p_def)
  let ?zs = "drop k0 (take (k0 + p) es)"
  have tk: "take p (drop k0 es) = ?zs" by (simp add: drop_take)
  have "drop (k - k0) ?zs = drop k (take m es)" using assms(3) p by (simp add: m_def max_def)
  then have zs: "?zs = take (k - k0) ?zs @ drop k (take m es)" by (metis append_take_drop_id)
  have "take q rs = map wal_of ((take q xs @ take (k - k0) ?zs) @ drop k (take m es))"
    unfolding xs(1) take_map take_append p_def [symmetric] tk using zs by simp
  moreover have "unat (le_seq x) \<le> k" if "x \<in> set (take q xs @ take (k - k0) ?zs)" for x
  proof -
    have "take (k - k0) ?zs = drop k0 (take (min k (k0 + p)) es)" using assms(3) by (auto simp: take_drop min_def)
    then have "set (take (k - k0) ?zs) \<subseteq> set (take k es)"
      by (metis min.cobounded1 set_drop_subset set_take_subset_set_take subset_trans)
    then show ?thesis using that xs(2) numbered_prefix [OF assms(1), of x k] assms(3)
      by (auto dest!: in_set_takeD [of x q xs])
  qed
  ultimately have "covers (take m es) k (take q rs)" unfolding covers_def by blast
  moreover have "m = length es" if "q = length rs" using that xs(1) assms(3,4) by (simp add: m_def p_def)
  ultimately show thesis using that [of m] p assms(4) by (simp add: m_def)
qed

section \<open>Opening and recovering\<close>

definition disk_live :: "DiskCalls \<Rightarrow> bool" where
  "disk_live sys \<longleftrightarrow> dc_mkdir sys \<and> live (dc_state sys) \<and> live (dc_wal sys) \<and> live (dc_snapshot sys)"

text \<open>What a crash leaves: the two small files, and the log cut after \<open>n\<close> bytes.\<close>

definition disk_of :: "nat \<Rightarrow> DurableState \<Rightarrow> Disk" where
  "disk_of n D = \<lparr>dk_state = sb_slot (ds_stable D), dk_wal = take n (of_bytes (wl_file (ds_wal D))), dk_snapshot = ds_slot D\<rparr>"

lemma stable_open_live: "live sys \<Longrightarrow> \<exists>B. stable_open sys S = Some (True, B)"
  by (cases "sl_target S") (use stable_open_missing stable_open_content in blast)+

lemma readSnapshot_stored:
  assumes "live sys" and "sl_target S = map_option snapshot_file so" and "stored ins es k so"
  obtains S' where "readSnapshotFile sys S = Some (so, None, S')" and "sl_target S' = sl_target S"
proof -
  obtain S' where S': "readSnapshotFile sys S = Some (case sl_target S of None \<Rightarrow> (None, None, S')
      | Some bytes \<Rightarrow> (case the (loadSnapshot bytes) of Inl err \<Rightarrow> (None, Some err, S') | Inr snap \<Rightarrow> (Some snap, None, S')))"
    "sl_target S' = sl_target S"
    using assms(1) by (rule readSnapshotFile_live)
  have "loadSnapshot (snapshot_file snap) = Some (Inr snap)" if "so = Some snap" for snap
    using assms(3) that loadSnapshot_of [OF engine_at_wf(1), of ins es k "of_nat k"] by (auto simp: stored_def snap_at_def)
  with S' assms(2) that show thesis by (cases so) auto
qed

lemma durable_open_cut:
  assumes "disk_live sys" and "durable_inv ins es k k0 D" and "n \<le> length (of_bytes (wl_file (ds_wal D)))"
  obtains D' m so where "durable_open sys (disk_of n D) policy D0 = Some (True, D')" and "k \<le> m" and "m \<le> length es"
    and "n = length (of_bytes (wl_file (ds_wal D))) \<Longrightarrow> m = length es"
    and "durable_inv ins (take m es) k k D'" and "ds_snapshot D' = so" and "stored ins (take m es) k so"
proof -
  let ?rs = "wl_records (ds_wal D)"
  have inv: "numbered es" "k0 \<le> k" "k \<le> length es" "covers es k0 ?rs" "of_bytes (wl_file (ds_wal D)) = concat (map wal_frame ?rs)"
    "\<forall>r\<in>set ?rs. wal_good r" using assms(2) by (auto simp: durable_inv_def wal_ok_def)
  obtain so where so: "sl_target (ds_slot D) = map_option snapshot_file so" "stored ins es k so" using assms(2) by (auto simp: durable_inv_def)
  obtain B where B: "stable_open (dc_state sys) (sb_slot (ds_stable D)) = Some (True, B)"
    using assms(1) stable_open_live by (auto simp: disk_live_def)
  have lw: "live (dc_wal sys)" "live (dc_snapshot sys)" using assms(1) by (simp_all add: disk_live_def)
  obtain q W where W: "wal_open (dc_wal sys) (take n (concat (map wal_frame ?rs))) policy (ds_wal D0) = Some (True, W)" "wl_records W = take q ?rs"
    "wal_ok W" "q \<le> length ?rs" "q < length ?rs \<longrightarrow> n < length (concat (map wal_frame (take (Suc q) ?rs)))"
    by (rule wal_open_cut [OF lw(1) inv(6), of n policy "ds_wal D0"]) (use assms(3) inv(5) in simp_all)
  obtain S where S: "readSnapshotFile (dc_snapshot sys) (ds_slot D) = Some (so, None, S)" "sl_target S = sl_target (ds_slot D)"
    using lw(2) so by (rule readSnapshot_stored)
  obtain m where m: "k \<le> m" "m \<le> length es" "covers (take m es) k (take q ?rs)" "q = length ?rs \<Longrightarrow> m = length es"
    using inv(1,4,2,3) W(4) by (rule covers_cut) blast
  have full: "m = length es" if "n = length (of_bytes (wl_file (ds_wal D)))"
  proof -
    have "length (concat (map wal_frame (take (Suc q) ?rs))) \<le> length (concat (map wal_frame ?rs))"
      by (metis append_take_drop_id concat_append le_add1 length_append map_append)
    then have "q = length ?rs" using W(4,5) that inv(5) by (intro le_antisym) (auto simp: not_less [symmetric])
    then show ?thesis by (rule m(4))
  qed
  let ?D = "D0\<lparr>ds_stable := B, ds_wal := W, ds_slot := S, ds_snapshot := so\<rparr>"
  have st: "stored ins (take m es) k so" using so(2) m(1) by (simp add: stored_def snap_at_def split: option.splits)
  moreover have "case so of None \<Rightarrow> k = 0 | Some snap \<Rightarrow> unat (sr_lastIncludedSeq snap) = k"
    using so(2) numbered_unat [OF inv(1,3)] by (auto simp: stored_def split: option.splits)
  ultimately have "durable_inv ins (take m es) k k ?D"
    using inv(1) m W(2,3) S(2) so(1) by (auto simp: durable_inv_def)
  moreover have "durable_open sys (disk_of n D) policy D0 = Some (True, ?D)"
    using assms(1) B W(1) S(1) inv(5) by (simp add: durable_open_def disk_of_def disk_live_def)
  ultimately show thesis using that [of ?D m so] m full st by simp
qed

lemma durable_recover_inv:
  assumes "durable_inv ins es k k D" and "stored ins es k (ds_snapshot D)"
  obtains L rep where "durable_recover D (new_engine ins) new_log = Some (True, engine_at ins es (length es), L, rep)"
    and "lg_entries L = drop k es" and "unat (lg_lastSeq L) = length es" and "log_ok L"
    and "unat (rr_entriesReplayed rep) = length es - k" and "rr_currentTerm rep = ss_currentTerm (sb_state (ds_stable D))"
    and "rr_votedFor rep = ss_votedFor (sb_state (ds_stable D))"
proof -
  obtain xs where xs: "wl_records (ds_wal D) = map wal_of xs @ map wal_of (drop k es)" "\<forall>x\<in>set xs. unat (le_seq x) \<le> k"
    using assms(1) by (auto simp: durable_inv_def covers_def)
  have num: "numbered es" "k \<le> length es" using assms(1) by (simp_all add: durable_inv_def)
  note u = numbered_unat [OF num] numbered_unat [OF num(1) order_refl]
  have lt: "length es < 2 ^ 64" using num(1) by (simp add: numbered_def)
  define L where "L = (case ds_snapshot D of None \<Rightarrow> new_log | Some snap \<Rightarrow> setSnapshotBoundary (of_nat k) (sr_lastIncludedTerm snap) new_log)"
  have L: "lg_lastSeq L = of_nat k" "lg_entries L = []" "log_ok L" "log_base L = k"
    using assms(2) u new_log_ok setSnapshotBoundary_ok [OF new_log_ok(1), of "of_nat k"]
    by (auto simp: L_def stored_def new_log_def setSnapshotBoundary_def log_base_def split: option.splits)
  let ?L = "L\<lparr>lg_entries := lg_entries L @ drop k es, lg_lastSeq := lg_lastSeq L + of_nat (length (drop k es))\<rparr>"
  have "recoverLoop (map wal_of xs @ map wal_of (drop k es)) (of_nat k) (engine_at ins es k) L 0 =
      Some (engine_at ins es (length es), ?L, 0 + of_nat (length (drop k es)))"
  proof -
    have "\<forall>x\<in>set xs. le_seq x \<le> of_nat k" using xs(2) u by (simp add: word_le_nat_alt)
    moreover have "\<forall>i<length (drop k es). unat (le_seq (drop k es ! i)) = unat (lg_lastSeq L) + 1 + i"
      using num u L(1) by (simp add: numbered_def)
    moreover have "map le_command (take k es) @ map le_command (drop k es) = map le_command (take (length es) es)"
      by (metis append_take_drop_id map_append take_all order_refl)
    ultimately show ?thesis using recoverLoop_run [of "drop k es" L "of_nat k" ins "map le_command (take k es)" 0] L(1)
      by (simp add: recoverLoop_skip engine_at_def)
  qed
  note loop = this
  have sum: "lg_lastSeq L + of_nat (length (drop k es)) = of_nat (length es)" using L(1) num(2) by (simp add: of_nat_diff)
  have last: "unat (lg_lastSeq ?L) = length es" using sum u by simp
  have ok: "log_ok ?L" using L num u last by (simp add: log_ok_def log_base_def numbered_def)
  have "restore (snapshot (engine_at ins es k)) (new_engine ins) = Some (True, engine_at ins es k)"
    by (rule restore_snapshot) (simp_all add: new_engine_def)
  then have "\<exists>rep. durable_recover D (new_engine ins) new_log = Some (True, engine_at ins es (length es), ?L, rep) \<and>
      unat (rr_entriesReplayed rep) = length es - k \<and> rr_currentTerm rep = ss_currentTerm (sb_state (ds_stable D)) \<and>
      rr_votedFor rep = ss_votedFor (sb_state (ds_stable D))"
    using assms(2) loop xs(1) u lt
    by (auto simp: durable_recover_def stored_def L_def engine_at_def [of _ _ 0] unat_of_nat Let_def split: option.splits)
  then show thesis using that [of ?L] L(2) last ok by auto
qed

section \<open>A node's life\<close>

text \<open>Entries are appended in order, the engine after some prefix is saved, a snapshot of another history is
  installed, the vote is saved, and the node may crash and recover, the log cut at any byte. The snapshot
  file and the vote file may be written by a failing system; a failing write-ahead log ends the life (see
  \<open>failed_append_loses_later\<close>).\<close>

inductive durable_run :: "InstrumentId \<Rightarrow> LogEntry list \<Rightarrow> DurableState \<Rightarrow> bool" for ins where
  fresh: "disk_live sys \<Longrightarrow> dk_wal disk = [] \<Longrightarrow> sl_target (dk_snapshot disk) = None \<Longrightarrow>
    durable_open sys disk policy D0 = Some (True, D) \<Longrightarrow> durable_run ins [] D"
| append: "durable_run ins es D \<Longrightarrow> live (dc_wal sys) \<Longrightarrow> unat (le_seq e) = length es + 1 \<Longrightarrow> length es + 1 < 2 ^ 32 \<Longrightarrow>
    appendEntry sys e D = Some (ok, D') \<Longrightarrow> durable_run ins (es @ [e]) D'"
| sync: "durable_run ins es D \<Longrightarrow> live (dc_wal sys) \<Longrightarrow> durable_sync sys D = (ok, D') \<Longrightarrow> durable_run ins es D'"
| vote: "durable_run ins es D \<Longrightarrow> saveVote sys trm v D = Some (ok, D') \<Longrightarrow> durable_run ins es D'"
| snapshot: "durable_run ins es D \<Longrightarrow> live (dc_wal sys) \<Longrightarrow> k \<le> length es \<Longrightarrow> fits (engine_at ins es k) \<Longrightarrow>
    (\<And>snap. ds_snapshot D = Some snap \<Longrightarrow> unat (sr_lastIncludedSeq snap) \<le> k) \<Longrightarrow>
    takeSnapshot sys (engine_at ins es k) (of_nat k) trm D = Some (ok, D') \<Longrightarrow> durable_run ins es D'"
| install: "durable_run ins es D \<Longrightarrow> live (dc_wal sys) \<Longrightarrow> numbered es' \<Longrightarrow> fits (engine_at ins es' (length es')) \<Longrightarrow>
    installSnapshot sys (snap_at ins es' (length es') trm) e L D = Some (True, e', L', D') \<Longrightarrow> durable_run ins es' D'"
| crash: "durable_run ins es D \<Longrightarrow> disk_live sys \<Longrightarrow> n \<le> length (of_bytes (wl_file (ds_wal D))) \<Longrightarrow>
    durable_open sys (disk_of n D) policy D0 = Some (True, D') \<Longrightarrow>
    durable_recover D' (new_engine ins) new_log = Some (True, e, L, rep) \<Longrightarrow> durable_run ins (take (unat (lg_lastSeq L)) es) D'"

lemma append_inv:
  assumes "durable_inv ins es k k0 D" and "live (dc_wal sys)" and "unat (le_seq e) = length es + 1" and "length es + 1 < 2 ^ 32"
  obtains D' where "appendEntry sys e D = Some (True, D')" and "durable_inv ins (es @ [e]) k k0 D'"
proof -
  have inv: "numbered es" "k0 \<le> k" "k \<le> length es" "wal_ok (ds_wal D)" "covers es k0 (wl_records (ds_wal D))" using assms(1) by (auto simp: durable_inv_def)
  have len: "length (encodeLogEntry e []) \<le> unat kMaxRecordSize" using length_encodeLogEntry [of e] by (simp add: kMaxRecordSize_eq)
  obtain W where W: "wal_append (dc_wal sys) (ucast (le_seq e)) (encodeLogEntry e []) (ds_wal D) = Some (True, W)" "wal_ok W"
    "wl_records W = wl_records (ds_wal D) @ [\<lparr>wr_seq = ucast (le_seq e), wr_payload = encodeLogEntry e []\<rparr>]"
    using assms(2) inv(4) len by (rule wal_append_live)
  have "covers (es @ [e]) k0 (wl_records W)"
    using inv(2,3,5) W(3) unfolding covers_def wal_of_def [symmetric] by fastforce
  then have "durable_inv ins (es @ [e]) k k0 (D\<lparr>ds_wal := W\<rparr>)"
    using assms(1,3,4) W(2) inv(1,3) numbered_snoc [OF inv(1) assms(3,4)]
    by (auto simp: durable_inv_def stored_def snap_at_def split: option.splits)
  then show thesis using that [of "D\<lparr>ds_wal := W\<rparr>"] W(1) by (simp add: appendEntry_def)
qed

lemma truncate_covers:
  assumes "numbered es" and "covers es k0 rs" and "k0 \<le> k" and "k \<le> length es"
  shows "filter (\<lambda>r. ucast (of_nat k :: u64) < wr_seq r) rs = map wal_of (drop k es)"
proof -
  obtain xs where xs: "rs = map wal_of (xs @ drop k0 es)" "\<forall>x\<in>set xs. unat (le_seq x) \<le> k0" using assms(2) by (auto simp: covers_def)
  have uk: "unat (ucast (of_nat k :: u64) :: u32) = k" using numbered_unat [OF assms(1,4)] assms(1,4) by (simp add: numbered_def unat_of_nat unsigned_ucast_eq take_bit_eq_mod)
  have us: "unat (ucast (le_seq x) :: u32) = unat (le_seq x)" if "unat (le_seq x) < 2 ^ 32" for x
    using that by (simp add: unsigned_ucast_eq take_bit_nat_eq_self)
  have lt: "k < 2 ^ 32" using assms(1,4) by (simp add: numbered_def)
  have es: "drop k0 es = take (k - k0) (drop k0 es) @ drop k es" using assms(3) by (metis append_take_drop_id drop_drop le_add_diff_inverse2)
  have old: "\<not> ucast (of_nat k :: u64) < wr_seq (wal_of x)" if "x \<in> set xs \<or> x \<in> set (take (k - k0) (drop k0 es))" for x
  proof -
    have "take (k - k0) (drop k0 es) = drop k0 (take k es)" using assms(3) by (simp add: take_drop)
    then have "unat (le_seq x) \<le> k" using that xs(2) assms(3) numbered_prefix [OF assms(1), of x k] by (auto dest: in_set_dropD)
    then show ?thesis using us [of x] uk lt by (simp add: wal_of_def word_less_nat_alt)
  qed
  have new: "ucast (of_nat k :: u64) < wr_seq (wal_of x)" if "x \<in> set (drop k es)" for x
    using numbered_suffix [OF assms(1) that] us [of x] uk by (simp add: wal_of_def word_less_nat_alt)
  have "rs = map wal_of (xs @ take (k - k0) (drop k0 es)) @ map wal_of (drop k es)" using xs(1) es by (metis append.assoc map_append)
  moreover have "filter (\<lambda>r. ucast (of_nat k :: u64) < wr_seq r) (map wal_of (xs @ take (k - k0) (drop k0 es))) = []"
    using old by (auto simp: filter_empty_conv)
  moreover have "filter (\<lambda>r. ucast (of_nat k :: u64) < wr_seq r) (map wal_of (drop k es)) = map wal_of (drop k es)"
    using new by (intro filter_True) auto
  ultimately show ?thesis by (simp only: filter_append append_Nil)
qed

lemma writeSnapshotFile_target:
  assumes "writeSnapshotFile sys snap S = Some (ok, S')"
  shows "sl_target S' = sl_target S \<or> sl_target S' = Some (snapshot_file snap)" and "ok \<Longrightarrow> sl_target S' = Some (snapshot_file snap)"
  using assms replaceFile_target by (fastforce simp: writeSnapshotFile_def)+

lemma stored_new: "fits (engine_at ins es k) \<Longrightarrow> stored ins es k (Some (snap_at ins es k trm))"
  by (auto simp: stored_def)

lemma covers_all: "covers es k (map wal_of (drop k es))"
  unfolding covers_def by (rule exI [of _ "[]"]) simp

lemma takeSnapshot_eq:
  "takeSnapshot sys (engine_at ins es k) (of_nat k) trm D = do {
     (ok, S) \<leftarrow> writeSnapshotFile (dc_snapshot sys) (snap_at ins es k trm) (ds_slot D);
     if \<not> ok then Some (False, D\<lparr>ds_slot := S\<rparr>)
     else map_option (\<lambda>(ok, W). (ok, D\<lparr>ds_slot := S, ds_snapshot := Some (snap_at ins es k trm), ds_wal := W\<rparr>))
       (wal_truncateThrough (dc_wal sys) (ucast (of_nat k :: u64)) (ds_wal D)) }"
  unfolding snap_at_def snapshot_of_def takeSnapshot_def Let_def by (intro Option.bind_cong refl) auto

text \<open>A snapshot that was written replaces the file and leaves the later entries in the log.\<close>

lemma takeSnapshot_written:
  assumes "durable_inv ins es k0' k0 D" and "live (dc_wal sys)" and "k0 \<le> k" and "k \<le> length es"
    and "writeSnapshotFile (dc_snapshot sys) (snap_at ins es k trm) (ds_slot D) = Some (True, S)"
  obtains W where "takeSnapshot sys (engine_at ins es k) (of_nat k) trm D =
      Some (True, D\<lparr>ds_slot := S, ds_snapshot := Some (snap_at ins es k trm), ds_wal := W\<rparr>)"
    and "wal_ok W" and "wl_records W = map wal_of (drop k es)" and "sl_target S = Some (snapshot_file (snap_at ins es k trm))"
proof -
  have inv: "numbered es" "wal_ok (ds_wal D)" "covers es k0 (wl_records (ds_wal D))" using assms(1) by (auto simp: durable_inv_def)
  obtain W where "wal_truncateThrough (dc_wal sys) (ucast (of_nat k :: u64)) (ds_wal D) = Some (True, W)" "wal_ok W"
    "wl_records W = filter (\<lambda>r. ucast (of_nat k :: u64) < wr_seq r) (wl_records (ds_wal D))"
    using assms(2) inv(2) by (rule wal_truncateThrough_live)
  then show thesis
    using that truncate_covers [OF inv(1,3) assms(3,4)] writeSnapshotFile_target(2) [OF assms(5)] assms(5)
    by (simp add: takeSnapshot_eq)
qed

lemma snapshot_inv:
  assumes "durable_inv ins es k0' k0 D" and "live (dc_wal sys)" and "k \<le> length es" and "fits (engine_at ins es k)"
    and "\<And>snap. ds_snapshot D = Some snap \<Longrightarrow> unat (sr_lastIncludedSeq snap) \<le> k"
    and "takeSnapshot sys (engine_at ins es k) (of_nat k) trm D = Some (ok, D')"
  shows "\<exists>j j0. durable_inv ins es j j0 D'"
proof -
  let ?snap = "snap_at ins es k trm"
  have inv: "numbered es" using assms(1) by (auto simp: durable_inv_def)
  have le: "k0 \<le> k" using assms(1,5) by (auto simp: durable_inv_def split: option.splits)
  obtain ok1 S where S: "writeSnapshotFile (dc_snapshot sys) ?snap (ds_slot D) = Some (ok1, S)"
    using assms(6) by (auto simp: takeSnapshot_eq bind_eq_Some_conv)
  have new: "\<exists>so. Some (snapshot_file ?snap) = map_option snapshot_file so \<and> stored ins es k so"
    using stored_new [OF assms(4)] by (intro exI [of _ "Some ?snap"]) simp
  show ?thesis
  proof (cases ok1)
    case False
    then have D': "D' = D\<lparr>ds_slot := S\<rparr>" using assms(6) S by (simp add: takeSnapshot_eq)
    from writeSnapshotFile_target(1) [OF S] show ?thesis
    proof
      assume "sl_target S = sl_target (ds_slot D)"
      then have "durable_inv ins es k0' k0 D'" using assms(1) by (simp add: durable_inv_def D')
      then show ?thesis by blast
    next
      assume "sl_target S = Some (snapshot_file ?snap)"
      then have "durable_inv ins es k k0 D'" using assms(1,3) le new by (simp add: durable_inv_def D')
      then show ?thesis by blast
    qed
  next
    case True
    with S obtain W where W: "D' = D\<lparr>ds_slot := S, ds_snapshot := Some ?snap, ds_wal := W\<rparr>" "wal_ok W" "wl_records W = map wal_of (drop k es)"
      "sl_target S = Some (snapshot_file ?snap)"
      using takeSnapshot_written [OF assms(1,2) le assms(3), of trm S] assms(6) by auto
    then have "durable_inv ins es k k D'"
      using inv assms(3) covers_all new numbered_unat [OF inv assms(3)] by (simp add: durable_inv_def)
    then show ?thesis by blast
  qed
qed

lemma install_inv:
  assumes "wal_ok (ds_wal D)" and "live (dc_wal sys)" and "numbered es'" and "fits (engine_at ins es' (length es'))"
    and "installSnapshot sys (snap_at ins es' (length es') trm) e L D = Some (True, e', L', D')"
  shows "durable_inv ins es' (length es') (length es') D'"
proof -
  let ?snap = "snap_at ins es' (length es') trm"
  obtain W where W: "wal_reset (dc_wal sys) (ds_wal D) = (True, W)" "wal_ok W" "wl_records W = []"
    using assms(2,1) by (rule wal_reset_live)
  obtain S where S: "writeSnapshotFile (dc_snapshot sys) ?snap (ds_slot D) = Some (True, S)"
    and D': "D' = D\<lparr>ds_slot := S, ds_snapshot := Some ?snap, ds_wal := W\<rparr>"
    using assms(5) W(1) unfolding installSnapshot_def by (auto simp: bind_eq_Some_conv Let_def split: if_splits)
  have "\<exists>so. Some (snapshot_file ?snap) = map_option snapshot_file so \<and> stored ins es' (length es') so"
    using stored_new [OF assms(4)] by (intro exI [of _ "Some ?snap"]) simp
  then show ?thesis
    using assms(3) W(2,3) writeSnapshotFile_target(2) [OF S] numbered_unat [OF assms(3) order_refl] covers_all [of es' "length es'"]
    by (simp add: durable_inv_def D')
qed

lemma fresh_inv:
  assumes "disk_live sys" and "dk_wal disk = []" and "sl_target (dk_snapshot disk) = None"
  obtains D where "durable_open sys disk policy D0 = Some (True, D)" and "durable_inv ins [] 0 0 D" and "ds_snapshot D = None"
proof -
  have lv: "live (dc_state sys)" "live (dc_wal sys)" "live (dc_snapshot sys)" "dc_mkdir sys" using assms(1) by (simp_all add: disk_live_def)
  obtain B where B: "stable_open (dc_state sys) (dk_state disk) = Some (True, B)" using stable_open_live [OF lv(1)] by blast
  have e: "wal_scan [] = ([], [])" by (simp add: wal_scan.simps wal_step_def)
  obtain W where W: "wal_open (dc_wal sys) [] policy (ds_wal D0) = Some (True, W)" "wl_records W = []" "wl_isOpen W" "file_end (wl_file W)"
    "of_bytes (wl_file W) = []" by (rule wal_open_live [OF lv(2) e, of policy "ds_wal D0"]) simp
  obtain S where S: "readSnapshotFile (dc_snapshot sys) (dk_snapshot disk) = Some (None, None, S)" "sl_target S = None"
    by (rule readSnapshotFile_live [OF lv(3), of "dk_snapshot disk"]) (use assms(3) in simp)
  let ?D = "D0\<lparr>ds_stable := B, ds_wal := W, ds_slot := S, ds_snapshot := None\<rparr>"
  have "durable_open sys disk policy D0 = Some (True, ?D)" using lv(4) B W(1) S(1) assms(2) by (simp add: durable_open_def)
  moreover have "durable_inv ins [] 0 0 ?D"
    using W S(2) by (simp add: durable_inv_def wal_ok_def numbered_def covers_def stored_def)
  ultimately show thesis using that by simp
qed

lemma durable_inv_stable [simp]: "durable_inv ins es k k0 (D\<lparr>ds_stable := B\<rparr>) \<longleftrightarrow> durable_inv ins es k k0 D"
  by (simp add: durable_inv_def)

lemma durable_run_inv: "durable_run ins es D \<Longrightarrow> \<exists>k k0. durable_inv ins es k k0 D"
proof (induction rule: durable_run.induct)
  case (fresh sys disk policy D0 D)
  then show ?case using fresh_inv [OF fresh(1-3), of policy D0 ins] by auto
next
  case (append es D sys e ok D')
  then show ?case using append_inv [of ins es _ _ D sys e] by (metis option.inject prod.inject)
next
  case (sync es D sys ok D')
  obtain W where "wal_sync (dc_wal sys) (ds_wal D) = (ok, W)" "D' = D\<lparr>ds_wal := W\<rparr>"
    using sync(3) by (auto simp: durable_sync_def split: prod.splits)
  with sync wal_sync_live [OF sync(2)] show ?case by (fastforce simp: durable_inv_def)
next
  case (vote es D sys trm v ok D')
  then obtain B where "D' = D\<lparr>ds_stable := B\<rparr>" by (auto simp: saveVote_def)
  with vote.IH show ?case by simp
next
  case (snapshot es D sys k trm ok D')
  then show ?case using snapshot_inv by blast
next
  case (install es D sys es' trm e L e' L' D')
  then show ?case using install_inv [of D sys es' ins trm e L e' L' D'] by (auto simp: durable_inv_def)
next
  case (crash es D sys n policy D0 D' e L rep)
  then obtain k k0 where inv: "durable_inv ins es k k0 D" by blast
  obtain D1 m so where D1: "durable_open sys (disk_of n D) policy D0 = Some (True, D1)" "m \<le> length es"
    "durable_inv ins (take m es) k k D1" "ds_snapshot D1 = so" "stored ins (take m es) k so"
    using crash(2) inv crash(3) by (rule durable_open_cut [where policy = policy and ?D0.0 = D0]) blast
  have "D' = D1" using D1(1) crash(4) by simp
  moreover have "unat (lg_lastSeq L) = m"
    by (rule durable_recover_inv [OF D1(3)]) (use D1 crash(5) calculation in auto)
  ultimately show ?case using D1(3) by blast
qed

end
