(* ===== verification/Wal_Properties.thy ===== *)
theory Wal_Properties
  imports Wal_Scan
begin

text \<open>
  The properties of the write-ahead log: what was appended comes back after a crash that cut the file
  at any byte, a damaged payload byte is always noticed, the table-driven checksum is CRC-32, and one
  way in which an I/O failure loses later appends.
\<close>

section \<open>A concrete system\<close>

text \<open>A system that interrupts every other transfer and moves five bytes with the rest.\<close>

definition demo_sys :: SysCalls where
  "demo_sys = \<lparr>sc_ok = (\<lambda>_. True), sc_transfer = (\<lambda>n. if even n then Interrupted else Done 5)\<rparr>"

lemma demo_live: "live demo_sys"
proof -
  have "\<exists>m\<ge>n. \<exists>k>0. sc_transfer demo_sys m = Done k" for n
    by (intro exI [of _ "2 * n + 1"]) (simp add: demo_sys_def)
  then show ?thesis by (auto simp: live_def demo_sys_def)
qed

definition demo_records :: "WalRecord list" where
  "demo_records = [\<lparr>wr_seq = 1, wr_payload = [10, 20, 30]\<rparr>, \<lparr>wr_seq = 2, wr_payload = []\<rparr>]"

lemma demo_records_good: "\<forall>r\<in>set demo_records. wal_good r"
  by (simp add: demo_records_def wal_good_def kMaxRecordSize_eq)

section \<open>Crash recovery\<close>

text \<open>C25: Write, crash anywhere, recover. Records appended to a fresh log (by a system that may
  interrupt and shorten every transfer) are written to the file; if the file is then cut at any byte,
  opening it succeeds and yields a prefix of the records: all those that are completely in the
  file, and no other. The file is trimmed to them, so further appends extend a clean log, and the torn
  flag says whether anything was cut off.\<close>
theorem crash_recovers_prefix:
  assumes "live sys" and "live sys'" and "\<forall>r\<in>set rs. wal_good r"
  shows "\<exists>W0 W. wal_open sys [] policy new_wal = Some (True, W0) \<and> wal_appendAll sys rs W0 = Some (True, W) \<and>
    of_bytes (wl_file W) = concat (map wal_frame rs) \<and>
    (\<forall>n\<le>length (of_bytes (wl_file W)). \<exists>k W'.
       wal_open sys' (take n (of_bytes (wl_file W))) policy' W1 = Some (True, W') \<and>
       wl_records W' = take k rs \<and> wal_ok W' \<and> k \<le> length rs \<and>
       length (concat (map wal_frame (take k rs))) \<le> n \<and>
       (k < length rs \<longrightarrow> n < length (concat (map wal_frame (take (Suc k) rs)))) \<and>
       (ws_tailWasTorn (wl_stats W') \<longleftrightarrow> length (concat (map wal_frame (take k rs))) < n))"
proof -
  have e: "wal_scan [] = ([], [])" by (simp add: wal_scan.simps wal_step_def)
  obtain W0 where W0: "wal_open sys [] policy new_wal = Some (True, W0)" "wl_records W0 = []" "wl_isOpen W0" "file_end (wl_file W0)"
    "of_bytes (wl_file W0) = []"
    by (rule wal_open_live [OF assms(1) e, of policy new_wal]) simp
  then have ok0: "wal_ok W0" by (simp add: wal_ok_def)
  obtain W where W: "wal_appendAll sys rs W0 = Some (True, W)" "wal_ok W" "wl_records W = wl_records W0 @ rs"
    by (rule wal_appendAll_live [OF assms(1) ok0 assms(3)])
  let ?F = "concat (map wal_frame rs)"
  have F: "of_bytes (wl_file W) = ?F" using W W0(2) by (simp add: wal_ok_def)
  have "\<exists>k W'. wal_open sys' (take n ?F) policy' W1 = Some (True, W') \<and> wl_records W' = take k rs \<and> wal_ok W' \<and> k \<le> length rs \<and>
       length (concat (map wal_frame (take k rs))) \<le> n \<and>
       (k < length rs \<longrightarrow> n < length (concat (map wal_frame (take (Suc k) rs)))) \<and>
       (ws_tailWasTorn (wl_stats W') \<longleftrightarrow> length (concat (map wal_frame (take k rs))) < n)" if n: "n \<le> length ?F" for n
    using assms(2,3) n by (rule wal_open_cut) blast
  with W0(1) W(1) F show ?thesis by (intro exI [of _ W0] exI [of _ W]) simp
qed

theorem crash_recovers_prefix_witness:
  "\<exists>W0 W k W'. wal_open demo_sys [] EveryWrite new_wal = Some (True, W0) \<and> wal_appendAll demo_sys demo_records W0 = Some (True, W) \<and>
     wal_open demo_sys (take 20 (of_bytes (wl_file W))) EveryWrite new_wal = Some (True, W') \<and> wl_records W' = take 1 demo_records"
proof -
  have len: "length (concat (map wal_frame demo_records)) = 35" "length (concat (map wal_frame (take 1 demo_records))) = 19"
    by (simp_all add: demo_records_def wal_frame_def)
  obtain W0 W where W: "wal_open demo_sys [] EveryWrite new_wal = Some (True, W0)" "wal_appendAll demo_sys demo_records W0 = Some (True, W)"
    and F: "of_bytes (wl_file W) = concat (map wal_frame demo_records)"
    and cut: "\<forall>n\<le>length (of_bytes (wl_file W)). \<exists>k W'.
       wal_open demo_sys (take n (of_bytes (wl_file W))) EveryWrite new_wal = Some (True, W') \<and>
       wl_records W' = take k demo_records \<and> wal_ok W' \<and> k \<le> length demo_records \<and>
       length (concat (map wal_frame (take k demo_records))) \<le> n \<and>
       (k < length demo_records \<longrightarrow> n < length (concat (map wal_frame (take (Suc k) demo_records)))) \<and>
       (ws_tailWasTorn (wl_stats W') \<longleftrightarrow> length (concat (map wal_frame (take k demo_records))) < n)"
    using crash_recovers_prefix [OF demo_live demo_live demo_records_good, of EveryWrite EveryWrite new_wal] by (elim exE conjE) (rule that)
  have "20 \<le> length (of_bytes (wl_file W))" using F len(1) by simp
  with cut obtain k W' where k: "wal_open demo_sys (take 20 (of_bytes (wl_file W))) EveryWrite new_wal = Some (True, W')"
    "wl_records W' = take k demo_records" "length (concat (map wal_frame (take k demo_records))) \<le> 20" "k \<le> length demo_records"
    "k < length demo_records \<longrightarrow> 20 < length (concat (map wal_frame (take (Suc k) demo_records)))"
    by meson
  have two: "length demo_records = 2" "take 2 demo_records = demo_records" by (simp_all add: demo_records_def)
  have "k \<noteq> 0" using k(5) len(2) two(1) by (intro notI) simp
  moreover have "k \<noteq> 2" using k(3) len(1) two(2) by (intro notI) simp
  ultimately have "k = 1" using k(4) two(1) by simp
  with W k(1,2) show ?thesis by blast
qed

section \<open>Damage\<close>

lemma wal_step_damaged:
  assumes "wal_good r" and "i < length (wr_payload r)" and "b \<noteq> wr_payload r ! i"
  shows "wal_step (take 16 (wal_frame r) @ (wr_payload r)[i := b] @ ys) = None"
proof -
  let ?p = "wr_payload r"
  define bs where "bs = take 16 (wal_frame r) @ ?p[i := b] @ ys"
  have bs: "bs = putU32 kWalMagic @ putU32 (wr_seq r) @ putU32 (of_nat (length ?p)) @ putU32 (crc32 ?p) @ ?p[i := b] @ ys"
    by (simp add: bs_def wal_frame_def)
  have f: "getU32 (drop 8 bs) = of_nat (length ?p)" "getU32 (drop 12 bs) = crc32 ?p" "drop 16 bs = ?p[i := b] @ ys"
    by (simp_all only: bs drop_putU32 getU32_putU32)
  have "crc32 (?p[i := b]) \<noteq> crc32 ?p"
    using crc32_one_byte [OF assms(3), of "take i ?p" "drop (Suc i) ?p"] assms(2)
    by (simp add: upd_conv_take_nth_drop id_take_nth_drop [symmetric])
  moreover have "take (unat (of_nat (length ?p) :: u32)) (drop 16 bs) = ?p[i := b]"
    using payload_length [OF assms(1)] f(3) by simp
  ultimately show ?thesis unfolding bs_def [symmetric] using f by (simp add: wal_step_def)
qed

text \<open>A damaged byte is always noticed. Whatever other value a single payload byte of a stored record
  takes, opening the log succeeds, returns exactly the records before the damaged one, and cuts the
  damaged record and everything after it off the file.\<close>
theorem damaged_byte_detected:
  assumes "live sys" and "\<forall>x\<in>set (before @ r # later). wal_good x" and "i < length (wr_payload r)" and "b \<noteq> wr_payload r ! i"
  shows "\<exists>W'. wal_open sys (concat (map wal_frame before) @ take 16 (wal_frame r) @ (wr_payload r)[i := b] @ concat (map wal_frame later)) policy W =
      Some (True, W') \<and> wl_records W' = before \<and> of_bytes (wl_file W') = concat (map wal_frame before) \<and> ws_tailWasTorn (wl_stats W')"
proof -
  let ?ys = "take 16 (wal_frame r) @ (wr_payload r)[i := b] @ concat (map wal_frame later)"
  have "wal_step ?ys = None" using assms by (intro wal_step_damaged) auto
  then have "wal_scan ?ys = ([], ?ys)" by (simp add: wal_scan.simps)
  then have sc: "wal_scan (concat (map wal_frame before) @ ?ys) = (before, ?ys)"
    using wal.scan_encoded [of before ?ys] assms(2) by simp
  have ne: "?ys \<noteq> []" using assms(3) by auto
  show ?thesis
    by (rule wal_open_live [OF assms(1) sc, of policy W]) (use ne in auto)
qed

theorem damaged_byte_detected_witness:
  "\<exists>W'. wal_open demo_sys (take 16 (wal_frame (hd demo_records)) @ [10, 21, 30] @ concat (map wal_frame (tl demo_records))) EveryWrite new_wal =
      Some (True, W') \<and> wl_records W' = []"
proof -
  let ?r = "\<lparr>wr_seq = 1, wr_payload = [10, 20, 30]\<rparr>" and ?l = "[\<lparr>wr_seq = 2, wr_payload = []\<rparr>] :: WalRecord list"
  have "\<forall>x\<in>set ([] @ ?r # ?l). wal_good x" using demo_records_good by (simp add: demo_records_def)
  from damaged_byte_detected [OF demo_live this, of 1 21 EveryWrite new_wal] show ?thesis
    by (auto simp: demo_records_def)
qed

text \<open>The checksum is CRC-32. The routine that looks up a table of 256 words for every byte computes
  the same value as the bit-serial shift register with the reflected IEEE polynomial.\<close>
theorem crc32_is_bitwise: "crc32 data = crc_bits data"
  by (simp add: crc32_eq_bits crc_bits_def)

section \<open>A failed append\<close>

lemma magic_shifted:
  assumes "0 < k" and "k < 4"
  shows "getU32 (take k (putU32 kWalMagic) @ putU32 kWalMagic @ ys) \<noteq> kWalMagic"
proof -
  have m: "putU32 kWalMagic = [0x5F, 0x57, 0x41, 0x4C]" by code_simp
  from assms have "k = 1 \<or> k = 2 \<or> k = 3" by linarith
  moreover have "getU32 ([0x5F, 0x5F, 0x57, 0x41] @ zs) \<noteq> kWalMagic" "getU32 ([0x5F, 0x57, 0x5F, 0x57] @ zs) \<noteq> kWalMagic"
    "getU32 ([0x5F, 0x57, 0x41, 0x5F] @ zs) \<noteq> kWalMagic" for zs
    by (simp_all add: getU32_def) code_simp+
  ultimately show ?thesis unfolding m by auto
qed

lemma wal_record_eta [simp]: "\<lparr>wr_seq = wr_seq r, wr_payload = wr_payload r\<rparr> = r"
  by (cases r) simp

lemma wal_appendAll_file:
  assumes "live sys" and "wl_isOpen W" and "file_end (wl_file W)" and "\<forall>r\<in>set rs. wal_good r"
  shows "\<exists>W'. wal_appendAll sys rs W = Some (True, W') \<and> of_bytes (wl_file W') = of_bytes (wl_file W) @ concat (map wal_frame rs) \<and>
    wl_records W' = wl_records W @ rs"
  using assms(2-)
proof (induction rs arbitrary: W)
  case (Cons r rs)
  have len: "length (wr_payload r) \<le> unat kMaxRecordSize" using Cons.prems(3) by (simp add: wal_good_def)
  obtain W1 where W1: "wal_append sys (wr_seq r) (wr_payload r) W = Some (True, W1)" "wl_isOpen W1" "file_end (wl_file W1)"
    "of_bytes (wl_file W1) = of_bytes (wl_file W) @ wal_frame \<lparr>wr_seq = wr_seq r, wr_payload = wr_payload r\<rparr>"
    "wl_records W1 = wl_records W @ [\<lparr>wr_seq = wr_seq r, wr_payload = wr_payload r\<rparr>]"
    by (rule wal_append_file [OF assms(1) Cons.prems(1,2) len, of "wr_seq r"])
  from Cons.IH [OF W1(2,3)] Cons.prems(3) W1 show ?case by auto
qed simp

text \<open>C26: A failed append can lose later ones. If the system writes only the first one to three bytes of a
  record and then fails, the append reports the failure but leaves those bytes in the file and the
  offset behind them. All records appended afterwards are reported as written, and opening the log
  again returns none of them, because the scan stops at the left-over bytes.\<close>
theorem failed_append_loses_later:
  assumes "wal_ok W" and "length data \<le> unat kMaxRecordSize"
    and "sc_transfer sys (of_calls (wl_file W)) = Done k" and "0 < k" and "k < 4"
    and "sc_transfer sys (Suc (of_calls (wl_file W))) = Failed"
    and "live sys'" and "rs \<noteq> []" and "\<forall>r\<in>set rs. wal_good r"
  shows "\<exists>W1 W2 W3. wal_append sys seq data W = Some (False, W1) \<and> wal_appendAll sys' rs W1 = Some (True, W2) \<and>
    wl_records W2 = wl_records W @ rs \<and> wal_open sys' (of_bytes (wl_file W2)) policy W0 = Some (True, W3) \<and> wl_records W3 = wl_records W"
proof -
  let ?fr = "putU32 kWalMagic @ putU32 seq @ putU32 (of_nat (length data)) @ putU32 (crc32 data) @ data"
  let ?p = "take k (putU32 kWalMagic)" and ?f = "wl_file W"
  have op: "wl_isOpen W" "file_end ?f" "of_bytes ?f = concat (map wal_frame (wl_records W))" "\<forall>r\<in>set (wl_records W). wal_good r"
    using assms(1) by (simp_all add: wal_ok_def)
  have km: "min k (length ?fr - 0) = k" "k < length ?fr" "take k ?fr = ?p" using assms(5) by simp_all
  let ?f1 = "put_bytes ?p (next_call ?f)"
  have f1: "of_bytes ?f1 = of_bytes ?f @ ?p" "file_end ?f1" using put_bytes_end [of "next_call ?f" ?p] op(2) by simp_all
  have c1: "of_calls ?f1 = Suc (of_calls ?f)" by (simp add: put_bytes_def)
  have "writeAll sys ?fr 0 ?f = writeAll sys ?fr k ?f1"
    using km(2) by (subst writeAll.simps)
      (simp only: assms(3) SysResult.case Let_def km(1,3) drop_0 add_0 order.strict_trans1 [OF le0] if_True)
  also have "\<dots> = Some (False, next_call ?f1)"
    using km(2) c1 assms(6) by (subst writeAll.simps) simp
  finally have wa: "writeAll sys ?fr 0 ?f = Some (False, next_call ?f1)" .
  define W1 where "W1 = W\<lparr>wl_file := next_call ?f1\<rparr>"
  have ap: "wal_append sys seq data W = Some (False, W1)"
    using op(1) assms(2) wa by (simp add: wal_append_def Let_def W1_def)
  have "wl_isOpen W1" "file_end (wl_file W1)" using op(1) f1(2) by (simp_all add: W1_def)
  from wal_appendAll_file [OF assms(7) this assms(9)] obtain W2 where
    W2: "wal_appendAll sys' rs W1 = Some (True, W2)" "of_bytes (wl_file W2) = of_bytes (wl_file W1) @ concat (map wal_frame rs)"
    "wl_records W2 = wl_records W1 @ rs" by blast
  let ?ys = "?p @ concat (map wal_frame rs)"
  obtain r rs' where rs: "rs = r # rs'" using assms(8) by (cases rs) auto
  have "getU32 ?ys \<noteq> kWalMagic" using magic_shifted [OF assms(4,5)] by (simp add: rs wal_frame_def)
  then have "wal_scan ?ys = ([], ?ys)" by (simp add: wal_scan.simps wal_step_def)
  then have "wal_scan (of_bytes (wl_file W2)) = (wl_records W, ?ys)"
    using wal.scan_encoded [OF op(4), of ?ys] W2(2) f1(1) op(3) by (simp add: W1_def)
  then obtain W3 where "wal_open sys' (of_bytes (wl_file W2)) policy W0 = Some (True, W3)" "wl_records W3 = wl_records W"
    by (rule wal_open_live [OF assms(7)]) blast
  with ap W2 show ?thesis by (auto simp: W1_def)
qed

definition full_disk :: SysCalls where
  "full_disk = \<lparr>sc_ok = (\<lambda>_. True), sc_transfer = (\<lambda>n. if n = 0 then Done 2 else Failed)\<rparr>"

theorem failed_append_loses_later_witness:
  "\<exists>W1 W2 W3. wal_append full_disk 7 [1, 2] (new_wal\<lparr>wl_isOpen := True\<rparr>) = Some (False, W1) \<and>
     wal_appendAll demo_sys demo_records W1 = Some (True, W2) \<and> wl_records W2 = demo_records \<and>
     wal_open demo_sys (of_bytes (wl_file W2)) EveryWrite new_wal = Some (True, W3) \<and> wl_records W3 = []"
proof -
  let ?W = "new_wal\<lparr>wl_isOpen := True\<rparr>"
  have "wal_ok ?W" "length [1, 2 :: Byte] \<le> unat kMaxRecordSize" "sc_transfer full_disk (of_calls (wl_file ?W)) = Done 2"
    "sc_transfer full_disk (Suc (of_calls (wl_file ?W))) = Failed" "demo_records \<noteq> []"
    by (simp_all add: wal_ok_def new_wal_def file_end_def full_disk_def kMaxRecordSize_eq demo_records_def)
  from failed_append_loses_later [OF this(1,2,3) _ _ this(4) demo_live this(5) demo_records_good, of 7 EveryWrite new_wal]
  show ?thesis by (simp add: new_wal_def)
qed

text \<open>Dropping a prefix. On an intact log \<open>truncateThrough\<close> succeeds and leaves, in memory and on disk,
  exactly the records with a larger sequence number, in order; opening the file again returns them.\<close>
theorem wal_truncate_keeps_suffix:
  assumes "live sys" and "wal_ok W"
  shows "\<exists>W' W2. wal_truncateThrough sys seq W = Some (True, W') \<and>
    of_bytes (wl_file W') = concat (map wal_frame (filter (\<lambda>r. seq < wr_seq r) (wl_records W))) \<and>
    wal_open sys (of_bytes (wl_file W')) policy W0 = Some (True, W2) \<and>
    wl_records W2 = filter (\<lambda>r. seq < wr_seq r) (wl_records W) \<and> \<not> ws_tailWasTorn (wl_stats W2)"
proof -
  let ?keep = "filter (\<lambda>r. seq < wr_seq r) (wl_records W)"
  obtain W' where W': "wal_truncateThrough sys seq W = Some (True, W')" "wal_ok W'" "wl_records W' = ?keep"
    using assms by (rule wal_truncateThrough_live)
  then have F: "of_bytes (wl_file W') = concat (map wal_frame ?keep)" and sc: "wal_scan (concat (map wal_frame ?keep)) = (?keep, [])"
    using scan_frames_exact [of ?keep] by (auto simp: wal_ok_def)
  obtain W2 where "wal_open sys (concat (map wal_frame ?keep)) policy W0 = Some (True, W2)" "wl_records W2 = ?keep"
    "ws_tailWasTorn (wl_stats W2) \<longleftrightarrow> [] \<noteq> ([] :: Buffer)"
    by (rule wal_open_live [OF assms(1) sc, of policy W0]) blast
  with W' F show ?thesis by auto
qed

theorem wal_truncate_keeps_suffix_witness:
  "\<exists>W0 W W'. wal_open demo_sys (concat (map wal_frame demo_records)) EveryWrite new_wal = Some (True, W) \<and>
     wal_truncateThrough demo_sys 1 W = Some (True, W') \<and> of_bytes (wl_file W') = wal_frame (demo_records ! 1)"
proof -
  obtain W where W: "wal_open demo_sys (concat (map wal_frame demo_records)) EveryWrite new_wal = Some (True, W)" "wl_records W = demo_records"
    "wl_isOpen W" "file_end (wl_file W)" "of_bytes (wl_file W) = take (length (concat (map wal_frame demo_records)) - length ([] :: Buffer)) (concat (map wal_frame demo_records))"
    by (rule wal_open_live [OF demo_live scan_frames_exact [OF demo_records_good], of EveryWrite new_wal]) blast
  then have "wal_ok W" using demo_records_good by (simp add: wal_ok_def)
  from wal_truncate_keeps_suffix [OF demo_live this, of 1 EveryWrite new_wal] W show ?thesis
    by (auto simp: demo_records_def)
qed

end
