(* ===== verification/Storage_Properties.thy ===== *)
theory Storage_Properties
  imports Durable_Recovery Wal_Properties Engine_Properties
begin

text \<open>
  The properties of the small files and of recovery: votes and snapshots survive a crash at any point,
  a damaged snapshot is refused, a damaged vote is silently forgotten, and a node recovers exactly the state
  its log implies, except when a damaged snapshot makes it fall back on a log that was already truncated.
\<close>

section \<open>A concrete disk\<close>

definition demo_disk_calls :: DiskCalls where
  "demo_disk_calls = \<lparr>dc_mkdir = True, dc_state = demo_sys, dc_wal = demo_sys, dc_snapshot = demo_sys\<rparr>"

definition no_file :: Slot where
  "no_file = \<lparr>sl_target = None, sl_tmp = None, sl_calls = 0\<rparr>"

definition demo_stable :: StableStore where
  "demo_stable = \<lparr>sb_slot = no_file, sb_state = new_stable_state, sb_stats = new_stable_stats\<rparr>"

definition demo_closed :: DurableState where
  "demo_closed = \<lparr>ds_wal = new_wal, ds_stable = demo_stable, ds_slot = no_file, ds_snapshot = None\<rparr>"

lemma demo_disk_live: "disk_live demo_disk_calls"
  by (simp add: disk_live_def demo_disk_calls_def demo_live)

section \<open>The vote\<close>

lemma stable_save_cases:
  assumes "stable_save sys st B = Some (ok, B')"
  shows "sl_target (sb_slot B') = sl_target (sb_slot B) \<or> sl_target (sb_slot B') = Some (stable_file st)"
    and "ok \<Longrightarrow> sl_target (sb_slot B') = Some (stable_file st) \<and> sb_state B' = st"
proof -
  obtain r S where r: "replaceFile sys (stable_file st) (sb_slot B) = Some (r, S)"
    using assms by (auto simp: stable_save_def bind_eq_Some_conv)
  note t = replaceFile_target [OF r]
  show "sl_target (sb_slot B') = sl_target (sb_slot B) \<or> sl_target (sb_slot B') = Some (stable_file st)"
    "ok \<Longrightarrow> sl_target (sb_slot B') = Some (stable_file st) \<and> sb_state B' = st"
    using assms r t by (auto simp: stable_save_def split: Outcome.splits)
qed

text \<open>C23: The vote survives a crash. Whatever fails while a term and vote are saved, opening the store afterwards
  yields the saved state or the one before it, whole and never reported as corrupt; when \<open>save\<close> reported
  success it is the saved one. A system that does not fail makes \<open>save\<close> succeed.\<close>
theorem vote_survives_crash:
  assumes "sl_target (sb_slot B) = map_option stable_file old" and "live sys'"
  shows "(live sys \<longrightarrow> (\<exists>B'. stable_save sys st B = Some (True, B'))) \<and>
    (stable_save sys st B = Some (ok, B') \<longrightarrow>
      (\<exists>B''. stable_open sys' (sb_slot B') = Some (True, B'') \<and> \<not> sx_recoveredFromCorruption (sb_stats B'') \<and>
        (sb_state B'' = st \<or> sb_state B'' = (case old of None \<Rightarrow> new_stable_state | Some st0 \<Rightarrow> st0)) \<and>
        (ok \<longrightarrow> sb_state B'' = st \<and> sb_state B' = st)))"
proof (intro conjI impI)
  assume "live sys"
  then obtain S where "replaceFile sys (stable_file st) (sb_slot B) = Some (Replaced, S)" by (rule replaceFile_live)
  then show "\<exists>B'. stable_save sys st B = Some (True, B')" by (simp add: stable_save_def)
next
  assume sv: "stable_save sys st B = Some (ok, B')"
  have saved: "\<exists>B''. stable_open sys' (sb_slot B') = Some (True, B'') \<and> \<not> sx_recoveredFromCorruption (sb_stats B'') \<and> sb_state B'' = x"
    if "sl_target (sb_slot B') = Some (stable_file x)" for x
    by (rule stable_open_saved [OF assms(2) that]) blast
  have missing: "\<exists>B''. stable_open sys' (sb_slot B') = Some (True, B'') \<and> \<not> sx_recoveredFromCorruption (sb_stats B'') \<and> sb_state B'' = new_stable_state"
    if "sl_target (sb_slot B') = None" using stable_open_missing [OF assms(2) that] by (auto simp: new_stable_stats_def)
  show "\<exists>B''. stable_open sys' (sb_slot B') = Some (True, B'') \<and> \<not> sx_recoveredFromCorruption (sb_stats B'') \<and>
        (sb_state B'' = st \<or> sb_state B'' = (case old of None \<Rightarrow> new_stable_state | Some st0 \<Rightarrow> st0)) \<and> (ok \<longrightarrow> sb_state B'' = st \<and> sb_state B' = st)"
  proof (cases "sl_target (sb_slot B') = Some (stable_file st)")
    case True
    then show ?thesis using saved [of st] stable_save_cases(2) [OF sv] by blast
  next
    case False
    then have "\<not> ok" and t: "sl_target (sb_slot B') = map_option stable_file old"
      using stable_save_cases [OF sv] assms(1) by auto
    then show ?thesis using saved missing by (cases old) auto
  qed
qed

theorem vote_survives_crash_witness:
  "\<exists>B' B''. stable_save demo_sys \<lparr>ss_currentTerm = 5, ss_votedFor = 2\<rparr> demo_stable = Some (True, B') \<and>
     stable_open demo_sys (sb_slot B') = Some (True, B'') \<and> sb_state B'' = \<lparr>ss_currentTerm = 5, ss_votedFor = 2\<rparr>"
proof -
  let ?st = "\<lparr>ss_currentTerm = 5, ss_votedFor = 2\<rparr> :: StableState"
  have none: "sl_target (sb_slot demo_stable) = map_option stable_file None" by (simp add: demo_stable_def no_file_def)
  obtain B' where B': "stable_save demo_sys ?st demo_stable = Some (True, B')"
    using vote_survives_crash [OF none demo_live, of demo_sys ?st True] demo_live by blast
  then show ?thesis using vote_survives_crash [OF none demo_live, of demo_sys ?st True B'] by blast
qed

text \<open>C27: A damaged vote is forgotten without a failure. Whatever other value a single byte of the file takes,
  opening the store succeeds and starts from term 0 with no vote, only the statistics tell.\<close>
theorem damaged_vote_forgotten:
  assumes "live sys" and "i < kFileSize" and "b \<noteq> stable_file st ! i" and "sl_target S = Some ((stable_file st)[i := b])"
  shows "\<exists>B. stable_open sys S = Some (True, B) \<and> sb_state B = new_stable_state \<and> sx_recoveredFromCorruption (sb_stats B)"
proof -
  obtain d where d: "length d = 16" "stable_file st = d @ putU32 (crc32 d)"
    by (rule that [of "putU32 kStableMagic @ putU64 (ss_currentTerm st) @ putU32 (ss_votedFor st)"])
      (simp_all add: stable_file_def putU64_def Let_def)
  have "i < length d + 4" using assms(2) d(1) by (simp add: kFileSize_def)
  from sealed_damaged [OF this assms(3) [unfolded d(2)] refl]
  have "crc32 (take 16 ((stable_file st)[i := b])) \<noteq> getU32 (drop 16 ((stable_file st)[i := b]))"
    unfolding d(1) d(2) [symmetric] .
  with stable_open_content [OF assms(1,4)] show ?thesis by metis
qed

theorem damaged_vote_forgotten_witness:
  "\<exists>B. stable_open demo_sys (no_file\<lparr>sl_target := Some ((stable_file \<lparr>ss_currentTerm = 5, ss_votedFor = 2\<rparr>)[12 := 3])\<rparr>) = Some (True, B) \<and>
     sb_state B = new_stable_state"
proof -
  let ?st = "\<lparr>ss_currentTerm = 5, ss_votedFor = 2\<rparr> :: StableState"
  have len: "length (putU32 kStableMagic @ putU64 5) = 12" by (simp add: putU64_def)
  have "stable_file ?st = (putU32 kStableMagic @ putU64 5) @ putU32 2 @ drop 16 (stable_file ?st)"
    by (simp add: stable_file_def Let_def putU64_def)
  then have "stable_file ?st ! 12 = (putU32 2 @ drop 16 (stable_file ?st)) ! (12 - 12)"
    using len by (metis less_irrefl nth_append)
  also have "\<dots> = 2" by (simp add: putU32_def le_bytes_def nth_append)
  finally have "3 \<noteq> stable_file ?st ! 12" by simp
  then show ?thesis
    using damaged_vote_forgotten [OF demo_live, of 12 3 ?st "no_file\<lparr>sl_target := Some ((stable_file ?st)[12 := 3])\<rparr>"] by (auto simp: kFileSize_def)
qed

section \<open>The snapshot file\<close>

lemma loadSnapshot_damaged:
  assumes "i < length (snapshot_file snap)" and "b \<noteq> snapshot_file snap ! i"
  shows "loadSnapshot ((snapshot_file snap)[i := b]) = Some (Inl ChecksumMismatch)"
proof -
  obtain d where d: "snapshot_file snap = d @ putU32 (crc32 d)" by (auto simp: snapshot_file_def Let_def)
  then have "i < length d + 4" using assms(1) by simp
  from sealed_damaged [OF this assms(2) [unfolded d] refl] show ?thesis
    unfolding d by (simp add: loadSnapshot_def Let_def)
qed

text \<open>C24: A snapshot survives a crash and is loaded as it was. Whatever fails while the snapshot of a well-formed engine
  is written, the file holds afterwards what it held before or the whole new snapshot, the new one when
  the write reported success; a system that does not fail makes it succeed. Loading the new file passes
  every check and restoring it yields exactly the engine.\<close>
theorem snapshot_survives_crash:
  assumes "wf_engine e" and "fits e" and "live sys'" and "me_instrument e0 = me_instrument e"
  shows "(live sys \<longrightarrow> (\<exists>S'. writeSnapshotFile sys (snapshot_of e seq trm) S = Some (True, S'))) \<and>
    (writeSnapshotFile sys (snapshot_of e seq trm) S = Some (ok, S') \<longrightarrow>
      (ok \<longrightarrow> sl_target S' = Some (snapshot_file (snapshot_of e seq trm))) \<and>
      (sl_target S' = sl_target S \<or>
       (\<exists>S''. readSnapshotFile sys' S' = Some (Some (snapshot_of e seq trm), None, S'')) \<and>
         restore (sr_engine (snapshot_of e seq trm)) e0 = Some (True, e)))"
proof (intro conjI impI)
  assume "live sys"
  then obtain S1 where "replaceFile sys (snapshot_file (snapshot_of e seq trm)) S = Some (Replaced, S1)" by (rule replaceFile_live)
  then show "\<exists>S'. writeSnapshotFile sys (snapshot_of e seq trm) S = Some (True, S')" by (simp add: writeSnapshotFile_def)
next
  assume w: "writeSnapshotFile sys (snapshot_of e seq trm) S = Some (ok, S')"
  show "sl_target S' = Some (snapshot_file (snapshot_of e seq trm))" if ok
    using writeSnapshotFile_target(2) [OF w that] .
  have "readSnapshotFile sys' S' = Some (Some (snapshot_of e seq trm), None, S'')"
    if "readSnapshotFile sys' S' = Some (case sl_target S' of None \<Rightarrow> (None, None, S'')
      | Some bytes \<Rightarrow> (case the (loadSnapshot bytes) of Inl err \<Rightarrow> (None, Some err, S'') | Inr snap \<Rightarrow> (Some snap, None, S'')))"
      "sl_target S' = Some (snapshot_file (snapshot_of e seq trm))" for S''
    using that loadSnapshot_of [OF assms(1,2), of seq trm] by simp
  moreover have "restore (sr_engine (snapshot_of e seq trm)) e0 = Some (True, e)"
    using restore_snapshot [OF assms(1,4)] by (simp add: snapshot_of_def)
  ultimately show "sl_target S' = sl_target S \<or> (\<exists>S''. readSnapshotFile sys' S' = Some (Some (snapshot_of e seq trm), None, S'')) \<and>
      restore (sr_engine (snapshot_of e seq trm)) e0 = Some (True, e)"
    using writeSnapshotFile_target(1) [OF w] readSnapshotFile_live [OF assms(3), of S'] by metis
qed

lemma demo_fits: "fits demo_engine"
proof -
  have "length (sn_orders (snapshot demo_engine)) = 4" by code_simp
  then show ?thesis by (simp add: fits_def kMaxOrders_def)
qed

theorem snapshot_survives_crash_witness:
  "\<exists>S' S''. writeSnapshotFile demo_sys (snapshot_of demo_engine 4 1) no_file = Some (True, S') \<and>
     readSnapshotFile demo_sys S' = Some (Some (snapshot_of demo_engine 4 1), None, S'')"
proof -
  have ins: "me_instrument (new_engine 1) = me_instrument demo_engine" by code_simp
  note use = snapshot_survives_crash [OF demo_wf demo_fits demo_live ins, of demo_sys 4 1 no_file]
  obtain S' where S': "writeSnapshotFile demo_sys (snapshot_of demo_engine 4 1) no_file = Some (True, S')"
    using use demo_live by blast
  have "sl_target S' \<noteq> sl_target no_file" using use [of True S'] S' by (simp add: no_file_def)
  with use [of True S'] S' show ?thesis by blast
qed

text \<open>A damaged snapshot is refused. Whatever other value a single byte of a snapshot file takes, loading
  it returns no snapshot but a checksum error, and the file is left alone.\<close>
theorem damaged_snapshot_refused:
  assumes "live sys" and "i < length (snapshot_file snap)" and "b \<noteq> snapshot_file snap ! i" and "sl_target S = Some ((snapshot_file snap)[i := b])"
  shows "\<exists>S'. readSnapshotFile sys S = Some (None, Some ChecksumMismatch, S') \<and> sl_target S' = sl_target S"
proof -
  have bad: "loadSnapshot ((snapshot_file snap)[i := b]) = Some (Inl ChecksumMismatch)"
    using assms(2,3) by (rule loadSnapshot_damaged)
  show ?thesis by (rule readSnapshotFile_live [OF assms(1), of S]) (simp add: assms(4) bad)
qed

theorem damaged_snapshot_refused_witness:
  "\<exists>S'. readSnapshotFile demo_sys (no_file\<lparr>sl_target := Some ((snapshot_file (snapshot_of demo_engine 4 1))[0 := 7])\<rparr>) =
     Some (None, Some ChecksumMismatch, S')"
proof -
  let ?snap = "snapshot_of demo_engine 4 1"
  have f: "snapshot_file ?snap = le_bytes 4 kSnapMagic @ drop 4 (snapshot_file ?snap)"
  proof -
    have "encodeSnapshot ?snap [] = w_u32 kSnapMagic [] @ drop 4 (encodeSnapshot ?snap [])"
      by (simp add: encodeSnapshot_def encodeTop_def Let_def fold_appends [of encodeOrder, OF c_order.appends] w_u32_def w_u16_def w_u64_def w_i64_def w_u8_def)
    then show ?thesis by (metis append_eq_conv_conj append_Nil append.assoc snapshot_file_def w_u32_def length_le_bytes)
  qed
  have "snapshot_file ?snap ! 0 = le_bytes 4 kSnapMagic ! 0" using f by (metis length_le_bytes nth_append zero_less_numeral)
  also have "\<dots> = 0x53" by (simp add: le_bytes_def kSnapMagic_def)
  finally have "7 \<noteq> snapshot_file ?snap ! 0" by simp
  moreover have "0 < length (snapshot_file ?snap)" using f by (metis length_append length_le_bytes add_pos_nonneg zero_le zero_less_numeral)
  ultimately show ?thesis
    using damaged_snapshot_refused [OF demo_live, of 0 ?snap 7 "no_file\<lparr>sl_target := Some ((snapshot_file ?snap)[0 := 7])\<rparr>"] by (auto simp del: list_update_code)
qed

section \<open>Recovery\<close>

text \<open>C22: Recovery is exact. Take a node that appended entries, took snapshots (some of which may have failed half
  way), installed snapshots, saved votes and crashed any number of times. If it crashes with its log
  cut at any byte, opening its files succeeds and recovery rebuilds the engine by replaying, from an empty
  engine, the commands of a prefix of its entries: each once, none twice although the log may overlap the
  snapshot. The prefix reaches at least to the last snapshot and is everything when the log is not cut; the
  command log continues it without a gap.\<close>
theorem durable_recovery:
  assumes "durable_run ins es D" and "disk_live sys" and "n \<le> length (of_bytes (wl_file (ds_wal D)))"
  shows "\<exists>D' e L rep m. durable_open sys (disk_of n D) policy D0 = Some (True, D') \<and>
    durable_recover D' (new_engine ins) new_log = Some (True, e, L, rep) \<and>
    replay (map le_command (take m es)) (new_engine ins) = Some e \<and> m \<le> length es \<and>
    (\<forall>snap. ds_snapshot D = Some snap \<longrightarrow> unat (sr_lastIncludedSeq snap) \<le> m) \<and>
    (n = length (of_bytes (wl_file (ds_wal D))) \<longrightarrow> m = length es) \<and>
    log_ok L \<and> unat (lg_lastSeq L) = m \<and> lg_entries L = drop (m - length (lg_entries L)) (take m es) \<and>
    unat (rr_entriesReplayed rep) = length (lg_entries L) \<and> durable_run ins (take m es) D'"
proof -
  obtain k k0 where inv: "durable_inv ins es k k0 D" using durable_run_inv [OF assms(1)] by blast
  obtain D' m so where D': "durable_open sys (disk_of n D) policy D0 = Some (True, D')" "k \<le> m" "m \<le> length es"
    "n = length (of_bytes (wl_file (ds_wal D))) \<Longrightarrow> m = length es" "durable_inv ins (take m es) k k D'" "ds_snapshot D' = so"
    "stored ins (take m es) k so"
    using assms(2) inv assms(3) by (rule durable_open_cut [where policy = policy and ?D0.0 = D0]) blast
  obtain L rep where L: "durable_recover D' (new_engine ins) new_log = Some (True, engine_at ins (take m es) (length (take m es)), L, rep)"
    "lg_entries L = drop k (take m es)" "unat (lg_lastSeq L) = length (take m es)" "log_ok L" "unat (rr_entriesReplayed rep) = length (take m es) - k"
    using D'(5,7) unfolding D'(6) [symmetric] by (rule durable_recover_inv)
  have len: "length (take m es) = m" using D'(3) by simp
  have "durable_run ins (take (unat (lg_lastSeq L)) es) D'"
    using assms D'(1) L(1) by (rule durable_run.crash)
  moreover have "replay (map le_command (take m es)) (new_engine ins) = Some (engine_at ins (take m es) (length (take m es)))"
    unfolding len by (simp add: engine_at_def state_after)
  moreover have "unat (sr_lastIncludedSeq snap) \<le> m" if "ds_snapshot D = Some snap" for snap
    using inv that D'(2) by (simp add: durable_inv_def)
  moreover have "m - length (lg_entries L) = k" using L(2) len D'(2) by simp
  ultimately show ?thesis using D' L len
    by (intro exI [of _ D'] exI [of _ "engine_at ins (take m es) (length (take m es))"] exI [of _ L] exI [of _ rep] exI [of _ m]) simp
qed

definition demo_entries :: "LogEntry list" where
  "demo_entries = [\<lparr>le_seq = 1, le_term = 1, le_command = New (limit_order 1 Sell 101 5)\<rparr>, \<lparr>le_seq = 2, le_term = 1, le_command = Cancel \<lparr>co_id = 1\<rparr>\<rparr>]"

lemma demo_run: "\<exists>D. durable_run 1 demo_entries D \<and> ds_snapshot D = None"
proof -
  let ?disk = "\<lparr>dk_state = no_file, dk_wal = [], dk_snapshot = no_file\<rparr>" and ?e = "demo_entries ! 0" and ?f = "demo_entries ! 1"
  obtain D where D: "durable_open demo_disk_calls ?disk EveryWrite demo_closed = Some (True, D)" "durable_inv 1 [] 0 0 D" "ds_snapshot D = None"
    by (rule fresh_inv [OF demo_disk_live, of ?disk]) (auto simp: no_file_def)
  have r0: "durable_run 1 [] D" by (rule durable_run.fresh [OF demo_disk_live _ _ D(1)]) (simp_all add: no_file_def)
  have w: "live (dc_wal demo_disk_calls)" using demo_disk_live by (simp add: disk_live_def)
  obtain D1 where D1: "appendEntry demo_disk_calls ?e D = Some (True, D1)" "durable_inv 1 ([] @ [?e]) 0 0 D1"
    by (rule append_inv [OF D(2) w, of ?e]) (auto simp: demo_entries_def)
  have r1: "durable_run 1 ([] @ [?e]) D1" by (rule durable_run.append [OF r0 w _ _ D1(1)]) (simp_all add: demo_entries_def)
  obtain D2 where D2: "appendEntry demo_disk_calls ?f D1 = Some (True, D2)" "durable_inv 1 (([] @ [?e]) @ [?f]) 0 0 D2"
    by (rule append_inv [OF D1(2) w, of ?f]) (auto simp: demo_entries_def)
  have "durable_run 1 (([] @ [?e]) @ [?f]) D2" by (rule durable_run.append [OF r1 w _ _ D2(1)]) (simp_all add: demo_entries_def)
  moreover have "ds_snapshot D2 = None" using D(3) D1(1) D2(1) by (auto simp: appendEntry_def)
  ultimately show ?thesis by (intro exI [of _ D2]) (simp add: demo_entries_def)
qed

theorem durable_recovery_witness:
  "\<exists>D D' e L rep. durable_run 1 demo_entries D \<and>
     durable_open demo_disk_calls (disk_of (length (of_bytes (wl_file (ds_wal D)))) D) EveryWrite demo_closed = Some (True, D') \<and>
     durable_recover D' (new_engine 1) new_log = Some (True, e, L, rep) \<and>
     replay (map le_command demo_entries) (new_engine 1) = Some e"
proof -
  obtain D where D: "durable_run 1 demo_entries D" using demo_run by blast
  from durable_recovery [OF D demo_disk_live order_refl, of EveryWrite demo_closed] D show ?thesis by auto
qed

text \<open>C28: A damaged snapshot loses the state. After a successful \<open>takeSnapshot\<close> at a positive position, let any single
  byte of the snapshot file be damaged. Opening the node's files still succeeds, and recovery reports
  success with an empty engine and an empty log: the entries before the snapshot are gone from the log and
  those after it do not continue an empty one.\<close>
theorem damaged_snapshot_loses_state:
  assumes "durable_run ins es D" and "live (dc_wal sys)" and "0 < k" and "k \<le> length es"
    and "\<And>snap. ds_snapshot D = Some snap \<Longrightarrow> unat (sr_lastIncludedSeq snap) \<le> k"
    and "takeSnapshot sys (engine_at ins es k) (of_nat k) trm D = Some (True, D1)"
    and "bytes = snapshot_file (snap_at ins es k trm)" and "i < length bytes" and "b \<noteq> bytes ! i" and "disk_live sys'"
    and "disk = (disk_of (length (of_bytes (wl_file (ds_wal D1)))) D1)\<lparr>dk_snapshot := (ds_slot D1)\<lparr>sl_target := Some (bytes[i := b])\<rparr>\<rparr>"
  shows "sl_target (ds_slot D1) = Some bytes \<and> (\<exists>D' rep. durable_open sys' disk policy D0 = Some (True, D') \<and>
    durable_recover D' (new_engine ins) new_log = Some (True, new_engine ins, new_log, rep))"
proof -
  obtain k1 k0 where inv: "durable_inv ins es k1 k0 D" using durable_run_inv [OF assms(1)] by blast
  have le: "k0 \<le> k" using inv assms(5) by (auto simp: durable_inv_def split: option.splits)
  obtain S where S: "writeSnapshotFile (dc_snapshot sys) (snap_at ins es k trm) (ds_slot D) = Some (True, S)"
    using assms(6) by (auto simp: takeSnapshot_eq bind_eq_Some_conv split: if_splits)
  obtain W where W: "D1 = D\<lparr>ds_slot := S, ds_snapshot := Some (snap_at ins es k trm), ds_wal := W\<rparr>" "wal_ok W"
    "wl_records W = map wal_of (drop k es)" "sl_target S = Some bytes"
    using takeSnapshot_written [OF inv assms(2) le assms(4) S] assms(6,7) by auto
  have lv: "dc_mkdir sys'" "live (dc_state sys')" "live (dc_wal sys')" "live (dc_snapshot sys')" using assms(10) by (simp_all add: disk_live_def)
  obtain B where B: "stable_open (dc_state sys') (sb_slot (ds_stable D1)) = Some (True, B)" using stable_open_live [OF lv(2)] by blast
  let ?F = "concat (map wal_frame (wl_records W))"
  have F: "of_bytes (wl_file W) = ?F" "\<forall>r\<in>set (wl_records W). wal_good r" using W(2) by (simp_all add: wal_ok_def)
  obtain W' where W': "wal_open (dc_wal sys') ?F policy (ds_wal D0) = Some (True, W')" "wl_records W' = wl_records W"
    by (rule wal_open_live [OF lv(3) scan_frames_exact [OF F(2)], of policy "ds_wal D0"]) blast
  have bad: "loadSnapshot (bytes[i := b]) = Some (Inl ChecksumMismatch)" using assms(8,9) loadSnapshot_damaged unfolding assms(7) by blast
  obtain S' where S': "readSnapshotFile (dc_snapshot sys') (S\<lparr>sl_target := Some (bytes[i := b])\<rparr>) = Some (None, Some ChecksumMismatch, S')"
    by (rule readSnapshotFile_live [OF lv(4), of "S\<lparr>sl_target := Some (bytes[i := b])\<rparr>"]) (simp add: bad)
  let ?D = "D0\<lparr>ds_stable := B, ds_wal := W', ds_slot := S', ds_snapshot := None\<rparr>"
  have op: "durable_open sys' disk policy D0 = Some (True, ?D)"
    using lv(1) B W'(1) S' F(1) W(1) by (simp add: assms(11) durable_open_def disk_of_def)
  have "recoverLoop (wl_records W') 0 (new_engine ins) new_log 0 = Some (new_engine ins, new_log, 0)"
  proof (cases "drop k es")
    case (Cons x xs)
    then have "x \<in> set (drop k es)" by simp
    then have "k < unat (le_seq x)" using numbered_suffix inv by (auto simp: durable_inv_def)
    then have "\<not> le_seq x \<le> 0" "le_seq x \<noteq> 1" using assms(3) by (auto simp: word_le_nat_alt)
    then show ?thesis using Cons W'(2) W(3) by (simp add: appendAt_def new_log_def)
  qed (use W'(2) W(3) in simp)
  then have "\<exists>rep. durable_recover ?D (new_engine ins) new_log = Some (True, new_engine ins, new_log, rep)"
    by (simp add: durable_recover_def)
  with op W(1,4) show ?thesis by auto
qed

theorem damaged_snapshot_loses_state_witness:
  "\<exists>D D1 bytes D' rep. durable_run 1 demo_entries D \<and> takeSnapshot demo_disk_calls (engine_at 1 demo_entries 1) 1 1 D = Some (True, D1) \<and>
     sl_target (ds_slot D1) = Some bytes \<and>
     durable_open demo_disk_calls ((disk_of (length (of_bytes (wl_file (ds_wal D1)))) D1)
       \<lparr>dk_snapshot := (ds_slot D1)\<lparr>sl_target := Some (bytes[0 := bytes ! 0 + 1])\<rparr>\<rparr>) EveryWrite demo_closed = Some (True, D') \<and>
     durable_recover D' (new_engine 1) new_log = Some (True, new_engine 1, new_log, rep)"
proof -
  obtain D where D: "durable_run 1 demo_entries D" "ds_snapshot D = None" using demo_run by blast
  obtain j j0 where inv: "durable_inv 1 demo_entries j j0 D" using durable_run_inv [OF D(1)] by blast
  then have j0: "j0 \<le> 1" using D(2) by (simp add: durable_inv_def)
  have lv: "live (dc_wal demo_disk_calls)" "live (dc_snapshot demo_disk_calls)" using demo_disk_live by (simp_all add: disk_live_def)
  have k: "(0 :: nat) < 1" "1 \<le> length demo_entries" by (simp_all add: demo_entries_def)
  let ?snap = "snap_at 1 demo_entries 1 1"
  let ?bytes = "snapshot_file ?snap"
  obtain S where "replaceFile (dc_snapshot demo_disk_calls) ?bytes (ds_slot D) = Some (Replaced, S)" using lv(2) by (rule replaceFile_live)
  then have "writeSnapshotFile (dc_snapshot demo_disk_calls) ?snap (ds_slot D) = Some (True, S)" by (simp add: writeSnapshotFile_def)
  then obtain D1 where D1: "takeSnapshot demo_disk_calls (engine_at 1 demo_entries 1) (of_nat 1) 1 D = Some (True, D1)"
    by (rule takeSnapshot_written [OF inv lv(1) j0 k(2)])
  have "0 < length ?bytes" "?bytes ! 0 + 1 \<noteq> ?bytes ! 0" by (simp_all add: snapshot_file_def Let_def)
  from damaged_snapshot_loses_state [OF D(1) lv(1) k _ D1 refl this demo_disk_live refl, of EveryWrite demo_closed] D D1
  show ?thesis by auto
qed

end
