(* ===== verification/Framing.thy ===== *)
theory Framing
  imports Message Byte_Stream
begin

text \<open>
  Framing (\<open>net/framing.hpp\<close>, \<open>net/framing.cpp\<close>): \<open>FrameReader\<close> accumulates bytes in arbitrary
  chunks and yields complete frames, \<open>FrameWriter\<close> queues outgoing bytes and accounts for short
  writes. The reader refines a scan of the byte stream that does not depend on chunk boundaries
  or on when the buffer is compacted; the writer refines a byte queue.
\<close>

definition kCompactThreshold :: nat where "kCompactThreshold = 64 * 1024"

section \<open>FrameReader\<close>

record Frame =
  fr_type :: MessageType
  fr_payload :: Buffer

datatype FrameStatus = StatusOk | BadMagic | BadVersion | PayloadTooLarge

record FrameReader =
  frd_buf :: Buffer
  frd_readPos :: nat
  frd_status :: FrameStatus

definition new_frame_reader :: FrameReader where
  "new_frame_reader = \<lparr>frd_buf = [], frd_readPos = 0, frd_status = StatusOk\<rparr>"

definition frd_failed :: "FrameReader \<Rightarrow> bool" where
  "frd_failed r \<longleftrightarrow> frd_status r \<noteq> StatusOk"

definition frd_buffered :: "FrameReader \<Rightarrow> nat" where
  "frd_buffered r = length (frd_buf r) - frd_readPos r"

definition frd_append :: "Buffer \<Rightarrow> FrameReader \<Rightarrow> FrameReader" where
  "frd_append data r = (if frd_failed r \<or> data = [] then r else r\<lparr>frd_buf := frd_buf r @ data\<rparr>)"

definition frd_compact :: "FrameReader \<Rightarrow> FrameReader" where
  "frd_compact r = (if frd_readPos r = 0 then r
     else r\<lparr>frd_buf := drop (frd_readPos r) (frd_buf r), frd_readPos := 0\<rparr>)"

text \<open>A read whose result flag is ignored: the variable keeps its initial zero on failure.\<close>

definition rd_or_zero :: "'a::zero reader \<Rightarrow> WireReader \<Rightarrow> 'a \<times> WireReader" where
  "rd_or_zero p r = (case p r of (Some x, r') \<Rightarrow> (x, r') | (None, r') \<Rightarrow> (0, r'))"

definition frd_next :: "FrameReader \<Rightarrow> Frame option \<times> FrameReader" where
  "frd_next fr =
     (if frd_failed fr then (None, fr)
      else if frd_buffered fr < kHeaderSize then (None, fr)
      else
        let r0 = new_reader (drop (frd_readPos fr) (frd_buf fr));
            (magic, r1) = rd_or_zero rd_u32 r0;
            (version, r2) = rd_or_zero rd_u16 r1;
            (rawType, r3) = rd_or_zero rd_u16 r2;
            (len, r4) = rd_or_zero rd_u32 r3
        in if magic \<noteq> kMagic then (None, fr\<lparr>frd_status := BadMagic\<rparr>)
           else if version \<noteq> kVersion then (None, fr\<lparr>frd_status := BadVersion\<rparr>)
           else if len > kMaxPayload then (None, fr\<lparr>frd_status := PayloadTooLarge\<rparr>)
           else if frd_buffered fr < kHeaderSize + unat len then (None, fr)
           else
             let frame = \<lparr>fr_type = type_of_value rawType,
                   fr_payload = take (unat len) (drop (frd_readPos fr + kHeaderSize) (frd_buf fr))\<rparr>;
                 fr' = fr\<lparr>frd_readPos := frd_readPos fr + (kHeaderSize + unat len)\<rparr>
             in (Some frame, if frd_readPos fr' \<ge> kCompactThreshold then frd_compact fr' else fr'))"

definition frd_reset :: "FrameReader \<Rightarrow> FrameReader" where
  "frd_reset r = \<lparr>frd_buf = [], frd_readPos = 0, frd_status = StatusOk\<rparr>"

section \<open>FrameWriter\<close>

record FrameWriter =
  fw_buf :: Buffer
  fw_writePos :: nat
  fw_highWaterMark :: nat

definition kDefaultHighWaterMark :: nat where "kDefaultHighWaterMark = 8 * 2 ^ 20"

definition new_frame_writer :: "nat \<Rightarrow> FrameWriter" where
  "new_frame_writer hwm = \<lparr>fw_buf = [], fw_writePos = 0, fw_highWaterMark = hwm\<rparr>"

definition fw_data :: "FrameWriter \<Rightarrow> Buffer" where
  "fw_data w = drop (fw_writePos w) (fw_buf w)"

definition fw_size :: "FrameWriter \<Rightarrow> nat" where
  "fw_size w = length (fw_buf w) - fw_writePos w"

definition fw_empty :: "FrameWriter \<Rightarrow> bool" where
  "fw_empty w \<longleftrightarrow> fw_writePos w = length (fw_buf w)"

definition fw_overHighWaterMark :: "FrameWriter \<Rightarrow> bool" where
  "fw_overHighWaterMark w \<longleftrightarrow> fw_size w \<ge> fw_highWaterMark w"

definition fw_enqueue :: "Message \<Rightarrow> FrameWriter \<Rightarrow> FrameWriter" where
  "fw_enqueue m w = w\<lparr>fw_buf := encode m (fw_buf w)\<rparr>"

definition fw_enqueueRaw :: "Buffer \<Rightarrow> FrameWriter \<Rightarrow> FrameWriter" where
  "fw_enqueueRaw data w = w\<lparr>fw_buf := fw_buf w @ data\<rparr>"

definition fw_compact :: "FrameWriter \<Rightarrow> FrameWriter" where
  "fw_compact w = (if fw_writePos w = 0 then w
     else w\<lparr>fw_buf := drop (fw_writePos w) (fw_buf w), fw_writePos := 0\<rparr>)"

definition fw_consume :: "nat \<Rightarrow> FrameWriter \<Rightarrow> FrameWriter" where
  "fw_consume n w =
     (let w' = w\<lparr>fw_writePos := fw_writePos w + min n (fw_size w)\<rparr> in
      if fw_writePos w' = length (fw_buf w') then w'\<lparr>fw_buf := [], fw_writePos := 0\<rparr>
      else if fw_writePos w' \<ge> kCompactThreshold then fw_compact w' else w')"

definition fw_reset :: "FrameWriter \<Rightarrow> FrameWriter" where
  "fw_reset w = w\<lparr>fw_buf := [], fw_writePos := 0\<rparr>"

section \<open>One step on the unread bytes\<close>

definition frd_wf :: "FrameReader \<Rightarrow> bool" where
  "frd_wf r \<longleftrightarrow> frd_readPos r \<le> length (frd_buf r)"

definition unread :: "FrameReader \<Rightarrow> Buffer" where
  "unread r = drop (frd_readPos r) (frd_buf r)"

text \<open>The header check: the status a reader takes, and the payload length when it is \<open>StatusOk\<close>.\<close>

definition header_status :: "Buffer \<Rightarrow> FrameStatus" where
  "header_status bs =
     (if le_value (take 4 bs) \<noteq> kMagic then BadMagic
      else if le_value (take 2 (drop 4 bs)) \<noteq> kVersion then BadVersion
      else if le_value (take 4 (drop 8 bs)) > kMaxPayload then PayloadTooLarge
      else StatusOk)"

definition header_len :: "Buffer \<Rightarrow> nat" where
  "header_len bs = unat (le_value (take 4 (drop 8 bs)) :: u32)"

definition frame_step :: "Buffer \<Rightarrow> (Frame \<times> Buffer) option" where
  "frame_step bs =
     (if length bs < kHeaderSize \<or> header_status bs \<noteq> StatusOk \<or> length bs < kHeaderSize + header_len bs then None
      else Some (\<lparr>fr_type = type_of_value (le_value (take 2 (drop 6 bs))),
                   fr_payload = take (header_len bs) (drop kHeaderSize bs)\<rparr>,
                 drop (kHeaderSize + header_len bs) bs))"

text \<open>The status after looking at the unread bytes.\<close>

definition stream_status :: "Buffer \<Rightarrow> FrameStatus" where
  "stream_status bs = (if length bs < kHeaderSize then StatusOk else header_status bs)"

lemma rd_or_zero_le:
  assumes "wr_pos r + n \<le> length (wr_data r)" and "\<not> wr_failed r"
  shows "n = 4 \<Longrightarrow> rd_or_zero rd_u32 r = (le_value (take n (drop (wr_pos r) (wr_data r))), r\<lparr>wr_pos := wr_pos r + n\<rparr>)"
    and "n = 2 \<Longrightarrow> rd_or_zero rd_u16 r = (le_value (take n (drop (wr_pos r) (wr_data r))), r\<lparr>wr_pos := wr_pos r + n\<rparr>)"
proof -
  have len: "length (take n (drop (wr_pos r) (wr_data r))) = n" using assms by simp
  have r: "reads r (take n (drop (wr_pos r) (wr_data r))) (r\<lparr>wr_pos := wr_pos r + n\<rparr>)"
    using assms by (simp add: reads_def)
  show "rd_or_zero rd_u32 r = (le_value (take n (drop (wr_pos r) (wr_data r))), r\<lparr>wr_pos := wr_pos r + n\<rparr>)" if n: "n = 4"
  proof -
    have "rd_u32 r = (Some (le_value (take n (drop (wr_pos r) (wr_data r)))), r\<lparr>wr_pos := wr_pos r + n\<rparr>)"
      using r len n by (simp add: c_u32.rd_iff w_u32_def le_bytes_le_value)
    then show ?thesis by (simp add: rd_or_zero_def)
  qed
  show "rd_or_zero rd_u16 r = (le_value (take n (drop (wr_pos r) (wr_data r))), r\<lparr>wr_pos := wr_pos r + n\<rparr>)" if n: "n = 2"
  proof -
    have "rd_u16 r = (Some (le_value (take n (drop (wr_pos r) (wr_data r)))), r\<lparr>wr_pos := wr_pos r + n\<rparr>)"
      using r len n by (simp add: c_u16.rd_iff w_u16_def le_bytes_2 [symmetric] le_bytes_le_value)
    then show ?thesis by (simp add: rd_or_zero_def)
  qed
qed

lemma frd_compact_unread:
  assumes "frd_wf r"
  shows "unread (frd_compact r) = unread r" and "frd_wf (frd_compact r)" and "frd_status (frd_compact r) = frd_status r"
  using assms by (simp_all add: frd_compact_def unread_def frd_wf_def)

lemma header_reads:
  assumes "kHeaderSize \<le> length u"
  shows "rd_or_zero rd_u32 (new_reader u) = (le_value (take 4 u), \<lparr>wr_data = u, wr_pos = 4, wr_failed = False\<rparr>)"
    and "rd_or_zero rd_u16 \<lparr>wr_data = u, wr_pos = 4, wr_failed = False\<rparr> =
      (le_value (take 2 (drop 4 u)), \<lparr>wr_data = u, wr_pos = 6, wr_failed = False\<rparr>)"
    and "rd_or_zero rd_u16 \<lparr>wr_data = u, wr_pos = 6, wr_failed = False\<rparr> =
      (le_value (take 2 (drop 6 u)), \<lparr>wr_data = u, wr_pos = 8, wr_failed = False\<rparr>)"
    and "rd_or_zero rd_u32 \<lparr>wr_data = u, wr_pos = 8, wr_failed = False\<rparr> =
      (le_value (take 4 (drop 8 u)), \<lparr>wr_data = u, wr_pos = 12, wr_failed = False\<rparr>)"
  using assms rd_or_zero_le(1) [of "new_reader u" 4]
    rd_or_zero_le(2) [of "\<lparr>wr_data = u, wr_pos = 4, wr_failed = False\<rparr>" 2]
    rd_or_zero_le(2) [of "\<lparr>wr_data = u, wr_pos = 6, wr_failed = False\<rparr>" 2]
    rd_or_zero_le(1) [of "\<lparr>wr_data = u, wr_pos = 8, wr_failed = False\<rparr>" 4]
  by (simp_all add: new_reader_def kHeaderSize_def)

definition advance :: "nat \<Rightarrow> FrameReader \<Rightarrow> FrameReader" where
  "advance n fr = (let fr' = fr\<lparr>frd_readPos := frd_readPos fr + n\<rparr>
     in if frd_readPos fr' \<ge> kCompactThreshold then frd_compact fr' else fr')"

lemma advance_unread:
  assumes "frd_wf fr" and "n \<le> length (unread fr)"
  shows "unread (advance n fr) = drop n (unread fr)" and "frd_wf (advance n fr)"
    and "frd_status (advance n fr) = frd_status fr"
proof -
  have wf: "frd_wf (fr\<lparr>frd_readPos := frd_readPos fr + n\<rparr>)"
    using assms by (simp add: frd_wf_def unread_def)
  have "unread (fr\<lparr>frd_readPos := frd_readPos fr + n\<rparr>) = drop n (unread fr)"
    by (simp add: unread_def add.commute)
  with frd_compact_unread [OF wf] wf show "unread (advance n fr) = drop n (unread fr)" "frd_wf (advance n fr)"
    "frd_status (advance n fr) = frd_status fr"
    by (simp_all add: advance_def Let_def)
qed

lemma frd_next_eq:
  assumes "\<not> frd_failed fr" and "kHeaderSize \<le> length (unread fr)"
  shows "frd_next fr =
    (if header_status (unread fr) \<noteq> StatusOk then (None, fr\<lparr>frd_status := header_status (unread fr)\<rparr>)
     else if length (unread fr) < kHeaderSize + header_len (unread fr) then (None, fr)
     else (Some \<lparr>fr_type = type_of_value (le_value (take 2 (drop 6 (unread fr)))),
             fr_payload = take (header_len (unread fr)) (drop kHeaderSize (unread fr))\<rparr>,
           advance (kHeaderSize + header_len (unread fr)) fr))"
proof -
  have len: "frd_buffered fr = length (unread fr)" by (simp add: frd_buffered_def unread_def)
  have u: "drop (frd_readPos fr) (frd_buf fr) = unread fr"
    "drop (frd_readPos fr + kHeaderSize) (frd_buf fr) = drop kHeaderSize (unread fr)"
    by (simp_all add: unread_def add.commute)
  show ?thesis
    using assms unfolding frd_next_def len u header_reads [OF assms(2)] Let_def prod.case
    by (simp add: header_status_def header_len_def advance_def Let_def)
qed

lemma frd_next_step:
  assumes wf: "frd_wf fr" and ok: "\<not> frd_failed fr"
  shows "fst (frd_next fr) = map_option fst (frame_step (unread fr))"
    and "unread (snd (frd_next fr)) = (case frame_step (unread fr) of None \<Rightarrow> unread fr | Some (_, rest) \<Rightarrow> rest)"
    and "frd_status (snd (frd_next fr)) = stream_status (unread fr)"
    and "frd_wf (snd (frd_next fr))"
proof -
  let ?u = "unread fr"
  have "fst (frd_next fr) = map_option fst (frame_step ?u) \<and>
      unread (snd (frd_next fr)) = (case frame_step ?u of None \<Rightarrow> ?u | Some (_, rest) \<Rightarrow> rest) \<and>
      frd_status (snd (frd_next fr)) = stream_status ?u \<and> frd_wf (snd (frd_next fr))"
  proof (cases "kHeaderSize \<le> length ?u")
    case False
    then have "frd_next fr = (None, fr)" by (simp add: frd_next_def frd_buffered_def unread_def)
    with False wf ok show ?thesis by (simp add: frame_step_def stream_status_def frd_failed_def)
  next
    case True
    have st: "frd_status fr = StatusOk" using ok by (simp add: frd_failed_def)
    have "unread (fr\<lparr>frd_status := x\<rparr>) = ?u" "frd_wf (fr\<lparr>frd_status := x\<rparr>)" for x
      using wf by (simp_all add: unread_def frd_wf_def)
    with True st wf show ?thesis
      using advance_unread [OF wf, of "kHeaderSize + header_len ?u"]
      by (simp add: frd_next_eq [OF ok True] frame_step_def stream_status_def)
  qed
  then show "fst (frd_next fr) = map_option fst (frame_step ?u)"
    and "unread (snd (frd_next fr)) = (case frame_step ?u of None \<Rightarrow> ?u | Some (_, rest) \<Rightarrow> rest)"
    and "frd_status (snd (frd_next fr)) = stream_status ?u" and "frd_wf (snd (frd_next fr))"
    by auto
qed

section \<open>Draining complete frames\<close>

text \<open>The loop of \<open>Transport::drainFrames\<close> over the reader: take frames until none is complete
  or the stream is broken.\<close>

lemma frame_step_shrinks: "frame_step bs = Some (f, rest) \<Longrightarrow> length rest < length bs"
  by (auto simp: frame_step_def kHeaderSize_def split: if_splits)

lemma frd_next_shrinks:
  assumes "frd_next fr = (Some f, fr')"
  shows "frd_buffered fr' < frd_buffered fr"
proof -
  have ok: "\<not> frd_failed fr" and big: "kHeaderSize \<le> frd_buffered fr"
    using assms by (auto simp: frd_next_def not_less split: if_splits)
  then have wf: "frd_wf fr" by (simp add: frd_wf_def frd_buffered_def kHeaderSize_def)
  obtain rest where "frame_step (unread fr) = Some (f, rest)" and "unread fr' = rest"
    using frd_next_step(1,2) [OF wf ok] assms by (cases "frame_step (unread fr)") auto
  then have "length (unread fr') < length (unread fr)"
    using frame_step_shrinks by blast
  then show ?thesis by (simp add: frd_buffered_def unread_def)
qed

function frd_drain :: "FrameReader \<Rightarrow> Frame list \<times> FrameReader" where
  "frd_drain fr = (case frd_next fr of
      (None, fr') \<Rightarrow> ([], fr')
    | (Some f, fr') \<Rightarrow> (case frd_drain fr' of (fs, fr'') \<Rightarrow> (f # fs, fr'')))"
  by pat_completeness auto

termination frd_drain
  by (relation "measure frd_buffered") (auto dest: frd_next_shrinks [OF sym])

declare frd_drain.simps [simp del]

text \<open>Receiving a sequence of chunks, draining after each.\<close>

fun receive :: "Buffer list \<Rightarrow> FrameReader \<Rightarrow> Frame list \<times> FrameReader" where
  "receive [] fr = ([], fr)"
| "receive (c # cs) fr = (case frd_drain (frd_append c fr) of (fs, fr') \<Rightarrow>
     (case receive cs fr' of (gs, fr'') \<Rightarrow> (fs @ gs, fr'')))"

section \<open>The scan of the whole stream\<close>

function scan_frames :: "Buffer \<Rightarrow> Frame list \<times> Buffer" where
  "scan_frames bs = (case frame_step bs of
      None \<Rightarrow> ([], bs)
    | Some (f, rest) \<Rightarrow> (case scan_frames rest of (fs, r) \<Rightarrow> (f # fs, r)))"
  by pat_completeness auto

termination scan_frames
  by (relation "measure length") (auto dest: frame_step_shrinks)

declare scan_frames.simps [simp del]

lemma header_append:
  assumes "kHeaderSize \<le> length bs"
  shows "header_status (bs @ ys) = header_status bs" and "header_len (bs @ ys) = header_len bs"
  using assms by (simp_all add: header_status_def header_len_def kHeaderSize_def)

lemma frame_step_append:
  assumes "frame_step bs = Some (f, rest)"
  shows "frame_step (bs @ ys) = Some (f, rest @ ys)"
proof -
  have "kHeaderSize \<le> length bs" using assms by (simp add: frame_step_def split: if_splits)
  moreover from this have "take 2 (drop 6 (bs @ ys)) = take 2 (drop 6 bs)" by (simp add: kHeaderSize_def)
  ultimately show ?thesis
    using assms header_append [of bs ys] by (auto simp: frame_step_def split: if_splits)
qed

interpretation fs: byte_stream frame_step scan_frames
proof
  show "length rest < length bs" if "frame_step bs = Some (f, rest)" for bs f rest
    using that by (rule frame_step_shrinks)
  show "frame_step (bs @ ys) = Some (f, rest @ ys)" if "frame_step bs = Some (f, rest)" for bs f rest ys
    using that by (rule frame_step_append)
  show "scan_frames bs = (case frame_step bs of None \<Rightarrow> ([], bs)
      | Some (f, rest) \<Rightarrow> (case scan_frames rest of (fs, r) \<Rightarrow> (f # fs, r)))" for bs
    by (rule scan_frames.simps)
qed

lemma frame_step_status: "frame_step bs = Some (f, rest) \<Longrightarrow> stream_status bs = StatusOk"
  by (simp add: frame_step_def stream_status_def split: if_splits)

lemma frd_drain_scan:
  assumes "frd_wf fr" and "\<not> frd_failed fr"
  shows "fst (frd_drain fr) = fst (scan_frames (unread fr))"
    and "unread (snd (frd_drain fr)) = snd (scan_frames (unread fr))"
    and "frd_status (snd (frd_drain fr)) = stream_status (snd (scan_frames (unread fr)))"
    and "frd_wf (snd (frd_drain fr))"
proof -
  have "fst (frd_drain fr) = fst (scan_frames (unread fr)) \<and> unread (snd (frd_drain fr)) = snd (scan_frames (unread fr)) \<and>
      frd_status (snd (frd_drain fr)) = stream_status (snd (scan_frames (unread fr))) \<and> frd_wf (snd (frd_drain fr))"
    using assms
  proof (induction fr rule: frd_drain.induct)
    case (1 fr)
    note s = frd_next_step [OF "1.prems"]
    show ?case
    proof (cases "frame_step (unread fr)")
      case None
      then obtain fr' where n: "frd_next fr = (None, fr')" using s(1) by (cases "frd_next fr") simp
      have "frd_drain fr = ([], fr')"
        by (subst frd_drain.simps) (simp only: n prod.case option.case)
      with None s n show ?thesis by (simp add: scan_frames.simps [of "unread fr"])
    next
      case (Some p)
      obtain f rest where p: "p = (f, rest)" by fastforce
      define fr' where "fr' = snd (frd_next fr)"
      have n: "frd_next fr = (Some f, fr')" using s(1) Some p by (simp add: prod_eq_iff fr'_def)
      have "frd_status fr' = StatusOk" using s(3) frame_step_status Some p by (simp add: fr'_def)
      then have ok: "\<not> frd_failed fr'" by (simp add: frd_failed_def)
      have u: "unread fr' = rest" and wf: "frd_wf fr'" using s(2,4) Some p by (simp_all add: fr'_def)
      have d: "frd_drain fr = (f # fst (frd_drain fr'), snd (frd_drain fr'))"
        by (subst frd_drain.simps) (simp only: n prod.case option.case prod.sel case_prod_beta)
      have "scan_frames (unread fr) = (f # fst (scan_frames rest), snd (scan_frames rest))"
        by (subst scan_frames.simps) (simp only: Some p prod.case option.case prod.sel case_prod_beta)
      with "1.IH" [OF n [symmetric] refl wf ok] d u show ?thesis by simp
    qed
  qed
  then show "fst (frd_drain fr) = fst (scan_frames (unread fr))"
    and "unread (snd (frd_drain fr)) = snd (scan_frames (unread fr))"
    and "frd_status (snd (frd_drain fr)) = stream_status (snd (scan_frames (unread fr)))"
    and "frd_wf (snd (frd_drain fr))" by auto
qed

section \<open>Chunking does not matter\<close>

lemma stream_status_bad_append: "stream_status bs \<noteq> StatusOk \<Longrightarrow> stream_status (bs @ ys) = stream_status bs"
  by (auto simp: stream_status_def header_append split: if_splits)

lemma bad_scan: "stream_status bs \<noteq> StatusOk \<Longrightarrow> scan_frames bs = ([], bs)"
  by (subst scan_frames.simps) (auto simp: frame_step_def stream_status_def split: if_splits)

lemma receive_failed: "frd_failed fr \<Longrightarrow> receive cs fr = ([], fr)"
proof (induction cs)
  case (Cons c cs)
  have "frd_append c fr = fr" using Cons.prems by (simp add: frd_append_def)
  moreover have "frd_drain fr = ([], fr)" using Cons.prems by (subst frd_drain.simps) (simp add: frd_next_def)
  ultimately show ?case using Cons by simp
qed simp

lemma receive_scan:
  assumes "frd_wf fr" and "\<not> frd_failed fr"
  shows "fst (receive cs fr) = fst (scan_frames (unread fr @ concat cs)) \<or> cs = []"
    and "cs \<noteq> [] \<Longrightarrow> frd_status (snd (receive cs fr)) = stream_status (snd (scan_frames (unread fr @ concat cs)))"
proof -
  have "cs \<noteq> [] \<Longrightarrow> fst (receive cs fr) = fst (scan_frames (unread fr @ concat cs)) \<and>
      frd_status (snd (receive cs fr)) = stream_status (snd (scan_frames (unread fr @ concat cs)))"
    using assms
  proof (induction cs arbitrary: fr)
    case (Cons c cs)
    have a: "unread (frd_append c fr) = unread fr @ c" "frd_wf (frd_append c fr)" "\<not> frd_failed (frd_append c fr)"
      using Cons.prems by (auto simp: frd_append_def unread_def frd_wf_def frd_failed_def)
    note d = frd_drain_scan [OF a(2,3), unfolded a(1)]
    obtain fs fr1 where dr: "frd_drain (frd_append c fr) = (fs, fr1)" by fastforce
    obtain r where sc: "scan_frames (unread fr @ c) = (fs, r)" and u: "unread fr1 = r"
      and st: "frd_status fr1 = stream_status r" and wf: "frd_wf fr1"
      using d dr by (cases "scan_frames (unread fr @ c)") simp
    obtain gs fr2 where re: "receive cs fr1 = (gs, fr2)" by fastforce
    have rec: "receive (c # cs) fr = (fs @ gs, fr2)" by (simp add: dr re)
    obtain hs r' where sc2: "scan_frames (r @ concat cs) = (hs, r')" by fastforce
    have whole: "scan_frames (unread fr @ concat (c # cs)) = (fs @ hs, r')"
      using fs.scan_append [OF sc sc2] by simp
    show ?case
    proof (cases "stream_status r = StatusOk")
      case False
      then have "receive cs fr1 = ([], fr1)" by (intro receive_failed) (simp add: frd_failed_def st)
      moreover have "(hs, r') = ([], r @ concat cs)"
        using sc2 bad_scan [of "r @ concat cs"] stream_status_bad_append [OF False] False by simp
      ultimately show ?thesis
        using re rec whole st stream_status_bad_append [OF False] by simp
    next
      case ok: True
      show ?thesis
      proof (cases "cs = []")
        case True
        then have "(hs, r') = ([], r)"
          using sc2 fs.scan_rest [OF sc] by (simp add: scan_frames.simps [of r])
        with True re rec whole st show ?thesis by simp
      next
        case False
        have "\<not> frd_failed fr1" using ok st by (simp add: frd_failed_def)
        from Cons.IH [OF False wf this] re sc2 u rec whole show ?thesis by simp
      qed
    qed
  qed simp
  then show "fst (receive cs fr) = fst (scan_frames (unread fr @ concat cs)) \<or> cs = []"
    and "cs \<noteq> [] \<Longrightarrow> frd_status (snd (receive cs fr)) = stream_status (snd (scan_frames (unread fr @ concat cs)))"
    by auto
qed

lemma scan_Nil: "scan_frames [] = ([], [])"
  by (subst scan_frames.simps) (simp add: frame_step_def kHeaderSize_def)

lemma receive_fresh:
  "fst (receive cs new_frame_reader) = fst (scan_frames (concat cs))"
  "frd_status (snd (receive cs new_frame_reader)) = stream_status (snd (scan_frames (concat cs)))"
proof -
  have f: "frd_wf new_frame_reader" "\<not> frd_failed new_frame_reader" "unread new_frame_reader = []"
    by (simp_all add: new_frame_reader_def frd_wf_def frd_failed_def unread_def)
  have nil: "stream_status [] = StatusOk" by (simp add: stream_status_def kHeaderSize_def)
  show "fst (receive cs new_frame_reader) = fst (scan_frames (concat cs))"
    using receive_scan(1) [OF f(1,2), of cs] f(3) scan_Nil by auto
  show "frd_status (snd (receive cs new_frame_reader)) = stream_status (snd (scan_frames (concat cs)))"
    using receive_scan(2) [OF f(1,2), of cs] f(3) scan_Nil nil by (cases "cs = []") (auto simp: new_frame_reader_def)
qed

section \<open>Encoded messages come back\<close>

definition frame_of :: "Message \<Rightarrow> Frame" where
  "frame_of m = \<lparr>fr_type = typeOf m, fr_payload = encodeBody m []\<rparr>"

lemma header_fields:
  fixes len :: u32
  shows "take 4 (frame_header ty len @ ys) = le_bytes 4 kMagic" "take 2 (drop 4 (frame_header ty len @ ys)) = le_bytes 2 kVersion"
    "take 2 (drop 6 (frame_header ty len @ ys)) = le_bytes 2 (type_value ty)"
    "take 4 (drop 8 (frame_header ty len @ ys)) = le_bytes 4 len"
  by (simp_all add: frame_header_def)

lemma frame_step_header:
  assumes "unat len \<le> unat kMaxPayload"
  shows "frame_step (frame_header ty len @ ys) =
    (if length ys < unat len then None
     else Some (\<lparr>fr_type = type_of_value (type_value ty), fr_payload = take (unat len) ys\<rparr>, drop (unat len) ys))"
proof -
  have v: "le_value (le_bytes 4 kMagic) = kMagic" "le_value (le_bytes 2 kVersion) = kVersion"
    "le_value (le_bytes 2 (type_value ty)) = type_value ty" "le_value (le_bytes 4 len) = len"
    by (simp_all add: le_value_le_bytes)
  have hl: "header_len (frame_header ty len @ ys) = unat len"
    unfolding header_len_def header_fields v ..
  have hs: "header_status (frame_header ty len @ ys) = StatusOk"
    using assms unfolding header_status_def header_fields v by (simp add: word_less_nat_alt)
  show ?thesis
    unfolding frame_step_def hl hs header_fields v
    by (simp add: drop_drop [symmetric] add.commute [of kHeaderSize])
qed

interpretation ms: record_stream frame_step scan_frames
  "\<lambda>f. frame_header (fr_type f) (of_nat (length (fr_payload f))) @ fr_payload f"
  "\<lambda>f. length (fr_payload f) \<le> unat kMaxPayload \<and> type_of_value (type_value (fr_type f)) = fr_type f"
proof (unfold_locales, goal_cases)
  case (1 f ys)
  have "unat (of_nat (length (fr_payload f)) :: u32) = length (fr_payload f)"
    using 1 unsigned_less [of kMaxPayload, where ?'a = nat] by (simp add: unat_of_nat)
  with 1 show ?case by (simp add: frame_step_header)
next
  case (2 f n)
  let ?h = "frame_header (fr_type f) (of_nat (length (fr_payload f)))"
  have u: "unat (of_nat (length (fr_payload f)) :: u32) = length (fr_payload f)"
    using 2 unsigned_less [of kMaxPayload, where ?'a = nat] by (simp add: unat_of_nat)
  show ?case
  proof (cases "n < kHeaderSize")
    case True
    then show ?thesis by (simp add: frame_step_def)
  next
    case False
    then have "take n (?h @ fr_payload f) = ?h @ take (n - kHeaderSize) (fr_payload f)" by simp
    with 2 u False show ?thesis by (simp add: frame_step_header)
  qed
qed

lemma scan_messages:
  assumes "\<forall>m\<in>set msgs. msg_ok m"
  shows "scan_frames (concat (map (\<lambda>m. encode m []) msgs)) = (map frame_of msgs, [])"
proof -
  have big: "(24616 :: nat) \<le> unat kMaxPayload" by (simp add: kMaxPayload_def push_bit_eq_mult)
  have "\<forall>f\<in>set (map frame_of msgs). length (fr_payload f) \<le> unat kMaxPayload \<and> type_of_value (type_value (fr_type f)) = fr_type f"
  proof
    fix f assume "f \<in> set (map frame_of msgs)"
    then obtain m where m: "msg_ok m" "f = frame_of m" using assms by auto
    then have "length (fr_payload f) \<le> unat kMaxPayload"
      using length_encodeBody [of m] big by (simp add: frame_of_def)
    with m show "length (fr_payload f) \<le> unat kMaxPayload \<and> type_of_value (type_value (fr_type f)) = fr_type f"
      by (simp add: frame_of_def)
  qed
  from ms.scan_encoded [OF this, of "[]"] show ?thesis
    by (simp add: scan_Nil encode_frame frame_of_def o_def)
qed

section \<open>The writer is a byte queue\<close>

definition fw_wf :: "FrameWriter \<Rightarrow> bool" where
  "fw_wf w \<longleftrightarrow> fw_writePos w \<le> length (fw_buf w)"

lemma fw_consume_data:
  assumes "fw_wf w"
  shows "fw_data (fw_consume n w) = drop n (fw_data w)" and "fw_wf (fw_consume n w)"
  using assms by (auto simp: fw_consume_def fw_compact_def fw_data_def fw_wf_def fw_size_def Let_def min_def add.commute)

lemma fw_enqueue_data:
  assumes "fw_wf w"
  shows "fw_data (fw_enqueue m w) = fw_data w @ encode m []" and "fw_wf (fw_enqueue m w)"
  using assms by (simp_all add: fw_enqueue_def fw_data_def fw_wf_def encode_frame)

lemma fw_enqueueRaw_data:
  assumes "fw_wf w"
  shows "fw_data (fw_enqueueRaw bs w) = fw_data w @ bs" and "fw_wf (fw_enqueueRaw bs w)"
  using assms by (simp_all add: fw_enqueueRaw_def fw_data_def fw_wf_def)

text \<open>A run of a connection's sending side: messages are queued, and at any time the socket takes
  some number of bytes. The second result is everything the socket took.\<close>

datatype SendStep = Enqueue Message | Written nat

fun send_run :: "SendStep list \<Rightarrow> FrameWriter \<Rightarrow> FrameWriter \<times> Buffer" where
  "send_run [] w = (w, [])"
| "send_run (Enqueue m # ss) w = send_run ss (fw_enqueue m w)"
| "send_run (Written n # ss) w =
     (case send_run ss (fw_consume n w) of (w', bs) \<Rightarrow> (w', take n (fw_data w) @ bs))"

fun queued :: "SendStep list \<Rightarrow> Message list" where
  "queued [] = []"
| "queued (Enqueue m # ss) = m # queued ss"
| "queued (Written n # ss) = queued ss"

lemma send_run_bytes:
  assumes "fw_wf w" and "send_run ss w = (w', bs)"
  shows "bs @ fw_data w' = fw_data w @ concat (map (\<lambda>m. encode m []) (queued ss)) \<and> fw_wf w'"
  using assms
proof (induction ss arbitrary: w bs)
  case (Cons x ss)
  show ?case
  proof (cases x)
    case (Enqueue m)
    with Cons fw_enqueue_data [OF Cons.prems(1), of m] show ?thesis by auto
  next
    case (Written n)
    obtain bs' where r: "send_run ss (fw_consume n w) = (w', bs')" and bs: "bs = take n (fw_data w) @ bs'"
      using Cons.prems(2) Written by (auto split: prod.splits)
    from Cons.IH [OF fw_consume_data(2) [OF Cons.prems(1)] r] show ?thesis
      using fw_consume_data(1) [OF Cons.prems(1), of n] by (simp add: bs Written)
  qed
qed simp

end
