(* ===== verification/Transport.thy ===== *)
theory Transport
  imports Framing Socket
begin

text \<open>
  The transport (\<open>net/transport.hpp\<close>, \<open>net/transport.cpp\<close>): a listening socket and the peer connections of a
  node, dialled and accepted, each with a frame reader and a frame writer, driven by \<open>poll\<close>.

  A \<open>Peer*\<close> is its index in \<open>peers_\<close>: peers are appended while \<open>poll\<close> runs and erased only at its end. The
  callbacks are one parameter \<open>h\<close>, which is called where the code calls them and may change the transport (the
  handlers of a node call \<open>send\<close>) as well as the application's state; an unset callback is one that does
  nothing. The operations that call them work on the pair of both. Loops that the network or the callbacks
  may keep running are partial. Log texts and the reasons given to \<open>onPeerDown\<close> are left out, and the cycle
  counter is not bounded.
\<close>

section \<open>State\<close>

datatype PeerState = Disconnected | Connecting | Handshaking | Ready

record TransportStats =
  ts_messagesSent :: u64
  ts_messagesReceived :: u64
  ts_bytesSent :: u64
  ts_bytesReceived :: u64
  ts_shortWrites :: u64
  ts_partialReads :: u64
  ts_connectionsAccepted :: u64
  ts_connectionsEstablished :: u64
  ts_disconnects :: u64
  ts_framingErrors :: u64
  ts_decodeErrors :: u64
  ts_sendsRefusedOverflow :: u64

definition zero_transport_stats :: TransportStats where
  "zero_transport_stats = \<lparr>ts_messagesSent = 0, ts_messagesReceived = 0, ts_bytesSent = 0, ts_bytesReceived = 0,
     ts_shortWrites = 0, ts_partialReads = 0, ts_connectionsAccepted = 0, ts_connectionsEstablished = 0,
     ts_disconnects = 0, ts_framingErrors = 0, ts_decodeErrors = 0, ts_sendsRefusedOverflow = 0\<rparr>"

record PeerConfig =
  pc_id :: NodeId
  pc_host :: string
  pc_port :: u16

record Peer =
  pe_id :: NodeId
  pe_host :: string
  pe_port :: u16
  pe_outbound :: bool
  pe_state :: PeerState
  pe_sock :: bool
  pe_reader :: FrameReader
  pe_writer :: FrameWriter

record Transport =
  tp_selfId :: NodeId
  tp_listenPort :: u16
  tp_listener :: bool
  tp_peers :: "Peer list"
  tp_highWaterMark :: nat
  tp_reconnectDelay :: int
  tp_cycle :: int
  tp_nextConnectCycle :: "int list"
  tp_stats :: TransportStats
  tp_calls :: nat

datatype Upcall = PeerUp NodeId cstring | PeerDown NodeId | Received NodeId Message

type_synonym 'a world = "Transport \<times> 'a"
type_synonym 'a handler = "Upcall \<Rightarrow> 'a world \<Rightarrow> 'a world"

definition kReadChunk :: nat where "kReadChunk = 16 * 1024"

definition new_transport :: "NodeId \<Rightarrow> u16 \<Rightarrow> Transport" where
  "new_transport self port = \<lparr>tp_selfId = self, tp_listenPort = port, tp_listener = False, tp_peers = [],
     tp_highWaterMark = kDefaultHighWaterMark, tp_reconnectDelay = 10, tp_cycle = 0, tp_nextConnectCycle = [],
     tp_stats = zero_transport_stats, tp_calls = 0\<rparr>"

definition tp_count :: "(TransportStats \<Rightarrow> TransportStats) \<Rightarrow> Transport \<Rightarrow> Transport" where
  "tp_count f T = T\<lparr>tp_stats := f (tp_stats T)\<rparr>"

definition upd_peer :: "nat \<Rightarrow> (Peer \<Rightarrow> Peer) \<Rightarrow> Transport \<Rightarrow> Transport" where
  "upd_peer i f T = T\<lparr>tp_peers := (tp_peers T)[i := f (tp_peers T ! i)]\<rparr>"

section \<open>Set-up and queries\<close>

definition tp_start :: "Net \<Rightarrow> Transport \<Rightarrow> bool \<times> Transport" where
  "tp_start net T =
     (let (ok, c) = sock_listen net (tp_calls T) in
      if \<not> ok then (False, T\<lparr>tp_listener := False, tp_calls := c\<rparr>)
      else (True, T\<lparr>tp_listener := True, tp_listenPort := fst (localPort net c), tp_calls := snd (localPort net c)\<rparr>))"

definition new_peer :: "nat \<Rightarrow> Peer" where
  "new_peer hwm = \<lparr>pe_id = 0, pe_host = [], pe_port = 0, pe_outbound = False, pe_state = Disconnected, pe_sock = False,
     pe_reader = new_frame_reader, pe_writer = new_frame_writer hwm\<rparr>"

definition addPeer :: "PeerConfig \<Rightarrow> Transport \<Rightarrow> Transport" where
  "addPeer cfg T =
     T\<lparr>tp_peers := tp_peers T @ [(new_peer (tp_highWaterMark T))
         \<lparr>pe_id := pc_id cfg, pe_host := pc_host cfg, pe_port := pc_port cfg, pe_outbound := True, pe_state := Disconnected\<rparr>],
       tp_nextConnectCycle := tp_nextConnectCycle T @ [0]\<rparr>"

definition addPeers :: "PeerConfig list \<Rightarrow> Transport \<Rightarrow> Transport" where
  "addPeers cfgs T = fold addPeer cfgs T"

fun find_ready :: "NodeId \<Rightarrow> nat \<Rightarrow> Peer list \<Rightarrow> nat option" where
  "find_ready n i [] = None"
| "find_ready n i (p # ps) = (if pe_id p = n \<and> pe_state p = Ready then Some i else find_ready n (Suc i) ps)"

definition findPeer :: "NodeId \<Rightarrow> Transport \<Rightarrow> nat option" where
  "findPeer n T = find_ready n 0 (tp_peers T)"

definition isReady :: "NodeId \<Rightarrow> Transport \<Rightarrow> bool" where
  "isReady n T \<longleftrightarrow> findPeer n T \<noteq> None"

definition readyPeerCount :: "Transport \<Rightarrow> nat" where
  "readyPeerCount T = length (filter (\<lambda>p. pe_state p = Ready) (tp_peers T))"

definition pendingBytes :: "NodeId \<Rightarrow> Transport \<Rightarrow> nat" where
  "pendingBytes n T = (case findPeer n T of None \<Rightarrow> 0 | Some i \<Rightarrow> fw_size (pe_writer (tp_peers T ! i)))"

definition isSaturated :: "NodeId \<Rightarrow> Transport \<Rightarrow> bool" where
  "isSaturated n T = (case findPeer n T of None \<Rightarrow> False | Some i \<Rightarrow> fw_overHighWaterMark (pe_writer (tp_peers T ! i)))"

definition tp_setHighWaterMark :: "nat \<Rightarrow> Transport \<Rightarrow> Transport" where
  "tp_setHighWaterMark n T =
     T\<lparr>tp_highWaterMark := n, tp_peers := map (\<lambda>p. p\<lparr>pe_writer := (pe_writer p)\<lparr>fw_highWaterMark := n\<rparr>\<rparr>) (tp_peers T)\<rparr>"

section \<open>Connections\<close>

fun decimal :: "nat \<Rightarrow> string" where
  "decimal n = (if n < 10 then [char_of (48 + n)] else decimal (n div 10) @ [char_of (48 + n mod 10)])"

definition ascii :: "string \<Rightarrow> cstring" where
  "ascii s = map (\<lambda>c. of_nat (of_char c)) s"

definition sendHello :: "nat \<Rightarrow> Transport \<Rightarrow> Transport" where
  "sendHello i T =
     upd_peer i (\<lambda>p. p\<lparr>pe_writer := fw_enqueue (Hello \<lparr>he_nodeId = tp_selfId T, he_protocolVersion = kVersion,
       he_advertisedAddress = ascii (''0.0.0.0:'' @ decimal (unat (tp_listenPort T)))\<rparr>) (pe_writer p)\<rparr>) T"

definition startConnect :: "Net \<Rightarrow> nat \<Rightarrow> Transport \<Rightarrow> Transport" where
  "startConnect net i T =
     (let (ok, c) = sock_connect net (pe_host (tp_peers T ! i)) (tp_calls T);
          T1 = T\<lparr>tp_calls := c\<rparr>
      in if \<not> ok then upd_peer i (\<lambda>p. p\<lparr>pe_sock := False, pe_state := Disconnected\<rparr>) T1
         else upd_peer i (\<lambda>p. p\<lparr>pe_sock := True, pe_state := Connecting,
                pe_reader := frd_reset (pe_reader p), pe_writer := fw_reset (pe_writer p)\<rparr>) T1)"

definition dropPeer :: "'a handler \<Rightarrow> nat \<Rightarrow> 'a world \<Rightarrow> 'a world" where
  "dropPeer h i W =
     (let (T, a) = W;
          wasUp = (pe_state (tp_peers T ! i) = Ready);
          T1 = tp_count (\<lambda>s. s\<lparr>ts_disconnects := ts_disconnects s + 1\<rparr>)
                 (upd_peer i (\<lambda>p. p\<lparr>pe_sock := False, pe_state := Disconnected,
                    pe_reader := frd_reset (pe_reader p), pe_writer := fw_reset (pe_writer p)\<rparr>) T);
          (T2, a2) = (if wasUp then h (PeerDown (pe_id (tp_peers T1 ! i))) (T1, a) else (T1, a))
      in (if \<not> pe_outbound (tp_peers T2 ! i) then upd_peer i (\<lambda>p. p\<lparr>pe_id := 0\<rparr>) T2 else T2, a2))"

text \<open>The loop of \<open>acceptPending\<close>.\<close>

partial_function (option) acceptPending :: "Net \<Rightarrow> Transport \<Rightarrow> Transport option" where
  "acceptPending net T =
     (case sock_accept net (tp_calls T) of (status, c) \<Rightarrow>
      let T1 = T\<lparr>tp_calls := c\<rparr> in
      if status \<noteq> IoOk then Some T1
      else
        (case setNonBlocking net c of (nb, c1) \<Rightarrow>
         case (if nb then setNoDelay net c1 else (False, c1)) of (nd, c2) \<Rightarrow>
         let T2 = T1\<lparr>tp_calls := c2\<rparr> in
         if \<not> nb \<or> \<not> nd then acceptPending net T2
         else
           let p = (new_peer (tp_highWaterMark T2))\<lparr>pe_id := 0, pe_outbound := False, pe_state := Handshaking, pe_sock := True\<rparr>;
               T3 = T2\<lparr>tp_peers := tp_peers T2 @ [p], tp_nextConnectCycle := tp_nextConnectCycle T2 @ [0]\<rparr>
           in acceptPending net (tp_count (\<lambda>s. s\<lparr>ts_connectionsAccepted := ts_connectionsAccepted s + 1\<rparr>)
                (sendHello (length (tp_peers T2)) T3))))"

section \<open>Receiving\<close>

text \<open>The block that handles a \<open>Hello\<close>; the flag says whether the draining goes on.\<close>

definition handleHello :: "'a handler \<Rightarrow> nat \<Rightarrow> HelloMsg \<Rightarrow> 'a world \<Rightarrow> bool \<times> 'a world" where
  "handleHello h i hello W =
     (let p = tp_peers (fst W) ! i;
          accept = (\<lambda>W1. (True, h (PeerUp (he_nodeId hello) (he_advertisedAddress hello))
             (upd_peer i (\<lambda>p. p\<lparr>pe_id := he_nodeId hello, pe_state := Ready\<rparr>) (fst W1), snd W1)))
      in if he_protocolVersion hello \<noteq> kVersion then (False, dropPeer h i W)
         else if pe_outbound p \<and> pe_id p \<noteq> he_nodeId hello then (False, dropPeer h i W)
         else case findPeer (he_nodeId hello) (fst W) of
             None \<Rightarrow> accept W
           | Some j \<Rightarrow>
               if j = i then accept W
               else
                 let keepOutbound = (tp_selfId (fst W) < he_nodeId hello) in
                 if pe_outbound p = keepOutbound then accept (dropPeer h j W)
                 else (False, dropPeer h i W))"

text \<open>\<open>std::get_if<Hello>\<close>.\<close>

fun get_hello :: "Message \<Rightarrow> HelloMsg option" where
  "get_hello (Hello hello) = Some hello"
| "get_hello _ = None"

definition take_frame :: "nat \<Rightarrow> Transport \<Rightarrow> Frame option \<times> Transport" where
  "take_frame i T = (case frd_next (pe_reader (tp_peers T ! i)) of (f, r) \<Rightarrow> (f, upd_peer i (\<lambda>p. p\<lparr>pe_reader := r\<rparr>) T))"

text \<open>One iteration of the draining loop; the flag says whether the loop goes on.\<close>

definition drainStep :: "'a handler \<Rightarrow> nat \<Rightarrow> 'a world \<Rightarrow> bool \<times> 'a world" where
  "drainStep h i W =
     (if frd_failed (pe_reader (tp_peers (fst W) ! i)) then
        (False, dropPeer h i (tp_count (\<lambda>s. s\<lparr>ts_framingErrors := ts_framingErrors s + 1\<rparr>) (fst W), snd W))
      else
        (case take_frame i (fst W) of
           (None, T) \<Rightarrow> (frd_failed (pe_reader (tp_peers T ! i)), T, snd W)
         | (Some f, T) \<Rightarrow>
             (case decodeBody (fr_type f) (fr_payload f) of
                None \<Rightarrow> (True, tp_count (\<lambda>s. s\<lparr>ts_decodeErrors := ts_decodeErrors s + 1\<rparr>) T, snd W)
              | Some m \<Rightarrow>
                  let W1 = (tp_count (\<lambda>s. s\<lparr>ts_messagesReceived := ts_messagesReceived s + 1\<rparr>) T, snd W) in
                  (case get_hello m of
                     Some hello \<Rightarrow> handleHello h i hello W1
                   | None \<Rightarrow>
                       if pe_state (tp_peers T ! i) \<noteq> Ready then (False, dropPeer h i W1)
                       else (True, h (Received (pe_id (tp_peers T ! i)) m) W1)))))"

partial_function (option) drainFrames :: "'a handler \<Rightarrow> nat \<Rightarrow> 'a world \<Rightarrow> 'a world option" where
  "drainFrames h i W = (case drainStep h i W of (goes, W1) \<Rightarrow> if goes then drainFrames h i W1 else Some W1)"

text \<open>The reading loop; the flag says that the connection was dropped.\<close>

partial_function (option) readLoopPeer :: "Net \<Rightarrow> 'a handler \<Rightarrow> nat \<Rightarrow> 'a world \<Rightarrow> (bool \<times> 'a world) option" where
  "readLoopPeer net h i W =
     (case sock_read net kReadChunk (tp_calls (fst W)) of (status, bytes, c) \<Rightarrow>
      let T1 = (fst W)\<lparr>tp_calls := c\<rparr> in
      (case status of
         IoWouldBlock \<Rightarrow> Some (False, T1, snd W)
       | IoClosed \<Rightarrow> Some (True, dropPeer h i (T1, snd W))
       | IoError \<Rightarrow> Some (True, dropPeer h i (T1, snd W))
       | IoOk \<Rightarrow>
           let T2 = upd_peer i (\<lambda>p. p\<lparr>pe_reader := frd_append bytes (pe_reader p)\<rparr>)
                 (tp_count (\<lambda>s. s\<lparr>ts_bytesReceived := ts_bytesReceived s + of_nat (length bytes)\<rparr>) T1)
           in if length bytes < kReadChunk
              then Some (False, tp_count (\<lambda>s. s\<lparr>ts_partialReads := ts_partialReads s + 1\<rparr>) T2, snd W)
              else readLoopPeer net h i (T2, snd W)))"

definition handleReadable :: "Net \<Rightarrow> 'a handler \<Rightarrow> nat \<Rightarrow> 'a world \<Rightarrow> 'a world option" where
  "handleReadable net h i W = do {
     (dropped, W1) \<leftarrow> readLoopPeer net h i W;
     if dropped then Some W1 else drainFrames h i W1
   }"

section \<open>Sending\<close>

text \<open>The loop ends because a successful \<open>send\<close> takes something. A writer's position never exceeds its buffer, so
  it is empty when its size is zero, and a peer's index is always in range; both tests serve the recursion.\<close>

function handleWritable :: "Net \<Rightarrow> 'a handler \<Rightarrow> nat \<Rightarrow> 'a world \<Rightarrow> 'a world" where
  "handleWritable net h i W =
     (let T = fst W; w = pe_writer (tp_peers T ! i) in
      if fw_size w = 0 \<or> length (tp_peers T) \<le> i then W
      else
        (case sock_write net (fw_data w) (tp_calls T) of (status, n, c) \<Rightarrow>
         let T1 = T\<lparr>tp_calls := c\<rparr> in
         if status = IoWouldBlock then (tp_count (\<lambda>s. s\<lparr>ts_shortWrites := ts_shortWrites s + 1\<rparr>) T1, snd W)
         else if status \<noteq> IoOk then dropPeer h i (T1, snd W)
         else
           let T2 = (if n < fw_size w then tp_count (\<lambda>s. s\<lparr>ts_shortWrites := ts_shortWrites s + 1\<rparr>) T1 else T1);
               T3 = tp_count (\<lambda>s. s\<lparr>ts_bytesSent := ts_bytesSent s + of_nat n\<rparr>)
                      (upd_peer i (\<lambda>p. p\<lparr>pe_writer := fw_consume n (pe_writer p)\<rparr>) T2)
           in handleWritable net h i (T3, snd W)))"
  by pat_completeness auto
termination
proof (relation "measure (\<lambda>(net, h, i, W). fw_size (pe_writer (tp_peers (fst W) ! i)))", goal_cases)
  case (2 net h i W T w status y n c T1 T2 T3)
  then have w: "fw_size w \<noteq> 0" "i < length (tp_peers T)" and n: "sock_write net (fw_data w) (tp_calls T) = (IoOk, n, c)" by auto
  have "fw_data w \<noteq> []" using w(1) by (simp add: fw_data_def fw_size_def)
  then have "0 < n" using sock_write_moves [OF n] by simp
  then have "fw_size (fw_consume n w) < fw_size w"
    using w(1) by (auto simp: fw_consume_def fw_compact_def fw_size_def Let_def min_def)
  moreover have "pe_writer (tp_peers T3 ! i) = fw_consume n w"
    using 2 w(2) by (simp add: tp_count_def upd_peer_def split: if_splits)
  ultimately show ?case using 2 by simp
qed simp

declare handleWritable.simps [simp del]

definition tp_send :: "Net \<Rightarrow> 'a handler \<Rightarrow> NodeId \<Rightarrow> Message \<Rightarrow> 'a world \<Rightarrow> SendResult \<times> 'a world" where
  "tp_send net h to m W =
     (case findPeer to (fst W) of
        None \<Rightarrow> (NotConnected, W)
      | Some i \<Rightarrow>
          let W1 = handleWritable net h i W; p = tp_peers (fst W1) ! i in
          if \<not> pe_sock p then (NotConnected, W1)
          else if fw_overHighWaterMark (pe_writer p) then
            (WouldOverflow, tp_count (\<lambda>s. s\<lparr>ts_sendsRefusedOverflow := ts_sendsRefusedOverflow s + 1\<rparr>) (fst W1), snd W1)
          else
            (SendOk, handleWritable net h i
               (tp_count (\<lambda>s. s\<lparr>ts_messagesSent := ts_messagesSent s + 1\<rparr>)
                  (upd_peer i (\<lambda>p. p\<lparr>pe_writer := fw_enqueue m (pe_writer p)\<rparr>) (fst W1)), snd W1)))"

text \<open>One iteration of the loop of \<open>broadcast\<close>; the number counts the peers reached.\<close>

definition broadcast_one :: "Net \<Rightarrow> 'a handler \<Rightarrow> Message \<Rightarrow> nat \<Rightarrow> nat \<times> 'a world \<Rightarrow> nat \<times> 'a world" where
  "broadcast_one net h m i S =
     (let (sent, W) = S in
      if pe_state (tp_peers (fst W) ! i) \<noteq> Ready then S
      else
        let W1 = handleWritable net h i W; p = tp_peers (fst W1) ! i in
        if \<not> pe_sock p \<or> fw_overHighWaterMark (pe_writer p) then
          (sent, tp_count (\<lambda>s. s\<lparr>ts_sendsRefusedOverflow := ts_sendsRefusedOverflow s + 1\<rparr>) (fst W1), snd W1)
        else
          (sent + 1, handleWritable net h i
             (tp_count (\<lambda>s. s\<lparr>ts_messagesSent := ts_messagesSent s + 1\<rparr>)
                (upd_peer i (\<lambda>p. p\<lparr>pe_writer := fw_enqueue m (pe_writer p)\<rparr>) (fst W1)), snd W1)))"

definition broadcast :: "Net \<Rightarrow> 'a handler \<Rightarrow> Message \<Rightarrow> 'a world \<Rightarrow> nat \<times> 'a world" where
  "broadcast net h m W = fold (broadcast_one net h m) [0..<length (tp_peers (fst W))] (0, W)"

fun find_valid :: "NodeId \<Rightarrow> nat \<Rightarrow> Peer list \<Rightarrow> nat option" where
  "find_valid n i [] = None"
| "find_valid n i (p # ps) = (if pe_id p = n \<and> pe_sock p then Some i else find_valid n (Suc i) ps)"

definition disconnectPeer :: "'a handler \<Rightarrow> NodeId \<Rightarrow> 'a world \<Rightarrow> bool \<times> 'a world" where
  "disconnectPeer h n W =
     (case find_valid n 0 (tp_peers (fst W)) of None \<Rightarrow> (False, W) | Some i \<Rightarrow> (True, dropPeer h i W))"

section \<open>Polling\<close>

definition dial_one :: "Net \<Rightarrow> nat \<Rightarrow> Transport \<Rightarrow> Transport" where
  "dial_one net i T =
     (let p = tp_peers T ! i in
      if pe_outbound p \<and> pe_state p = Disconnected \<and> tp_nextConnectCycle T ! i \<le> tp_cycle T \<and> \<not> isReady (pe_id p) T
      then startConnect net i (T\<lparr>tp_nextConnectCycle := (tp_nextConnectCycle T)[i := tp_cycle T + tp_reconnectDelay T]\<rparr>)
      else T)"

text \<open>The owners of the polled descriptors: the listener, then the peers with a socket. Which events are
  asked for only restricts what the system reports.\<close>

definition poll_owners :: "Transport \<Rightarrow> nat option list" where
  "poll_owners T = (if tp_listener T then [None] else []) @ map Some (filter (\<lambda>i. pe_sock (tp_peers T ! i)) [0..<length (tp_peers T)])"

definition poll_one :: "Net \<Rightarrow> 'a handler \<Rightarrow> nat option \<Rightarrow> PollEvents \<Rightarrow> 'a world \<Rightarrow> 'a world option" where
  "poll_one net h owner ev W =
     (if \<not> pv_error ev \<and> \<not> pv_out ev \<and> \<not> pv_in ev then Some W
      else case owner of
          None \<Rightarrow> map_option (\<lambda>T. (T, snd W)) (acceptPending net (fst W))
        | Some i \<Rightarrow>
            if pe_state (tp_peers (fst W) ! i) = Connecting then
              (case connectError net (tp_calls (fst W)) of (err, c) \<Rightarrow>
               let T1 = (fst W)\<lparr>tp_calls := c\<rparr> in
               if err \<noteq> None then Some (dropPeer h i (T1, snd W))
               else
                 let T2 = T1\<lparr>tp_calls := snd (setNoDelay net c)\<rparr>;
                     T3 = tp_count (\<lambda>s. s\<lparr>ts_connectionsEstablished := ts_connectionsEstablished s + 1\<rparr>)
                            (upd_peer i (\<lambda>p. p\<lparr>pe_state := Handshaking\<rparr>) T2)
                 in Some (handleWritable net h i (sendHello i T3, snd W)))
            else if pv_error ev then Some (dropPeer h i W)
            else
              let W1 = (if pv_out ev then handleWritable net h i W else W) in
              if \<not> pe_sock (tp_peers (fst W1) ! i) then Some W1
              else if pv_in ev then handleReadable net h i W1 else Some W1)"

fun poll_all :: "Net \<Rightarrow> 'a handler \<Rightarrow> (nat option \<times> PollEvents) list \<Rightarrow> 'a world \<Rightarrow> 'a world option" where
  "poll_all net h [] W = Some W"
| "poll_all net h ((owner, ev) # evs) W = Option.bind (poll_one net h owner ev W) (poll_all net h evs)"

definition retire :: "Transport \<Rightarrow> Transport" where
  "retire T =
     (let ps = filter (\<lambda>p. \<not> (\<not> pe_outbound p \<and> pe_state p = Disconnected)) (tp_peers T)
      in T\<lparr>tp_peers := ps, tp_nextConnectCycle := take (length ps) (tp_nextConnectCycle T @ replicate (length ps) 0)\<rparr>)"

definition tp_poll :: "Net \<Rightarrow> 'a handler \<Rightarrow> 'a world \<Rightarrow> (bool \<times> 'a world) option" where
  "tp_poll net h W =
     (let T0 = (fst W)\<lparr>tp_cycle := tp_cycle (fst W) + 1\<rparr>;
          T1 = fold (dial_one net) [0..<length (tp_peers T0)] T0;
          owners = poll_owners T1;
          T2 = T1\<lparr>tp_calls := tp_calls T1 + 1\<rparr>
      in if owners = [] then Some (True, T1, snd W)
         else case ne_poll net (tp_calls T1) of
             PollErrno err \<Rightarrow> Some (err = EINTR, T2, snd W)
           | PollTimeout \<Rightarrow> Some (True, T2, snd W)
           | PollReady evs \<Rightarrow>
               map_option (\<lambda>W1. (True, retire (fst W1), snd W1)) (poll_all net h (zip owners evs) (T2, snd W)))"

declare acceptPending.simps [code] drainFrames.simps [code] readLoopPeer.simps [code]

end
