(* ===== verification/Election.thy ===== *)
theory Election
  imports Message
begin

text \<open>
  Leader election (\<open>consensus/election.hpp\<close>, \<open>consensus/election.cpp\<close>): the per-node state machine
  that never sends anything itself but returns the actions it wants performed. Every handler takes
  the current time and the list of actions so far and returns the new state and the longer list.

  The relation \<open>local_step\<close> collects, for every handler, the local facts on which the cluster-wide
  safety proof rests: terms never decrease, a vote given in a term is never changed within it, and
  every granted response and every claim of leadership is backed by the node's own state.
\<close>

section \<open>State\<close>

type_synonym Millis = u64
type_synonym Term = u64

datatype NodeRole = Follower | Candidate | Leader

record ElectionConfig =
  ec_heartbeatInterval :: Millis
  ec_electionTimeoutMin :: Millis
  ec_electionTimeoutMax :: Millis
  ec_randomSeed :: u64

definition default_election_config :: ElectionConfig where
  "default_election_config = \<lparr>ec_heartbeatInterval = 50, ec_electionTimeoutMin = 150,
     ec_electionTimeoutMax = 300, ec_randomSeed = 1\<rparr>"

datatype ActionKind = SendRequestVote | SendVoteResponse | SendHeartbeat | BecameLeader | SteppedDown

record Action =
  ac_kind :: ActionKind
  ac_to :: NodeId
  ac_term :: Term
  ac_lastLogSeq :: u64
  ac_voteGranted :: bool

type_synonym ActionList = "Action list"

record ElectionStats =
  es_electionsStarted :: u64
  es_electionsWon :: u64
  es_electionsLostToHigherTerm :: u64
  es_votesGranted :: u64
  es_votesRefused :: u64
  es_votesRefusedStaleLog :: u64
  es_stepDowns :: u64
  es_heartbeatsSent :: u64
  es_highestTermSeen :: Term

record Election =
  el_self :: NodeId
  el_peers :: "NodeId list"
  el_config :: ElectionConfig
  el_role :: NodeRole
  el_currentTerm :: Term
  el_votedFor :: "NodeId option"
  el_leaderId :: "NodeId option"
  el_lastLogSeq :: u64
  el_lastHeardFromLeader :: Millis
  el_electionTimeout :: Millis
  el_lastHeartbeatSent :: Millis
  el_votesGranted :: "NodeId list"
  el_rngState :: u64
  el_stats :: ElectionStats

section \<open>Operations\<close>

definition nextRandom :: "Election \<Rightarrow> u64 \<times> Election" where
  "nextRandom e =
     (let e' = e\<lparr>el_rngState := el_rngState e * 6364136223846793005 + 1442695040888963407\<rparr>
      in (drop_bit 17 (el_rngState e'), e'))"

definition resetElectionTimer :: "Millis \<Rightarrow> Election \<Rightarrow> Election" where
  "resetElectionTimer now e =
     (let e1 = e\<lparr>el_lastHeardFromLeader := now\<rparr>;
          span = ec_electionTimeoutMax (el_config e1) - ec_electionTimeoutMin (el_config e1);
          (jitter, e2) = (if span = 0 then (0, e1) else (case nextRandom e1 of (x, e') \<Rightarrow> (x mod (span + 1), e')))
      in e2\<lparr>el_electionTimeout := ec_electionTimeoutMin (el_config e2) + jitter\<rparr>)"

definition new_election :: "NodeId \<Rightarrow> NodeId list \<Rightarrow> ElectionConfig \<Rightarrow> Election" where
  "new_election self peers config = resetElectionTimer 0
     \<lparr>el_self = self, el_peers = peers, el_config = config, el_role = Follower, el_currentTerm = 0,
      el_votedFor = None, el_leaderId = None, el_lastLogSeq = 0, el_lastHeardFromLeader = 0,
      el_electionTimeout = 0, el_lastHeartbeatSent = 0, el_votesGranted = [],
      el_rngState = ec_randomSeed config XOR (ucast self + 0x9E3779B97F4A7C15),
      el_stats = \<lparr>es_electionsStarted = 0, es_electionsWon = 0, es_electionsLostToHigherTerm = 0,
        es_votesGranted = 0, es_votesRefused = 0, es_votesRefusedStaleLog = 0, es_stepDowns = 0,
        es_heartbeatsSent = 0, es_highestTermSeen = 0\<rparr>\<rparr>"

definition setLastLogSeq :: "u64 \<Rightarrow> Election \<Rightarrow> Election" where
  "setLastLogSeq s e = e\<lparr>el_lastLogSeq := s\<rparr>"

definition clusterSize :: "Election \<Rightarrow> nat" where
  "clusterSize e = length (el_peers e) + 1"

definition majority :: "Election \<Rightarrow> nat" where
  "majority e = clusterSize e div 2 + 1"

definition upd_stats :: "(ElectionStats \<Rightarrow> ElectionStats) \<Rightarrow> Election \<Rightarrow> Election" where
  "upd_stats f e = e\<lparr>el_stats := f (el_stats e)\<rparr>"

definition observeTerm :: "Term \<Rightarrow> Millis \<Rightarrow> Election \<Rightarrow> bool \<times> Election" where
  "observeTerm t now e =
     (if t \<le> el_currentTerm e then (False, e)
      else
        let wasLeader = (el_role e = Leader);
            e1 = e\<lparr>el_currentTerm := t, el_votedFor := None, el_role := Follower, el_leaderId := None,
                   el_votesGranted := []\<rparr>;
            e2 = upd_stats (\<lambda>s. s\<lparr>es_highestTermSeen := max (es_highestTermSeen s) t\<rparr>) e1;
            e3 = (if wasLeader then upd_stats (\<lambda>s. s\<lparr>es_stepDowns := es_stepDowns s + 1\<rparr>) e2 else e2)
        in (True, resetElectionTimer now e3))"

definition becomeFollower :: "Term \<Rightarrow> NodeId option \<Rightarrow> Millis \<Rightarrow> Election \<Rightarrow> Election" where
  "becomeFollower t leader now e =
     (let e1 = (if el_role e = Leader then upd_stats (\<lambda>s. s\<lparr>es_stepDowns := es_stepDowns s + 1\<rparr>) e else e)
      in resetElectionTimer now
           (e1\<lparr>el_role := Follower, el_currentTerm := t, el_leaderId := leader, el_votesGranted := []\<rparr>))"

definition broadcastHeartbeat :: "Millis \<Rightarrow> Election \<Rightarrow> ActionList \<Rightarrow> Election \<times> ActionList" where
  "broadcastHeartbeat now e out =
     (let (e1, out1) = fold (\<lambda>peer (e, out).
            (upd_stats (\<lambda>s. s\<lparr>es_heartbeatsSent := es_heartbeatsSent s + 1\<rparr>) e,
             out @ [\<lparr>ac_kind = SendHeartbeat, ac_to = peer, ac_term = el_currentTerm e, ac_lastLogSeq = 0,
                     ac_voteGranted = False\<rparr>])) (el_peers e) (e, out)
      in (e1\<lparr>el_lastHeartbeatSent := now\<rparr>, out1))"

definition becomeLeader :: "Millis \<Rightarrow> Election \<Rightarrow> ActionList \<Rightarrow> Election \<times> ActionList" where
  "becomeLeader now e out =
     (let e1 = upd_stats (\<lambda>s. s\<lparr>es_electionsWon := es_electionsWon s + 1\<rparr>)
                 (e\<lparr>el_role := Leader, el_leaderId := Some (el_self e)\<rparr>);
          out1 = out @ [\<lparr>ac_kind = BecameLeader, ac_to = el_self e1, ac_term = el_currentTerm e1,
                         ac_lastLogSeq = 0, ac_voteGranted = False\<rparr>]
      in broadcastHeartbeat now (e1\<lparr>el_lastHeartbeatSent := now\<rparr>) out1)"

definition becomeCandidate :: "Millis \<Rightarrow> Election \<Rightarrow> ActionList \<Rightarrow> Election \<times> ActionList" where
  "becomeCandidate now e out =
     (let e1 = e\<lparr>el_currentTerm := el_currentTerm e + 1, el_role := Candidate, el_leaderId := None,
                 el_votedFor := Some (el_self e), el_votesGranted := [el_self e]\<rparr>;
          e2 = upd_stats (\<lambda>s. s\<lparr>es_highestTermSeen := max (es_highestTermSeen s) (el_currentTerm e1),
                 es_electionsStarted := es_electionsStarted s + 1\<rparr>) e1;
          e3 = resetElectionTimer now e2
      in if length (el_votesGranted e3) \<ge> majority e3 then becomeLeader now e3 out
         else (e3, out @ map (\<lambda>peer. \<lparr>ac_kind = SendRequestVote, ac_to = peer, ac_term = el_currentTerm e3,
                 ac_lastLogSeq = el_lastLogSeq e3, ac_voteGranted = False\<rparr>) (el_peers e3)))"

definition tick :: "Millis \<Rightarrow> Election \<Rightarrow> ActionList \<Rightarrow> Election \<times> ActionList" where
  "tick now e out =
     (if el_role e = Leader then
        (if now - el_lastHeartbeatSent e \<ge> ec_heartbeatInterval (el_config e)
         then broadcastHeartbeat now e out else (e, out))
      else if now - el_lastHeardFromLeader e \<ge> el_electionTimeout e then becomeCandidate now e out
      else (e, out))"

definition onRequestVote :: "RequestVoteMsg \<Rightarrow> Millis \<Rightarrow> Election \<Rightarrow> ActionList \<Rightarrow> Election \<times> ActionList" where
  "onRequestVote msg now e out =
     (let e1 = snd (observeTerm (rv_term msg) now e);
          (granted, e2) =
            (if rv_term msg < el_currentTerm e1 then (False, e1)
             else if el_votedFor e1 \<noteq> None \<and> the (el_votedFor e1) \<noteq> rv_candidateId msg then (False, e1)
             else if rv_lastLogSeq msg < el_lastLogSeq e1 then
               (False, upd_stats (\<lambda>s. s\<lparr>es_votesRefusedStaleLog := es_votesRefusedStaleLog s + 1\<rparr>) e1)
             else (True, resetElectionTimer now (e1\<lparr>el_votedFor := Some (rv_candidateId msg)\<rparr>)));
          e3 = (if granted then upd_stats (\<lambda>s. s\<lparr>es_votesGranted := es_votesGranted s + 1\<rparr>) e2
                else upd_stats (\<lambda>s. s\<lparr>es_votesRefused := es_votesRefused s + 1\<rparr>) e2)
      in (e3, out @ [\<lparr>ac_kind = SendVoteResponse, ac_to = rv_candidateId msg, ac_term = el_currentTerm e3,
            ac_lastLogSeq = 0, ac_voteGranted = granted\<rparr>]))"

definition onVoteResponse :: "VoteResponseMsg \<Rightarrow> Millis \<Rightarrow> Election \<Rightarrow> ActionList \<Rightarrow> Election \<times> ActionList" where
  "onVoteResponse msg now e out =
     (let (higher, e1) = observeTerm (vr_term msg) now e in
      if higher then
        (upd_stats (\<lambda>s. s\<lparr>es_electionsLostToHigherTerm := es_electionsLostToHigherTerm s + 1\<rparr>) e1, out)
      else if el_role e1 \<noteq> Candidate \<or> vr_term msg \<noteq> el_currentTerm e1 then (e1, out)
      else if \<not> vr_granted msg then (e1, out)
      else if vr_voterId msg \<in> set (el_votesGranted e1) then (e1, out)
      else
        let e2 = e1\<lparr>el_votesGranted := el_votesGranted e1 @ [vr_voterId msg]\<rparr>
        in if length (el_votesGranted e2) \<ge> majority e2 then becomeLeader now e2 out else (e2, out))"

definition onAppendEntries :: "Term \<Rightarrow> NodeId \<Rightarrow> Millis \<Rightarrow> Election \<Rightarrow> ActionList \<Rightarrow> Election \<times> ActionList" where
  "onAppendEntries t leaderId now e out =
     (if t < el_currentTerm e then (e, out)
      else
        let e1 = snd (observeTerm t now e);
            wasLeader = (el_role e1 = Leader)
        in if el_role e1 \<noteq> Follower then
             (becomeFollower t (Some leaderId) now e1,
              if wasLeader then out @ [\<lparr>ac_kind = SteppedDown, ac_to = el_self e1, ac_term = t,
                ac_lastLogSeq = 0, ac_voteGranted = False\<rparr>] else out)
           else (resetElectionTimer now (e1\<lparr>el_leaderId := Some leaderId\<rparr>), out))"

definition onAppendResponse :: "Term \<Rightarrow> Millis \<Rightarrow> Election \<Rightarrow> ActionList \<Rightarrow> Election \<times> ActionList" where
  "onAppendResponse t now e out =
     (let (higher, e1) = observeTerm t now e in
      if higher then (e1, out @ [\<lparr>ac_kind = SteppedDown, ac_to = el_self e1, ac_term = t,
        ac_lastLogSeq = 0, ac_voteGranted = False\<rparr>])
      else (e1, out))"

definition resetVolatileState :: "Election \<Rightarrow> Election" where
  "resetVolatileState e = e\<lparr>el_role := Follower, el_leaderId := None, el_votesGranted := [],
     el_currentTerm := 0, el_votedFor := None, el_lastHeardFromLeader := 0, el_lastHeartbeatSent := 0\<rparr>"

section \<open>What the helpers leave alone\<close>

lemma resetElectionTimer_frame [simp]:
  "el_self (resetElectionTimer now e) = el_self e" "el_peers (resetElectionTimer now e) = el_peers e"
  "el_config (resetElectionTimer now e) = el_config e"
  "el_role (resetElectionTimer now e) = el_role e" "el_currentTerm (resetElectionTimer now e) = el_currentTerm e"
  "el_votedFor (resetElectionTimer now e) = el_votedFor e" "el_leaderId (resetElectionTimer now e) = el_leaderId e"
  "el_lastLogSeq (resetElectionTimer now e) = el_lastLogSeq e"
  "el_votesGranted (resetElectionTimer now e) = el_votesGranted e" "el_stats (resetElectionTimer now e) = el_stats e"
  "el_lastHeardFromLeader (resetElectionTimer now e) = now"
  by (simp_all add: resetElectionTimer_def nextRandom_def Let_def)

lemma upd_stats_frame [simp]:
  "el_self (upd_stats f e) = el_self e" "el_peers (upd_stats f e) = el_peers e" "el_config (upd_stats f e) = el_config e"
  "el_role (upd_stats f e) = el_role e" "el_currentTerm (upd_stats f e) = el_currentTerm e"
  "el_votedFor (upd_stats f e) = el_votedFor e" "el_leaderId (upd_stats f e) = el_leaderId e"
  "el_lastLogSeq (upd_stats f e) = el_lastLogSeq e" "el_votesGranted (upd_stats f e) = el_votesGranted e"
  by (simp_all add: upd_stats_def)

lemma majority_peers: "el_peers e' = el_peers e \<Longrightarrow> majority e' = majority e"
  by (simp add: majority_def clusterSize_def)

lemma broadcast_fold:
  "fold (\<lambda>peer (e, out). (upd_stats f e, out @ [g peer (el_currentTerm e)])) ps (e, out) =
     (((upd_stats f) ^^ length ps) e, out @ map (\<lambda>p. g p (el_currentTerm e)) ps)"
  by (induction ps arbitrary: e out) (simp_all add: funpow_swap1)

lemma upd_stats_pow_frame [simp]:
  "el_self (((upd_stats f) ^^ n) e) = el_self e" "el_peers (((upd_stats f) ^^ n) e) = el_peers e"
  "el_role (((upd_stats f) ^^ n) e) = el_role e" "el_currentTerm (((upd_stats f) ^^ n) e) = el_currentTerm e"
  "el_votedFor (((upd_stats f) ^^ n) e) = el_votedFor e" "el_votesGranted (((upd_stats f) ^^ n) e) = el_votesGranted e"
  "el_config (((upd_stats f) ^^ n) e) = el_config e" "el_lastLogSeq (((upd_stats f) ^^ n) e) = el_lastLogSeq e"
  "el_leaderId (((upd_stats f) ^^ n) e) = el_leaderId e"
  by (induction n) simp_all

definition heartbeats :: "Election \<Rightarrow> ActionList" where
  "heartbeats e = map (\<lambda>p. \<lparr>ac_kind = SendHeartbeat, ac_to = p, ac_term = el_currentTerm e, ac_lastLogSeq = 0,
     ac_voteGranted = False\<rparr>) (el_peers e)"

lemma broadcastHeartbeat_eq:
  "broadcastHeartbeat now e out =
     ((((upd_stats (\<lambda>s. s\<lparr>es_heartbeatsSent := es_heartbeatsSent s + 1\<rparr>)) ^^ length (el_peers e)) e)\<lparr>el_lastHeartbeatSent := now\<rparr>,
      out @ heartbeats e)"
  using broadcast_fold [where g = "\<lambda>p t. \<lparr>ac_kind = SendHeartbeat, ac_to = p, ac_term = t, ac_lastLogSeq = 0,
      ac_voteGranted = False\<rparr>" and ps = "el_peers e" and e = e and out = out]
  by (simp add: broadcastHeartbeat_def heartbeats_def)

section \<open>Local facts of every handler\<close>

definition node_ok :: "Election \<Rightarrow> bool" where
  "node_ok e \<longleftrightarrow> (el_role e \<noteq> Follower \<longrightarrow> el_votedFor e = Some (el_self e) \<and> distinct (el_votesGranted e)) \<and>
     (el_role e = Leader \<longrightarrow> majority e \<le> length (el_votesGranted e))"

text \<open>A step of one node that appends \<open>acts\<close>; \<open>grants\<close> are the granted votes (voter, term) the
  handled message carries.\<close>

definition local_step :: "(NodeId \<times> Term) set \<Rightarrow> Election \<Rightarrow> Election \<Rightarrow> ActionList \<Rightarrow> bool" where
  "local_step grants e e' acts \<longleftrightarrow>
     el_self e' = el_self e \<and> el_peers e' = el_peers e \<and> node_ok e' \<and>
     el_currentTerm e \<le> el_currentTerm e' \<and>
     (el_currentTerm e' = el_currentTerm e \<and> el_votedFor e \<noteq> None \<longrightarrow> el_votedFor e' = el_votedFor e) \<and>
     (\<forall>a\<in>set acts. ac_kind a = SendVoteResponse \<and> ac_voteGranted a \<longrightarrow>
        ac_term a = el_currentTerm e' \<and> el_votedFor e' = Some (ac_to a)) \<and>
     (\<forall>a\<in>set acts. ac_kind a = BecameLeader \<longrightarrow> el_role e' = Leader \<and> ac_term a = el_currentTerm e') \<and>
     (el_role e' \<noteq> Follower \<longrightarrow> (\<forall>v\<in>set (el_votesGranted e').
        v = el_self e \<or> (v, el_currentTerm e') \<in> grants \<or>
        el_role e \<noteq> Follower \<and> el_currentTerm e' = el_currentTerm e \<and> v \<in> set (el_votesGranted e)))"

lemma local_step_refl: "node_ok e \<Longrightarrow> local_step g e e []"
  by (auto simp: local_step_def)

lemma broadcastHeartbeat_facts:
  assumes "broadcastHeartbeat now e out = (e', out')"
  shows "el_self e' = el_self e" and "el_peers e' = el_peers e" and "el_currentTerm e' = el_currentTerm e"
    and "el_votedFor e' = el_votedFor e" and "el_votesGranted e' = el_votesGranted e" and "el_role e' = el_role e"
    and "out' = out @ heartbeats e"
  using assms by (auto simp: broadcastHeartbeat_eq)

lemma becomeLeader_facts:
  assumes "becomeLeader now e out = (e', out')"
  shows "el_self e' = el_self e" and "el_peers e' = el_peers e" and "el_currentTerm e' = el_currentTerm e"
    and "el_votedFor e' = el_votedFor e" and "el_votesGranted e' = el_votesGranted e" and "el_role e' = Leader"
    and "el_leaderId e' = Some (el_self e)"
    and "out' = out @ [\<lparr>ac_kind = BecameLeader, ac_to = el_self e, ac_term = el_currentTerm e,
           ac_lastLogSeq = 0, ac_voteGranted = False\<rparr>] @ heartbeats e"
  using assms by (auto simp: becomeLeader_def broadcastHeartbeat_eq Let_def heartbeats_def)

lemma heartbeats_kind: "a \<in> set (heartbeats e) \<Longrightarrow> ac_kind a = SendHeartbeat"
  by (auto simp: heartbeats_def)

lemma observeTerm_facts:
  assumes "observeTerm t now e = (b, e')"
  shows "el_self e' = el_self e" and "el_peers e' = el_peers e" and "el_lastLogSeq e' = el_lastLogSeq e"
    and "el_config e' = el_config e"
    and "b \<longleftrightarrow> el_currentTerm e < t" and "el_currentTerm e' = max (el_currentTerm e) t" and "\<not> b \<Longrightarrow> e' = e"
    and "b \<Longrightarrow> el_role e' = Follower \<and> el_votedFor e' = None \<and> el_leaderId e' = None \<and> el_votesGranted e' = []"
  using assms by (auto simp: observeTerm_def Let_def not_le split: if_splits)

lemma becomeCandidate_step:
  assumes "becomeCandidate now e [] = (e', acts)" and "el_currentTerm e \<noteq> - 1"
  shows "local_step g e e' acts"
proof -
  define e3 where "e3 = resetElectionTimer now (upd_stats (\<lambda>s. s\<lparr>es_highestTermSeen := max (es_highestTermSeen s) (el_currentTerm e + 1),
    es_electionsStarted := es_electionsStarted s + 1\<rparr>) (e\<lparr>el_currentTerm := el_currentTerm e + 1, el_role := Candidate,
    el_leaderId := None, el_votedFor := Some (el_self e), el_votesGranted := [el_self e]\<rparr>))"
  have less: "el_currentTerm e < el_currentTerm e + 1" using assms(2) by (rule word_Suc_less)
  have e3: "el_self e3 = el_self e" "el_peers e3 = el_peers e" "el_currentTerm e3 = el_currentTerm e + 1"
    "el_role e3 = Candidate" "el_votedFor e3 = Some (el_self e)" "el_votesGranted e3 = [el_self e]"
    by (simp_all add: e3_def)
  have bc: "becomeCandidate now e [] = (if majority e3 \<le> 1 then becomeLeader now e3 []
      else (e3, map (\<lambda>peer. \<lparr>ac_kind = SendRequestVote, ac_to = peer, ac_term = el_currentTerm e3,
                 ac_lastLogSeq = el_lastLogSeq e3, ac_voteGranted = False\<rparr>) (el_peers e3)))"
    by (simp add: becomeCandidate_def Let_def e3_def)
  show ?thesis
  proof (cases "majority e3 \<le> 1")
    case True
    with bc assms(1) have l: "becomeLeader now e3 [] = (e', acts)" by simp
    note f = becomeLeader_facts [OF l]
    have "majority e' = majority e3" using f(2) by (rule majority_peers)
    with f e3 True less show ?thesis
      by (auto simp: local_step_def node_ok_def dest: heartbeats_kind)
  next
    case False
    with bc assms(1) e3 less show ?thesis by (auto simp: local_step_def node_ok_def)
  qed
qed

lemma tick_step:
  assumes "tick now e [] = (e', acts)" and "node_ok e" and "el_currentTerm e \<noteq> - 1"
  shows "local_step g e e' acts"
proof -
  consider "(e', acts) = (e, [])" | "el_role e = Leader" "broadcastHeartbeat now e [] = (e', acts)"
    | "becomeCandidate now e [] = (e', acts)"
    using assms(1) unfolding tick_def by (metis (no_types))
  then show ?thesis
  proof cases
    case 1
    with assms(2) show ?thesis by (simp add: local_step_refl)
  next
    case 2
    note f = broadcastHeartbeat_facts [OF 2(2)]
    have "majority e' = majority e" using f(2) by (rule majority_peers)
    moreover have "\<forall>a\<in>set acts. ac_kind a = SendHeartbeat" using f(7) heartbeats_kind by simp
    ultimately show ?thesis using f(1-6) assms(2) 2(1) by (auto simp: local_step_def node_ok_def)
  next
    case 3
    then show ?thesis using assms(3) by (rule becomeCandidate_step)
  qed
qed

lemma onRequestVote_step:
  assumes h: "onRequestVote msg now e [] = (e', acts)" and ok: "node_ok e"
  shows "local_step g e e' acts"
    and "\<forall>a\<in>set acts. ac_kind a = SendVoteResponse \<and> ac_to a = rv_candidateId msg \<and> (ac_voteGranted a \<longrightarrow> ac_term a = rv_term msg \<and> el_lastLogSeq e \<le> rv_lastLogSeq msg)"
proof -
  obtain b e1 where o: "observeTerm (rv_term msg) now e = (b, e1)" by fastforce
  note f = observeTerm_facts [OF o]
  have ok1: "node_ok e1" using ok f(7,8) by (cases b) (auto simp: node_ok_def)
  consider (refuse) "el_role e' = el_role e1" "el_votedFor e' = el_votedFor e1" "\<forall>a\<in>set acts. ac_kind a = SendVoteResponse \<and> \<not> ac_voteGranted a"
    | (grant) "el_votedFor e1 = None \<or> el_votedFor e1 = Some (rv_candidateId msg)" "el_role e' = el_role e1"
      "el_votedFor e' = Some (rv_candidateId msg)" "\<not> rv_term msg < el_currentTerm e1" "\<not> rv_lastLogSeq msg < el_lastLogSeq e1"
      "\<forall>a\<in>set acts. ac_kind a = SendVoteResponse \<and> ac_to a = rv_candidateId msg \<and> ac_term a = el_currentTerm e1"
    using h by (cases "el_votedFor e1") (auto simp: onRequestVote_def o Let_def split: if_splits)
  note cs = this
  have same: "el_self e' = el_self e1" "el_peers e' = el_peers e1" "el_currentTerm e' = el_currentTerm e1"
    "el_votesGranted e' = el_votesGranted e1"
    "\<forall>a\<in>set acts. ac_kind a = SendVoteResponse \<and> ac_to a = rv_candidateId msg"
    using h by (auto simp: onRequestVote_def o Let_def split: if_splits)
  have maj: "majority e' = majority e1" using same(2) by (rule majority_peers)
  have self: "el_role e1 \<noteq> Follower \<Longrightarrow> el_votedFor e1 = Some (el_self e1)" using ok1 by (simp add: node_ok_def)
  have mono: "el_currentTerm e \<le> el_currentTerm e1" using f(6) by simp
  have keep: "el_currentTerm e1 = el_currentTerm e \<Longrightarrow> e1 = e" using f(5,6,7) by (cases b) auto
  have ok': "node_ok e'"
    using cs ok1 self same maj by cases (auto simp: node_ok_def)
  show "local_step g e e' acts"
    using cs
  proof cases
    case refuse
    with ok' same mono keep f show ?thesis unfolding local_step_def by (auto simp: node_ok_def)
  next
    case grant
    with ok' same mono keep f show ?thesis unfolding local_step_def by (auto simp: node_ok_def)
  qed
  show "\<forall>a\<in>set acts. ac_kind a = SendVoteResponse \<and> ac_to a = rv_candidateId msg \<and>
      (ac_voteGranted a \<longrightarrow> ac_term a = rv_term msg \<and> el_lastLogSeq e \<le> rv_lastLogSeq msg)"
    using cs
  proof cases
    case refuse
    with same(5) show ?thesis by blast
  next
    case grant
    with f(6) have "el_currentTerm e1 = rv_term msg" by (simp add: max_def split: if_splits)
    with grant f(3) show ?thesis by auto
  qed
qed

lemma onVoteResponse_step:
  assumes h: "onVoteResponse msg now e [] = (e', acts)" and ok: "node_ok e"
    and g: "vr_granted msg \<Longrightarrow> (vr_voterId msg, vr_term msg) \<in> g"
  shows "local_step g e e' acts"
proof -
  obtain b e1 where o: "observeTerm (vr_term msg) now e = (b, e1)" by fastforce
  note f = observeTerm_facts [OF o]
  show ?thesis
  proof (cases b)
    case True
    with h o have "e' = upd_stats (\<lambda>s. s\<lparr>es_electionsLostToHigherTerm := es_electionsLostToHigherTerm s + 1\<rparr>) e1" "acts = []"
      by (simp_all add: onVoteResponse_def)
    with f True show ?thesis by (auto simp: local_step_def node_ok_def)
  next
    case False
    then have e1: "e1 = e" using f(7) by simp
    define e2 where "e2 = e\<lparr>el_votesGranted := el_votesGranted e @ [vr_voterId msg]\<rparr>"
    consider "(e', acts) = (e, [])"
      | "el_role e = Candidate" "vr_term msg = el_currentTerm e" "vr_granted msg" "vr_voterId msg \<notin> set (el_votesGranted e)"
        "majority e2 \<le> length (el_votesGranted e2) \<and> becomeLeader now e2 [] = (e', acts) \<or>
         \<not> majority e2 \<le> length (el_votesGranted e2) \<and> (e', acts) = (e2, [])"
      using h by (auto simp: onVoteResponse_def o e1 False e2_def Let_def split: if_splits)
    then show ?thesis
    proof cases
      case 1
      with ok show ?thesis by (simp add: local_step_refl)
    next
      case 2
      have v: "el_votedFor e = Some (el_self e)" "distinct (el_votesGranted e)" using ok 2(1) by (auto simp: node_ok_def)
      have gr: "(vr_voterId msg, el_currentTerm e) \<in> g" using g 2(2,3) by simp
      from 2(5) show ?thesis
      proof (elim disjE conjE)
        assume l: "becomeLeader now e2 [] = (e', acts)" and m: "majority e2 \<le> length (el_votesGranted e2)"
        note bl = becomeLeader_facts [OF l]
        have "majority e' = majority e2" using bl(2) by (rule majority_peers)
        with bl m v gr 2 show ?thesis
          by (auto simp: local_step_def node_ok_def e2_def dest: heartbeats_kind)
      next
        assume "(e', acts) = (e2, [])"
        with v gr 2 show ?thesis by (auto simp: local_step_def node_ok_def e2_def)
      qed
    qed
  qed
qed

lemma follower_ok: "el_role e = Follower \<Longrightarrow> node_ok e"
  by (simp add: node_ok_def)

lemma onAppendEntries_step:
  assumes h: "onAppendEntries t l now e [] = (e', acts)" and ok: "node_ok e"
  shows "local_step g e e' acts"
proof (cases "t < el_currentTerm e")
  case True
  with h ok show ?thesis by (simp add: onAppendEntries_def local_step_refl)
next
  case False
  obtain b e1 where o: "observeTerm t now e = (b, e1)" by fastforce
  note f = observeTerm_facts [OF o]
  have t: "el_currentTerm e1 = t" using f(6) False by (simp add: max_def not_less)
  have "el_role e' = Follower" "el_self e' = el_self e" "el_peers e' = el_peers e" "el_currentTerm e' = t"
    "el_votedFor e' = el_votedFor e1" "\<forall>a\<in>set acts. ac_kind a = SteppedDown"
    using h False f(1,2) t
    by (auto simp: onAppendEntries_def o becomeFollower_def Let_def split: if_splits)
  moreover have "el_currentTerm e1 = el_currentTerm e \<Longrightarrow> e1 = e" using f(5,6,7) by (cases b) auto
  ultimately show ?thesis using False t follower_ok [of e'] by (auto simp: local_step_def)
qed

lemma onAppendResponse_step:
  assumes h: "onAppendResponse t now e [] = (e', acts)" and ok: "node_ok e"
  shows "local_step g e e' acts"
proof -
  obtain b e1 where o: "observeTerm t now e = (b, e1)" by fastforce
  note f = observeTerm_facts [OF o]
  show ?thesis
  proof (cases b)
    case True
    with h o have "e' = e1" "\<forall>a\<in>set acts. ac_kind a = SteppedDown" by (auto simp: onAppendResponse_def)
    with f True follower_ok [of e'] show ?thesis by (auto simp: local_step_def)
  next
    case False
    with h o f(7) ok show ?thesis by (simp add: onAppendResponse_def local_step_refl)
  qed
qed

end
