(* ===== verification/Election_Cluster.thy ===== *)
theory Election_Cluster
  imports Election
begin

text \<open>
  A cluster of election state machines over an unreliable network. The network is the set of all
  messages ever sent: delivering one does not remove it, so messages may be lost, delayed,
  reordered and duplicated, and each step picks an arbitrary time. Append traffic comes from the
  replication layer and is left unconstrained.

  Two history variables record what happened: the votes cast per node and term, and the claims of
  leadership. The safety theorem says that no two nodes ever claim the same term. It needs that
  no election starts at the maximal 64-bit term, where the increment of the term would wrap.
\<close>

section \<open>Quorums\<close>

locale quorum_system =
  fixes quorum :: "'a set \<Rightarrow> bool"
  assumes quorums_meet: "quorum Q \<Longrightarrow> quorum Q' \<Longrightarrow> Q \<inter> Q' \<noteq> {}"

locale vote_history = quorum_system quorum
  for quorum :: "'a set \<Rightarrow> bool" +
  fixes cast :: "'a \<Rightarrow> 't \<Rightarrow> 'c option"
begin

lemma winner_unique:
  assumes "quorum Q" and "\<forall>v\<in>Q. cast v t = Some c" and "quorum Q'" and "\<forall>v\<in>Q'. cast v t = Some c'"
  shows "c = c'"
proof -
  obtain v where "v \<in> Q" "v \<in> Q'" using quorums_meet [OF assms(1,3)] by blast
  with assms(2,4) show ?thesis by (metis option.inject)
qed

end

definition is_majority :: "NodeId set \<Rightarrow> NodeId set \<Rightarrow> bool" where
  "is_majority ns Q \<longleftrightarrow> Q \<subseteq> ns \<and> card ns div 2 + 1 \<le> card Q"

interpretation maj: quorum_system "is_majority ns" for ns
proof
  fix Q Q' assume a: "is_majority ns Q" "is_majority ns Q'"
  show "Q \<inter> Q' \<noteq> {}"
  proof
    assume "Q \<inter> Q' = {}"
    then have "card Q + card Q' = card (Q \<union> Q')" by (simp add: card_Un_disjoint)
    also have "\<dots> \<le> card ns" using a by (intro card_mono) (auto simp: is_majority_def)
    finally show False using a unfolding is_majority_def by linarith
  qed
qed

interpretation vh: vote_history "is_majority ns" cast for ns and cast :: "NodeId \<Rightarrow> Term \<Rightarrow> NodeId option"
  by unfold_locales

text \<open>A majority of the nodes voted for \<open>c\<close> in term \<open>t\<close>.\<close>

definition elected :: "NodeId set \<Rightarrow> (NodeId \<Rightarrow> Term \<Rightarrow> NodeId option) \<Rightarrow> Term \<Rightarrow> NodeId \<Rightarrow> bool" where
  "elected ns cast t c \<longleftrightarrow> (\<exists>Q. is_majority ns Q \<and> (\<forall>v\<in>Q. cast v t = Some c))"

lemma elected_unique: "elected ns cast t c \<Longrightarrow> elected ns cast t c' \<Longrightarrow> c = c'"
  unfolding elected_def using vh.winner_unique by blast

section \<open>The cluster\<close>

text \<open>How a node turns actions into messages (\<open>runActions\<close> of the node binary); the heartbeat also
  carries the log position and commit index of the moment.\<close>

fun action_message :: "NodeId \<Rightarrow> u64 \<Rightarrow> u64 \<Rightarrow> Action \<Rightarrow> (NodeId \<times> Message) list" where
  "action_message self lastSeq commitSeq a = (case ac_kind a of
      SendRequestVote \<Rightarrow> [(ac_to a, RequestVote \<lparr>rv_term = ac_term a, rv_candidateId = self, rv_lastLogSeq = ac_lastLogSeq a\<rparr>)]
    | SendVoteResponse \<Rightarrow> [(ac_to a, VoteResponse \<lparr>vr_term = ac_term a, vr_voterId = self, vr_granted = ac_voteGranted a\<rparr>)]
    | SendHeartbeat \<Rightarrow> [(ac_to a, AppendEntries \<lparr>ae_term = ac_term a, ae_leaderId = self, ae_prevSeq = lastSeq,
        ae_prevTerm = 0, ae_commitSeq = commitSeq, ae_entries = []\<rparr>)]
    | BecameLeader \<Rightarrow> []
    | SteppedDown \<Rightarrow> [])"

lemma action_message_vote:
  "(d, VoteResponse m) \<in> set (action_message n s c a) \<longleftrightarrow> ac_kind a = SendVoteResponse \<and> d = ac_to a \<and>
     m = \<lparr>vr_term = ac_term a, vr_voterId = n, vr_granted = ac_voteGranted a\<rparr>"
  by (cases "ac_kind a") auto

record Cluster =
  cl_node :: "NodeId \<Rightarrow> Election"
  cl_net :: "(NodeId \<times> Message) set"
  cl_cast :: "NodeId \<Rightarrow> Term \<Rightarrow> NodeId option"
  cl_won :: "(Term \<times> NodeId) set"

definition record_vote :: "NodeId \<Rightarrow> Election \<Rightarrow> (NodeId \<Rightarrow> Term \<Rightarrow> NodeId option) \<Rightarrow> NodeId \<Rightarrow> Term \<Rightarrow> NodeId option" where
  "record_vote n e cast =
     (case el_votedFor e of None \<Rightarrow> cast | Some c \<Rightarrow> cast(n := (cast n)(el_currentTerm e := Some c)))"

definition after :: "NodeId \<Rightarrow> u64 \<Rightarrow> u64 \<Rightarrow> Election \<times> ActionList \<Rightarrow> Cluster \<Rightarrow> Cluster" where
  "after n lastSeq commitSeq r C = (case r of (e', acts) \<Rightarrow>
     C\<lparr>cl_node := (cl_node C)(n := e'),
       cl_net := cl_net C \<union> set (concat (map (action_message n lastSeq commitSeq) acts)),
       cl_cast := record_vote n e' (cl_cast C),
       cl_won := cl_won C \<union> {(ac_term a, n) | a. a \<in> set acts \<and> ac_kind a = BecameLeader}\<rparr>)"

inductive cluster_step :: "NodeId set \<Rightarrow> Cluster \<Rightarrow> Cluster \<Rightarrow> bool" for ns where
  Tick: "n \<in> ns \<Longrightarrow> e = setLastLogSeq s (cl_node C n) \<Longrightarrow> el_currentTerm e \<noteq> - 1 \<Longrightarrow>
    cluster_step ns C (after n s c (tick now e []) C)"
| RecvRequestVote: "n \<in> ns \<Longrightarrow> (n, RequestVote m) \<in> cl_net C \<Longrightarrow> e = setLastLogSeq s (cl_node C n) \<Longrightarrow>
    cluster_step ns C (after n s c (onRequestVote m now e []) C)"
| RecvVoteResponse: "n \<in> ns \<Longrightarrow> (n, VoteResponse m) \<in> cl_net C \<Longrightarrow>
    cluster_step ns C (after n s c (onVoteResponse m now (cl_node C n) []) C)"
| RecvAppendEntries: "n \<in> ns \<Longrightarrow>
    cluster_step ns C (after n s c (onAppendEntries t l now (cl_node C n) []) C)"
| RecvAppendResponse: "n \<in> ns \<Longrightarrow>
    cluster_step ns C (after n s c (onAppendResponse t now (cl_node C n) []) C)"

definition cluster_init :: "NodeId set \<Rightarrow> (NodeId \<Rightarrow> NodeId list) \<Rightarrow> (NodeId \<Rightarrow> ElectionConfig) \<Rightarrow> Cluster" where
  "cluster_init ns peers cfg = \<lparr>cl_node = (\<lambda>n. new_election n (peers n) (cfg n)), cl_net = {},
     cl_cast = (\<lambda>_ _. None), cl_won = {}\<rparr>"

inductive reachable :: "NodeId set \<Rightarrow> Cluster \<Rightarrow> bool" for ns where
  init: "(\<And>n. n \<in> ns \<Longrightarrow> distinct (peers n) \<and> set (peers n) = ns - {n}) \<Longrightarrow> reachable ns (cluster_init ns peers cfg)"
| step: "reachable ns C \<Longrightarrow> cluster_step ns C C' \<Longrightarrow> reachable ns C'"

inductive_cases cluster_stepE: "cluster_step ns C C'"

section \<open>The invariant\<close>

definition node_inv :: "NodeId set \<Rightarrow> (NodeId \<Rightarrow> Term \<Rightarrow> NodeId option) \<Rightarrow> NodeId \<Rightarrow> Election \<Rightarrow> bool" where
  "node_inv ns cast n e \<longleftrightarrow> el_self e = n \<and> distinct (el_peers e) \<and> set (el_peers e) = ns - {n} \<and> node_ok e \<and>
     (\<forall>t. el_currentTerm e < t \<longrightarrow> cast n t = None) \<and> cast n (el_currentTerm e) = el_votedFor e \<and>
     (el_role e \<noteq> Follower \<longrightarrow> (\<forall>v\<in>set (el_votesGranted e). v \<in> ns \<and> cast v (el_currentTerm e) = Some n))"

definition cluster_inv :: "NodeId set \<Rightarrow> Cluster \<Rightarrow> bool" where
  "cluster_inv ns C \<longleftrightarrow>
     (\<forall>n\<in>ns. node_inv ns (cl_cast C) n (cl_node C n)) \<and>
     (\<forall>c m. (c, VoteResponse m) \<in> cl_net C \<and> vr_granted m \<longrightarrow>
        vr_voterId m \<in> ns \<and> cl_cast C (vr_voterId m) (vr_term m) = Some c) \<and>
     (\<forall>t c. (t, c) \<in> cl_won C \<longrightarrow> elected ns (cl_cast C) t c)"

lemma majority_card:
  assumes "node_inv ns cast n e" and "n \<in> ns"
  shows "majority e = card ns div 2 + 1"
proof -
  have "card (ns - {n}) = length (el_peers e)"
    using assms(1) distinct_card [of "el_peers e"] by (simp add: node_inv_def)
  moreover have "card ns = Suc (card (ns - {n}))"
    using assms(2) card_Suc_Diff1 [of ns n] by simp
  ultimately have "clusterSize e = card ns" by (simp add: clusterSize_def)
  then show ?thesis by (simp add: majority_def)
qed

lemma leader_elected:
  assumes "node_inv ns cast n e" and "n \<in> ns" and "el_role e = Leader"
  shows "elected ns cast (el_currentTerm e) n"
proof -
  have "distinct (el_votesGranted e)" "majority e \<le> length (el_votesGranted e)"
    "\<forall>v\<in>set (el_votesGranted e). v \<in> ns \<and> cast v (el_currentTerm e) = Some n"
    using assms by (auto simp: node_inv_def node_ok_def)
  moreover from this(1) have "card (set (el_votesGranted e)) = length (el_votesGranted e)" by (rule distinct_card)
  ultimately show ?thesis
    unfolding elected_def using majority_card [OF assms(1,2)]
    by (intro exI [of _ "set (el_votesGranted e)"]) (auto simp: is_majority_def)
qed

text \<open>A vote on record stays on record.\<close>

lemma record_vote_mono:
  assumes inv: "node_inv ns cast n e" and st: "local_step g e e' acts" and c: "cast v t = Some c"
  shows "record_vote n e' cast v t = Some c"
proof (cases "v = n \<and> t = el_currentTerm e'")
  case True
  with inv c have "el_currentTerm e' \<le> el_currentTerm e" by (auto simp: node_inv_def not_less [symmetric])
  with st have "el_currentTerm e' = el_currentTerm e" by (auto simp: local_step_def)
  with True inv st c show ?thesis by (auto simp: node_inv_def local_step_def record_vote_def)
next
  case False
  with c show ?thesis by (auto simp: record_vote_def split: option.split)
qed

lemma record_vote_other: "v \<noteq> n \<Longrightarrow> record_vote n e cast v = cast v"
  by (simp add: record_vote_def split: option.split)

lemma elected_mono:
  "elected ns cast t c \<Longrightarrow> (\<And>v t c. cast v t = Some c \<Longrightarrow> cast' v t = Some c) \<Longrightarrow> elected ns cast' t c"
  unfolding elected_def by blast

lemma after_inv:
  assumes inv: "cluster_inv ns C" and n: "n \<in> ns" and e: "e = setLastLogSeq s' (cl_node C n)"
    and st: "local_step g e e' acts" and g: "\<And>v t. (v, t) \<in> g \<Longrightarrow> v \<in> ns \<and> cl_cast C v t = Some n"
  shows "cluster_inv ns (after n s c (e', acts) C)"
proof -
  let ?cast = "cl_cast C" and ?C' = "after n s c (e', acts) C"
  let ?cast' = "record_vote n e' ?cast"
  have ni: "node_inv ns ?cast n e" using inv n e by (simp add: cluster_inv_def node_inv_def setLastLogSeq_def node_ok_def majority_def clusterSize_def)
  have mono: "?cast v t = Some d \<Longrightarrow> ?cast' v t = Some d" for v t d
    using record_vote_mono [OF ni st] .
  have self: "el_self e' = n" "el_self e = n" "el_peers e' = el_peers e" using st ni by (auto simp: local_step_def node_inv_def)
  have now: "?cast' n (el_currentTerm e') = el_votedFor e'"
  proof (cases "el_votedFor e'")
    case None
    then have "?cast n (el_currentTerm e') = None"
      using ni st by (cases "el_currentTerm e' = el_currentTerm e") (auto simp: node_inv_def local_step_def)
    with None show ?thesis by (simp add: record_vote_def)
  qed (simp add: record_vote_def)
  have ni': "node_inv ns ?cast' n e'"
    unfolding node_inv_def
  proof (intro conjI allI impI ballI)
    show "el_self e' = n" "distinct (el_peers e')" "set (el_peers e') = ns - {n}" "node_ok e'"
      using self ni st by (auto simp: node_inv_def local_step_def)
    show "?cast' n t = None" if "el_currentTerm e' < t" for t
      using that ni st by (auto simp: record_vote_def node_inv_def local_step_def split: option.split)
    show "?cast' n (el_currentTerm e') = el_votedFor e'" by (rule now)
    fix v assume lead: "el_role e' \<noteq> Follower" and v: "v \<in> set (el_votesGranted e')"
    have own: "el_votedFor e' = Some n" using st lead self by (simp add: local_step_def node_ok_def)
    from st lead v self consider "v = n" | "(v, el_currentTerm e') \<in> g"
      | "el_role e \<noteq> Follower" "el_currentTerm e' = el_currentTerm e" "v \<in> set (el_votesGranted e)"
      by (auto simp: local_step_def)
    then show "v \<in> ns" "?cast' v (el_currentTerm e') = Some n"
      using n now own g mono ni by (cases; auto simp: node_inv_def)+
  qed
  have "node_inv ns ?cast' k (cl_node ?C' k)" if "k \<in> ns" for k
  proof (cases "k = n")
    case True
    with ni' show ?thesis by (simp add: after_def)
  next
    case False
    have "node_inv ns ?cast k (cl_node C k)" using inv that by (simp add: cluster_inv_def)
    with False mono show ?thesis by (auto simp: after_def node_inv_def record_vote_other)
  qed
  moreover have "vr_voterId m \<in> ns \<and> ?cast' (vr_voterId m) (vr_term m) = Some d"
    if m: "(d, VoteResponse m) \<in> cl_net ?C'" "vr_granted m" for d m
  proof (cases "(d, VoteResponse m) \<in> cl_net C")
    case True
    with inv m(2) mono show ?thesis by (auto simp: cluster_inv_def)
  next
    case False
    with m obtain a where "a \<in> set acts" "ac_kind a = SendVoteResponse" "ac_voteGranted a" "d = ac_to a"
      "vr_term m = ac_term a" "vr_voterId m = n"
      by (auto simp: after_def action_message_vote simp del: action_message.simps)
    with st n now show ?thesis by (auto simp: local_step_def)
  qed
  moreover have "elected ns ?cast' t d" if "(t, d) \<in> cl_won ?C'" for t d
  proof (cases "(t, d) \<in> cl_won C")
    case True
    with inv have "elected ns ?cast t d" by (simp add: cluster_inv_def)
    then show ?thesis using mono by (rule elected_mono)
  next
    case False
    with that obtain a where "a \<in> set acts" "ac_kind a = BecameLeader" "t = ac_term a" "d = n"
      by (auto simp: after_def)
    with st have "el_role e' = Leader" "t = el_currentTerm e'" by (auto simp: local_step_def)
    with leader_elected [OF ni' n] \<open>d = n\<close> show ?thesis by simp
  qed
  ultimately show ?thesis by (auto simp: cluster_inv_def after_def)
qed

lemma setLastLogSeq_same [simp]: "setLastLogSeq (el_lastLogSeq e) e = e"
  by (simp add: setLastLogSeq_def)

text \<open>Every step of the cluster is a local step of one node.\<close>

lemma node_inv_ok:
  "cluster_inv ns C \<Longrightarrow> n \<in> ns \<Longrightarrow> node_ok (cl_node C n)"
  "cluster_inv ns C \<Longrightarrow> n \<in> ns \<Longrightarrow> node_ok (setLastLogSeq s (cl_node C n))"
  by (auto simp: cluster_inv_def node_inv_def setLastLogSeq_def node_ok_def majority_def clusterSize_def)

lemma cluster_step_cases:
  assumes "cluster_step ns C C'" and inv: "cluster_inv ns C"
  obtains n s c e s' e' acts g where "n \<in> ns" and "C' = after n s c (e', acts) C"
    and "e = setLastLogSeq s' (cl_node C n)" and "local_step g e e' acts"
    and "\<And>v t. (v, t) \<in> g \<Longrightarrow> v \<in> ns \<and> cl_cast C v t = Some n"
  using assms(1)
proof cases
  case (Tick n e s c now)
  obtain e' acts where t: "tick now e [] = (e', acts)" by fastforce
  have "node_ok e" using node_inv_ok [OF inv] Tick by simp
  note st = tick_step [OF t this Tick(4), of "{}"]
  have C': "C' = after n s c (e', acts) C" using Tick(1) t by simp
  show thesis by (rule that [OF Tick(2) C' Tick(3) st]) simp
next
  case (RecvRequestVote n m e s c now)
  obtain e' acts where t: "onRequestVote m now e [] = (e', acts)" by fastforce
  have "node_ok e" using node_inv_ok [OF inv] RecvRequestVote by simp
  note st = onRequestVote_step(1) [OF t this, of "{}"]
  have C': "C' = after n s c (e', acts) C" using RecvRequestVote(1) t by simp
  show thesis by (rule that [OF RecvRequestVote(2) C' RecvRequestVote(4) st]) simp
next
  case (RecvVoteResponse n m s c now)
  obtain e' acts where t: "onVoteResponse m now (cl_node C n) [] = (e', acts)" by fastforce
  let ?g = "if vr_granted m then {(vr_voterId m, vr_term m)} else {}"
  have "node_ok (cl_node C n)" using node_inv_ok [OF inv] RecvVoteResponse by simp
  from onVoteResponse_step [OF t this, of ?g] have st: "local_step ?g (cl_node C n) e' acts" by simp
  have "v \<in> ns \<and> cl_cast C v u = Some n" if "(v, u) \<in> ?g" for v u
    using that inv RecvVoteResponse(3) by (auto simp: cluster_inv_def split: if_splits)
  note g = this
  have C': "C' = after n s c (e', acts) C" using RecvVoteResponse(1) t by simp
  show thesis by (rule that [OF RecvVoteResponse(2) C' setLastLogSeq_same [symmetric] st g])
next
  case (RecvAppendEntries n s c t l now)
  obtain e' acts where h: "onAppendEntries t l now (cl_node C n) [] = (e', acts)" by fastforce
  have "node_ok (cl_node C n)" using node_inv_ok [OF inv] RecvAppendEntries by simp
  note st = onAppendEntries_step [OF h this, of "{}"]
  have C': "C' = after n s c (e', acts) C" using RecvAppendEntries(1) h by simp
  show thesis by (rule that [OF RecvAppendEntries(2) C' setLastLogSeq_same [symmetric] st]) simp
next
  case (RecvAppendResponse n s c t now)
  obtain e' acts where h: "onAppendResponse t now (cl_node C n) [] = (e', acts)" by fastforce
  have "node_ok (cl_node C n)" using node_inv_ok [OF inv] RecvAppendResponse by simp
  note st = onAppendResponse_step [OF h this, of "{}"]
  have C': "C' = after n s c (e', acts) C" using RecvAppendResponse(1) h by simp
  show thesis by (rule that [OF RecvAppendResponse(2) C' setLastLogSeq_same [symmetric] st]) simp
qed

lemma cluster_step_inv:
  assumes "cluster_step ns C C'" and "cluster_inv ns C"
  shows "cluster_inv ns C'"
  using assms by (rule cluster_step_cases) (use assms(2) after_inv in blast)

lemma new_election_facts [simp]:
  "el_self (new_election n ps cfg) = n" "el_peers (new_election n ps cfg) = ps" "el_role (new_election n ps cfg) = Follower"
  "el_currentTerm (new_election n ps cfg) = 0" "el_votedFor (new_election n ps cfg) = None"
  by (simp_all add: new_election_def)

lemma reachable_inv: "reachable ns C \<Longrightarrow> cluster_inv ns C"
proof (induction rule: reachable.induct)
  case (init peers cfg)
  then show ?case by (auto simp: cluster_init_def cluster_inv_def node_inv_def node_ok_def)
next
  case (step C C')
  then show ?case using cluster_step_inv by blast
qed

end
