(* ===== verification/Node.thy ===== *)
theory Node
  imports Transport Replicator Election_Cluster
begin

text \<open>
  The node program (\<open>apps/node/main.cpp\<close>): a matching engine, a command log, an election, a replicator and a
  transport, the callbacks that connect them, and one turn of the event loop.

  The callbacks work on the transport and the rest of the node, as \<open>Transport\<close> passes them. A message handed to the
  transport may drop a connection, which calls \<open>onPeerDown\<close>, and nothing else, before \<open>send\<close> returns; \<open>on_down\<close> is that
  callback. While the replicator is sending, the dropped nodes are noted and taken out of its backups when
  its operation returns: the code takes them out at once, under a loop or a reference that may still use the
  erased element, which has no defined meaning. The \<open>clock\<close> gives the time of the n-th reading. A node
  whose log would outgrow the 64-bit sequence numbers leaves the model (\<open>LogFull\<close>); \<open>Failed\<close> is a failed
  assertion of the engine. What is printed is left out.
\<close>

section \<open>State\<close>

type_synonym link = "Transport \<times> NodeId list"

record App =
  ap_self :: NodeId
  ap_elect :: bool
  ap_peerIds :: "NodeId list"
  ap_election :: Election
  ap_replicator :: "link Replicator"
  ap_orders :: "Command list"
  ap_nextOrder :: nat
  ap_heartbeatCycles :: int
  ap_heartbeatCounter :: u64
  ap_cycles :: int
  ap_everConnected :: bool
  ap_complete :: bool
  ap_exitOnComplete :: bool
  ap_readings :: nat

datatype Node = Running App | LogFull | Failed

definition kInstrument :: InstrumentId where "kInstrument = 1"

section \<open>Callbacks\<close>

definition note_down :: "NodeId list handler" where
  "note_down u W = (case u of PeerDown n \<Rightarrow> (fst W, snd W @ [n]) | _ \<Rightarrow> W)"

definition link_send :: "Net \<Rightarrow> link sender" where
  "link_send net to m lk = tp_send net note_down to m lk"

definition link_sat :: "link saturation" where
  "link_sat n lk = isSaturated n (fst lk)"

definition on_down :: "App handler" where
  "on_down u W = (case u of PeerDown n \<Rightarrow> (fst W, (snd W)\<lparr>ap_replicator := onPeerDown n (ap_replicator (snd W))\<rparr>) | _ \<Rightarrow> W)"

text \<open>Handing the transport to the replicator, and taking it back.\<close>

definition borrow :: "Transport \<times> App \<Rightarrow> link Replicator" where
  "borrow W = (ap_replicator (snd W))\<lparr>rp_transport := (fst W, [])\<rparr>"

definition give_back :: "App \<Rightarrow> link Replicator \<Rightarrow> Transport \<times> App" where
  "give_back A R = (fst (rp_transport R), A\<lparr>ap_replicator := fold onPeerDown (snd (rp_transport R)) R\<rparr>)"

definition app_peerUp :: "Net \<Rightarrow> NodeId \<Rightarrow> Transport \<times> App \<Rightarrow> Transport \<times> App" where
  "app_peerUp net n W = give_back (snd W) (onPeerUp (link_send net) n (borrow W))"

definition app_lastSeq :: "App \<Rightarrow> Sequence" where
  "app_lastSeq A = lg_lastSeq (rp_log (ap_replicator A))"

definition set_term :: "u64 \<Rightarrow> App \<Rightarrow> App" where
  "set_term t A = A\<lparr>ap_replicator := setTerm t (ap_replicator A)\<rparr>"

definition set_role :: "Role \<Rightarrow> App \<Rightarrow> App" where
  "set_role r A = A\<lparr>ap_replicator := setRole r (ap_replicator A)\<rparr>"

definition run_action :: "Net \<Rightarrow> Action \<Rightarrow> Transport \<times> App \<Rightarrow> Transport \<times> App" where
  "run_action net a W =
     (case ac_kind a of
        BecameLeader \<Rightarrow>
          fold (\<lambda>p W. if isReady p (fst W) then app_peerUp net p W else W) (ap_peerIds (snd W))
            (fst W, set_role Primary (set_term (ac_term a) (snd W)))
      | SteppedDown \<Rightarrow> (fst W, set_role Backup (set_term (ac_term a) (snd W)))
      | _ \<Rightarrow>
          fold (\<lambda>(to, m) W. snd (tp_send net on_down to m W))
            (action_message (ap_self (snd W)) (app_lastSeq (snd W)) (commitSeq (ap_replicator (snd W))) a) W)"

definition run_actions :: "Net \<Rightarrow> ActionList \<Rightarrow> Transport \<times> App \<Rightarrow> Transport \<times> App" where
  "run_actions net acts W = fold (run_action net) acts W"

text \<open>An election handler is run on the current time, then its actions.\<close>

definition elect_step :: "Net \<Rightarrow> (nat \<Rightarrow> Millis) \<Rightarrow> (Millis \<Rightarrow> Election \<Rightarrow> ActionList \<Rightarrow> Election \<times> ActionList) \<Rightarrow> Transport \<times> App \<Rightarrow> Transport \<times> App" where
  "elect_step net clock f W =
     (let A = snd W; (e, acts) = f (clock (ap_readings A)) (ap_election A) []
      in run_actions net acts (fst W, A\<lparr>ap_election := e, ap_readings := ap_readings A + 1\<rparr>))"

text \<open>The last part of \<open>onMessage\<close>: replication traffic goes to the replicator.\<close>

definition log_fits :: "Message \<Rightarrow> App \<Rightarrow> bool" where
  "log_fits m A = (case m of AppendEntries a \<Rightarrow>
     length (lg_entries (rp_log (ap_replicator A))) + length (ae_entries a) < 2 ^ 64 - 1 | _ \<Rightarrow> True)"

definition to_replicator :: "Net \<Rightarrow> NodeId \<Rightarrow> Message \<Rightarrow> Transport \<times> App \<Rightarrow> Transport \<times> Node" where
  "to_replicator net frm m W =
     (if typeOf m = T_AppendEntries \<or> typeOf m = T_AppendResponse then
        (if \<not> log_fits m (snd W) then (fst W, LogFull)
         else case rp_onMessage (link_send net) frm m (borrow W) of
             None \<Rightarrow> (fst W, Failed)
           | Some R \<Rightarrow> (case give_back (snd W) R of (T, A) \<Rightarrow> (T, Running A)))
      else (fst W, Running (snd W)))"

definition sync_term :: "Transport \<times> App \<Rightarrow> Transport \<times> App" where
  "sync_term W = (fst W, set_term (el_currentTerm (ap_election (snd W))) (snd W))"

definition app_onMessage :: "Net \<Rightarrow> (nat \<Rightarrow> Millis) \<Rightarrow> NodeId \<Rightarrow> Message \<Rightarrow> Transport \<times> App \<Rightarrow> Transport \<times> Node" where
  "app_onMessage net clock frm m W =
     (if ap_elect (snd W) then
        (case m of
           RequestVote rv \<Rightarrow>
             (case elect_step net clock (\<lambda>now e. onRequestVote rv now (setLastLogSeq (app_lastSeq (snd W)) e)) W of (T, A) \<Rightarrow> (T, Running A))
         | VoteResponse vr \<Rightarrow> (case elect_step net clock (onVoteResponse vr) W of (T, A) \<Rightarrow> (T, Running A))
         | AppendEntries ae \<Rightarrow>
             to_replicator net frm m (sync_term (elect_step net clock (onAppendEntries (ae_term ae) (ae_leaderId ae)) W))
         | AppendResponse ar \<Rightarrow>
             to_replicator net frm m (sync_term (elect_step net clock (onAppendResponse (ar_term ar)) W))
         | _ \<Rightarrow> to_replicator net frm m W)
      else to_replicator net frm m W)"

definition node_handler :: "Net \<Rightarrow> (nat \<Rightarrow> Millis) \<Rightarrow> Node handler" where
  "node_handler net clock u W =
     (case snd W of
        Running A \<Rightarrow>
          (case u of
             PeerUp n addr \<Rightarrow> (case app_peerUp net n (fst W, A) of (T, A') \<Rightarrow> (T, Running A'))
           | PeerDown n \<Rightarrow> (case on_down u (fst W, A) of (T, A') \<Rightarrow> (T, Running A'))
           | Received n m \<Rightarrow> app_onMessage net clock n m (fst W, A))
      | _ \<Rightarrow> W)"

section \<open>The event loop\<close>

text \<open>One attempt to submit the next order; the flag is \<open>SubmitResult::ok\<close>.\<close>

definition submit_next :: "Net \<Rightarrow> Transport \<times> App \<Rightarrow> bool \<times> Transport \<times> Node" where
  "submit_next net W =
     (if \<not> log_room (rp_log (ap_replicator (snd W))) then (False, fst W, LogFull)
      else case submit (link_send net) link_sat (ap_orders (snd W) ! ap_nextOrder (snd W)) (borrow W) of
          None \<Rightarrow> (False, fst W, Failed)
        | Some (r, R) \<Rightarrow>
            (case give_back (snd W) R of (T, A) \<Rightarrow>
             if sr_status r = Accepted then (True, T, Running (A\<lparr>ap_nextOrder := ap_nextOrder A + 1\<rparr>)) else (False, T, Running A)))"

fun feed :: "Net \<Rightarrow> nat \<Rightarrow> Transport \<times> App \<Rightarrow> Transport \<times> Node" where
  "feed net 0 W = (fst W, Running (snd W))"
| "feed net (Suc burst) W =
     (if ap_nextOrder (snd W) < length (ap_orders (snd W)) then
        (case submit_next net W of
           (True, T, Running A) \<Rightarrow> feed net burst (T, A)
         | (_, W1) \<Rightarrow> W1)
      else (fst W, Running (snd W)))"

definition app_complete :: "Transport \<times> App \<Rightarrow> bool" where
  "app_complete W =
     (let A = snd W; R = ap_replicator A; last = app_lastSeq A in
      if rp_role R = Primary then
        ap_everConnected A \<and> ap_nextOrder A = length (ap_orders A) \<and> rp_lastApplied R = last \<and> commitSeq R = last \<and>
        (rp_backups R \<noteq> [] \<and> (\<forall>(i, b)\<in>set (rp_backups R). bk_lastApplied b = last)) \<and> 0 < last
      else ap_everConnected A \<and> readyPeerCount (fst W) = 0)"

text \<open>The part of a turn after the orders were fed.\<close>

definition turn_end :: "Net \<Rightarrow> Transport \<times> App \<Rightarrow> Transport \<times> App" where
  "turn_end net W =
     (let A = snd W;
          W1 = (if 0 < ap_heartbeatCycles A \<and> ap_cycles A mod ap_heartbeatCycles A = 0
                then snd (broadcast net on_down (Heartbeat \<lparr>hb_nodeId = ap_self A, hb_counter = ap_heartbeatCounter A + 1\<rparr>)
                       (fst W, A\<lparr>ap_heartbeatCounter := ap_heartbeatCounter A + 1\<rparr>))
                else W);
          A2 = (if 0 < readyPeerCount (fst W1) then (snd W1)\<lparr>ap_everConnected := True\<rparr> else snd W1)
      in (fst W1, if ap_exitOnComplete A2 then A2\<lparr>ap_complete := app_complete (fst W1, A2)\<rparr> else A2))"

text \<open>The part of a turn before the orders are fed, after the transport was polled.\<close>

definition turn_begin :: "Net \<Rightarrow> (nat \<Rightarrow> Millis) \<Rightarrow> Transport \<times> App \<Rightarrow> Transport \<times> App" where
  "turn_begin net clock W =
     (let W1 = (if ap_elect (snd W)
                then sync_term (elect_step net clock (\<lambda>now e. tick now (setLastLogSeq (app_lastSeq (snd W)) e)) W) else W);
          W2 = give_back (snd W1) (rp_tick (link_send net) link_sat (borrow W1))
      in (fst W2, (snd W2)\<lparr>ap_cycles := ap_cycles (snd W2) + 1\<rparr>))"

definition turn :: "Net \<Rightarrow> (nat \<Rightarrow> Millis) \<Rightarrow> Transport \<times> App \<Rightarrow> Transport \<times> Node" where
  "turn net clock W =
     (let W1 = turn_begin net clock W;
          W2 = (if rp_role (ap_replicator (snd W1)) = Primary \<and> ap_nextOrder (snd W1) < length (ap_orders (snd W1))
                then feed net 256 W1 else (fst W1, Running (snd W1)))
      in case snd W2 of Running A \<Rightarrow> (case turn_end net (fst W2, A) of (T, A') \<Rightarrow> (T, Running A')) | _ \<Rightarrow> W2)"

text \<open>A whole turn; \<open>None\<close> if \<open>poll\<close> does not return.\<close>

definition node_cycle :: "Net \<Rightarrow> (nat \<Rightarrow> Millis) \<Rightarrow> Transport \<times> Node \<Rightarrow> (Transport \<times> Node) option" where
  "node_cycle net clock W =
     map_option (\<lambda>(ok, W1). case snd W1 of Running A \<Rightarrow> turn net clock (fst W1, A) | _ \<Rightarrow> W1) (tp_poll net (node_handler net clock) W)"

section \<open>Start\<close>

record Options =
  op_self :: NodeId
  op_role :: Role
  op_mode :: ReplicationMode
  op_syncWindow :: u64
  op_heartbeatCycles :: int
  op_elect :: bool
  op_exitOnComplete :: bool

definition new_app :: "Options \<Rightarrow> PeerConfig list \<Rightarrow> Command list \<Rightarrow> Transport \<Rightarrow> App" where
  "new_app opts others orders T =
     (let peerIds = map pc_id others in
      \<lparr>ap_self = op_self opts, ap_elect = op_elect opts, ap_peerIds = peerIds,
       ap_election = new_election (op_self opts) peerIds
         (default_election_config\<lparr>ec_randomSeed := 0x9E3779B9 * ucast (op_self opts + 1)\<rparr>),
       ap_replicator = setSyncWindow (op_syncWindow opts)
         (new_replicator (op_self opts) (if op_elect opts then Backup else op_role opts) (op_mode opts) (new_engine kInstrument) new_log (T, [])),
       ap_orders = orders, ap_nextOrder = 0, ap_heartbeatCycles = op_heartbeatCycles opts, ap_heartbeatCounter = 0,
       ap_cycles = 0, ap_everConnected = False, ap_complete = False, ap_exitOnComplete = op_exitOnComplete opts, ap_readings = 0\<rparr>)"

text \<open>The set-up of \<open>main\<close>: \<open>None\<close> if listening fails.\<close>

definition start_node :: "Net \<Rightarrow> Options \<Rightarrow> u16 \<Rightarrow> PeerConfig list \<Rightarrow> Command list \<Rightarrow> (Transport \<times> Node) option" where
  "start_node net opts port others orders =
     (let T = new_transport (op_self opts) port; A = new_app opts others orders T in
      case tp_start net T of
        (False, T1) \<Rightarrow> None
      | (True, T1) \<Rightarrow> Some (addPeers others T1, Running A))"

end
