(* ===== verification/Transport_Inv.thy ===== *)
theory Transport_Inv
  imports Transport
begin

text \<open>
  The invariant of the transport: at most one ready connection per node, sockets open exactly for
  connections that are up, readers and writers well-formed. The locale \<open>transport_client\<close> is the contract of
  the callbacks: they keep the invariant and only drop connections, as \<open>send\<close> does, and \<open>onPeerDown\<close> leaves the
  transport alone; under it every operation keeps the invariant. It is interpreted for unset callbacks here and for those of a node in the
  node theory.
\<close>

section \<open>Invariant\<close>

definition peer_ok :: "Peer \<Rightarrow> bool" where
  "peer_ok p \<longleftrightarrow> frd_wf (pe_reader p) \<and> fw_wf (pe_writer p) \<and> (pe_sock p \<longleftrightarrow> pe_state p \<noteq> Disconnected) \<and>
     (pe_state p = Disconnected \<longrightarrow> unread (pe_reader p) = [] \<and> \<not> frd_failed (pe_reader p))"

definition tp_ok :: "Transport \<Rightarrow> bool" where
  "tp_ok T \<longleftrightarrow> length (tp_nextConnectCycle T) = length (tp_peers T) \<and> (\<forall>i<length (tp_peers T). peer_ok (tp_peers T ! i)) \<and>
     (\<forall>i<length (tp_peers T). \<forall>j<length (tp_peers T). pe_state (tp_peers T ! i) = Ready \<longrightarrow> pe_state (tp_peers T ! j) = Ready \<longrightarrow>
        pe_id (tp_peers T ! i) = pe_id (tp_peers T ! j) \<longrightarrow> i = j)"

text \<open>Connections are only dropped; what stays up is not touched except for its writer.\<close>

definition calm_peer :: "Peer \<Rightarrow> Peer \<Rightarrow> bool" where
  "calm_peer p p' \<longleftrightarrow> pe_outbound p' = pe_outbound p \<and>
     (pe_state p' = Disconnected \<or> pe_state p' = pe_state p \<and> pe_id p' = pe_id p \<and> pe_reader p' = pe_reader p)"

definition calm :: "Transport \<Rightarrow> Transport \<Rightarrow> bool" where
  "calm T T' \<longleftrightarrow> tp_selfId T' = tp_selfId T \<and> list_all2 calm_peer (tp_peers T) (tp_peers T')"

lemma calm_refl [simp]: "calm T T"
  by (simp add: calm_def calm_peer_def list_all2_conv_all_nth)

lemma calm_trans: "calm T1 T2 \<Longrightarrow> calm T2 T3 \<Longrightarrow> calm T1 T3"
proof -
  have "calm_peer p q \<Longrightarrow> calm_peer q r \<Longrightarrow> calm_peer p r" for p q r by (auto simp: calm_peer_def)
  then show "calm T1 T2 \<Longrightarrow> calm T2 T3 \<Longrightarrow> calm T1 T3" unfolding calm_def using list_all2_trans [of calm_peer calm_peer calm_peer] by metis
qed

lemma calm_length: "calm T T' \<Longrightarrow> length (tp_peers T') = length (tp_peers T)"
  by (auto simp: calm_def dest: list_all2_lengthD)

lemma calm_nth: "calm T T' \<Longrightarrow> i < length (tp_peers T) \<Longrightarrow> calm_peer (tp_peers T ! i) (tp_peers T' ! i)"
  by (simp add: calm_def list_all2_conv_all_nth)

text \<open>The reader of a connection is left alone as long as the connection is up.\<close>

definition same_reader :: "nat \<Rightarrow> Transport \<Rightarrow> Transport \<Rightarrow> bool" where
  "same_reader i T T' \<longleftrightarrow> pe_state (tp_peers T' ! i) = Disconnected \<or> pe_reader (tp_peers T' ! i) = pe_reader (tp_peers T ! i)"

lemma calm_same_reader: "calm T T' \<Longrightarrow> i < length (tp_peers T) \<Longrightarrow> same_reader i T T'"
  using calm_nth [of T T' i] by (auto simp: calm_peer_def same_reader_def)

text \<open>What does not concern the peers.\<close>

lemma tp_ok_frame [simp]:
  "tp_ok (tp_count f T) \<longleftrightarrow> tp_ok T" "tp_ok (T\<lparr>tp_calls := c\<rparr>) \<longleftrightarrow> tp_ok T" "tp_ok (T\<lparr>tp_cycle := n\<rparr>) \<longleftrightarrow> tp_ok T"
  by (simp_all add: tp_ok_def tp_count_def)

lemma tp_frame [simp]:
  "tp_peers (tp_count f T) = tp_peers T" "tp_selfId (tp_count f T) = tp_selfId T" "tp_calls (tp_count f T) = tp_calls T"
  "tp_selfId (upd_peer i g T) = tp_selfId T" "length (tp_peers (upd_peer i g T)) = length (tp_peers T)"
  "calm (tp_count f T) T' \<longleftrightarrow> calm T T'" "calm T (tp_count f T') \<longleftrightarrow> calm T T'"
  "calm (T\<lparr>tp_calls := c\<rparr>) T' \<longleftrightarrow> calm T T'" "calm T (T'\<lparr>tp_calls := c\<rparr>) \<longleftrightarrow> calm T T'"
  by (simp_all add: tp_count_def upd_peer_def calm_def)

lemma peers_upd [simp]: "tp_peers (upd_peer i f T) = (tp_peers T)[i := f (tp_peers T ! i)]"
  by (simp add: upd_peer_def)

lemma upd_calm:
  assumes "i < length (tp_peers T) \<Longrightarrow> calm_peer (tp_peers T ! i) (f (tp_peers T ! i))"
  shows "calm T (upd_peer i f T)"
proof -
  have "calm_peer (tp_peers T ! j) ((tp_peers T)[i := f (tp_peers T ! i)] ! j)" if "j < length (tp_peers T)" for j
    using assms that by (cases "j = i") (auto simp: calm_peer_def)
  then show ?thesis by (simp add: calm_def list_all2_conv_all_nth)
qed

lemma tp_okD:
  assumes "tp_ok T" and "i < length (tp_peers T)"
  shows "peer_ok (tp_peers T ! i)" and "length (tp_nextConnectCycle T) = length (tp_peers T)"
    and "j < length (tp_peers T) \<Longrightarrow> pe_state (tp_peers T ! i) = Ready \<Longrightarrow> pe_state (tp_peers T ! j) = Ready \<Longrightarrow>
      pe_id (tp_peers T ! i) = pe_id (tp_peers T ! j) \<Longrightarrow> i = j"
  using assms by (simp_all add: tp_ok_def)

text \<open>A peer may be changed if the result is well-formed and is not a second ready connection.\<close>

lemma tp_ok_upd:
  assumes "tp_ok T" and "i < length (tp_peers T) \<Longrightarrow> peer_ok (f (tp_peers T ! i))"
    and "i < length (tp_peers T) \<Longrightarrow> pe_state (f (tp_peers T ! i)) = Ready \<Longrightarrow>
      pe_state (tp_peers T ! i) = Ready \<and> pe_id (f (tp_peers T ! i)) = pe_id (tp_peers T ! i) \<or>
      (\<forall>j<length (tp_peers T). j \<noteq> i \<longrightarrow> pe_state (tp_peers T ! j) = Ready \<longrightarrow> pe_id (tp_peers T ! j) \<noteq> pe_id (f (tp_peers T ! i)))"
  shows "tp_ok (upd_peer i f T)"
proof (cases "i < length (tp_peers T)")
  case True
  then show ?thesis using assms unfolding tp_ok_def by (auto simp: upd_peer_def nth_list_update)
qed (use assms(1) in \<open>simp add: upd_peer_def list_update_beyond\<close>)

section \<open>Finding a peer\<close>

lemma find_ready_spec:
  "find_ready n k ps = Some j \<Longrightarrow> k \<le> j \<and> j < k + length ps \<and> pe_id (ps ! (j - k)) = n \<and> pe_state (ps ! (j - k)) = Ready"
  "find_ready n k ps = None \<Longrightarrow> \<forall>p\<in>set ps. pe_state p = Ready \<longrightarrow> pe_id p \<noteq> n"
proof (induction ps arbitrary: k)
  case (Cons p ps)
  { case 1 then show ?case using Cons(1) [of "Suc k"] by (auto simp: nth_Cons' split: if_splits) }
  { case 2 then show ?case using Cons(2) [of "Suc k"] by (auto split: if_splits) }
qed auto

lemma findPeer_Some:
  assumes "findPeer n T = Some j"
  shows "j < length (tp_peers T)" and "pe_id (tp_peers T ! j) = n" and "pe_state (tp_peers T ! j) = Ready"
  using find_ready_spec(1) [of n 0 "tp_peers T" j] assms by (simp_all add: findPeer_def)

lemma findPeer_None: "findPeer n T = None \<Longrightarrow> i < length (tp_peers T) \<Longrightarrow> pe_state (tp_peers T ! i) = Ready \<Longrightarrow> pe_id (tp_peers T ! i) \<noteq> n"
  using find_ready_spec(2) [of n 0 "tp_peers T"] by (auto simp: findPeer_def)

lemma findPeer_ready:
  assumes "tp_ok T" and "i < length (tp_peers T)" and "pe_state (tp_peers T ! i) = Ready" and "pe_id (tp_peers T ! i) = n"
  shows "findPeer n T = Some i"
proof (cases "findPeer n T")
  case None
  then show ?thesis using findPeer_None assms by blast
next
  case (Some j)
  then show ?thesis using findPeer_Some [OF Some] tp_okD(3) [OF assms(1,2), of j] assms(3,4) by simp
qed

section \<open>Accepting, dialling, retiring\<close>

definition clash_free :: "Peer list \<Rightarrow> bool" where
  "clash_free ps \<longleftrightarrow> sorted_wrt (\<lambda>p q. pe_state p = Ready \<longrightarrow> pe_state q = Ready \<longrightarrow> pe_id p \<noteq> pe_id q) ps"

lemma tp_ok_alt:
  "tp_ok T \<longleftrightarrow> length (tp_nextConnectCycle T) = length (tp_peers T) \<and> (\<forall>p\<in>set (tp_peers T). peer_ok p) \<and> clash_free (tp_peers T)"
proof -
  have "clash_free ps \<longleftrightarrow> (\<forall>i<length ps. \<forall>j<length ps. pe_state (ps ! i) = Ready \<longrightarrow> pe_state (ps ! j) = Ready \<longrightarrow>
      pe_id (ps ! i) = pe_id (ps ! j) \<longrightarrow> i = j)" for ps
  proof
    assume l: "clash_free ps"
    have "i = j" if "i < length ps" "j < length ps" "pe_state (ps ! i) = Ready" "pe_state (ps ! j) = Ready" "pe_id (ps ! i) = pe_id (ps ! j)" for i j
    proof -
      have "\<not> i < j" "\<not> j < i" using l that unfolding clash_free_def sorted_wrt_iff_nth_less by metis+
      then show ?thesis by simp
    qed
    then show "\<forall>i<length ps. \<forall>j<length ps. pe_state (ps ! i) = Ready \<longrightarrow> pe_state (ps ! j) = Ready \<longrightarrow> pe_id (ps ! i) = pe_id (ps ! j) \<longrightarrow> i = j"
      by blast
  qed (auto simp: clash_free_def sorted_wrt_iff_nth_less dest: order.strict_trans less_imp_neq)
  then show ?thesis by (simp add: tp_ok_def all_set_conv_all_nth)
qed

lemma append_peer_ok:
  assumes "tp_ok T" and "peer_ok p" and "pe_state p \<noteq> Ready"
  shows "tp_ok (T\<lparr>tp_peers := tp_peers T @ [p], tp_nextConnectCycle := tp_nextConnectCycle T @ [0]\<rparr>)"
  using assms by (auto simp: tp_ok_alt clash_free_def sorted_wrt_append)

lemma sendHello_ok: "tp_ok T \<Longrightarrow> tp_ok (sendHello i T)"
  unfolding sendHello_def by (rule tp_ok_upd) (use tp_okD(1) [of T i] fw_enqueue_data(2) in \<open>auto simp: peer_ok_def\<close>)

lemma sendHello_frame [simp]: "length (tp_peers (sendHello i T)) = length (tp_peers T)" "tp_selfId (sendHello i T) = tp_selfId T"
  by (simp_all add: sendHello_def)

lemma new_peer_ok: "peer_ok ((new_peer hwm)\<lparr>pe_id := 0, pe_outbound := False, pe_state := Handshaking, pe_sock := True\<rparr>)"
  "peer_ok ((new_peer hwm)\<lparr>pe_id := n, pe_host := s, pe_port := q, pe_outbound := True, pe_state := Disconnected\<rparr>)"
  by (simp_all add: peer_ok_def new_peer_def frd_wf_def fw_wf_def new_frame_reader_def new_frame_writer_def unread_def frd_failed_def)

text \<open>Everything that may run inside \<open>poll\<close>: the invariant is kept and no peer disappears.\<close>

definition steady :: "Transport \<Rightarrow> Transport \<Rightarrow> bool" where
  "steady T T' \<longleftrightarrow> tp_ok T' \<and> length (tp_peers T) \<le> length (tp_peers T') \<and> tp_selfId T' = tp_selfId T"

lemma steady_trans: "steady T1 T2 \<Longrightarrow> steady T2 T3 \<Longrightarrow> steady T1 T3"
  by (simp add: steady_def)

lemma calm_steady: "tp_ok T' \<and> calm T T' \<Longrightarrow> steady T T'"
  using calm_length [of T T'] by (simp add: steady_def calm_def)

lemma acceptPending_keeps:
  assumes "acceptPending net T = Some T'" and "tp_ok T"
  shows "steady T T'"
proof -
  have "tp_ok T \<longrightarrow> steady T T'" using assms(1)
  proof (rule acceptPending.raw_induct [rotated], goal_cases)
    case (1 ap net T T')
    obtain status c where s: "sock_accept net (tp_calls T) = (status, c)" by fastforce
    obtain nb c1 where n: "setNonBlocking net c = (nb, c1)" by fastforce
    obtain nd c2 where d: "(if nb then setNoDelay net c1 else (False, c1)) = (nd, c2)" by fastforce
    let ?T2 = "T\<lparr>tp_calls := c, tp_calls := c2\<rparr>"
    let ?p = "(new_peer (tp_highWaterMark ?T2))\<lparr>pe_id := 0, pe_outbound := False, pe_state := Handshaking, pe_sock := True\<rparr>"
    let ?T3 = "?T2\<lparr>tp_peers := tp_peers ?T2 @ [?p], tp_nextConnectCycle := tp_nextConnectCycle ?T2 @ [0]\<rparr>"
    have ok3: "tp_ok ?T3" if "tp_ok T" by (rule append_peer_ok) (use that new_peer_ok(1) in simp_all)
    have again: "steady T T'" if "ap net T4 = Some T'" "steady T T4" for T4
      using 1(1) [OF that(1)] that(2) steady_trans by (auto simp: steady_def)
    have st: "steady T ?T2" "steady T (tp_count g (sendHello (length (tp_peers ?T2)) ?T3))" if "tp_ok T" for g
      using that sendHello_ok [OF ok3 [OF that], of "length (tp_peers ?T2)"] by (simp_all add: steady_def)
    show ?case
    proof
      assume ok: "tp_ok T"
      show "steady T T'"
        using 1(2) s n d again [OF _ st(1) [OF ok]] again [OF _ st(2) [OF ok]] ok by (auto simp: Let_def steady_def [of T "T\<lparr>tp_calls := c\<rparr>"] split: if_splits)
    qed
  qed
  with assms(2) show ?thesis by blast
qed

lemma dial_one_keeps:
  assumes "tp_ok T" and "i < length (tp_peers T)"
  shows "steady T (dial_one net i T)" and "length (tp_peers (dial_one net i T)) = length (tp_peers T)"
proof -
  let ?T = "T\<lparr>tp_nextConnectCycle := (tp_nextConnectCycle T)[i := tp_cycle T + tp_reconnectDelay T]\<rparr>"
  obtain ok c where s: "sock_connect net (pe_host (tp_peers ?T ! i)) (tp_calls ?T) = (ok, c)" by fastforce
  have p: "peer_ok (tp_peers T ! i)" using assms by (rule tp_okD)
  have "tp_ok (startConnect net i ?T)" if "pe_state (tp_peers T ! i) = Disconnected"
  proof -
    have "tp_ok (?T\<lparr>tp_calls := c\<rparr>)" using assms(1) by (simp add: tp_ok_def)
    then have "tp_ok (upd_peer i f (?T\<lparr>tp_calls := c\<rparr>))" if "peer_ok (f (tp_peers T ! i))" "pe_state (f (tp_peers T ! i)) \<noteq> Ready" for f
      by (rule tp_ok_upd) (use that in simp_all)
    then show ?thesis using s p that
      by (auto simp: startConnect_def Let_def peer_ok_def frd_wf_def frd_reset_def fw_wf_def fw_reset_def)
  qed
  then show "steady T (dial_one net i T)" "length (tp_peers (dial_one net i T)) = length (tp_peers T)"
    using assms(1) s by (auto simp: dial_one_def Let_def steady_def startConnect_def)
qed

lemma dial_all_keeps:
  assumes "tp_ok T" and "\<forall>i\<in>set is. i < length (tp_peers T)"
  shows "steady T (fold (dial_one net) is T)"
  using assms
proof (induction "is" arbitrary: T)
  case (Cons i "is")
  with dial_one_keeps [of T i net] have "steady T (dial_one net i T)" "\<forall>j\<in>set is. j < length (tp_peers (dial_one net i T))" by auto
  with Cons.IH [of "dial_one net i T"] show ?case using steady_trans by (auto simp: steady_def)
qed (simp add: steady_def)

lemma retire_ok: "tp_ok T \<Longrightarrow> tp_ok (retire T)"
  by (auto simp: tp_ok_alt retire_def Let_def clash_free_def intro: sorted_wrt_filter)

section \<open>The contract of the callbacks\<close>

locale transport_client =
  fixes h :: "'a handler"
  assumes keeps: "tp_ok T \<Longrightarrow> h u (T, a) = (T', a') \<Longrightarrow> tp_ok T' \<and> calm T T'"
    and down_quiet: "fst (h (PeerDown n) W) = fst W"
begin

lemma dropPeer_eq:
  "fst (dropPeer h i (T, a)) = tp_count (\<lambda>s. s\<lparr>ts_disconnects := ts_disconnects s + 1\<rparr>)
     (upd_peer i (\<lambda>p. p\<lparr>pe_sock := False, pe_state := Disconnected, pe_reader := frd_reset (pe_reader p), pe_writer := fw_reset (pe_writer p),
        pe_id := (if pe_outbound p then pe_id p else 0)\<rparr>) T)"
proof (cases "i < length (tp_peers T)")
  case True
  then show ?thesis using down_quiet by (auto simp: dropPeer_def Let_def split_beta upd_peer_def tp_count_def)
next
  case False
  then show ?thesis using down_quiet by (auto simp: dropPeer_def Let_def split_beta upd_peer_def tp_count_def list_update_beyond)
qed

lemma dropPeer_keeps:
  assumes "tp_ok T" and "dropPeer h i (T, a) = (T', a')"
  shows "tp_ok T'" and "calm T T'" and "i < length (tp_peers T) \<Longrightarrow> pe_state (tp_peers T' ! i) = Disconnected"
    and "k \<noteq> i \<Longrightarrow> tp_peers T' ! k = tp_peers T ! k"
proof -
  have T': "T' = fst (dropPeer h i (T, a))" using assms(2) by simp
  show "tp_ok T'" unfolding T' dropPeer_eq
    by (simp, rule tp_ok_upd [OF assms(1)]) (simp_all add: peer_ok_def frd_wf_def frd_reset_def fw_wf_def fw_reset_def unread_def frd_failed_def)
  show "calm T T'" unfolding T' dropPeer_eq by (simp, rule upd_calm) (simp add: calm_peer_def)
  show "i < length (tp_peers T) \<Longrightarrow> pe_state (tp_peers T' ! i) = Disconnected" "k \<noteq> i \<Longrightarrow> tp_peers T' ! k = tp_peers T ! k"
    unfolding T' dropPeer_eq by simp_all
qed

lemma writer_upd:
  assumes "tp_ok T" and "\<And>w. fw_wf w \<Longrightarrow> fw_wf (g w)"
  shows "tp_ok (upd_peer i (\<lambda>p. p\<lparr>pe_writer := g (pe_writer p)\<rparr>) T)" and "calm T (upd_peer i (\<lambda>p. p\<lparr>pe_writer := g (pe_writer p)\<rparr>) T)"
proof -
  show "tp_ok (upd_peer i (\<lambda>p. p\<lparr>pe_writer := g (pe_writer p)\<rparr>) T)"
    by (rule tp_ok_upd [OF assms(1)]) (use tp_okD(1) [OF assms(1), of i] assms(2) in \<open>auto simp: peer_ok_def\<close>)
  show "calm T (upd_peer i (\<lambda>p. p\<lparr>pe_writer := g (pe_writer p)\<rparr>) T)" by (rule upd_calm) (simp add: calm_peer_def)
qed

lemma handleWritable_keeps:
  assumes "tp_ok T" and "i < length (tp_peers T)" and "handleWritable net h i (T, a) = (T', a')"
  shows "tp_ok T' \<and> calm T T'"
  using assms
proof (induction "fw_size (pe_writer (tp_peers T ! i))" arbitrary: T a rule: less_induct)
  case less
  let ?w = "pe_writer (tp_peers T ! i)"
  show ?case
  proof (cases "fw_size ?w = 0")
    case True
    then show ?thesis using less.prems by (simp add: handleWritable.simps)
  next
    case False
    obtain status n c where w: "sock_write net (fw_data ?w) (tp_calls T) = (status, n, c)" by (metis prod_cases3)
    note step = handleWritable.simps [of net h i "(T, a)"]
    consider (block) "status = IoWouldBlock" | (failed) "status \<noteq> IoWouldBlock" "status \<noteq> IoOk" | (moved) "status = IoOk" by blast
    then show ?thesis
    proof cases
      case block
      then have "T' = tp_count (\<lambda>s. s\<lparr>ts_shortWrites := ts_shortWrites s + 1\<rparr>) (T\<lparr>tp_calls := c\<rparr>)"
        using less.prems False w by (simp add: step Let_def)
      then show ?thesis using less.prems(1) by simp
    next
      case failed
      then have "dropPeer h i (T\<lparr>tp_calls := c\<rparr>, a) = (T', a')" using less.prems False w by (simp add: step Let_def)
      from dropPeer_keeps(1,2) [OF _ this] less.prems(1,2) show ?thesis by simp
    next
      case moved
      let ?T1 = "T\<lparr>tp_calls := c\<rparr>"
      let ?T2 = "if n < fw_size ?w then tp_count (\<lambda>s. s\<lparr>ts_shortWrites := ts_shortWrites s + 1\<rparr>) ?T1 else ?T1"
      let ?T3 = "tp_count (\<lambda>s. s\<lparr>ts_bytesSent := ts_bytesSent s + of_nat n\<rparr>) (upd_peer i (\<lambda>p. p\<lparr>pe_writer := fw_consume n (pe_writer p)\<rparr>) ?T2)"
      have run: "handleWritable net h i (?T3, a) = (T', a')" using less.prems False w moved by (simp add: step Let_def)
      have "fw_data ?w \<noteq> []" using False by (simp add: fw_data_def fw_size_def)
      then have "0 < n" using sock_write_moves w moved by blast
      then have "fw_size (fw_consume n ?w) < fw_size ?w"
        using False by (auto simp: fw_consume_def fw_compact_def fw_size_def Let_def min_def)
      then have lt: "fw_size (pe_writer (tp_peers ?T3 ! i)) < fw_size ?w" using less.prems(2) by simp
      have T2: "tp_ok ?T2" "calm T ?T2" using less.prems(1) by simp_all
      have ok: "tp_ok ?T3" "calm T ?T3"
        using writer_upd [OF T2(1), of "fw_consume n" i, OF fw_consume_data(2)] calm_trans [OF T2(2)] by auto
      from less.hyps [OF lt ok(1) _ run] less.prems(2) show ?thesis using calm_trans [OF ok(2)] by simp
    qed
  qed
qed

lemma enqueue_write_keeps:
  assumes "tp_ok T" and "i < length (tp_peers T)"
    and "handleWritable net h i (tp_count g (upd_peer i (\<lambda>p. p\<lparr>pe_writer := fw_enqueue m (pe_writer p)\<rparr>) T), a) = (T', a')"
  shows "tp_ok T' \<and> calm T T'"
proof -
  let ?T = "tp_count g (upd_peer i (\<lambda>p. p\<lparr>pe_writer := fw_enqueue m (pe_writer p)\<rparr>) T)"
  have ok: "tp_ok ?T" "calm T ?T" using writer_upd [OF assms(1), of "fw_enqueue m" i] fw_enqueue_data(2) by simp_all
  from handleWritable_keeps [OF ok(1) _ assms(3)] assms(2) calm_trans [OF ok(2)] show ?thesis by simp
qed

lemma send_keeps:
  assumes "tp_ok T" and "tp_send net h to m (T, a) = (r, T', a')"
  shows "tp_ok T' \<and> calm T T'"
proof (cases "findPeer to T")
  case (Some i)
  note i = findPeer_Some [OF Some]
  obtain T1 a1 where W1: "handleWritable net h i (T, a) = (T1, a1)" by fastforce
  note k1 = handleWritable_keeps [OF assms(1) i(1) W1]
  then have i1: "i < length (tp_peers T1)" using calm_length i(1) by auto
  show ?thesis using assms(2) Some W1 k1 enqueue_write_keeps [OF _ i1] calm_trans [of T T1]
    by (auto simp: tp_send_def Let_def split: if_splits)
qed (use assms in \<open>simp add: tp_send_def\<close>)

section \<open>Receiving\<close>

lemma handleHello_keeps:
  assumes "tp_ok T" and "i < length (tp_peers T)" and "pe_sock (tp_peers T ! i)" and "handleHello h i hello (T, a) = (goes, T', a')"
  shows "steady T T' \<and> same_reader i T T'"
proof -
  let ?n = "he_nodeId hello" and ?up = "\<lambda>T. upd_peer i (\<lambda>p. p\<lparr>pe_id := he_nodeId hello, pe_state := Ready\<rparr>) T"
  have accept: "steady T T'' \<and> same_reader i T T''"
    if "tp_ok T1" "calm T T1" "pe_sock (tp_peers T1 ! i)" "\<forall>j<length (tp_peers T1). j \<noteq> i \<longrightarrow> pe_state (tp_peers T1 ! j) = Ready \<longrightarrow> pe_id (tp_peers T1 ! j) \<noteq> ?n"
      "h (PeerUp ?n (he_advertisedAddress hello)) (?up T1, a1) = (T'', a'')" for T1 a1 T'' a''
  proof -
    have i1: "i < length (tp_peers T1)" using calm_length [OF that(2)] assms(2) by simp
    have "tp_ok (?up T1)" by (rule tp_ok_upd [OF that(1)]) (use tp_okD(1) [OF that(1) i1] that(3,4) in \<open>auto simp: peer_ok_def\<close>)
    note up = keeps [OF this that(5)]
    have "pe_reader (tp_peers (?up T1) ! i) = pe_reader (tp_peers T ! i)"
      using calm_same_reader [OF that(2) assms(2)] tp_okD(1) [OF that(1) i1] that(3) i1 by (auto simp: same_reader_def peer_ok_def)
    moreover have "same_reader i (?up T1) T''" using calm_same_reader [of "?up T1" T'' i] up i1 by simp
    ultimately show ?thesis using up
      calm_steady [of T'' "?up T1"] calm_steady [of T1 T] that(1,2) by (auto simp: steady_def same_reader_def)
  qed
  have drop: "steady T T'' \<and> same_reader i T T''" if "dropPeer h i (T, a) = (T'', a'')" for T'' a''
    using dropPeer_keeps(1-3) [OF assms(1) that] calm_steady assms(2) by (auto simp: same_reader_def)
  show ?thesis
  proof (cases "he_protocolVersion hello \<noteq> kVersion \<or> pe_outbound (tp_peers T ! i) \<and> pe_id (tp_peers T ! i) \<noteq> ?n")
    case True
    then have "dropPeer h i (T, a) = (T', a')" using assms(4) by (simp add: handleHello_def Let_def split: if_splits)
    then show ?thesis by (rule drop)
  next
    case False
    then have run: "handleHello h i hello (T, a) = (case findPeer ?n T of
         None \<Rightarrow> (True, h (PeerUp ?n (he_advertisedAddress hello)) (?up T, a))
       | Some j \<Rightarrow> if j = i then (True, h (PeerUp ?n (he_advertisedAddress hello)) (?up T, a))
           else if pe_outbound (tp_peers T ! i) = (tp_selfId T < ?n)
           then (True, h (PeerUp ?n (he_advertisedAddress hello)) (?up (fst (dropPeer h j (T, a))), snd (dropPeer h j (T, a))))
           else (False, dropPeer h i (T, a)))"
      by (auto simp: handleHello_def Let_def split: option.split)
    show ?thesis
    proof (cases "findPeer ?n T")
      case None
      then show ?thesis using accept [OF assms(1) calm_refl assms(3)] findPeer_None [OF None] assms(4) run by auto
    next
      case (Some j)
      note j = findPeer_Some [OF Some]
      have uniq: "k = j" if "k < length (tp_peers T)" "pe_state (tp_peers T ! k) = Ready" "pe_id (tp_peers T ! k) = ?n" for k
        using tp_okD(3) [OF assms(1) that(1) j(1)] that j by simp
      obtain T1 a1 where d: "dropPeer h j (T, a) = (T1, a1)" by fastforce
      note k = dropPeer_keeps [OF assms(1) d]
      have alone: "pe_id (tp_peers T1 ! k) \<noteq> ?n" if "k < length (tp_peers T1)" "pe_state (tp_peers T1 ! k) = Ready" for k
      proof (cases "k = j")
        case True
        then show ?thesis using that(2) k(3) j(1) by simp
      next
        case False
        then show ?thesis using that uniq [of k] dropPeer_keeps(4) [OF assms(1) d False] calm_length [OF k(2)] by auto
      qed
      consider (same) "j = i" | (other) "j \<noteq> i" "pe_outbound (tp_peers T ! i) = (tp_selfId T < ?n)"
        | (this) "j \<noteq> i" "pe_outbound (tp_peers T ! i) \<noteq> (tp_selfId T < ?n)" by blast
      then show ?thesis
      proof cases
        case same
        then show ?thesis using accept [OF assms(1) calm_refl assms(3)] uniq assms(4) run Some by auto
      next
        case other
        have "pe_sock (tp_peers T1 ! i)" using dropPeer_keeps(4) [OF assms(1) d, of i] other(1) assms(3) by simp
        then show ?thesis using accept [OF k(1,2)] alone assms(4) run Some other d by auto
      next
        case this
        then show ?thesis using assms(4) drop run Some by auto
      qed
    qed
  qed
qed

lemma take_frame_keeps:
  assumes "tp_ok T" and "i < length (tp_peers T)" and "take_frame i T = (f, T')"
  shows "tp_ok T'" and "length (tp_peers T') = length (tp_peers T)" and "tp_selfId T' = tp_selfId T"
    and "f \<noteq> None \<Longrightarrow> pe_sock (tp_peers T' ! i)"
proof -
  let ?p = "tp_peers T ! i"
  obtain r where r: "frd_next (pe_reader ?p) = (f, r)" and T': "T' = upd_peer i (\<lambda>p. p\<lparr>pe_reader := r\<rparr>) T"
    using assms(3) by (auto simp: take_frame_def split: prod.splits)
  have ok: "peer_ok ?p" using assms(1,2) by (rule tp_okD)
  have wf: "frd_wf r"
    using ok r frd_next_step(4) [of "pe_reader ?p"] by (cases "frd_failed (pe_reader ?p)") (auto simp: peer_ok_def frd_next_def)
  have down: "f = None \<and> unread r = [] \<and> \<not> frd_failed r" if "pe_state ?p = Disconnected"
  proof -
    have u: "unread (pe_reader ?p) = []" "\<not> frd_failed (pe_reader ?p)" using ok that by (simp_all add: peer_ok_def)
    then have "frd_next (pe_reader ?p) = (None, pe_reader ?p)" by (simp add: frd_next_def frd_buffered_def unread_def kHeaderSize_def)
    with u r show ?thesis by simp
  qed
  show "tp_ok T'" unfolding T' by (rule tp_ok_upd [OF assms(1)]) (use ok wf down in \<open>auto simp: peer_ok_def\<close>)
  show "length (tp_peers T') = length (tp_peers T)" "tp_selfId T' = tp_selfId T" by (simp_all add: T')
  show "pe_sock (tp_peers T' ! i)" if "f \<noteq> None" using that down ok assms(2) by (auto simp: T' peer_ok_def)
qed

lemma dropPeer_steady: "tp_ok T \<Longrightarrow> steady T (fst (dropPeer h i (T, a)))"
  using dropPeer_keeps(1,2) [of T i a "fst (dropPeer h i (T, a))" "snd (dropPeer h i (T, a))"] calm_steady by simp

lemma drainStep_keeps:
  assumes "tp_ok T" and "i < length (tp_peers T)"
  shows "steady T (fst (snd (drainStep h i (T, a))))"
proof (cases "frd_failed (pe_reader (tp_peers T ! i))")
  case True
  then show ?thesis using dropPeer_steady [of "tp_count _ T"] assms(1) by (simp add: drainStep_def steady_def)
next
  case ok: False
  obtain f T1 where t: "take_frame i T = (f, T1)" by fastforce
  note k = take_frame_keeps [OF assms t]
  have st: "steady T (tp_count g T1)" "steady T T1" for g using k(1-3) by (simp_all add: steady_def)
  show ?thesis
  proof (cases "f = None \<or> decodeBody (fr_type (the f)) (fr_payload (the f)) = None")
    case True
    then show ?thesis using ok t st by (auto simp: drainStep_def split: option.splits)
  next
    case False
    then obtain fr m where m: "f = Some fr" "decodeBody (fr_type fr) (fr_payload fr) = Some m" by auto
    define T2 where "T2 = tp_count (\<lambda>s. s\<lparr>ts_messagesReceived := ts_messagesReceived s + 1\<rparr>) T1"
    have T2: "tp_ok T2" "tp_peers T2 = tp_peers T1" "steady T T2" using k(1) st by (simp_all add: T2_def)
    have run: "drainStep h i (T, a) = (case get_hello m of Some hello \<Rightarrow> handleHello h i hello (T2, a)
        | None \<Rightarrow> if pe_state (tp_peers T1 ! i) \<noteq> Ready then (False, dropPeer h i (T2, a))
            else (True, h (Received (pe_id (tp_peers T1 ! i)) m) (T2, a)))"
      using ok t m by (simp add: drainStep_def Let_def T2_def split: option.split)
    have "steady T2 (fst (h (Received (pe_id (tp_peers T1 ! i)) m) (T2, a)))"
      using keeps [OF T2(1)] calm_steady by (metis prod.collapse)
    moreover have "steady T2 (fst (snd (handleHello h i hello (T2, a))))" for hello
    proof -
      obtain goes T3 a3 where "handleHello h i hello (T2, a) = (goes, T3, a3)" by (metis surj_pair)
      then show ?thesis using handleHello_keeps [OF T2(1)] assms(2) k m(1) T2(2) by fastforce
    qed
    ultimately show ?thesis using run dropPeer_steady [OF T2(1), of i a] steady_trans [OF T2(3)] by (simp split: option.split)
  qed
qed

lemma drainFrames_keeps:
  assumes "drainFrames h i W = Some W'" and "tp_ok (fst W)" and "i < length (tp_peers (fst W))"
  shows "steady (fst W) (fst W')"
proof -
  have "h' = h \<longrightarrow> tp_ok (fst W) \<longrightarrow> i < length (tp_peers (fst W)) \<longrightarrow> steady (fst W) (fst W')"
    if "drainFrames h' i W = Some W'" for h' W'
    using that
  proof (rule drainFrames.raw_induct [rotated], goal_cases)
    case (1 df h' i W W')
    show ?case
    proof (intro impI)
      assume h: "h' = h" and ok: "tp_ok (fst W)" "i < length (tp_peers (fst W))"
      obtain goes W1 where d: "drainStep h i W = (goes, W1)" by (metis surj_pair)
      then have s: "steady (fst W) (fst W1)" using drainStep_keeps [OF ok, of "snd W"] by simp
      show "steady (fst W) (fst W')"
      proof (cases goes)
        case True
        then have "df h i W1 = Some W'" using 1(2) d h by simp
        from 1(1) [OF this] s ok(2) show ?thesis using steady_trans [OF s] by (simp add: steady_def)
      qed (use 1(2) d h s in simp)
    qed
  qed
  from this [OF assms(1)] show ?thesis using assms(2,3) by simp
qed

lemma reader_append_ok:
  assumes "tp_ok T" and "pe_sock (tp_peers T ! i)" and "i < length (tp_peers T)"
  shows "tp_ok (upd_peer i (\<lambda>p. p\<lparr>pe_reader := frd_append bs (pe_reader p)\<rparr>) T)"
  by (rule tp_ok_upd [OF assms(1)]) (use tp_okD(1) [OF assms(1,3)] assms(2) in \<open>auto simp: peer_ok_def frd_wf_def frd_append_def\<close>)

lemma readLoopPeer_keeps:
  assumes "readLoopPeer net h i W = Some (d, W')" and "tp_ok (fst W)" and "i < length (tp_peers (fst W))" and "pe_sock (tp_peers (fst W) ! i)"
  shows "steady (fst W) (fst W')"
proof -
  have "h' = h \<longrightarrow> tp_ok (fst W) \<longrightarrow> i < length (tp_peers (fst W)) \<longrightarrow> pe_sock (tp_peers (fst W) ! i) \<longrightarrow> steady (fst W) (fst (snd r))"
    if "readLoopPeer net h' i W = Some r" for h' r
    using that
  proof (rule readLoopPeer.raw_induct [rotated], goal_cases)
    case (1 rl net h' i W r)
    show ?case
    proof (intro impI)
      assume h: "h' = h" and ok: "tp_ok (fst W)" "i < length (tp_peers (fst W))" "pe_sock (tp_peers (fst W) ! i)"
      obtain T a where W: "W = (T, a)" by fastforce
      obtain status bytes c where rd: "sock_read net kReadChunk (tp_calls T) = (status, bytes, c)" by (metis prod_cases3)
      let ?T1 = "T\<lparr>tp_calls := c\<rparr>"
      let ?T2 = "upd_peer i (\<lambda>p. p\<lparr>pe_reader := frd_append bytes (pe_reader p)\<rparr>)
          (tp_count (\<lambda>s. s\<lparr>ts_bytesReceived := ts_bytesReceived s + of_nat (length bytes)\<rparr>) ?T1)"
      have drop: "steady T (fst (dropPeer h i (?T1, a)))" using dropPeer_steady [of ?T1 i a] ok(1) W by (simp add: steady_def)
      have ok2: "tp_ok ?T2" by (rule reader_append_ok) (use ok W in simp_all)
      have again: "steady T (fst (snd r))" if "rl net h i (?T2, a) = Some r"
        using 1(1) [OF that] ok2 ok W by (simp add: steady_def)
      show "steady (fst W) (fst (snd r))"
        using 1(2) h rd drop ok ok2 again by (cases status) (auto simp: W Let_def steady_def split: if_splits)
    qed
  qed
  from this [OF assms(1)] show ?thesis using assms(2-) by simp
qed

lemma handleReadable_keeps:
  assumes "handleReadable net h i W = Some W'" and "tp_ok (fst W)" and "i < length (tp_peers (fst W))" and "pe_sock (tp_peers (fst W) ! i)"
  shows "steady (fst W) (fst W')"
proof -
  obtain d W1 where r: "readLoopPeer net h i W = Some (d, W1)" and c: "(if d then Some W1 else drainFrames h i W1) = Some W'"
    using assms(1) by (auto simp: handleReadable_def bind_eq_Some_conv)
  note s = readLoopPeer_keeps [OF r assms(2-)]
  show ?thesis
  proof (cases d)
    case False
    have "steady (fst W1) (fst W')" by (rule drainFrames_keeps) (use c False s assms(3) in \<open>auto simp: steady_def\<close>)
    with s show ?thesis by (rule steady_trans)
  qed (use s c in simp)
qed

section \<open>Polling\<close>

lemma handleWritable_steady: "tp_ok T \<Longrightarrow> i < length (tp_peers T) \<Longrightarrow> steady T (fst (handleWritable net h i (T, a)))"
  using handleWritable_keeps calm_steady by (metis prod.collapse)

lemma poll_one_keeps:
  assumes "poll_one net h owner ev W = Some W'" and "tp_ok (fst W)" and "\<And>i. owner = Some i \<Longrightarrow> i < length (tp_peers (fst W))"
  shows "steady (fst W) (fst W')"
proof -
  obtain T a where W: "W = (T, a)" by fastforce
  have refl: "steady T T" using assms(2) W by (simp add: steady_def)
  show ?thesis
  proof (cases "\<not> pv_error ev \<and> \<not> pv_out ev \<and> \<not> pv_in ev")
    case True
    then have "W' = W" using assms(1) by (simp add: poll_one_def)
    then show ?thesis using refl W by simp
  next
    case some: False
    show ?thesis
    proof (cases owner)
      case None
      then show ?thesis using assms(1,2) some acceptPending_keeps by (auto simp: poll_one_def W)
    next
      case (Some i)
      then have i: "i < length (tp_peers T)" and ok: "tp_ok T" using assms(2,3) W by simp_all
      show ?thesis
      proof (cases "pe_state (tp_peers T ! i) = Connecting")
        case True
        obtain err c where e: "connectError net (tp_calls T) = (err, c)" by fastforce
        let ?T3 = "tp_count (\<lambda>s. s\<lparr>ts_connectionsEstablished := ts_connectionsEstablished s + 1\<rparr>)
            (upd_peer i (\<lambda>p. p\<lparr>pe_state := Handshaking\<rparr>) (T\<lparr>tp_calls := c, tp_calls := snd (setNoDelay net c)\<rparr>))"
        have "tp_ok ?T3"
          by (simp, rule tp_ok_upd) (use ok tp_okD(1) [OF ok i] True in \<open>auto simp: peer_ok_def\<close>)
        then have "steady T (fst (handleWritable net h i (sendHello i ?T3, a)))"
          using handleWritable_steady [of "sendHello i ?T3" i net a] sendHello_ok [of ?T3 i] i by (simp add: steady_def)
        moreover have "steady T (fst (dropPeer h i (T\<lparr>tp_calls := c\<rparr>, a)))"
          using dropPeer_steady [of "T\<lparr>tp_calls := c\<rparr>" i a] ok by (simp add: steady_def)
        ultimately show ?thesis using assms(1) some Some True e by (auto simp: poll_one_def W Let_def split: if_splits)
      next
        case False
        let ?W1 = "if pv_out ev then handleWritable net h i (T, a) else (T, a)"
        have w1: "steady T (fst ?W1)" using handleWritable_steady [OF ok i] refl by simp
        have "steady (fst ?W1) (fst W')" if "handleReadable net h i ?W1 = Some W'" "pe_sock (tp_peers (fst ?W1) ! i)"
          by (rule handleReadable_keeps [OF that(1)]) (use w1 that(2) i in \<open>auto simp: steady_def\<close>)
        then show ?thesis using assms(1) some Some False w1 dropPeer_steady [OF ok, of i a] steady_trans [OF w1]
          by (auto simp: poll_one_def W Let_def split: if_splits)
      qed
    qed
  qed
qed

lemma poll_all_keeps:
  assumes "poll_all net h evs W = Some W'" and "tp_ok (fst W)" and "\<forall>(owner, ev)\<in>set evs. \<forall>i. owner = Some i \<longrightarrow> i < length (tp_peers (fst W))"
  shows "steady (fst W) (fst W')"
  using assms
proof (induction evs arbitrary: W)
  case (Cons x evs)
  obtain owner ev where x: "x = (owner, ev)" by fastforce
  obtain W1 where W1: "poll_one net h owner ev W = Some W1" "poll_all net h evs W1 = Some W'"
    using Cons.prems(1) by (auto simp: x bind_eq_Some_conv)
  have s: "steady (fst W) (fst W1)" by (rule poll_one_keeps [OF W1(1) Cons.prems(2)]) (use Cons.prems(3) x in auto)
  have "steady (fst W1) (fst W')" by (rule Cons.IH [OF W1(2)]) (use s Cons.prems(3) in \<open>fastforce simp: steady_def\<close>)+
  with s show ?case by (rule steady_trans)
qed (simp add: steady_def)

lemma poll_keeps:
  assumes "tp_poll net h W = Some (ok, W')" and "tp_ok (fst W)"
  shows "tp_ok (fst W')"
proof -
  let ?T0 = "(fst W)\<lparr>tp_cycle := tp_cycle (fst W) + 1\<rparr>"
  let ?T1 = "fold (dial_one net) [0..<length (tp_peers ?T0)] ?T0"
  have s1: "steady ?T0 ?T1" using assms(2) by (intro dial_all_keeps) auto
  let ?T2 = "?T1\<lparr>tp_calls := tp_calls ?T1 + 1\<rparr>"
  have "tp_ok (retire (fst W1))" if "poll_all net h (zip (poll_owners ?T1) evs) (?T2, snd W) = Some W1" for evs W1
  proof -
    have "\<forall>(owner, ev)\<in>set (zip (poll_owners ?T1) evs). \<forall>i. owner = Some i \<longrightarrow> i < length (tp_peers (fst (?T2, snd W)))"
      by (auto simp: poll_owners_def dest!: set_zip_leftD split: if_splits)
    from poll_all_keeps [OF that _ this] s1 show ?thesis by (simp add: steady_def retire_ok)
  qed
  then show ?thesis using assms(1) s1 by (auto simp: tp_poll_def Let_def steady_def split: if_splits PollCall.splits)
qed

lemma broadcast_one_keeps:
  assumes "tp_ok T" and "i < length (tp_peers T)" and "broadcast_one net h m i (n, T, a) = (n', T', a')"
  shows "tp_ok T' \<and> calm T T'"
proof (cases "pe_state (tp_peers T ! i) = Ready")
  case True
  obtain T1 a1 where W1: "handleWritable net h i (T, a) = (T1, a1)" by fastforce
  note k1 = handleWritable_keeps [OF assms(1,2) W1]
  then have i1: "i < length (tp_peers T1)" using calm_length assms(2) by auto
  show ?thesis using assms(3) True W1 k1 enqueue_write_keeps [OF _ i1] calm_trans [of T T1]
    by (auto simp: broadcast_one_def Let_def split: if_splits)
qed (use assms in \<open>simp add: broadcast_one_def\<close>)

lemma broadcast_keeps:
  assumes "tp_ok T" and "broadcast net h m (T, a) = (n, T', a')"
  shows "tp_ok T' \<and> calm T T'"
proof -
  have "tp_ok T' \<and> calm T T'"
    if "fold (broadcast_one net h m) is (k, T, a) = (n, T', a')" "tp_ok T" "\<forall>i\<in>set is. i < length (tp_peers T)" for "is" k T a
    using that
  proof (induction "is" arbitrary: k T a)
    case (Cons i "is")
    obtain k1 T1 a1 where b: "broadcast_one net h m i (k, T, a) = (k1, T1, a1)" by (metis surj_pair)
    note s = broadcast_one_keeps [OF Cons.prems(2) _ b]
    from Cons.IH [of k1 T1 a1] Cons.prems b s calm_length [of T T1] calm_trans [of T T1 T'] show ?case by simp
  qed simp
  from this [of "[0..<length (tp_peers T)]" 0 T a] show ?thesis using assms by (simp add: broadcast_def)
qed

end

lemma tp_start_ok: "tp_ok T \<Longrightarrow> tp_ok (snd (tp_start net T))"
  by (auto simp: tp_start_def tp_ok_def Let_def split: prod.splits)

lemma addPeer_ok: "tp_ok T \<Longrightarrow> tp_ok (addPeer cfg T)"
  unfolding addPeer_def by (rule append_peer_ok) (use new_peer_ok(2) in simp_all)

lemma setHighWaterMark_ok: "tp_ok T \<Longrightarrow> tp_ok (tp_setHighWaterMark n T)"
  by (auto simp: tp_setHighWaterMark_def tp_ok_def peer_ok_def fw_wf_def)

lemma new_transport_ok: "tp_ok (new_transport self port)"
  by (simp add: new_transport_def tp_ok_def)

section \<open>Reachable states\<close>

inductive tp_reachable :: "'a handler \<Rightarrow> 'a world \<Rightarrow> bool" for h where
  new: "tp_reachable h (new_transport self port, a)"
| start: "tp_reachable h (T, a) \<Longrightarrow> tp_reachable h (snd (tp_start net T), a)"
| add: "tp_reachable h (T, a) \<Longrightarrow> tp_reachable h (addPeer cfg T, a)"
| mark: "tp_reachable h (T, a) \<Longrightarrow> tp_reachable h (tp_setHighWaterMark n T, a)"
| poll: "tp_reachable h W \<Longrightarrow> tp_poll net h W = Some (ok, W') \<Longrightarrow> tp_reachable h W'"
| send: "tp_reachable h W \<Longrightarrow> tp_send net h to m W = (r, W') \<Longrightarrow> tp_reachable h W'"
| broadcast: "tp_reachable h W \<Longrightarrow> broadcast net h m W = (n, W') \<Longrightarrow> tp_reachable h W'"
| disconnect: "tp_reachable h W \<Longrightarrow> disconnectPeer h n W = (ok, W') \<Longrightarrow> tp_reachable h W'"
| app: "tp_reachable h (T, a) \<Longrightarrow> tp_reachable h (T, a')"

context transport_client
begin

lemma reachable_ok: "tp_reachable h W \<Longrightarrow> tp_ok (fst W)"
proof (induction rule: tp_reachable.induct)
  case (send W net to m r W')
  then show ?case using send_keeps [of "fst W" net to m "snd W" r "fst W'" "snd W'"] by simp
next
  case (broadcast W net m n W')
  then show ?case using broadcast_keeps [of "fst W" net m "snd W" n "fst W'" "snd W'"] by simp
next
  case (disconnect W n ok W')
  then show ?case using dropPeer_steady [of "fst W" _ "snd W"] by (auto simp: disconnectPeer_def steady_def split: option.splits)
qed (auto simp: new_transport_ok tp_start_ok addPeer_ok setHighWaterMark_ok intro: poll_keeps)

end

interpretation unset: transport_client "\<lambda>_ W. W"
  by unfold_locales simp_all

end
