(* ===== verification/Transport_Progress.thy ===== *)
theory Transport_Progress
  imports Transport_Inv
begin

text \<open>
  Progress of the transport: what writing does to a queue and what \<open>send\<close> leaves in it, and that draining and
  \<open>poll\<close> return, for every client that keeps the contract of the callbacks.
\<close>

section \<open>What writing does to a queue\<close>

abbreviation writer :: "Transport \<Rightarrow> nat \<Rightarrow> FrameWriter" where
  "writer T i \<equiv> pe_writer (tp_peers T ! i)"

context transport_client
begin

lemma dropPeer_writer:
  assumes "i < length (tp_peers T)" and "dropPeer h i (T, a) = (T', a')"
  shows "fw_data (writer T' i) = []" and "fw_highWaterMark (writer T' i) = fw_highWaterMark (writer T i)"
proof -
  have "T' = fst (dropPeer h i (T, a))" using assms(2) by simp
  then show "fw_data (writer T' i) = []" "fw_highWaterMark (writer T' i) = fw_highWaterMark (writer T i)"
    using assms(1) by (simp_all add: dropPeer_eq fw_data_def fw_reset_def)
qed

lemma handleWritable_writer:
  assumes "tp_ok T" and "i < length (tp_peers T)" and "handleWritable net h i (T, a) = (T', a')"
  shows "(\<exists>k. fw_data (writer T' i) = drop k (fw_data (writer T i))) \<and> fw_highWaterMark (writer T' i) = fw_highWaterMark (writer T i)"
  using assms
proof (induction "fw_size (writer T i)" arbitrary: T a rule: less_induct)
  case less
  have same: "\<exists>k. fw_data (writer T i) = drop k (fw_data (writer T i))" by (rule exI [of _ 0]) simp
  obtain status n c where w: "sock_write net (fw_data (writer T i)) (tp_calls T) = (status, n, c)" by (metis prod_cases3)
  note step = handleWritable.simps [of net h i "(T, a)"]
  consider (stop) "fw_size (writer T i) = 0 \<or> status = IoWouldBlock" | (failed) "fw_size (writer T i) \<noteq> 0" "status \<noteq> IoWouldBlock" "status \<noteq> IoOk"
    | (moved) "fw_size (writer T i) \<noteq> 0" "status = IoOk" by blast
  then show ?case
  proof cases
    case stop
    then have "tp_peers T' = tp_peers T"
    proof (cases "fw_size (writer T i) = 0")
      case False
      with stop have "status = IoWouldBlock" by blast
      then show ?thesis using False less.prems(2,3) w by (auto simp: step Let_def)
    qed (use less.prems(3) in \<open>simp add: step Let_def\<close>)
    with same show ?thesis by simp
  next
    case failed
    then have "dropPeer h i (T\<lparr>tp_calls := c\<rparr>, a) = (T', a')" using less.prems w by (simp add: step Let_def)
    from dropPeer_writer [OF _ this] less.prems(2) show ?thesis by (auto intro!: exI [of _ "length (fw_data (writer T i))"])
  next
    case moved
    let ?T2 = "if n < fw_size (writer T i) then tp_count (\<lambda>s. s\<lparr>ts_shortWrites := ts_shortWrites s + 1\<rparr>) (T\<lparr>tp_calls := c\<rparr>) else T\<lparr>tp_calls := c\<rparr>"
    let ?T3 = "tp_count (\<lambda>s. s\<lparr>ts_bytesSent := ts_bytesSent s + of_nat n\<rparr>) (upd_peer i (\<lambda>p. p\<lparr>pe_writer := fw_consume n (pe_writer p)\<rparr>) ?T2)"
    have run: "handleWritable net h i (?T3, a) = (T', a')" using less.prems moved w by (simp add: step Let_def)
    have wf: "fw_wf (writer T i)" using tp_okD(1) [OF less.prems(1,2)] by (simp add: peer_ok_def)
    have "fw_data (writer T i) \<noteq> []" using moved by (simp add: fw_data_def fw_size_def)
    then have "0 < n" using sock_write_moves w moved by blast
    then have "fw_size (fw_consume n (writer T i)) < fw_size (writer T i)"
      using moved by (auto simp: fw_consume_def fw_compact_def fw_size_def Let_def min_def)
    then have lt: "fw_size (writer ?T3 i) < fw_size (writer T i)" using less.prems(2) by simp
    have "tp_ok ?T2" using less.prems(1) by simp
    from writer_upd(1) [OF this, of "fw_consume n" i, OF fw_consume_data(2)] have ok: "tp_ok ?T3" by simp
    have w3: "writer ?T3 i = fw_consume n (writer T i)" using less.prems(2) by simp
    have mark: "fw_highWaterMark (fw_consume n (writer T i)) = fw_highWaterMark (writer T i)"
      by (simp add: fw_consume_def fw_compact_def Let_def)
    have "i < length (tp_peers ?T3)" using less.prems(2) by simp
    from less.hyps [OF lt ok this run, unfolded w3] obtain k
      where k: "fw_data (writer T' i) = drop k (fw_data (fw_consume n (writer T i)))" "fw_highWaterMark (writer T' i) = fw_highWaterMark (fw_consume n (writer T i))"
      by blast
    from k have "fw_data (writer T' i) = drop (k + n) (fw_data (writer T i))" using fw_consume_data(1) [OF wf, of n] by simp
    with k(2) mark show ?thesis by metis
  qed
qed

lemma send_outcome:
  assumes "tp_ok T" and "tp_send net h to m (T, a) = (r, T', a')" and "findPeer to T = Some i"
  shows "r = SendOk \<Longrightarrow> \<exists>k. fw_data (writer T' i) = drop k (fw_data (writer T i) @ encode m []) \<and>
      length (fw_data (writer T' i)) < fw_highWaterMark (writer T i) + length (encode m [])"
    and "r \<noteq> SendOk \<Longrightarrow> \<exists>k. fw_data (writer T' i) = drop k (fw_data (writer T i))"
    and "r = WouldOverflow \<Longrightarrow> fw_highWaterMark (writer T i) \<le> length (fw_data (writer T' i))"
    and "r = NotConnected \<Longrightarrow> pe_state (tp_peers T' ! i) = Disconnected"
proof -
  note i = findPeer_Some [OF assms(3)]
  obtain T1 a1 where W1: "handleWritable net h i (T, a) = (T1, a1)" by fastforce
  note k1 = handleWritable_keeps [OF assms(1) i(1) W1]
  then have i1: "i < length (tp_peers T1)" using calm_length i(1) by auto
  have ok1: "peer_ok (tp_peers T1 ! i)" using k1 i1 tp_okD by blast
  have size: "fw_size w = length (fw_data w)" for w by (simp add: fw_size_def fw_data_def)
  obtain k where k: "fw_data (writer T1 i) = drop k (fw_data (writer T i))" "fw_highWaterMark (writer T1 i) = fw_highWaterMark (writer T i)"
    using handleWritable_writer [OF assms(1) i(1) W1] by blast
  let ?T2 = "tp_count (\<lambda>s. s\<lparr>ts_messagesSent := ts_messagesSent s + 1\<rparr>) (upd_peer i (\<lambda>p. p\<lparr>pe_writer := fw_enqueue m (pe_writer p)\<rparr>) T1)"
  obtain T3 a3 where W3: "handleWritable net h i (?T2, a1) = (T3, a3)" by fastforce
  have ok2: "tp_ok ?T2" using writer_upd(1) [of T1 "fw_enqueue m" i] fw_enqueue_data(2) k1 by simp
  have d2: "fw_data (writer ?T2 i) = drop k (fw_data (writer T i)) @ encode m []"
    using fw_enqueue_data(1) [of "writer T1 i" m] ok1 i1 k(1) by (simp add: peer_ok_def)
  obtain k' where k': "fw_data (writer T3 i) = drop k' (fw_data (writer ?T2 i))"
    using handleWritable_writer [OF ok2 _ W3] i1 by auto
  have cases: "r = NotConnected \<and> T' = T1 \<and> \<not> pe_sock (tp_peers T1 ! i) \<or>
      r = WouldOverflow \<and> tp_peers T' = tp_peers T1 \<and> fw_highWaterMark (writer T1 i) \<le> fw_size (writer T1 i) \<or>
      r = SendOk \<and> T' = T3 \<and> fw_size (writer T1 i) < fw_highWaterMark (writer T1 i)"
    using assms(2,3) W1 W3 by (auto simp: tp_send_def Let_def fw_overHighWaterMark_def split: if_splits)
  show "\<exists>k. fw_data (writer T' i) = drop k (fw_data (writer T i) @ encode m []) \<and>
      length (fw_data (writer T' i)) < fw_highWaterMark (writer T i) + length (encode m [])" if "r = SendOk"
  proof -
    from that cases have T': "T' = T3" and lt: "length (fw_data (writer T1 i)) < fw_highWaterMark (writer T i)" using k(2) size by auto
    have pos: "0 < length (encode m [])" by (simp add: encode_frame kHeaderSize_def)
    show ?thesis
    proof (cases "k \<le> length (fw_data (writer T i))")
      case True
      then have "fw_data (writer T' i) = drop (k' + k) (fw_data (writer T i) @ encode m [])" using T' k' d2 by (simp add: drop_drop add.commute)
      moreover have "length (fw_data (writer T' i)) < fw_highWaterMark (writer T i) + length (encode m [])" using T' k' d2 lt k(1) by simp
      ultimately show ?thesis by blast
    next
      case False
      then have "fw_data (writer T' i) = drop (length (fw_data (writer T i)) + k') (fw_data (writer T i) @ encode m [])" using T' k' d2 by simp
      moreover have "length (fw_data (writer T' i)) < fw_highWaterMark (writer T i) + length (encode m [])" using T' k' d2 lt pos False by simp
      ultimately show ?thesis by blast
    qed
  qed
  show "\<exists>k. fw_data (writer T' i) = drop k (fw_data (writer T i))" if "r \<noteq> SendOk" using that cases k(1) by auto
  show "fw_highWaterMark (writer T i) \<le> length (fw_data (writer T' i))" if "r = WouldOverflow" using that cases k(2) size by auto
  show "pe_state (tp_peers T' ! i) = Disconnected" if "r = NotConnected" using that cases ok1 by (auto simp: peer_ok_def)
qed

end

section \<open>Draining ends\<close>

definition drain_work :: "FrameReader \<Rightarrow> nat" where
  "drain_work r = (if frd_failed r then 0 else Suc (length (unread r)))"

abbreviation work :: "Transport \<Rightarrow> nat \<Rightarrow> nat" where
  "work T i \<equiv> drain_work (pe_reader (tp_peers T ! i))"

lemma same_reader_work:
  assumes "tp_ok T'" and "i < length (tp_peers T')" and "same_reader i T T'"
  shows "work T' i \<le> max 1 (work T i)"
  using tp_okD(1) [OF assms(1,2)] assms(3) by (auto simp: same_reader_def peer_ok_def drain_work_def)

text \<open>Taking a frame leaves less to do, or finds the stream broken.\<close>

lemma take_frame_work:
  assumes "tp_ok T" and "i < length (tp_peers T)" and "\<not> frd_failed (pe_reader (tp_peers T ! i))" and "take_frame i T = (f, T')"
  shows "f \<noteq> None \<Longrightarrow> work T' i < work T i \<and> 1 < work T i" and "frd_failed (pe_reader (tp_peers T' ! i)) \<Longrightarrow> work T' i < work T i"
proof -
  let ?r = "pe_reader (tp_peers T ! i)"
  obtain r where r: "frd_next ?r = (f, r)" and T': "pe_reader (tp_peers T' ! i) = r"
    using assms(2,4) by (auto simp: take_frame_def split: prod.splits)
  have wf: "frd_wf ?r" using tp_okD(1) [OF assms(1,2)] by (simp add: peer_ok_def)
  note step = frd_next_step [OF wf assms(3), unfolded r]
  show "work T' i < work T i \<and> 1 < work T i" if "f \<noteq> None"
  proof -
    from that step obtain g rest where g: "frame_step (unread ?r) = Some (g, rest)" "unread r = rest" by auto
    with frame_step_shrinks [OF g(1)] assms(3) T' show ?thesis by (auto simp: drain_work_def)
  qed
  show "work T' i < work T i" if "frd_failed (pe_reader (tp_peers T' ! i))" using that assms(3) by (simp add: drain_work_def)
qed

text \<open>From some call on, the network has nothing more to accept and nothing more to read: every call that
  may fail does, and every read has an error.\<close>

definition falls_silent :: "Net \<Rightarrow> nat \<Rightarrow> bool" where
  "falls_silent net k \<longleftrightarrow> (\<forall>c\<ge>k. ne_ok net c \<noteq> None \<and> (\<exists>err. ne_read net c = ReadErrno err))"

lemma falls_silentD:
  assumes "falls_silent net k"
  shows "ne_ok net c = None \<Longrightarrow> c < k" and "ne_read net c = ReadBytes bs \<Longrightarrow> c < k"
  using assms by (force simp: falls_silent_def not_less [symmetric])+

lemma acceptPending_returns:
  assumes "falls_silent net k"
  shows "\<exists>T'. acceptPending net T = Some T'"
proof (induction "k - tp_calls T" arbitrary: T rule: less_induct)
  case less
  obtain status c where s: "sock_accept net (tp_calls T) = (status, c)" by fastforce
  then have c: "c = Suc (tp_calls T)" "status = IoOk \<Longrightarrow> tp_calls T < k"
    using falls_silentD(1) [OF assms, of "tp_calls T"] by (auto simp: sock_accept_def not_le split: option.splits if_splits)
  obtain nb c1 where n: "setNonBlocking net c = (nb, c1)" by fastforce
  obtain nd c2 where d: "(if nb then setNoDelay net c1 else (False, c1)) = (nd, c2)" by fastforce
  have "c \<le> c1" "c1 \<le> c2" using n d by (auto simp: setNonBlocking_def setNoDelay_def setsockopt_ok_def split: if_splits)
  then have "k - tp_calls T2 < k - tp_calls T" if "tp_calls T2 = c2" "status = IoOk" for T2 using that c by simp
  from less [OF this] show ?case using s n d
    by (subst acceptPending.simps) (auto simp: Let_def tp_count_def sendHello_def upd_peer_def)
qed

lemma readLoopPeer_returns:
  assumes "falls_silent net k"
  shows "\<exists>r. readLoopPeer net h i W = Some r"
proof (induction "k - tp_calls (fst W)" arbitrary: W rule: less_induct)
  case less
  obtain status bs c where s: "sock_read net kReadChunk (tp_calls (fst W)) = (status, bs, c)" by (metis prod_cases3)
  then have c: "c = Suc (tp_calls (fst W))" "status = IoOk \<Longrightarrow> tp_calls (fst W) < k"
    using falls_silentD(2) [OF assms, of "tp_calls (fst W)"] by (auto simp: sock_read_def not_le split: ReadCall.splits if_splits)
  then have "k - tp_calls (fst W2) < k - tp_calls (fst W)" if "tp_calls (fst W2) = c" "status = IoOk" for W2 using that by simp
  from less [OF this] show ?case using s
    by (subst readLoopPeer.simps) (auto simp: Let_def tp_count_def upd_peer_def split: IoStatus.split)
qed

context transport_client
begin

lemma drainStep_work:
  assumes "tp_ok T" and "i < length (tp_peers T)" and "drainStep h i (T, a) = (True, T', a')"
  shows "work T' i < work T i"
proof -
  have ok: "\<not> frd_failed (pe_reader (tp_peers T ! i))" using assms(3) by (auto simp: drainStep_def)
  obtain f T1 where t: "take_frame i T = (f, T1)" by fastforce
  note k = take_frame_keeps [OF assms(1,2) t] and w = take_frame_work [OF assms(1,2) ok t]
  show ?thesis
  proof (cases "f = None \<or> decodeBody (fr_type (the f)) (fr_payload (the f)) = None")
    case True
    then have "tp_peers T' = tp_peers T1 \<and> (f = None \<longrightarrow> frd_failed (pe_reader (tp_peers T1 ! i)))" using assms(3) ok t by (auto simp: drainStep_def split: option.splits)
    with w show ?thesis by (cases "f = None") auto
  next
    case False
    then obtain fr m where m: "f = Some fr" "decodeBody (fr_type fr) (fr_payload fr) = Some m" by auto
    define T2 where "T2 = tp_count (\<lambda>s. s\<lparr>ts_messagesReceived := ts_messagesReceived s + 1\<rparr>) T1"
    have T2: "tp_ok T2" "i < length (tp_peers T2)" "pe_sock (tp_peers T2 ! i)" "work T2 i = work T1 i" using k m assms(2) by (simp_all add: T2_def)
    have "(\<exists>hello. handleHello h i hello (T2, a) = (True, T', a')) \<or> (\<exists>u. h u (T2, a) = (T', a'))"
      using assms(3) ok t m by (auto simp: drainStep_def T2_def Let_def split: option.splits if_splits)
    then have "tp_ok T' \<and> length (tp_peers T2) \<le> length (tp_peers T') \<and> same_reader i T2 T'"
    proof
      assume "\<exists>hello. handleHello h i hello (T2, a) = (True, T', a')"
      then show ?thesis using handleHello_keeps [OF T2(1-3)] by (auto simp: steady_def)
    next
      assume "\<exists>u. h u (T2, a) = (T', a')"
      then show ?thesis using keeps [OF T2(1)] calm_same_reader [OF _ T2(2)] calm_length by fastforce
    qed
    with same_reader_work [of T' i T2] T2(2,4) w(1) m(1) show ?thesis by (auto simp: max_def split: if_splits)
  qed
qed

lemma drainFrames_returns:
  assumes "tp_ok T" and "i < length (tp_peers T)"
  shows "\<exists>W'. drainFrames h i (T, a) = Some W'"
  using assms
proof (induction "work T i" arbitrary: T a rule: less_induct)
  case less
  obtain goes T1 a1 where d: "drainStep h i (T, a) = (goes, T1, a1)" by (metis surj_pair)
  have "steady T T1" using drainStep_keeps [OF less.prems, of a] d by simp
  with less.hyps [OF drainStep_work [OF less.prems], of a T1 a1 a1] less.prems d show ?case
    by (subst drainFrames.simps) (auto simp: steady_def)
qed

lemma handleReadable_returns:
  assumes "tp_ok T" and "i < length (tp_peers T)" and "pe_sock (tp_peers T ! i)" and "falls_silent net k"
  shows "\<exists>W'. handleReadable net h i (T, a) = Some W'"
proof -
  obtain d T1 a1 where r: "readLoopPeer net h i (T, a) = Some (d, T1, a1)"
    using readLoopPeer_returns [OF assms(4), of h i "(T, a)"] by (metis surj_pair)
  from readLoopPeer_keeps [OF r] assms(1-3) have "steady T T1" by simp
  with drainFrames_returns [of T1 i a1] assms(2) r show ?thesis by (auto simp: handleReadable_def steady_def)
qed

lemma poll_one_returns:
  assumes "tp_ok (fst W)" and "\<And>i. owner = Some i \<Longrightarrow> i < length (tp_peers (fst W))" and "falls_silent net k"
  shows "\<exists>W'. poll_one net h owner ev W = Some W'"
proof (cases owner)
  case None
  then show ?thesis using acceptPending_returns [OF assms(3), of "fst W"] by (auto simp: poll_one_def)
next
  case (Some i)
  let ?W1 = "if pv_out ev then handleWritable net h i W else W"
  have "steady (fst W) (fst ?W1)" using handleWritable_steady [OF assms(1), of i net "snd W"] assms(1,2) Some by (simp add: steady_def)
  with handleReadable_returns [of "fst ?W1" i net k "snd ?W1"] assms(2,3) Some
  have "\<exists>W'. handleReadable net h i ?W1 = Some W'" if "pe_sock (tp_peers (fst ?W1) ! i)" using that by (auto simp: steady_def)
  then show ?thesis using Some by (cases "connectError net (tp_calls (fst W))") (auto simp: poll_one_def Let_def)
qed

lemma poll_all_returns:
  assumes "tp_ok (fst W)" and "\<forall>(owner, ev)\<in>set evs. \<forall>i. owner = Some i \<longrightarrow> i < length (tp_peers (fst W))" and "falls_silent net k"
  shows "\<exists>W'. poll_all net h evs W = Some W'"
  using assms(1,2)
proof (induction evs arbitrary: W)
  case (Cons x evs)
  obtain owner ev where x: "x = (owner, ev)" by fastforce
  have own: "\<And>i. owner = Some i \<Longrightarrow> i < length (tp_peers (fst W))" using Cons.prems(2) x by auto
  obtain W1 where W1: "poll_one net h owner ev W = Some W1" using poll_one_returns [OF Cons.prems(1) own assms(3)] by blast
  have s: "steady (fst W) (fst W1)" by (rule poll_one_keeps [OF W1 Cons.prems(1) own])
  have "\<exists>W'. poll_all net h evs W1 = Some W'" by (rule Cons.IH) (use s Cons.prems(2) in \<open>fastforce simp: steady_def\<close>)+
  then show ?case using W1 x by simp
qed simp

lemma poll_returns:
  assumes "tp_ok (fst W)" and "falls_silent net k"
  shows "\<exists>r. tp_poll net h W = Some r"
proof -
  let ?T0 = "(fst W)\<lparr>tp_cycle := tp_cycle (fst W) + 1\<rparr>"
  let ?T1 = "fold (dial_one net) [0..<length (tp_peers ?T0)] ?T0"
  have s1: "steady ?T0 ?T1" using assms(1) by (intro dial_all_keeps) auto
  have all: "\<exists>W1. poll_all net h (zip (poll_owners ?T1) evs) (?T1\<lparr>tp_calls := tp_calls ?T1 + 1\<rparr>, snd W) = Some W1" for evs
    by (rule poll_all_returns [OF _ _ assms(2)]) (use s1 in \<open>auto simp: steady_def poll_owners_def dest!: set_zip_leftD split: if_splits\<close>)
  show ?thesis
  proof (cases "ne_poll net (tp_calls ?T1)")
    case (PollReady evs)
    obtain W1 where "poll_all net h (zip (poll_owners ?T1) evs) (?T1\<lparr>tp_calls := tp_calls ?T1 + 1\<rparr>, snd W) = Some W1" using all by blast
    with PollReady show ?thesis by (auto simp: tp_poll_def Let_def)
  qed (auto simp: tp_poll_def Let_def)
qed

end

end
