(* ===== verification/Node_Inv.thy ===== *)
theory Node_Inv
  imports Node Transport_Progress Replication_Steps
begin

text \<open>
  The node as a client of the transport and of the replicator. \<open>lossy_link\<close> states what the replicator
  does to the transport it was lent, \<open>app_invariant\<close> what the transport does to the application
  state behind its callbacks; the node's callbacks are interpreted as both and as a \<open>transport_client\<close>.
\<close>

section \<open>What the replicator does to its transport\<close>

abbreviation same_frame :: "'t Replicator \<Rightarrow> 't Replicator \<Rightarrow> bool" where
  "same_frame R R' \<equiv> rp_transport R' = rp_transport R \<and> rp_self R' = rp_self R \<and> rp_role R' = rp_role R \<and> rp_term R' = rp_term R \<and> rp_clusterSize R' = rp_clusterSize R"

lemma applyCommitted_frame: "applyCommitted R = Some R' \<Longrightarrow> same_frame R R'"
  by (erule applyCommitted.raw_induct [rotated])
    (auto simp: rp_count_def split: if_splits option.splits bind_splits)

lemma replayLog_frame: "replayLog s R = Some R' \<Longrightarrow> same_frame R R'"
  by (erule replayLog.raw_induct [rotated]) (auto split: if_splits option.splits bind_splits)

lemma rebuildFromLog_frame: "rebuildFromLog R = Some R' \<Longrightarrow> same_frame R R'"
proof -
  assume "rebuildFromLog R = Some R'"
  then obtain e R1 where r: "replayLog (lg_snapshotSeq (rp_log R) + 1) (R\<lparr>rp_engine := e, rp_lastApplied := lg_snapshotSeq (rp_log R)\<rparr>) = Some R1"
    and R': "R' = (if rp_lastApplied R1 < rp_commitIndex R1 then R1\<lparr>rp_commitIndex := rp_lastApplied R1\<rparr> else R1)"
    by (auto simp: rebuildFromLog_def Let_def bind_eq_Some_conv)
  from replayLog_frame [OF r] show ?thesis by (simp add: R')
qed

lemma advanceCommitIndex_frame: "advanceCommitIndex R = Some R' \<Longrightarrow> same_frame R R'"
  by (auto simp: advanceCommitIndex_def Let_def dest!: applyCommitted_frame split: if_splits)

lemma mergeRecords_frame: "mergeRecords rs R = Some (b, R') \<Longrightarrow> same_frame R R'"
proof (induction rs arbitrary: b R R')
  case (Cons r rs)
  let ?R1 = "rp_count (\<lambda>s. s\<lparr>st_conflictingEntriesTruncated := st_conflictingEntriesTruncated s + 1\<rparr>) (R\<lparr>rp_log := truncateFrom (lr_seq r) (rp_log R)\<rparr>)"
  have app: "same_frame R2 R'" if "append_record r rs R2 = Some (b, R')" for R2
    using that Cons.IH by (fastforce simp: append_record_def split: prod.splits bool.splits)
  have "mergeRecords (r # rs) R = mergeRecords rs R \<or> mergeRecords (r # rs) R = Some (True, R) \<or>
      mergeRecords (r # rs) R = append_record r rs R \<or> mergeRecords (r # rs) R = Option.bind (rebuildFromLog ?R1) (append_record r rs)"
    by (simp add: append_record_def [abs_def] Let_def)
  then consider "mergeRecords rs R = Some (b, R')" | "R' = R" | "append_record r rs R = Some (b, R')"
    | R2 where "rebuildFromLog ?R1 = Some R2" "append_record r rs R2 = Some (b, R')"
    using Cons.prems by (elim disjE) (simp_all add: bind_eq_Some_conv del: mergeRecords.simps, blast)
  then show ?case
  proof cases
    case 1
    then show ?thesis by (rule Cons.IH)
  next
    case 4
    from app [OF 4(2)] rebuildFromLog_frame [OF 4(1)] show ?thesis by simp
  qed (simp_all add: app)
qed simp

text \<open>Whatever holds between the transport before and after one \<open>send\<close> holds for every operation.\<close>

locale lossy_link =
  fixes tsend :: "'t sender" and rel :: "'t \<Rightarrow> 't \<Rightarrow> bool"
  assumes rel_refl: "rel tr tr" and rel_trans: "rel tr1 tr2 \<Longrightarrow> rel tr2 tr3 \<Longrightarrow> rel tr1 tr3"
    and send_rel: "rel tr (snd (tsend to m tr))"
begin

abbreviation related :: "'t Replicator \<Rightarrow> 't Replicator \<Rightarrow> bool" where
  "related R R' \<equiv> rel (rp_transport R) (rp_transport R') \<and> rp_self R' = rp_self R \<and> rp_role R' = rp_role R \<and> rp_term R' = rp_term R \<and> rp_clusterSize R' = rp_clusterSize R"

lemma rp_send_rel: "rp_send tsend to m R = (res, R') \<Longrightarrow> related R R'"
  using send_rel [of "rp_transport R" to m] by (auto simp: rp_send_def split: prod.splits)

lemma sendAppend_rel: "sendAppend tsend b probe R = (b', R') \<Longrightarrow> related R R'"
  by (auto simp: sendAppend_def Let_def rel_refl split: if_splits prod.splits dest!: rp_send_rel)

lemma for_backups_rel:
  assumes "\<And>i b R b' R'. f i b R = (b', R') \<Longrightarrow> related R R'" and "for_backups f m R = (m', R')"
  shows "related R R'"
  using assms(2)
proof (induction m arbitrary: R m' R')
  case (Cons x m)
  obtain i b where x: "x = (i, b)" by fastforce
  obtain b1 R1 where b1: "f i b R = (b1, R1)" by fastforce
  obtain m2 R2 where "for_backups f m R1 = (m2, R2)" by fastforce
  with Cons b1 x assms(1) [OF b1] rel_trans show ?case by fastforce
qed (simp add: rel_refl)

lemma each_backup_rel:
  assumes "\<And>i b R b' R'. f i b R = (b', R') \<Longrightarrow> related R R'"
  shows "related R (each_backup f R)"
proof -
  obtain m R' where r: "for_backups f (rp_backups R) R = (m, R')" by fastforce
  from for_backups_rel [OF assms r] show ?thesis by (simp add: each_backup_def r)
qed

lemma onPeerUp_rel: "related R (onPeerUp tsend i R)"
  by (auto simp: onPeerUp_def Let_def rel_refl split: prod.splits dest!: sendAppend_rel)

lemma rp_tick_rel: "related R (rp_tick tsend tsat R)"
proof (cases "rp_role R = Primary")
  case True
  have "related R (each_backup (\<lambda>i b R. if bk_probing b then (b, R) else if tsat i (rp_transport R) then (b, R)
      else if bk_lastSent b < lg_lastSeq (rp_log R) \<or> bk_lastCommitSent b < rp_commitIndex R then sendAppend tsend b False R else (b, R)) R)"
    by (rule each_backup_rel) (auto simp: rel_refl split: if_splits dest: sendAppend_rel)
  with True show ?thesis by (simp add: rp_tick_def)
qed (simp add: rp_tick_def rel_refl)

lemma submit_rel:
  assumes "submit tsend tsat cmd R = Some (r, R')"
  shows "related R R'"
proof -
  define send where "send = each_backup (\<lambda>i b R. if \<not> bk_probing b then sendAppend tsend b False R else (b, R))"
  have rel: "related R2 (send R2)" for R2
    unfolding send_def by (rule each_backup_rel) (auto simp: rel_refl split: if_splits dest: sendAppend_rel)
  let ?R1 = "rp_count (\<lambda>s. s\<lparr>st_submitted := st_submitted s + 1\<rparr>) (R\<lparr>rp_log := snd (log_append cmd (rp_term R) (rp_log R))\<rparr>)"
  show ?thesis
  proof (cases "sr_status r = Accepted")
    case True
    then obtain R2 where R2: "(if rp_clusterSize ?R1 = 1 then advanceCommitIndex ?R1 else Some ?R1) = Some R2" "R' = send R2"
      using assms by (auto simp: submit_def Let_def split_beta bind_eq_Some_conv send_def [symmetric] split: if_splits)
    then have "same_frame R R2" using advanceCommitIndex_frame [of ?R1 R2] by (auto split: if_splits)
    then show ?thesis using R2(2) rel [of R2] by simp
  next
    case False
    then show ?thesis using submit_refuses [OF assms] rel_refl by (simp add: core_eq_def)
  qed
qed

lemma advance_then:
  assumes "Option.bind (advanceCommitIndex R0) (\<lambda>R1. Some (t R1)) = Some R'" and "\<And>R1. related R1 (t R1)" and "same_frame R R0"
  shows "related R R'"
  using assms(1) assms(2) assms(3) by (auto simp: bind_eq_Some_conv dest!: advanceCommitIndex_frame) metis

lemma onMessage_rel:
  assumes "rp_onMessage tsend frm m R = Some R'"
  shows "related R R'"
proof -
  have ae: "related R R'" if h: "handleAppendEntries tsend frm msg R = Some R'" for msg
  proof -
    have "\<exists>m'. rp_transport R' = snd (tsend frm m' (rp_transport R)) \<and> rp_self R' = rp_self R \<and> rp_role R' = rp_role R \<and> rp_term R' = rp_term R \<and> rp_clusterSize R' = rp_clusterSize R"
    proof (cases "ae_term msg < rp_term R \<or> termAt (ae_prevSeq msg) (rp_log R) \<noteq> Some (ae_prevTerm msg)")
      case True
      show ?thesis by (rule handleAppendEntries_rejects [OF True, of tsend frm]) (use h in \<open>auto simp: core_eq_def\<close>)
    next
      case False
      then obtain refused R1 where m: "mergeRecords (ae_entries msg) R = Some (refused, R1)"
        using h by (auto simp: handleAppendEntries_def Let_def bind_eq_Some_conv)
      let ?R2 = "if rp_commitIndex R1 < ae_commitSeq msg then rp_count (\<lambda>s. s\<lparr>st_commitAdvances := st_commitAdvances s + 1\<rparr>)
          (R1\<lparr>rp_commitIndex := min (ae_commitSeq msg) (lg_lastSeq (rp_log R1))\<rparr>) else R1"
      have t1: "same_frame R R1" using mergeRecords_frame [OF m] .
      show ?thesis
      proof (cases refused)
        case True
        then show ?thesis using h False m t1 by (auto simp: handleAppendEntries_def Let_def snd_rp_send)
      next
        case ok: False
        then obtain R3 where R3: "applyCommitted ?R2 = Some R3"
          using h False m by (auto simp: handleAppendEntries_def Let_def bind_eq_Some_conv)
        have "same_frame R1 ?R2" by simp
        then have "same_frame R R3" using applyCommitted_frame [OF R3] t1 by simp
        then show ?thesis using h False m ok R3 by (auto simp: handleAppendEntries_def Let_def snd_rp_send)
      qed
    qed
    then show ?thesis using send_rel by metis
  qed
  have ar: "related R R'" if h: "handleAppendResponse tsend frm msg R = Some R'" for msg
  proof -
    have tail: "related R1 (if c then (case sendAppend tsend b False R2 of (b2, R3) \<Rightarrow> R3\<lparr>rp_backups := g b2 R3\<rparr>) else R2)"
      if "R2 = (if d then rp_count f R1 else R1)" for b c d f g R1 R2
    proof -
      obtain b2 R3 where "sendAppend tsend b False R2 = (b2, R3)" by fastforce
      with sendAppend_rel [OF this] that rel_refl show ?thesis by (cases d) simp_all
    qed
    show ?thesis
    proof (cases "rp_term R < ar_term msg")
      case True
      then show ?thesis using h rel_refl by (auto simp: handleAppendResponse_def)
    next
      case False
      show ?thesis by (rule advance_then [OF h [unfolded handleAppendResponse_def Let_def if_not_P [OF False]]]) (rule tail [OF refl], simp)
    qed
  qed
  from assms show ?thesis by (auto simp: rp_onMessage_def rel_refl ae ar split: Message.splits)
qed

end

section \<open>What the transport does to its client\<close>

locale app_invariant =
  fixes h :: "'a handler" and I :: "'a \<Rightarrow> bool"
  assumes handler_inv: "I (snd W) \<Longrightarrow> I (snd (h u W))"
begin

lemma dropPeer_inv: "I (snd W) \<Longrightarrow> I (snd (dropPeer h i W))"
  using handler_inv [of "(T, snd W)" for T] by (auto simp: dropPeer_def Let_def split_beta)

lemma handleWritable_inv: "I (snd W) \<Longrightarrow> I (snd (handleWritable net h i W))"
proof -
  have "h' = h \<longrightarrow> I (snd W) \<longrightarrow> I (snd (handleWritable net h' i W))" for h'
  proof (induction net h' i W rule: handleWritable.induct)
    case (1 net h' i W)
    show ?case
      by (subst handleWritable.simps) (use 1 dropPeer_inv [of "(T, snd W)" for T] in \<open>auto simp: Let_def split: prod.split if_split\<close>)
  qed
  then show "I (snd W) \<Longrightarrow> I (snd (handleWritable net h i W))" by blast
qed

lemma tp_send_inv: "I (snd W) \<Longrightarrow> I (snd (snd (tp_send net h to m W)))"
  using handleWritable_inv [of W] handleWritable_inv [of "(T, snd (handleWritable net h i W))" for T i]
  by (auto simp: tp_send_def Let_def split: option.split)

lemma broadcast_inv: "I (snd W) \<Longrightarrow> I (snd (snd (broadcast net h m W)))"
proof -
  have one: "I (snd (snd (broadcast_one net h m i S)))" if "I (snd (snd S))" for i S
    using that handleWritable_inv [of "snd S"] handleWritable_inv [of "(T, snd (handleWritable net h i (snd S)))" for T]
    by (auto simp: broadcast_one_def Let_def split_beta)
  have "I (snd (snd (fold (broadcast_one net h m) is S)))" if "I (snd (snd S))" for "is" S
    using that
  proof (induction "is" arbitrary: S)
    case (Cons i "is")
    from Cons.IH [OF one [OF Cons.prems, of i]] show ?case by simp
  qed simp
  then show "I (snd W) \<Longrightarrow> I (snd (snd (broadcast net h m W)))" by (simp add: broadcast_def)
qed

lemma handleHello_inv: "I (snd W) \<Longrightarrow> I (snd (snd (handleHello h i hello W)))"
  using dropPeer_inv [of W] handler_inv [of "(T, snd W)" for T] handler_inv [of "(T, snd (dropPeer h j W))" for T j]
  by (auto simp: handleHello_def Let_def split: option.split)

lemma drainStep_inv: "I (snd W) \<Longrightarrow> I (snd (snd (drainStep h i W)))"
  using dropPeer_inv [of "(T, snd W)" for T] handler_inv [of "(T, snd W)" for T] handleHello_inv [of "(T, snd W)" for T]
  by (auto simp: drainStep_def Let_def split: option.split prod.split)

lemma drainFrames_inv: "drainFrames h i W = Some W' \<Longrightarrow> I (snd W) \<Longrightarrow> I (snd W')"
proof -
  have "h' = h \<longrightarrow> I (snd W) \<longrightarrow> I (snd W')" if "drainFrames h' i W = Some W'" for h'
    using that
  proof (rule drainFrames.raw_induct [rotated], goal_cases)
    case (1 df h' i W W')
    obtain goes W1 where d: "drainStep h i W = (goes, W1)" by (metis surj_pair)
    show ?case
    proof (cases goes)
      case True
      then have "h' = h \<longrightarrow> df h i W1 = Some W'" using 1(2) d by auto
      then show ?thesis using 1(1) [of h i W1 W'] drainStep_inv [of W i] d by simp
    qed (use 1(2) d drainStep_inv [of W i] in auto)
  qed
  then show "drainFrames h i W = Some W' \<Longrightarrow> I (snd W) \<Longrightarrow> I (snd W')" by blast
qed

lemma readLoopPeer_inv: "readLoopPeer net h i W = Some r \<Longrightarrow> I (snd W) \<Longrightarrow> I (snd (snd r))"
proof -
  have "h' = h \<longrightarrow> I (snd W) \<longrightarrow> I (snd (snd r))" if "readLoopPeer net h' i W = Some r" for h'
    using that
  proof (rule readLoopPeer.raw_induct [rotated], goal_cases)
    case (1 rl net h' i W r)
    obtain status bytes c where "sock_read net kReadChunk (tp_calls (fst W)) = (status, bytes, c)" by (metis prod_cases3)
    with 1(2) 1(1) [of net h i "(T, snd W)" r for T] dropPeer_inv [of "(T, snd W)" for T] show ?case by (cases status) (auto simp: Let_def split: if_splits)
  qed
  then show "readLoopPeer net h i W = Some r \<Longrightarrow> I (snd W) \<Longrightarrow> I (snd (snd r))" by blast
qed

lemma handleReadable_inv: "handleReadable net h i W = Some W' \<Longrightarrow> I (snd W) \<Longrightarrow> I (snd W')"
  by (auto simp: handleReadable_def bind_eq_Some_conv split: if_splits dest!: readLoopPeer_inv drainFrames_inv)

lemma poll_one_inv: "poll_one net h owner ev W = Some W' \<Longrightarrow> I (snd W) \<Longrightarrow> I (snd W')"
  using dropPeer_inv [of "(T, snd W)" for T] dropPeer_inv [of W] handleWritable_inv [of "(T, snd W)" for T] handleWritable_inv [of W]
    handleReadable_inv [of net _ W W'] handleReadable_inv [of net _ "handleWritable net h i W" W' for i]
  by (auto simp: poll_one_def Let_def split: if_splits option.splits prod.splits)

lemma poll_all_inv: "poll_all net h evs W = Some W' \<Longrightarrow> I (snd W) \<Longrightarrow> I (snd W')"
proof (induction evs arbitrary: W)
  case (Cons x evs)
  obtain owner ev where x: "x = (owner, ev)" by fastforce
  obtain W1 where W1: "poll_one net h owner ev W = Some W1" "poll_all net h evs W1 = Some W'"
    using Cons.prems(1) by (auto simp: x bind_eq_Some_conv)
  from Cons.IH [OF W1(2) poll_one_inv [OF W1(1) Cons.prems(2)]] show ?case .
qed simp

lemma poll_inv: "tp_poll net h W = Some (ok, W') \<Longrightarrow> I (snd W) \<Longrightarrow> I (snd W')"
  using poll_all_inv [of net _ "(T, snd W)" for T]
  by (auto simp: tp_poll_def Let_def split: if_splits PollCall.splits)

end

section \<open>The callback inside \<open>send\<close>\<close>

text \<open>A call of \<open>send\<close> or \<open>broadcast\<close> runs no callback but \<open>onPeerDown\<close>, so a client may be replaced by one that agrees there.\<close>

locale down_refinement =
  fixes h :: "'a handler" and h' :: "'b handler" and f :: "'a \<Rightarrow> 'b"
  assumes down: "h' (PeerDown n) (T, f a) = map_prod id f (h (PeerDown n) (T, a))"
begin

lemma dropPeer_lift: "dropPeer h' i (T, f a) = map_prod id f (dropPeer h i (T, a))"
  by (simp add: dropPeer_def Let_def down split_beta)

lemma handleWritable_lift: "handleWritable net h' i (T, f a) = map_prod id f (handleWritable net h i (T, a))"
proof (induction "fw_size (writer T i)" arbitrary: T rule: less_induct)
  case less
  obtain status n c where w: "sock_write net (fw_data (writer T i)) (tp_calls T) = (status, n, c)" by (metis prod_cases3)
  let ?T2 = "if n < fw_size (writer T i) then tp_count (\<lambda>s. s\<lparr>ts_shortWrites := ts_shortWrites s + 1\<rparr>) (T\<lparr>tp_calls := c\<rparr>) else T\<lparr>tp_calls := c\<rparr>"
  let ?T3 = "tp_count (\<lambda>s. s\<lparr>ts_bytesSent := ts_bytesSent s + of_nat n\<rparr>) (upd_peer i (\<lambda>p. p\<lparr>pe_writer := fw_consume n (pe_writer p)\<rparr>) ?T2)"
  note step = handleWritable.simps [of net h i "(T, a)"] handleWritable.simps [of net h' i "(T, f a)"]
  show ?case
  proof (cases "fw_size (writer T i) = 0 \<or> length (tp_peers T) \<le> i \<or> status \<noteq> IoOk")
    case True
    then show ?thesis using w by (auto simp: step Let_def dropPeer_lift)
  next
    case False
    then have "fw_data (writer T i) \<noteq> []" by (simp add: fw_data_def fw_size_def)
    then have "0 < n" using sock_write_moves w False by blast
    then have "fw_size (fw_consume n (writer T i)) < fw_size (writer T i)"
      using False by (auto simp: fw_consume_def fw_compact_def fw_size_def Let_def min_def)
    then have "fw_size (writer ?T3 i) < fw_size (writer T i)" using False by simp
    from less [OF this] show ?thesis using False w by (simp add: step Let_def)
  qed
qed

lemma tp_send_lift: "tp_send net h' to m (T, f a) = map_prod id (map_prod id f) (tp_send net h to m (T, a))"
proof (cases "findPeer to T")
  case (Some i)
  obtain T1 a1 where W1: "handleWritable net h i (T, a) = (T1, a1)" by fastforce
  show ?thesis using Some W1 by (simp add: tp_send_def Let_def handleWritable_lift)
qed (simp add: tp_send_def)

lemma broadcast_lift: "broadcast net h' m (T, f a) = map_prod id (map_prod id f) (broadcast net h m (T, a))"
proof -
  have one: "broadcast_one net h' m i (n, T, f a) = map_prod id (map_prod id f) (broadcast_one net h m i (n, T, a))" for n i T a
  proof -
    obtain T1 a1 where "handleWritable net h i (T, a) = (T1, a1)" by fastforce
    then show ?thesis by (simp add: broadcast_one_def Let_def handleWritable_lift)
  qed
  have "fold (broadcast_one net h' m) is (n, T, f a) = map_prod id (map_prod id f) (fold (broadcast_one net h m) is (n, T, a))" for "is" n T a
  proof (induction "is" arbitrary: n T a)
    case (Cons i "is")
    obtain n1 T1 a1 where "broadcast_one net h m i (n, T, a) = (n1, T1, a1)" by (metis surj_pair)
    then show ?case using Cons.IH by (simp add: one)
  qed simp
  then show ?thesis by (simp add: broadcast_def)
qed

end

interpretation inner: down_refinement on_down "node_handler net clock" Running for net clock
  by unfold_locales (simp add: node_handler_def on_down_def)

end
