(* ===== verification/Node_Run.thy ===== *)
theory Node_Run
  imports Node_Inv
begin

text \<open>
  The life of a node: its callbacks keep the contracts of \<open>Node_Inv\<close>, every operation keeps the invariant of
  its replicator, and \<open>app_reachable\<close> are the states between turns of the event loop, for any network and clock.
\<close>

section \<open>The callbacks as clients\<close>

interpretation nd: transport_client note_down
  by unfold_locales (auto simp: note_down_def split: Upcall.splits)

interpretation od: transport_client on_down
  by unfold_locales (auto simp: on_down_def split: Upcall.splits)

definition link_rel :: "link \<Rightarrow> link \<Rightarrow> bool" where
  "link_rel lk lk' \<longleftrightarrow> (tp_ok (fst lk) \<longrightarrow> tp_ok (fst lk') \<and> calm (fst lk) (fst lk'))"

interpretation ll: lossy_link "link_send net" link_rel for net
proof (unfold_locales, goal_cases)
  case (3 lk to m)
  obtain r T a where "tp_send net note_down to m lk = (r, T, a)" by (metis surj_pair)
  then show ?case using nd.send_keeps [of "fst lk" net to m "snd lk" r T a] by (simp add: link_rel_def link_send_def)
qed (auto simp: link_rel_def intro: calm_trans)

text \<open>The invariant of the replicator inside the node: nothing is ever compacted, and the cluster size
  is the default of two.\<close>

definition rep_good :: "NodeId \<Rightarrow> 't Replicator \<Rightarrow> bool" where
  "rep_good self R \<longleftrightarrow> (\<exists>hist. rep_inv kInstrument hist R) \<and> log_base (rp_log R) = 0 \<and> rp_clusterSize R = 2 \<and> rp_self R = self"

lemma core_eq_good: "core_eq R R' \<Longrightarrow> rep_good self R \<Longrightarrow> rep_good self R'"
  using core_eq_inv [of R R' kInstrument] by (auto simp: rep_good_def core_eq_def)

lemma rep_good_frame [simp]:
  "rep_good self (R\<lparr>rp_transport := tr\<rparr>) \<longleftrightarrow> rep_good self R" "rep_good self (setTerm t R) \<longleftrightarrow> rep_good self R"
  "rep_good self (setRole r R) \<longleftrightarrow> rep_good self R" "rep_good self (onPeerDown n R) \<longleftrightarrow> rep_good self R"
  by (simp_all add: rep_good_def rep_inv_def setTerm_def setRole_def onPeerDown_def)

lemma rep_good_downs [simp]: "rep_good self (fold onPeerDown ns R) \<longleftrightarrow> rep_good self R"
  by (induction ns arbitrary: R) simp_all

lemma rep_good_ops:
  assumes "rep_good self R"
  shows "rep_good self (onPeerUp tsend i R)" "rep_good self (rp_tick tsend tsat R)"
  using core_eq_good [OF other_ops_core(1) assms] core_eq_good [OF other_ops_core(3) assms] by simp_all

lemma rep_good_submit:
  assumes "rep_good self R" and "log_room (rp_log R)"
  obtains r R' where "submit (link_send net) tsat cmd R = Some (r, R')" and "rep_good self R'"
    and "sr_status r = Accepted \<Longrightarrow> rp_role R = Primary \<and> (sr_seq r, rp_log R') = log_append cmd (rp_term R) (rp_log R)"
    and "sr_status r \<noteq> Accepted \<Longrightarrow> rp_log R' = rp_log R"
proof -
  obtain hist where inv: "rep_inv kInstrument hist R" and g: "log_base (rp_log R) = 0" "rp_clusterSize R = 2" "rp_self R = self"
    using assms(1) by (auto simp: rep_good_def)
  obtain r R' hist' where s: "submit (link_send net) tsat cmd R = Some (r, R')" "rep_inv kInstrument (hist @ hist') R'"
    "sr_status r \<noteq> Accepted \<Longrightarrow> core_eq R R'"
    "sr_status r = Accepted \<Longrightarrow> rp_role R = Primary \<and> (sr_seq r, rp_log R') = log_append cmd (rp_term R) (rp_log R)"
    by (rule submit_total [OF inv assms(2), of "link_send net" tsat cmd]) blast
  have "log_base (rp_log R') = 0"
  proof (cases "sr_status r = Accepted")
    case True
    have "log_ok (rp_log R)" using inv by (simp add: rep_inv_def)
    then show ?thesis using log_append_ok [OF _ assms(2)] s(4) [OF True] g(1) by metis
  next
    case False
    then show ?thesis using s(3) g(1) by (simp add: core_eq_def)
  qed
  then have "rep_good self R'" using s(2) ll.submit_rel [OF s(1)] g by (auto simp: rep_good_def)
  then show thesis using that [OF s(1)] s(3,4) by (simp add: core_eq_def)
qed

lemma rep_good_message:
  assumes "rep_good self R" and "case m of AppendEntries a \<Rightarrow> length (lg_entries (rp_log R)) + length (ae_entries a) < 2 ^ 64 - 1 | _ \<Rightarrow> True"
  obtains R' where "rp_onMessage (link_send net) frm m R = Some R'" and "rep_good self R'" and "rp_role R' = rp_role R" and "rp_term R' = rp_term R"
proof -
  obtain hist where inv: "rep_inv kInstrument hist R" and g: "log_base (rp_log R) = 0" "rp_clusterSize R = 2" "rp_self R = self"
    using assms(1) by (auto simp: rep_good_def)
  have "\<exists>R' hist'. rp_onMessage (link_send net) frm m R = Some R' \<and> rep_inv kInstrument hist' R' \<and> log_base (rp_log R') = 0"
  proof (cases m)
    case (AppendEntries a)
    then have room: "length (lg_entries (rp_log R)) + length (ae_entries a) < 2 ^ 64 - 1" using assms(2) by simp
    show ?thesis
    proof (cases "ae_term a < rp_term R \<or> termAt (ae_prevSeq a) (rp_log R) \<noteq> Some (ae_prevTerm a)")
      case True
      then obtain R1 where "handleAppendEntries (link_send net) frm a R = Some R1" "core_eq R R1" by (rule handleAppendEntries_rejects)
      then show ?thesis using AppendEntries core_eq_inv [of R R1] inv g(1) by (auto simp: rp_onMessage_def core_eq_def)
    next
      case False
      then have ok: "\<not> ae_term a < rp_term R" "termAt (ae_prevSeq a) (rp_log R) = Some (ae_prevTerm a)" by auto
      show ?thesis
        by (rule handleAppendEntries_merges [OF inv g(1) room ok, of "link_send net" frm]) (use AppendEntries in \<open>auto simp: rp_onMessage_def\<close>)
    qed
  next
    case (AppendResponse r)
    show ?thesis
      by (rule handleAppendResponse_total [OF inv, of "link_send net" frm r]) (use AppendResponse g(1) in \<open>auto simp: rp_onMessage_def\<close>)
  qed (use inv g(1) in \<open>auto simp: rp_onMessage_def\<close>)
  then obtain R' hist' where r: "rp_onMessage (link_send net) frm m R = Some R'" "rep_inv kInstrument hist' R'" "log_base (rp_log R') = 0" by blast
  then show thesis using that [OF r(1)] ll.onMessage_rel [OF r(1)] g by (auto simp: rep_good_def)
qed

section \<open>Steps of the node\<close>

text \<open>A step that changes at most the transport and the replicator, and keeps the invariants of both.\<close>

definition app_ok :: "App \<Rightarrow> bool" where
  "app_ok A \<longleftrightarrow> rep_good (ap_self A) (ap_replicator A) \<and> ap_nextOrder A \<le> length (ap_orders A)"

definition keeps_link :: "Transport \<times> 'a \<Rightarrow> Transport \<times> 'b \<Rightarrow> bool" where
  "keeps_link W W' \<longleftrightarrow> (tp_ok (fst W) \<longrightarrow> tp_ok (fst W') \<and> calm (fst W) (fst W'))"

definition app_step :: "Transport \<times> App \<Rightarrow> Transport \<times> App \<Rightarrow> bool" where
  "app_step W W' \<longleftrightarrow> keeps_link W W' \<and> (app_ok (snd W) \<longrightarrow> app_ok (snd W')) \<and> (\<exists>R. snd W' = (snd W)\<lparr>ap_replicator := R\<rparr>)"

text \<open>A step that only sends: log, engine, term and role of the replicator stay.\<close>

definition app_frame :: "App \<Rightarrow> App \<Rightarrow> bool" where
  "app_frame A A' \<longleftrightarrow> (\<exists>R. A' = A\<lparr>ap_replicator := R\<rparr> \<and> core_eq (ap_replicator A) R)"

lemma keeps_link_trans: "keeps_link W W1 \<Longrightarrow> keeps_link W1 W2 \<Longrightarrow> keeps_link W W2"
  using calm_trans by (auto simp: keeps_link_def)

lemma app_step_refl [simp]: "app_step W W"
proof -
  have "\<exists>R. snd W = (snd W)\<lparr>ap_replicator := R\<rparr>" by (rule exI [of _ "ap_replicator (snd W)"]) simp
  then show ?thesis by (simp add: app_step_def keeps_link_def)
qed

lemma app_step_trans:
  assumes "app_step W W1" and "app_step W1 W2"
  shows "app_step W W2"
proof -
  obtain R1 R2 where "snd W1 = (snd W)\<lparr>ap_replicator := R1\<rparr>" "snd W2 = (snd W1)\<lparr>ap_replicator := R2\<rparr>"
    using assms by (auto simp: app_step_def)
  then have "snd W2 = (snd W)\<lparr>ap_replicator := R2\<rparr>" by simp
  then show ?thesis using assms keeps_link_trans [of W W1 W2] by (auto simp: app_step_def)
qed

lemma app_frameI: "core_eq (ap_replicator A) R \<Longrightarrow> app_frame A (A\<lparr>ap_replicator := R\<rparr>)"
  by (auto simp: app_frame_def)

lemma app_frame_refl [simp]: "app_frame A A"
  using app_frameI [of A "ap_replicator A"] by simp

lemma app_frame_trans: "app_frame A A1 \<Longrightarrow> app_frame A1 A2 \<Longrightarrow> app_frame A A2"
  using core_eq_trans by (fastforce simp: app_frame_def)

lemma app_frameD:
  assumes "app_frame A A'"
  shows "\<exists>R. A' = A\<lparr>ap_replicator := R\<rparr>" and "core_eq (ap_replicator A) (ap_replicator A')" and "app_ok A' \<longleftrightarrow> app_ok A"
proof -
  obtain R where R: "A' = A\<lparr>ap_replicator := R\<rparr>" "core_eq (ap_replicator A) R" using assms by (auto simp: app_frame_def)
  then show "\<exists>R. A' = A\<lparr>ap_replicator := R\<rparr>" "core_eq (ap_replicator A) (ap_replicator A')" by auto
  have "core_eq R (ap_replicator A)" using R(2) by (simp add: core_eq_def)
  then show "app_ok A' \<longleftrightarrow> app_ok A" using R core_eq_good [of "ap_replicator A" R] core_eq_good [of R "ap_replicator A"] by (auto simp: app_ok_def)
qed

lemma core_eq_downs: "core_eq R (fold onPeerDown ns R)"
proof (induction ns arbitrary: R)
  case (Cons n ns)
  from core_eq_trans [OF other_ops_core(2) Cons.IH] show ?case by simp
qed simp

lemma on_down_frame: "app_frame (snd W) (snd (on_down u W))"
  using app_frameI [OF other_ops_core(2)] by (auto simp: on_down_def split: Upcall.split)

interpretation odf: app_invariant on_down "app_frame A" for A
  by unfold_locales (rule app_frame_trans [OF _ on_down_frame])

text \<open>Sending and lending the transport to the replicator.\<close>

lemma frame_step: "keeps_link W W' \<Longrightarrow> app_frame (snd W) (snd W') \<Longrightarrow> app_step W W'"
  using app_frameD [of "snd W" "snd W'"] by (simp add: app_step_def)

lemma app_send: "app_frame (snd W) (snd (snd (tp_send net on_down to m W)))" "app_step W (snd (tp_send net on_down to m W))"
proof -
  obtain r T A where s: "tp_send net on_down to m W = (r, T, A)" by (metis surj_pair)
  show f: "app_frame (snd W) (snd (snd (tp_send net on_down to m W)))" by (rule odf.tp_send_inv) simp
  have "keeps_link W (snd (tp_send net on_down to m W))"
    using od.send_keeps [of "fst W" net to m "snd W" r T A] s by (simp add: keeps_link_def)
  then show "app_step W (snd (tp_send net on_down to m W))" using f by (rule frame_step)
qed

lemma give_back_link:
  assumes "link_rel (rp_transport (borrow W)) (rp_transport R)"
  shows "keeps_link W (give_back A R)"
  using assms by (simp add: borrow_def give_back_def link_rel_def keeps_link_def)

lemma give_back_frame:
  assumes "core_eq (borrow W) R"
  shows "app_frame (snd W) (snd (give_back (snd W) R))"
proof -
  have "core_eq (ap_replicator (snd W)) R" using assms by (simp add: borrow_def core_eq_def)
  from app_frameI [OF core_eq_trans [OF this core_eq_downs]] show ?thesis by (simp add: give_back_def)
qed

lemma app_peerUp_step: "app_frame (snd W) (snd (app_peerUp net n W))" "app_step W (app_peerUp net n W)"
proof -
  show f: "app_frame (snd W) (snd (app_peerUp net n W))"
    unfolding app_peerUp_def by (rule give_back_frame) (rule other_ops_core)
  have "keeps_link W (app_peerUp net n W)"
    unfolding app_peerUp_def by (rule give_back_link) (use ll.onPeerUp_rel in blast)
  then show "app_step W (app_peerUp net n W)" using f by (rule frame_step)
qed

lemma set_term_role_step: "app_step (T, A) (T, set_term t A)" "app_step (T, A) (T, set_role r A)"
  by (auto simp: app_step_def keeps_link_def set_term_def set_role_def app_ok_def)

lemma fold_app_step: "(\<And>x W. app_step W (f x W)) \<Longrightarrow> app_step W (fold f xs W)"
proof (induction xs arbitrary: W)
  case (Cons x xs)
  from app_step_trans [OF Cons.prems Cons.IH [OF Cons.prems]] show ?case by simp
qed simp

lemma run_action_step: "app_step W (run_action net a W)"
proof -
  have up: "app_step W (fold (\<lambda>p W. if isReady p (fst W) then app_peerUp net p W else W) ps W)" for ps W
    by (rule fold_app_step) (simp add: app_peerUp_step(2))
  have sends: "app_step W (fold (\<lambda>(to, m) W. snd (tp_send net on_down to m W)) ms W)" for ms W
    by (rule fold_app_step) (simp add: app_send(2) split: prod.split)
  have roles: "app_step W (fst W, set_role r (set_term t (snd W)))" for r t
    using app_step_trans [OF set_term_role_step(1) set_term_role_step(2)] by (metis prod.collapse)
  show ?thesis using up sends roles app_step_trans [OF roles up]
    by (cases "ac_kind a") (simp_all add: run_action_def del: action_message.simps)
qed

lemma run_actions_step: "app_step W (run_actions net acts W)"
  unfolding run_actions_def by (rule fold_app_step) (rule run_action_step)

lemma elect_step_keeps:
  "keeps_link W (elect_step net clock f W)" "app_ok (snd W) \<Longrightarrow> app_ok (snd (elect_step net clock f W))"
proof -
  obtain e acts where f: "f (clock (ap_readings (snd W))) (ap_election (snd W)) [] = (e, acts)" by fastforce
  let ?W1 = "(fst W, (snd W)\<lparr>ap_election := e, ap_readings := ap_readings (snd W) + 1\<rparr>)"
  have run: "elect_step net clock f W = run_actions net acts ?W1" using f by (simp add: elect_step_def Let_def)
  have "app_ok (snd ?W1) \<longleftrightarrow> app_ok (snd W)" by (simp add: app_ok_def)
  then show "keeps_link W (elect_step net clock f W)" "app_ok (snd W) \<Longrightarrow> app_ok (snd (elect_step net clock f W))"
    using run_actions_step [of ?W1 net acts] run by (simp_all add: app_step_def keeps_link_def)
qed

lemma sync_term_step: "app_step W (sync_term W)"
  using set_term_role_step(1) by (simp add: sync_term_def) (metis prod.collapse)

section \<open>The callbacks of the node\<close>

fun node_good :: "Node \<Rightarrow> bool" where
  "node_good (Running A) = app_ok A"
| "node_good LogFull = True"
| "node_good Failed = False"

lemma give_back_good:
  assumes "rep_good (ap_self A) R" and "ap_nextOrder A \<le> length (ap_orders A)"
  shows "app_ok (snd (give_back A R))"
  using assms by (simp add: give_back_def app_ok_def)

lemma to_replicator_keeps:
  "keeps_link W (to_replicator net frm m W)" "app_ok (snd W) \<Longrightarrow> node_good (snd (to_replicator net frm m W))"
proof -
  let ?r = "rp_onMessage (link_send net) frm m (borrow W)"
  have link: "keeps_link W (case give_back (snd W) R of (T, A) \<Rightarrow> (T, Running A))" if "?r = Some R" for R
    using ll.onMessage_rel [OF that] give_back_link [of W R "snd W"] by (simp add: keeps_link_def split_beta)
  then show "keeps_link W (to_replicator net frm m W)"
    by (auto simp: to_replicator_def keeps_link_def [of W "(fst W, _)"] split: option.split)
  show "node_good (snd (to_replicator net frm m W))" if ok: "app_ok (snd W)"
  proof (cases "log_fits m (snd W)")
    case True
    have "rep_good (ap_self (snd W)) (borrow W)" using ok by (simp add: app_ok_def borrow_def)
    then obtain R' where "?r = Some R'" "rep_good (ap_self (snd W)) R'"
      by (rule rep_good_message [where m = m and frm = frm and net = net]) (use True in \<open>simp_all add: log_fits_def borrow_def split: Message.splits\<close>)
    then show ?thesis using ok True give_back_good [of "snd W" R'] by (simp add: to_replicator_def app_ok_def split_beta)
  qed (simp add: to_replicator_def ok)
qed

lemma app_onMessage_keeps:
  "keeps_link W (app_onMessage net clock frm m W)" "app_ok (snd W) \<Longrightarrow> node_good (snd (app_onMessage net clock frm m W))"
proof -
  have "keeps_link W (app_onMessage net clock frm m W) \<and> (app_ok (snd W) \<longrightarrow> node_good (snd (app_onMessage net clock frm m W)))"
  proof -
    have elect: "keeps_link W (case elect_step net clock f W of (T, A) \<Rightarrow> (T, Running A)) \<and>
        (app_ok (snd W) \<longrightarrow> node_good (snd (case elect_step net clock f W of (T, A) \<Rightarrow> (T, Running A))))" for f
      using elect_step_keeps [of W net clock f] by (simp add: keeps_link_def split_beta)
    have sync: "keeps_link W (to_replicator net frm m (sync_term (elect_step net clock f W))) \<and>
        (app_ok (snd W) \<longrightarrow> node_good (snd (to_replicator net frm m (sync_term (elect_step net clock f W)))))" for f
      using elect_step_keeps [of W net clock f] sync_term_step [of "elect_step net clock f W"]
        to_replicator_keeps [of "sync_term (elect_step net clock f W)" net frm m]
      by (auto simp: app_step_def intro: keeps_link_trans)
    show ?thesis using elect sync to_replicator_keeps [of W net frm m]
      by (cases m) (simp_all add: app_onMessage_def)
  qed
  then show "keeps_link W (app_onMessage net clock frm m W)" "app_ok (snd W) \<Longrightarrow> node_good (snd (app_onMessage net clock frm m W))" by blast+
qed

lemma node_handler_keeps:
  "keeps_link W (node_handler net clock u W)" "node_good (snd W) \<Longrightarrow> node_good (snd (node_handler net clock u W))"
proof -
  have refl: "keeps_link W W" by (simp add: keeps_link_def)
  have "keeps_link W (node_handler net clock u W) \<and> (node_good (snd W) \<longrightarrow> node_good (snd (node_handler net clock u W)))"
  proof (cases "snd W")
    case (Running A)
    show ?thesis
    proof (cases u)
      case (PeerUp n addr)
      show ?thesis using app_peerUp_step(2) [of "(fst W, A)" net n] Running PeerUp
        by (auto simp: node_handler_def app_step_def keeps_link_def split: prod.split)
    next
      case (PeerDown n)
      have "fst (on_down u (fst W, A)) = fst W" by (simp add: on_down_def PeerDown)
      then show ?thesis using on_down_frame [of "(fst W, A)" u] app_frameD(3) Running PeerDown
        by (auto simp: node_handler_def keeps_link_def split: prod.split)
    next
      case (Received n m)
      show ?thesis using app_onMessage_keeps [of "(fst W, A)" net clock n m] Running Received
        by (simp add: node_handler_def keeps_link_def)
    qed
  qed (use refl in \<open>simp_all add: node_handler_def\<close>)
  then show "keeps_link W (node_handler net clock u W)" "node_good (snd W) \<Longrightarrow> node_good (snd (node_handler net clock u W))" by blast+
qed

interpretation nh: transport_client "node_handler net clock" for net clock
proof (unfold_locales, goal_cases)
  case (1 T u a T' a')
  then show ?case using node_handler_keeps(1) [of "(T, a)" net clock u] by (simp add: keeps_link_def)
next
  case (2 n W)
  then show ?case by (auto simp: node_handler_def on_down_def split: Node.split)
qed

interpretation nhi: app_invariant "node_handler net clock" node_good for net clock
  by unfold_locales (rule node_handler_keeps)

section \<open>Feeding orders\<close>

text \<open>What a step appended to the log: commands, all in the term of the moment.\<close>

definition grew :: "App \<Rightarrow> App \<Rightarrow> Command list \<Rightarrow> bool" where
  "grew A A' cs \<longleftrightarrow> (\<exists>es. lg_entries (rp_log (ap_replicator A')) = lg_entries (rp_log (ap_replicator A)) @ es \<and>
     map le_command es = cs \<and> (\<forall>e\<in>set es. le_term e = rp_term (ap_replicator A)))"

lemma submit_next_spec:
  assumes "app_ok (snd W)" and "ap_nextOrder (snd W) < length (ap_orders (snd W))" and "submit_next net W = (ok, W')"
  shows "keeps_link W W' \<and> node_good (snd W') \<and> (\<forall>A. snd W' = Running A \<longrightarrow>
    (\<exists>R. A = (snd W)\<lparr>ap_replicator := R, ap_nextOrder := ap_nextOrder (snd W) + (if ok then 1 else 0)\<rparr>) \<and>
    rp_term (ap_replicator A) = rp_term (ap_replicator (snd W)) \<and> rp_role (ap_replicator A) = rp_role (ap_replicator (snd W)) \<and>
    grew (snd W) A (if ok then [ap_orders (snd W) ! ap_nextOrder (snd W)] else []))"
proof (cases "log_room (rp_log (ap_replicator (snd W)))")
  case True
  let ?c = "ap_orders (snd W) ! ap_nextOrder (snd W)"
  have good: "rep_good (ap_self (snd W)) (borrow W)" and room: "log_room (rp_log (borrow W))" using assms(1) True by (simp_all add: app_ok_def borrow_def)
  obtain r R' where s: "submit (link_send net) link_sat ?c (borrow W) = Some (r, R')" "rep_good (ap_self (snd W)) R'"
    "sr_status r = Accepted \<Longrightarrow> rp_role (borrow W) = Primary \<and> (sr_seq r, rp_log R') = log_append ?c (rp_term (borrow W)) (rp_log (borrow W))"
    "sr_status r \<noteq> Accepted \<Longrightarrow> rp_log R' = rp_log (borrow W)"
    by (rule rep_good_submit [OF good room, of net link_sat ?c]) blast
  note rel = ll.submit_rel [OF s(1)]
  let ?R = "fold onPeerDown (snd (rp_transport R')) R'"
  have core: "core_eq R' ?R" by (rule core_eq_downs)
  have W': "ok = (sr_status r = Accepted)" "fst W' = fst (rp_transport R')"
    "snd W' = Running ((snd W)\<lparr>ap_replicator := ?R, ap_nextOrder := ap_nextOrder (snd W) + (if ok then 1 else 0)\<rparr>)"
    using assms(3) True s(1) by (auto simp: submit_next_def give_back_def split: if_splits)
  have link: "keeps_link W W'" using give_back_link [of W R' "snd W"] rel W'(2) by (simp add: keeps_link_def give_back_def)
  have "rep_good (ap_self (snd W)) ?R" using s(2) by simp
  then have "node_good (snd W')" using W'(3) assms(1,2) by (auto simp: app_ok_def)
  moreover have "rp_log ?R = rp_log R'" "rp_term ?R = rp_term (ap_replicator (snd W))" "rp_role ?R = rp_role (ap_replicator (snd W))"
    using core rel by (simp_all add: core_eq_def borrow_def)
  moreover from this(1) have "\<exists>es. lg_entries (rp_log ?R) = lg_entries (rp_log (ap_replicator (snd W))) @ es \<and>
      map le_command es = (if ok then [?c] else []) \<and> (\<forall>e\<in>set es. le_term e = rp_term (ap_replicator (snd W)))"
    using s(3,4) W'(1) by (cases ok) (auto simp: log_append_def Let_def borrow_def)
  ultimately show ?thesis using link W'(3) by (auto simp: grew_def)
next
  case False
  then have "W' = (fst W, LogFull)" using assms(3) by (simp add: submit_next_def)
  then show ?thesis by (simp add: keeps_link_def)
qed

lemma grew_append: "grew A A1 cs \<Longrightarrow> grew A1 A2 ds \<Longrightarrow> rp_term (ap_replicator A1) = rp_term (ap_replicator A) \<Longrightarrow> grew A A2 (cs @ ds)"
  by (force simp: grew_def)

text \<open>At most \<open>b\<close> orders, the next ones in the order of the file, went into the log.\<close>

definition fed :: "nat \<Rightarrow> App \<Rightarrow> App \<Rightarrow> bool" where
  "fed b A A' \<longleftrightarrow> (\<exists>R k. A' = A\<lparr>ap_replicator := R, ap_nextOrder := ap_nextOrder A + k\<rparr> \<and> k \<le> b \<and>
     grew A A' (take k (drop (ap_nextOrder A) (ap_orders A)))) \<and>
     rp_term (ap_replicator A') = rp_term (ap_replicator A) \<and> rp_role (ap_replicator A') = rp_role (ap_replicator A)"

lemma fed_refl: "fed b A A"
proof -
  have "A = A\<lparr>ap_replicator := ap_replicator A, ap_nextOrder := ap_nextOrder A + 0\<rparr> \<and> 0 \<le> b \<and> grew A A (take 0 (drop (ap_nextOrder A) (ap_orders A)))"
    by (simp add: grew_def)
  then show ?thesis unfolding fed_def by blast
qed

lemma fed_Suc:
  assumes "A1 = A\<lparr>ap_replicator := R, ap_nextOrder := ap_nextOrder A + 1\<rparr>" and "ap_nextOrder A < length (ap_orders A)"
    and "grew A A1 [ap_orders A ! ap_nextOrder A]" and "rp_term (ap_replicator A1) = rp_term (ap_replicator A)"
    and "rp_role (ap_replicator A1) = rp_role (ap_replicator A)" and "fed b A1 A2"
  shows "fed (Suc b) A A2"
proof -
  obtain R2 k where k: "A2 = A1\<lparr>ap_replicator := R2, ap_nextOrder := ap_nextOrder A1 + k\<rparr>" "k \<le> b"
    "grew A1 A2 (take k (drop (ap_nextOrder A1) (ap_orders A1)))" using assms(6) by (auto simp: fed_def)
  have "ap_orders A ! ap_nextOrder A # take k (drop (Suc (ap_nextOrder A)) (ap_orders A)) = take (Suc k) (drop (ap_nextOrder A) (ap_orders A))"
    using assms(2) by (simp add: Cons_nth_drop_Suc [symmetric])
  then have "grew A A2 (take (Suc k) (drop (ap_nextOrder A) (ap_orders A)))"
    using grew_append [OF assms(3) k(3) assms(4)] assms(1) by simp
  moreover have "A2 = A\<lparr>ap_replicator := R2, ap_nextOrder := ap_nextOrder A + Suc k\<rparr>" using k(1) assms(1) by simp
  moreover have "Suc k \<le> Suc b" using k(2) by simp
  moreover have "rp_term (ap_replicator A2) = rp_term (ap_replicator A)" "rp_role (ap_replicator A2) = rp_role (ap_replicator A)"
    using assms(4,5,6) by (simp_all add: fed_def)
  ultimately show ?thesis unfolding fed_def by blast
qed

lemma feed_spec:
  assumes "app_ok (snd W)"
  shows "keeps_link W (feed net b W) \<and> node_good (snd (feed net b W)) \<and> (\<forall>A. snd (feed net b W) = Running A \<longrightarrow> fed b (snd W) A)"
  using assms
proof (induction b arbitrary: W)
  case 0
  then show ?case using fed_refl by (auto simp: keeps_link_def)
next
  case (Suc b)
  show ?case
  proof (cases "ap_nextOrder (snd W) < length (ap_orders (snd W))")
    case True
    obtain ok W1 where s: "submit_next net W = (ok, W1)" by (metis surj_pair)
    note sp = submit_next_spec [OF Suc.prems True s]
    show ?thesis
    proof (cases "snd W1")
      case (Running A)
      then obtain R where A: "A = (snd W)\<lparr>ap_replicator := R, ap_nextOrder := ap_nextOrder (snd W) + (if ok then 1 else 0)\<rparr>" using sp by blast
      show ?thesis
      proof (cases ok)
        case ok: True
        have run: "feed net (Suc b) W = feed net b (fst W1, A)" using True s ok Running by (cases W1) simp
        have "app_ok A" using sp Running by simp
        with Suc.IH [of "(fst W1, A)"] have ih: "keeps_link (fst W1, A) (feed net b (fst W1, A)) \<and> node_good (snd (feed net b (fst W1, A))) \<and>
            (\<forall>A'. snd (feed net b (fst W1, A)) = Running A' \<longrightarrow> fed b A A')" by simp
        have "keeps_link W (fst W1, A)" using sp by (simp add: keeps_link_def)
        then have "keeps_link W (feed net b (fst W1, A))" using ih keeps_link_trans by blast
        moreover have "fed (Suc b) (snd W) A'" if "fed b A A'" for A'
          by (rule fed_Suc [OF _ True _ _ _ that]) (use A ok sp Running in auto)
        ultimately show ?thesis unfolding run using ih by blast
      next
        case False
        have run: "feed net (Suc b) W = W1" using True s False Running by (cases W1) simp
        have "A = (snd W)\<lparr>ap_replicator := R, ap_nextOrder := ap_nextOrder (snd W) + 0\<rparr>" using A False by simp
        moreover have "grew (snd W) A (take 0 (drop (ap_nextOrder (snd W)) (ap_orders (snd W))))" using sp Running False by simp
        moreover have "rp_term (ap_replicator A) = rp_term (ap_replicator (snd W))" "rp_role (ap_replicator A) = rp_role (ap_replicator (snd W))"
          using sp Running by auto
        ultimately have "fed (Suc b) (snd W) A" unfolding fed_def by blast
        then show ?thesis unfolding run using sp Running by simp
      qed
    next
      case LogFull
      have "feed net (Suc b) W = W1" using True s LogFull by (cases W1; cases ok) simp_all
      then show ?thesis using sp LogFull by simp
    next
      case Failed
      then show ?thesis using sp by simp
    qed
  qed (use Suc.prems fed_refl in \<open>auto simp: keeps_link_def\<close>)
qed

section \<open>Turns\<close>

lemma rp_tick_step:
  "app_frame (snd W) (snd (give_back (snd W) (rp_tick (link_send net) link_sat (borrow W))))"
  "keeps_link W (give_back (snd W) (rp_tick (link_send net) link_sat (borrow W)))"
proof -
  show "app_frame (snd W) (snd (give_back (snd W) (rp_tick (link_send net) link_sat (borrow W))))"
    by (rule give_back_frame) (rule other_ops_core)
  show "keeps_link W (give_back (snd W) (rp_tick (link_send net) link_sat (borrow W)))"
    by (rule give_back_link) (use ll.rp_tick_rel in blast)
qed

lemma turn_begin_keeps:
  "keeps_link W (turn_begin net clock W)" "app_ok (snd W) \<Longrightarrow> app_ok (snd (turn_begin net clock W))"
proof -
  let ?W1 = "if ap_elect (snd W) then sync_term (elect_step net clock (\<lambda>now e. tick now (setLastLogSeq (app_lastSeq (snd W)) e)) W) else W"
  let ?W2 = "give_back (snd ?W1) (rp_tick (link_send net) link_sat (borrow ?W1))"
  have sync: "keeps_link W (sync_term (elect_step net clock f W))" "app_ok (snd W) \<Longrightarrow> app_ok (snd (sync_term (elect_step net clock f W)))" for f
    using elect_step_keeps [of W net clock f] sync_term_step [of "elect_step net clock f W"]
      keeps_link_trans [of W "elect_step net clock f W" "sync_term (elect_step net clock f W)"] by (simp_all add: app_step_def)
  have "keeps_link W W" by (simp add: keeps_link_def)
  then have W1: "keeps_link W ?W1" "app_ok (snd W) \<Longrightarrow> app_ok (snd ?W1)" using sync by auto
  have W2: "keeps_link W ?W2" "app_ok (snd W) \<Longrightarrow> app_ok (snd ?W2)"
    using keeps_link_trans [OF W1(1) rp_tick_step(2)] W1(2) app_frameD(3) [OF rp_tick_step(1)] by blast+
  have "turn_begin net clock W = (fst ?W2, (snd ?W2)\<lparr>ap_cycles := ap_cycles (snd ?W2) + 1\<rparr>)" by (simp only: turn_begin_def Let_def)
  then show "keeps_link W (turn_begin net clock W)" "app_ok (snd W) \<Longrightarrow> app_ok (snd (turn_begin net clock W))"
    using W2 by (simp_all add: keeps_link_def app_ok_def)
qed

lemma turn_end_keeps:
  "keeps_link W (turn_end net W)" "app_ok (snd (turn_end net W)) \<longleftrightarrow> app_ok (snd W)"
  "core_eq (ap_replicator (snd W)) (ap_replicator (snd (turn_end net W)))" "ap_election (snd (turn_end net W)) = ap_election (snd W)"
  "ap_elect (snd (turn_end net W)) = ap_elect (snd W)" "ap_nextOrder (snd (turn_end net W)) = ap_nextOrder (snd W)"
proof -
  let ?A = "(snd W)\<lparr>ap_heartbeatCounter := ap_heartbeatCounter (snd W) + 1\<rparr>"
  let ?m = "Heartbeat \<lparr>hb_nodeId = ap_self (snd W), hb_counter = ap_heartbeatCounter (snd W) + 1\<rparr>"
  obtain n T B where b: "broadcast net on_down ?m (fst W, ?A) = (n, T, B)" by (metis surj_pair)
  have f: "app_frame ?A B" using odf.broadcast_inv [of ?A "(fst W, ?A)" net ?m] b by simp
  have l: "keeps_link W (T, B)" using od.broadcast_keeps [OF _ b] by (simp add: keeps_link_def)
  obtain R where B: "B = ?A\<lparr>ap_replicator := R\<rparr>" "core_eq (ap_replicator ?A) R" using f by (auto simp: app_frame_def)
  have ok: "app_ok B \<longleftrightarrow> app_ok (snd W)" using app_frameD(3) [OF f] by (simp add: app_ok_def)
  show "keeps_link W (turn_end net W)" using l b by (auto simp: turn_end_def Let_def keeps_link_def)
  show "app_ok (snd (turn_end net W)) \<longleftrightarrow> app_ok (snd W)" using ok b by (auto simp: turn_end_def Let_def app_ok_def)
  show "core_eq (ap_replicator (snd W)) (ap_replicator (snd (turn_end net W)))" "ap_election (snd (turn_end net W)) = ap_election (snd W)"
    "ap_elect (snd (turn_end net W)) = ap_elect (snd W)" "ap_nextOrder (snd (turn_end net W)) = ap_nextOrder (snd W)"
    using b B by (auto simp: turn_end_def Let_def)
qed

lemma turn_keeps:
  assumes "app_ok (snd W)"
  shows "keeps_link W (turn net clock W) \<and> node_good (snd (turn net clock W))"
proof -
  define W1 where "W1 = turn_begin net clock W"
  have k1: "keeps_link W W1" "app_ok (snd W1)" unfolding W1_def using turn_begin_keeps assms by blast+
  define W2 where "W2 = (if rp_role (ap_replicator (snd W1)) = Primary \<and> ap_nextOrder (snd W1) < length (ap_orders (snd W1))
      then feed net 256 W1 else (fst W1, Running (snd W1)))"
  have "keeps_link W (fst W1, Running (snd W1))" using k1(1) by (simp add: keeps_link_def)
  then have k2: "keeps_link W W2" "node_good (snd W2)"
    using keeps_link_trans [OF k1(1), of "feed net 256 W1"] feed_spec [OF k1(2), of net 256] k1 by (simp_all add: W2_def)
  have run: "turn net clock W = (case snd W2 of Running A \<Rightarrow> (case turn_end net (fst W2, A) of (T, A') \<Rightarrow> (T, Running A')) | _ \<Rightarrow> W2)"
    by (simp only: turn_def Let_def W2_def W1_def)
  show ?thesis
  proof (cases "snd W2")
    case (Running A)
    have "keeps_link W (fst W2, A)" using k2(1) by (simp add: keeps_link_def)
    from keeps_link_trans [OF this turn_end_keeps(1), of net] turn_end_keeps(2) [of net "(fst W2, A)"] k2(2) Running show ?thesis
      by (simp add: run keeps_link_def split_beta)
  qed (use run k2 in simp_all)
qed

text \<open>The parts of a turn that ends normally.\<close>

lemma turn_parts:
  assumes "app_ok (snd W)" and "turn net clock W = (T', Running A')"
  obtains A where "fed 256 (snd (turn_begin net clock W)) A" and "core_eq (ap_replicator A) (ap_replicator A')" and "ap_election A' = ap_election A"
    and "ap_elect A' = ap_elect A"
proof -
  define W1 where "W1 = turn_begin net clock W"
  define W2 where "W2 = (if rp_role (ap_replicator (snd W1)) = Primary \<and> ap_nextOrder (snd W1) < length (ap_orders (snd W1))
      then feed net 256 W1 else (fst W1, Running (snd W1)))"
  have run: "turn net clock W = (case snd W2 of Running A \<Rightarrow> (case turn_end net (fst W2, A) of (T, A') \<Rightarrow> (T, Running A')) | _ \<Rightarrow> W2)"
    by (simp only: turn_def Let_def W2_def W1_def)
  from assms(2) run obtain A where A: "snd W2 = Running A" "turn_end net (fst W2, A) = (T', A')"
    by (cases "snd W2"; cases W2) (auto split: prod.splits)
  have "app_ok (snd W1)" unfolding W1_def using turn_begin_keeps assms(1) by blast
  then have "fed 256 (snd W1) A" using feed_spec [of W1 net 256] A(1) fed_refl by (auto simp: W2_def split: if_splits)
  then show thesis using that [of A] turn_end_keeps(3-5) [where W = "(fst W2, A)" and net = net] A(2) by (simp add: W1_def)
qed

lemma turn_begin_elect: "ap_elect (snd (turn_begin net clock W)) = ap_elect (snd W)"
  "ap_elect (snd W) \<Longrightarrow> rp_term (ap_replicator (snd (turn_begin net clock W))) = el_currentTerm (ap_election (snd (turn_begin net clock W)))"
proof -
  let ?E = "elect_step net clock (\<lambda>now e. tick now (setLastLogSeq (app_lastSeq (snd W)) e)) W"
  define W1 where "W1 = (if ap_elect (snd W) then sync_term ?E else W)"
  have b: "turn_begin net clock W = (let W2 = give_back (snd W1) (rp_tick (link_send net) link_sat (borrow W1))
      in (fst W2, (snd W2)\<lparr>ap_cycles := ap_cycles (snd W2) + 1\<rparr>))" by (simp only: turn_begin_def Let_def W1_def)
  obtain R where R: "snd (give_back (snd W1) (rp_tick (link_send net) link_sat (borrow W1))) = (snd W1)\<lparr>ap_replicator := R\<rparr>"
    "core_eq (ap_replicator (snd W1)) R" using rp_tick_step(1) [of W1 net] by (auto simp: app_frame_def)
  have "ap_elect (snd ?E) = ap_elect (snd W)"
  proof -
    obtain e acts where f: "tick (clock (ap_readings (snd W))) (setLastLogSeq (app_lastSeq (snd W)) (ap_election (snd W))) [] = (e, acts)" by fastforce
    from run_actions_step [of "(fst W, (snd W)\<lparr>ap_election := e, ap_readings := ap_readings (snd W) + 1\<rparr>)" net acts] f
    show ?thesis by (auto simp: elect_step_def Let_def app_step_def)
  qed
  then show "ap_elect (snd (turn_begin net clock W)) = ap_elect (snd W)"
    using R(1) by (auto simp: b Let_def W1_def sync_term_def set_term_def)
  show "rp_term (ap_replicator (snd (turn_begin net clock W))) = el_currentTerm (ap_election (snd (turn_begin net clock W)))" if "ap_elect (snd W)"
    using that R by (simp add: b Let_def W1_def sync_term_def set_term_def setTerm_def core_eq_def)
qed

lemma turn_terms:
  assumes "app_ok (snd W)" and "turn net clock W = (T', Running A')" and "ap_elect A'"
  shows "rp_term (ap_replicator A') = el_currentTerm (ap_election A')"
  by (rule turn_parts [OF assms(1,2)])
    (use assms(3) turn_begin_elect [where W = W and net = net and clock = clock] in \<open>auto simp: fed_def core_eq_def\<close>)

inductive app_reachable :: "Transport \<times> Node \<Rightarrow> bool" where
  start: "start_node net opts port others orders = Some W \<Longrightarrow> app_reachable W"
| cycle: "app_reachable W \<Longrightarrow> node_cycle net clock W = Some W' \<Longrightarrow> app_reachable W'"

lemma new_app_ok: "app_ok (new_app opts others orders T)"
  using rep_inv_new [of kInstrument] by (auto simp: app_ok_def new_app_def Let_def rep_good_def setSyncWindow_def rep_inv_def
      new_replicator_def new_log_def log_base_def)

lemma start_node_keeps: "start_node net opts port others orders = Some (T, N) \<Longrightarrow> tp_ok T \<and> node_good N"
proof -
  have add: "tp_ok (addPeers cfgs T)" if "tp_ok T" for cfgs T
    using that unfolding addPeers_def by (induction cfgs arbitrary: T) (auto intro: addPeer_ok)
  assume "start_node net opts port others orders = Some (T, N)"
  then show ?thesis using add tp_start_ok [OF new_transport_ok] new_app_ok
    by (auto simp: start_node_def Let_def split: prod.splits bool.splits) (metis snd_conv)
qed

lemma node_cycle_keeps:
  assumes "node_cycle net clock W = Some W'" and "tp_ok (fst W)" and "node_good (snd W)"
  shows "tp_ok (fst W') \<and> node_good (snd W')"
proof -
  obtain ok W1 where p: "tp_poll net (node_handler net clock) W = Some (ok, W1)"
    and W': "W' = (case snd W1 of Running A \<Rightarrow> turn net clock (fst W1, A) | _ \<Rightarrow> W1)" using assms(1) by (auto simp: node_cycle_def)
  have "tp_ok (fst W1)" "node_good (snd W1)" using nh.poll_keeps [OF p assms(2)] nhi.poll_inv [OF p assms(3)] by simp_all
  then show ?thesis using W' turn_keeps [of "(fst W1, A)" net clock for A] by (cases "snd W1") (auto simp: keeps_link_def)
qed

lemma app_reachable_keeps: "app_reachable W \<Longrightarrow> tp_ok (fst W) \<and> node_good (snd W)"
proof (induction rule: app_reachable.induct)
  case (start net opts port others orders W)
  then show ?case using start_node_keeps by (cases W) auto
next
  case (cycle W net clock W')
  then show ?case using node_cycle_keeps by blast
qed

lemma silent_cycle:
  assumes "app_reachable W" and "falls_silent net k"
  shows "\<exists>W'. node_cycle net clock W = Some W' \<and> app_reachable W'"
proof -
  obtain r where "tp_poll net (node_handler net clock) W = Some r"
    using nh.poll_returns [OF _ assms(2)] app_reachable_keeps [OF assms(1)] by blast
  then obtain W' where "node_cycle net clock W = Some W'" by (auto simp: node_cycle_def)
  with app_reachable.cycle [OF assms(1)] show ?thesis by blast
qed

lemma reachable_terms: "app_reachable W \<Longrightarrow> \<forall>A. snd W = Running A \<longrightarrow> ap_elect A \<longrightarrow> rp_term (ap_replicator A) = el_currentTerm (ap_election A)"
proof (induction rule: app_reachable.induct)
  case (start net opts port others orders W)
  then show ?case
    by (auto simp: start_node_def Let_def new_app_def new_election_def new_replicator_def setSyncWindow_def split: prod.splits bool.splits)
next
  case (cycle W net clock W')
  then obtain ok W1 where p: "tp_poll net (node_handler net clock) W = Some (ok, W1)"
    and W': "W' = (case snd W1 of Running A \<Rightarrow> turn net clock (fst W1, A) | _ \<Rightarrow> W1)" by (auto simp: node_cycle_def)
  have good: "node_good (snd W1)" using nhi.poll_inv [OF p] app_reachable_keeps [OF cycle(1)] by blast
  show ?case
  proof (cases "snd W1")
    case (Running A)
    obtain T2 N2 where "turn net clock (fst W1, A) = (T2, N2)" by fastforce
    then show ?thesis using turn_terms [of "(fst W1, A)" net clock T2] W' Running good by simp
  qed (use W' in auto)
qed

end
