(* ===== verification/Text_Stream.thy ===== *)
theory Text_Stream
  imports Prelude
begin

text \<open>
  What the text front ends use of the C++ standard library, in the "C" locale: \<open>std::getline\<close>, the
  extraction operators of \<open>std::istringstream\<close> for words and 64-bit integers, \<open>strtoul\<close> and \<open>strtol\<close>, and
  \<open>std::to_string\<close>. A stream is the text it has not consumed; a failed extraction is \<open>None\<close> (the callers
  stop there). Extraction stops at the first character that does not belong to the item and
  leaves the rest for the next one, so \<open>12abc\<close> reads as the number 12 and then the word \<open>abc\<close>; an
  unsigned number may carry a minus sign and is then negated modulo \<open>2 ^ 64\<close>.
\<close>

section \<open>Lines\<close>

definition newline :: char where "newline = CHR 0x0A"

text \<open>The lines that a loop over \<open>std::getline\<close> sees; a final line need not be terminated.\<close>

function text_lines :: "string \<Rightarrow> string list" where
  "text_lines s =
     (if s = [] then [] else takeWhile (\<lambda>c. c \<noteq> newline) s # text_lines (drop 1 (dropWhile (\<lambda>c. c \<noteq> newline) s)))"
  by auto
termination
proof (relation "measure length")
  fix s :: string
  assume "s \<noteq> []"
  moreover have "length (dropWhile (\<lambda>c. c \<noteq> newline) s) \<le> length s" by (rule length_dropWhile_le)
  ultimately show "(drop 1 (dropWhile (\<lambda>c. c \<noteq> newline) s), s) \<in> measure length"
    by (cases s) auto
qed simp

declare text_lines.simps [simp del]

text \<open>The callers cut a line at the first \<open>#\<close>.\<close>

definition strip_comment :: "string \<Rightarrow> string" where
  "strip_comment raw = takeWhile (\<lambda>c. c \<noteq> CHR ''#'') raw"

text \<open>The loop of a line-oriented reader: the body turns its state into the next one or into an error message,
  which is reported with the number of the line, counted from 1.\<close>

fun each_line :: "(string \<Rightarrow> 's \<Rightarrow> 'm + 's) \<Rightarrow> nat \<Rightarrow> string list \<Rightarrow> 's \<Rightarrow> nat \<times> 'm + 's" where
  "each_line body lineNo [] st = Inr st"
| "each_line body lineNo (raw # rest) st =
     (case body raw st of Inl msg \<Rightarrow> Inl (lineNo + 1, msg) | Inr st' \<Rightarrow> each_line body (lineNo + 1) rest st')"

section \<open>Extraction\<close>

definition is_space :: "char \<Rightarrow> bool" where
  "is_space c \<longleftrightarrow> c = CHR '' '' \<or> c = CHR 0x09 \<or> c = CHR 0x0A \<or> c = CHR 0x0B \<or> c = CHR 0x0C \<or> c = CHR 0x0D"

definition skip_ws :: "string \<Rightarrow> string" where
  "skip_ws s = dropWhile is_space s"

definition read_word :: "string \<Rightarrow> (string \<times> string) option" where
  "read_word s =
     (let s = skip_ws s in
      if s = [] then None else Some (takeWhile (\<lambda>c. \<not> is_space c) s, dropWhile (\<lambda>c. \<not> is_space c) s))"

definition digit_val :: "char \<Rightarrow> nat" where
  "digit_val c = of_char c - 48"

definition is_digit :: "char \<Rightarrow> bool" where
  "is_digit c \<longleftrightarrow> 48 \<le> (of_char c :: nat) \<and> (of_char c :: nat) \<le> 57"

definition digits_value :: "string \<Rightarrow> nat" where
  "digits_value ds = fold (\<lambda>c n. 10 * n + digit_val c) ds 0"

definition split_sign :: "string \<Rightarrow> bool \<times> string" where
  "split_sign s =
     (case s of [] \<Rightarrow> (False, [])
      | c # r \<Rightarrow> if c = CHR ''-'' then (True, r) else if c = CHR ''+'' then (False, r) else (False, s))"

definition read_u64 :: "string \<Rightarrow> (u64 \<times> string) option" where
  "read_u64 s =
     (let (neg, r) = split_sign (skip_ws s); ds = takeWhile is_digit r; n = digits_value ds in
      if ds = [] \<or> 2 ^ 64 \<le> n then None
      else Some (if neg then - of_nat n else of_nat n, dropWhile is_digit r))"

definition read_i64 :: "string \<Rightarrow> (i64 \<times> string) option" where
  "read_i64 s =
     (let (neg, r) = split_sign (skip_ws s); ds = takeWhile is_digit r; n = digits_value ds in
      if ds = [] \<or> (if neg then 2 ^ 63 else 2 ^ 63 - 1) < n then None
      else Some (if neg then - of_nat n else of_nat n, dropWhile is_digit r))"

text \<open>The conversions used on command-line arguments do not fail: without digits they give 0, out of range
  the nearest limit.\<close>

definition strtoul :: "string \<Rightarrow> u64" where
  "strtoul s =
     (let (neg, r) = split_sign (skip_ws s); n = digits_value (takeWhile is_digit r) in
      if 2 ^ 64 \<le> n then - 1 else if neg then - of_nat n else of_nat n)"

definition strtol :: "string \<Rightarrow> int" where
  "strtol s =
     (let (neg, r) = split_sign (skip_ws s); n = int (digits_value (takeWhile is_digit r)) in
      if neg then max (- n) (- (2 ^ 63)) else min n (2 ^ 63 - 1))"

section \<open>Printing\<close>

definition digit_char :: "nat \<Rightarrow> char" where
  "digit_char d = char_of (48 + d)"

fun nat_string :: "nat \<Rightarrow> string" where
  "nat_string n = (if n < 10 then [digit_char n] else nat_string (n div 10) @ [digit_char (n mod 10)])"

declare nat_string.simps [simp del]

definition u64_string :: "u64 \<Rightarrow> string" where
  "u64_string w = nat_string (unat w)"

definition i64_string :: "i64 \<Rightarrow> string" where
  "i64_string w = (if sint w < 0 then CHR ''-'' # nat_string (nat (- sint w)) else nat_string (nat (sint w)))"

section \<open>Printing and reading back\<close>

lemma digit_char_digit:
  assumes "d < 10"
  shows "is_digit (digit_char d)" and "digit_val (digit_char d) = d"
  using assms by (simp_all add: is_digit_def digit_val_def digit_char_def of_char_of)

lemma digits_value_snoc: "digits_value (ds @ [c]) = 10 * digits_value ds + digit_val c"
  by (simp add: digits_value_def)

lemma nat_string_value: "digits_value (nat_string n) = n"
proof (induction n rule: nat_string.induct)
  case (1 n)
  show ?case
  proof (cases "n < 10")
    case True
    then show ?thesis using digit_char_digit(2) [of n] by (subst nat_string.simps) (simp add: digits_value_def)
  next
    case False
    then show ?thesis using 1 digit_char_digit(2) [of "n mod 10"] by (subst nat_string.simps) (simp add: digits_value_snoc)
  qed
qed

lemma nat_string_digits: "nat_string n \<noteq> []" "\<forall>c\<in>set (nat_string n). is_digit c"
proof -
  show "nat_string n \<noteq> []" by (subst nat_string.simps) simp
  show "\<forall>c\<in>set (nat_string n). is_digit c"
  proof (induction n rule: nat_string.induct)
    case (1 n)
    then show ?case using digit_char_digit(1) [of n] digit_char_digit(1) [of "n mod 10"] by (subst nat_string.simps) auto
  qed
qed

lemma digit_not_special:
  assumes "is_digit c"
  shows "\<not> is_space c" "c \<noteq> CHR ''-''" "c \<noteq> CHR ''+''" "c \<noteq> CHR ''#''" "c \<noteq> newline"
  using assms by (auto simp: is_digit_def is_space_def newline_def)

lemma takeWhile_break: "\<forall>c\<in>set xs. P c \<Longrightarrow> rest = [] \<or> \<not> P (hd rest) \<Longrightarrow> takeWhile P (xs @ rest) = xs \<and> dropWhile P (xs @ rest) = rest"
  by (induction xs) (cases rest; simp)+

lemma nat_string_scan:
  assumes "rest = [] \<or> \<not> is_digit (hd rest)"
  shows "takeWhile is_digit (nat_string n @ rest) = nat_string n" "dropWhile is_digit (nat_string n @ rest) = rest"
  using takeWhile_break [OF nat_string_digits(2) assms] by simp_all

lemma skip_ws_space [simp]: "skip_ws (CHR '' '' # s) = skip_ws s"
  by (simp add: skip_ws_def is_space_def)

lemma skip_ws_word: "s \<noteq> [] \<Longrightarrow> \<not> is_space (hd s) \<Longrightarrow> skip_ws (s @ r) = s @ r"
  by (cases s) (simp_all add: skip_ws_def)

lemma nat_string_unsigned: "split_sign (skip_ws (nat_string n @ rest)) = (False, nat_string n @ rest)"
proof -
  obtain c ds where c: "nat_string n = c # ds" "is_digit c" using nat_string_digits [of n] by (cases "nat_string n") auto
  then show ?thesis using digit_not_special [OF c(2)] by (simp add: skip_ws_def split_sign_def)
qed

lemma nat_string_negative: "split_sign (skip_ws (CHR ''-'' # nat_string n @ rest)) = (True, nat_string n @ rest)"
  by (simp add: skip_ws_def is_space_def split_sign_def)

lemma read_u64_string:
  assumes "rest = [] \<or> \<not> is_digit (hd rest)"
  shows "read_u64 (u64_string w @ rest) = Some (w, rest)"
proof -
  have "\<not> 2 ^ 64 \<le> unat w" using unsigned_less [of w, where 'a = nat] by simp
  then show ?thesis using nat_string_scan [OF assms, of "unat w"] nat_string_digits(1)
    by (simp add: read_u64_def u64_string_def nat_string_unsigned Let_def nat_string_value)
qed

lemma read_i64_string:
  assumes "rest = [] \<or> \<not> is_digit (hd rest)"
  shows "read_i64 (i64_string w @ rest) = Some (w, rest)"
proof (cases "sint w < 0")
  case True
  have "- sint w \<le> 2 ^ 63" using sint_ge [of w] by simp
  then have "\<not> 2 ^ 63 < nat (- sint w)" by (simp add: nat_le_iff)
  moreover have "- (word_of_nat (nat (- sint w))) = w" using True by (simp add: of_nat_nat)
  ultimately show ?thesis using True nat_string_scan [OF assms] nat_string_digits(1)
    by (simp add: read_i64_def i64_string_def nat_string_negative Let_def nat_string_value)
next
  case False
  have "sint w < 2 ^ 63" using sint_lt [of w] by simp
  then have "\<not> 2 ^ 63 - 1 < nat (sint w)" using False by (simp add: nat_le_iff)
  moreover have "word_of_nat (nat (sint w)) = w" using False by (simp add: of_nat_nat)
  ultimately show ?thesis using False nat_string_scan [OF assms] nat_string_digits(1)
    by (simp add: read_i64_def i64_string_def nat_string_unsigned Let_def nat_string_value)
qed

lemma strtoul_string: "strtoul (u64_string w) = w"
proof -
  have u: "\<not> 2 ^ 64 \<le> unat w" using unsigned_less [of w, where 'a = nat] by simp
  have tw: "takeWhile is_digit (nat_string (unat w)) = nat_string (unat w)" using nat_string_digits(2) by (simp add: takeWhile_eq_all_conv)
  show ?thesis using nat_string_unsigned [of "unat w" "[]"] u
    by (simp add: tw strtoul_def u64_string_def Let_def nat_string_value)
qed

text \<open>A word is a nonempty text without white space.\<close>

definition is_word :: "string \<Rightarrow> bool" where
  "is_word s \<longleftrightarrow> s \<noteq> [] \<and> (\<forall>c\<in>set s. \<not> is_space c)"

lemma read_word_spaces [simp]: "read_word (CHR '' '' # s) = read_word s"
  by (simp add: read_word_def)

lemma read_u64_spaces [simp]: "read_u64 (CHR '' '' # s) = read_u64 s"
  by (simp add: read_u64_def)

lemma read_i64_spaces [simp]: "read_i64 (CHR '' '' # s) = read_i64 s"
  by (simp add: read_i64_def)

lemma read_word_word:
  assumes "is_word s" and "rest = [] \<or> is_space (hd rest)"
  shows "read_word (s @ rest) = Some (s, rest)"
proof -
  have "skip_ws (s @ rest) = s @ rest" using assms(1) by (intro skip_ws_word) (auto simp: is_word_def)
  then show ?thesis using takeWhile_break [of s "\<lambda>c. \<not> is_space c" rest] assms by (simp add: read_word_def is_word_def Let_def)
qed

lemma read_word_is_word: "read_word s = Some (w, rest) \<Longrightarrow> is_word w"
  using hd_dropWhile [of is_space s]
  by (auto simp: read_word_def skip_ws_def is_word_def Let_def takeWhile_eq_Nil_iff dest: set_takeWhileD split: if_splits)

lemma text_lines_line:
  assumes "newline \<notin> set l"
  shows "text_lines (l @ newline # s) = l # text_lines s"
proof -
  have w: "\<forall>c\<in>set l. c \<noteq> newline" using assms by auto
  have "takeWhile (\<lambda>c. c \<noteq> newline) (l @ newline # s) = l \<and> dropWhile (\<lambda>c. c \<noteq> newline) (l @ newline # s) = newline # s"
    by (rule takeWhile_break [OF w]) simp
  then show ?thesis by (subst text_lines.simps) simp
qed

lemma text_lines_concat:
  assumes "\<And>x. x \<in> set xs \<Longrightarrow> newline \<notin> set (f x)"
  shows "text_lines (concat (map (\<lambda>x. f x @ [newline]) xs)) = map f xs"
  using assms by (induction xs) (simp_all add: text_lines_line, simp add: text_lines.simps)

lemma strip_comment_plain: "CHR ''#'' \<notin> set s \<Longrightarrow> strip_comment s = s"
  by (auto simp: strip_comment_def takeWhile_eq_all_conv)

section \<open>The line loop\<close>

text \<open>An error is that of the first line the body refuses.\<close>

lemma each_line_error:
  "each_line body k ls st = Inl (n, msg) \<longleftrightarrow>
     (\<exists>i st'. n = k + i + 1 \<and> i < length ls \<and> each_line body k (take i ls) st = Inr st' \<and> body (ls ! i) st' = Inl msg)"
proof (induction ls arbitrary: k st)
  case (Cons raw rest)
  show ?case
  proof (cases "body raw st")
    case (Inl m)
    have "(\<exists>i st'. n = k + i + 1 \<and> i < length (raw # rest) \<and> each_line body k (take i (raw # rest)) st = Inr st' \<and>
      body ((raw # rest) ! i) st' = Inl msg) \<longleftrightarrow> n = k + 1 \<and> m = msg"
      using Inl by (auto simp: take_Cons' split: if_splits)
    then show ?thesis using Inl by auto
  next
    case (Inr s)
    have "each_line body k (raw # rest) st = Inl (n, msg) \<longleftrightarrow>
      (\<exists>i st'. n = k + 1 + i + 1 \<and> i < length rest \<and> each_line body (k + 1) (take i rest) s = Inr st' \<and> body (rest ! i) st' = Inl msg)"
      using Cons.IH [of "k + 1" s] Inr by simp
    also have "\<dots> \<longleftrightarrow> (\<exists>i st'. n = k + Suc i + 1 \<and> Suc i < length (raw # rest) \<and> each_line body k (take (Suc i) (raw # rest)) st = Inr st' \<and>
      body ((raw # rest) ! Suc i) st' = Inl msg)" using Inr by simp
    also have "\<dots> \<longleftrightarrow> (\<exists>i st'. n = k + i + 1 \<and> i < length (raw # rest) \<and> each_line body k (take i (raw # rest)) st = Inr st' \<and>
      body ((raw # rest) ! i) st' = Inl msg)" (is "(\<exists>i. ?P (Suc i)) \<longleftrightarrow> (\<exists>i. ?P i)")
    proof -
      have "\<not> ?P 0" using Inr by auto
      then show ?thesis by (metis not0_implies_Suc)
    qed
    finally show ?thesis .
  qed
qed simp

lemma each_line_invariant:
  assumes "each_line body k ls st = Inr st'" and "P st" and "\<And>raw s s'. P s \<Longrightarrow> body raw s = Inr s' \<Longrightarrow> P s'"
  shows "P st'"
  using assms by (induction ls arbitrary: k st) (auto split: sum.splits)

lemma each_line_append:
  "each_line body k ls st = Inr st' \<Longrightarrow> each_line body k (ls @ ls') st = each_line body (k + length ls) ls' st'"
  by (induction ls arbitrary: k st) (auto split: sum.splits)

lemma each_line_agree:
  assumes "\<And>raw s. map_sum (\<lambda>_. ()) id (f raw s) = map_sum (\<lambda>_. ()) id (g raw s)"
  shows "map_sum fst id (each_line f k ls st) = map_sum fst id (each_line g k ls st)"
proof (induction ls arbitrary: k st)
  case (Cons raw rest)
  then show ?case using assms [of raw st] by (cases "f raw st"; cases "g raw st") simp_all
qed simp

text \<open>Lines that each add one item.\<close>

lemma each_line_items:
  assumes "\<And>x s. x \<in> set xs \<Longrightarrow> body (f x) s = Inr (s @ [x])"
  shows "each_line body k (map f xs) s = Inr (s @ xs)"
  using assms by (induction xs arbitrary: k s) simp_all

end
