(* ===== verification/Cluster_Config.thy ===== *)
theory Cluster_Config
  imports Transport Text_Stream
begin

text \<open>
  The cluster membership file (\<open>net/cluster_config.hpp\<close>, \<open>net/cluster_config.cpp\<close>): the parser, over the text
  streams of \<open>Text_Stream\<close>, and the two look-ups. A file is its contents, or \<open>None\<close> if it cannot be opened.
\<close>

section \<open>Configuration\<close>

record ClusterConfig =
  cc_peers :: "PeerConfig list"

record ConfigError =
  ce_line :: nat
  ce_message :: string

fun find_peer :: "NodeId \<Rightarrow> PeerConfig list \<Rightarrow> PeerConfig option" where
  "find_peer i [] = None"
| "find_peer i (p # ps) = (if pc_id p = i then Some p else find_peer i ps)"

definition cc_find :: "NodeId \<Rightarrow> ClusterConfig \<Rightarrow> PeerConfig option" where
  "cc_find i c = find_peer i (cc_peers c)"

definition cc_others :: "NodeId \<Rightarrow> ClusterConfig \<Rightarrow> PeerConfig list" where
  "cc_others self c = filter (\<lambda>p. pc_id p \<noteq> self) (cc_peers c)"

section \<open>Parser\<close>

text \<open>The body of the loop; the state is \<open>seenIds\<close> and the peers so far.\<close>

definition config_line :: "string \<Rightarrow> NodeId set \<times> PeerConfig list \<Rightarrow> string + NodeId set \<times> PeerConfig list" where
  "config_line raw st =
     (case read_word (strip_comment raw) of
        None \<Rightarrow> Inr st
      | Some (keyword, line) \<Rightarrow>
          if keyword \<noteq> ''node'' then Inl (''unknown directive: '' @ keyword)
          else
            (case do { (i, line) \<leftarrow> read_u64 line; (host, line) \<leftarrow> read_word line; (port, line) \<leftarrow> read_u64 line; Some (i, host, port) } of
               None \<Rightarrow> Inl ''expected: node <id> <host> <port>''
             | Some (i, host, port) \<Rightarrow>
                 if port = 0 \<or> port > 65535 then Inl (''port out of range: '' @ u64_string port)
                 else
                   let peer = \<lparr>pc_id = ucast i, pc_host = host, pc_port = ucast port\<rparr> in
                   if pc_id peer \<in> fst st then Inl (''duplicate node id: '' @ nat_string (unat (pc_id peer)))
                   else Inr (insert (pc_id peer) (fst st), snd st @ [peer])))"

definition parseClusterConfig :: "string \<Rightarrow> ConfigError + ClusterConfig" where
  "parseClusterConfig text =
     (case each_line config_line 0 (text_lines text) ({}, []) of
        Inl (lineNo, msg) \<Rightarrow> Inl \<lparr>ce_line = lineNo, ce_message = msg\<rparr>
      | Inr (seen, peers) \<Rightarrow>
          if peers = [] then Inl \<lparr>ce_line = 0, ce_message = ''cluster config lists no nodes''\<rparr>
          else Inr \<lparr>cc_peers = peers\<rparr>)"

definition loadClusterConfig :: "(string \<Rightarrow> string option) \<Rightarrow> string \<Rightarrow> ConfigError + ClusterConfig" where
  "loadClusterConfig file path =
     (case file path of
        None \<Rightarrow> Inl \<lparr>ce_line = 0, ce_message = ''cannot open '' @ path\<rparr>
      | Some text \<Rightarrow> parseClusterConfig text)"

section \<open>What an accepted configuration is\<close>

definition config_wf :: "ClusterConfig \<Rightarrow> bool" where
  "config_wf c \<longleftrightarrow> cc_peers c \<noteq> [] \<and> distinct (map pc_id (cc_peers c)) \<and> (\<forall>p\<in>set (cc_peers c). pc_port p \<noteq> 0 \<and> is_word (pc_host p))"

definition config_state :: "NodeId set \<times> PeerConfig list \<Rightarrow> bool" where
  "config_state st \<longleftrightarrow> fst st = pc_id ` set (snd st) \<and> distinct (map pc_id (snd st)) \<and> (\<forall>p\<in>set (snd st). pc_port p \<noteq> 0 \<and> is_word (pc_host p))"

lemma port_ucast:
  assumes "(port :: u64) \<noteq> 0" and "\<not> port > 65535"
  shows "(ucast port :: u16) \<noteq> 0"
proof
  assume "(ucast port :: u16) = 0"
  then have "unat (ucast port :: u16) = 0" by simp
  then have "unat port mod 2 ^ 16 = 0" by (simp add: unsigned_ucast_eq take_bit_eq_mod)
  moreover have "unat port \<le> 65535" using assms(2) by (simp add: not_less word_le_nat_alt)
  ultimately show False using assms(1) by (simp add: unat_eq_zero)
qed

lemma config_line_state:
  assumes "config_state st" and "config_line raw st = Inr st'"
  shows "config_state st'"
  using assms port_ucast read_word_is_word
  by (auto simp: config_line_def config_state_def Let_def split: option.splits if_splits prod.splits bind_splits)

end
