(* ===== verification/Order_File.thy ===== *)
theory Order_File
  imports Core_Types Text_Stream
begin

text \<open>
  Order files: the parser of the replay driver (\<open>apps/replay/main.cpp\<close>) and the node's own copy of it
  (\<open>apps/node/main.cpp\<close>), which words its errors differently, and the printable names of \<open>types.cpp\<close>.
\<close>

section \<open>Names\<close>

fun side_text :: "Side \<Rightarrow> string" where
  "side_text Buy = ''BUY''"
| "side_text Sell = ''SELL''"

fun type_text :: "OrderType \<Rightarrow> string" where
  "type_text Limit = ''LIMIT''"
| "type_text Market = ''MARKET''"

fun tif_text :: "TimeInForce \<Rightarrow> string" where
  "tif_text GoodTillCancel = ''GTC''"
| "tif_text ImmediateOrCancel = ''IOC''"

fun reason_text :: "RejectReason \<Rightarrow> string" where
  "reason_text NoReason = ''NONE''"
| "reason_text DuplicateOrderId = ''DUPLICATE_ORDER_ID''"
| "reason_text UnknownOrderId = ''UNKNOWN_ORDER_ID''"
| "reason_text ZeroQuantity = ''ZERO_QUANTITY''"
| "reason_text NonPositivePrice = ''NON_POSITIVE_PRICE''"
| "reason_text WrongInstrument = ''WRONG_INSTRUMENT''"
| "reason_text MarketOrderMustBeIoc = ''MARKET_ORDER_MUST_BE_IOC''"

section \<open>Parsers\<close>

definition parseSide :: "string \<Rightarrow> Side option" where
  "parseSide s =
     (if s = ''BUY'' \<or> s = ''B'' then Some Buy
      else if s = ''SELL'' \<or> s = ''S'' then Some Sell else None)"

definition parseType :: "string \<Rightarrow> OrderType option" where
  "parseType s =
     (if s = ''LIMIT'' \<or> s = ''L'' then Some Limit
      else if s = ''MARKET'' \<or> s = ''M'' then Some Market else None)"

definition parseTif :: "string \<Rightarrow> TimeInForce option" where
  "parseTif s =
     (if s = ''GTC'' then Some GoodTillCancel
      else if s = ''IOC'' then Some ImmediateOrCancel else None)"

text \<open>The chain of extractions of an order line, the same in both programs.\<close>

definition read_order :: "string \<Rightarrow> (u64 \<times> string \<times> string \<times> string \<times> i64 \<times> u64) option" where
  "read_order line =
     do { (i, line) \<leftarrow> read_u64 line;
          (sideText, line) \<leftarrow> read_word line;
          (typeText, line) \<leftarrow> read_word line;
          (tifText, line) \<leftarrow> read_word line;
          (price, line) \<leftarrow> read_i64 line;
          (quantity, line) \<leftarrow> read_u64 line;
          Some (i, sideText, typeText, tifText, price, quantity) }"

text \<open>The loop body of \<open>parse\<close> in the replay driver; the state is \<open>out\<close>.\<close>

definition replay_line :: "InstrumentId \<Rightarrow> string \<Rightarrow> Command list \<Rightarrow> string + Command list" where
  "replay_line instrument raw out =
     (case read_word (strip_comment raw) of
        None \<Rightarrow> Inr out
      | Some (kind, line) \<Rightarrow>
          if kind = ''N'' \<or> kind = ''NEW'' then
            (case read_order line of
               None \<Rightarrow> Inl ''expected: N <id> <side> <type> <tif> <price> <qty>''
             | Some (i, sideText, typeText, tifText, price, quantity) \<Rightarrow>
                 (case parseSide sideText of None \<Rightarrow> Inl (''bad side: '' @ sideText)
                  | Some side \<Rightarrow>
                      (case parseType typeText of None \<Rightarrow> Inl (''bad type: '' @ typeText)
                       | Some ty \<Rightarrow>
                           (case parseTif tifText of None \<Rightarrow> Inl (''bad time in force: '' @ tifText)
                            | Some tif \<Rightarrow>
                                Inr (out @ [New \<lparr>no_id = i, no_instrument = instrument, no_side = side, no_type = ty,
                                       no_tif = tif, no_price = price, no_quantity = quantity\<rparr>])))))
          else if kind = ''C'' \<or> kind = ''CANCEL'' then
            (case read_u64 line of
               None \<Rightarrow> Inl ''expected: C <id>''
             | Some (i, line) \<Rightarrow> Inr (out @ [Cancel \<lparr>co_id = i\<rparr>]))
          else Inl (''unknown command: '' @ kind))"

definition replay_parse :: "InstrumentId \<Rightarrow> string \<Rightarrow> nat \<times> string + Command list" where
  "replay_parse instrument text = each_line (replay_line instrument) 0 (text_lines text) []"

text \<open>The loop body of the node's \<open>loadOrders\<close>.\<close>

definition node_line :: "InstrumentId \<Rightarrow> string \<Rightarrow> Command list \<Rightarrow> string + Command list" where
  "node_line instrument raw out =
     (case read_word (strip_comment raw) of
        None \<Rightarrow> Inr out
      | Some (kind, line) \<Rightarrow>
          if kind = ''N'' \<or> kind = ''NEW'' then
            (case do { (i, sideText, typeText, tifText, price, quantity) \<leftarrow> read_order line;
                       side \<leftarrow> parseSide sideText; ty \<leftarrow> parseType typeText; tif \<leftarrow> parseTif tifText;
                       Some \<lparr>no_id = i, no_instrument = instrument, no_side = side, no_type = ty,
                             no_tif = tif, no_price = price, no_quantity = quantity\<rparr> } of
               None \<Rightarrow> Inl ''malformed order''
             | Some order \<Rightarrow> Inr (out @ [New order]))
          else if kind = ''C'' \<or> kind = ''CANCEL'' then
            (case read_u64 line of
               None \<Rightarrow> Inl ''malformed cancel''
             | Some (i, line) \<Rightarrow> Inr (out @ [Cancel \<lparr>co_id = i\<rparr>]))
          else Inl (''unknown command '' @ kind))"

text \<open>A file is its contents, or \<open>None\<close> if it cannot be opened.\<close>

definition loadOrders :: "(string \<Rightarrow> string option) \<Rightarrow> string \<Rightarrow> InstrumentId \<Rightarrow> string + Command list" where
  "loadOrders file path instrument =
     (case file path of
        None \<Rightarrow> Inl (''cannot open '' @ path)
      | Some text \<Rightarrow>
          (case each_line (node_line instrument) 0 (text_lines text) [] of
             Inl (lineNo, msg) \<Rightarrow> Inl (path @ '':'' @ nat_string lineNo @ '': '' @ msg)
           | Inr out \<Rightarrow> Inr out))"

section \<open>Printing orders\<close>

text \<open>A line of the documented format.\<close>

fun command_text :: "Command \<Rightarrow> string" where
  "command_text (New r) = ''N '' @ u64_string (no_id r) @ '' '' @ side_text (no_side r) @ '' '' @ type_text (no_type r) @ '' '' @
     tif_text (no_tif r) @ '' '' @ i64_string (no_price r) @ '' '' @ u64_string (no_quantity r)"
| "command_text (Cancel c) = ''C '' @ u64_string (co_id c)"

definition order_file :: "Command list \<Rightarrow> string" where
  "order_file cs = concat (map (\<lambda>c. command_text c @ [newline]) cs)"

fun for_instrument :: "InstrumentId \<Rightarrow> Command \<Rightarrow> bool" where
  "for_instrument i (New r) = (no_instrument r = i)"
| "for_instrument i (Cancel c) = True"

lemma names_are_words [simp]: "is_word (side_text s)" "is_word (type_text t)" "is_word (tif_text f)" "is_word (reason_text r)"
proof -
  show "is_word (side_text s)" by (cases s) (simp_all add: is_word_def is_space_def)
  show "is_word (type_text t)" by (cases t) (simp_all add: is_word_def is_space_def)
  show "is_word (tif_text f)" by (cases f) (simp_all add: is_word_def is_space_def)
  show "is_word (reason_text r)" by (cases r) (simp_all add: is_word_def is_space_def)
qed

lemma parse_names [simp]: "parseSide (side_text s) = Some s" "parseType (type_text t) = Some t" "parseTif (tif_text f) = Some f"
proof -
  show "parseSide (side_text s) = Some s" by (cases s) (simp_all add: parseSide_def)
  show "parseType (type_text t) = Some t" by (cases t) (simp_all add: parseType_def)
  show "parseTif (tif_text f) = Some f" by (cases f) (simp_all add: parseTif_def)
qed

text \<open>No printed word contains a character that ends a line or starts a comment.\<close>

definition plain :: "string \<Rightarrow> bool" where
  "plain s \<longleftrightarrow> newline \<notin> set s \<and> CHR ''#'' \<notin> set s"

lemma plain_append [simp]: "plain (s @ t) \<longleftrightarrow> plain s \<and> plain t"
  by (auto simp: plain_def)

lemma plain_nat_string [simp]: "plain (nat_string n)"
  using nat_string_digits(2) [of n] digit_not_special(4,5) by (auto simp: plain_def)

lemma plain_texts [simp]: "plain (u64_string w)" "plain (i64_string v)" "plain (side_text s)" "plain (type_text t)" "plain (tif_text f)"
proof -
  show "plain (u64_string w)" by (simp add: u64_string_def)
  show "plain (i64_string v)" using plain_nat_string [unfolded plain_def] by (simp add: i64_string_def plain_def) (simp add: newline_def)
  show "plain (side_text s)" by (cases s) (simp_all add: plain_def newline_def)
  show "plain (type_text t)" by (cases t) (simp_all add: plain_def newline_def)
  show "plain (tif_text f)" by (cases f) (simp_all add: plain_def newline_def)
qed

lemma command_text_plain: "plain (command_text c)"
proof -
  have "plain ''N ''" "plain ''C ''" "plain '' ''" by (simp_all add: plain_def newline_def)
  then show ?thesis by (cases c) (simp_all del: append_Cons append_Nil)
qed

lemma space_break: "CHR '' '' # s = [] \<or> is_space (hd (CHR '' '' # s))" "CHR '' '' # s = [] \<or> \<not> is_digit (hd (CHR '' '' # s))"
  by (simp_all add: is_space_def is_digit_def)

lemma read_order_text:
  "read_order (CHR '' '' # u64_string i @ CHR '' '' # side_text s @ CHR '' '' # type_text t @ CHR '' '' # tif_text f @
     CHR '' '' # i64_string p @ CHR '' '' # u64_string q) = Some (i, side_text s, type_text t, tif_text f, p, q)"
  using read_u64_string [of "[]" q]
  by (simp add: read_order_def read_u64_string [OF space_break(2)] read_i64_string [OF space_break(2)] read_word_word [OF names_are_words(1) space_break(1)]
      read_word_word [OF names_are_words(2) space_break(1)] read_word_word [OF names_are_words(3) space_break(1)])

lemma replay_line_text:
  assumes "for_instrument i c"
  shows "replay_line i (command_text c) out = Inr (out @ [c])"
proof -
  have strip: "strip_comment (command_text c) = command_text c" using command_text_plain [of c] by (simp add: plain_def strip_comment_plain)
  have kind: "read_word (x # CHR '' '' # s) = Some ([x], CHR '' '' # s)" if "\<not> is_space x" for x s
    using read_word_word [of "[x]" "CHR '' '' # s"] that by (simp add: is_word_def is_space_def)
  have k: "\<not> is_space (CHR ''N'')" "\<not> is_space (CHR ''C'')" by (simp_all add: is_space_def)
  show ?thesis
  proof (cases c)
    case (New r)
    then have "strip_comment (command_text c) = CHR ''N'' # CHR '' '' # u64_string (no_id r) @ CHR '' '' # side_text (no_side r) @ CHR '' '' # type_text (no_type r) @
      CHR '' '' # tif_text (no_tif r) @ CHR '' '' # i64_string (no_price r) @ CHR '' '' # u64_string (no_quantity r)" using strip by simp
    then show ?thesis using New assms by (simp add: replay_line_def kind k read_order_text del: read_word_spaces)
  next
    case (Cancel d)
    then have "strip_comment (command_text c) = CHR ''C'' # CHR '' '' # u64_string (co_id d)" using strip by simp
    then show ?thesis using Cancel read_u64_string [of "[]" "co_id d"] by (simp add: replay_line_def kind k)
  qed
qed

text \<open>The two parsers accept the same lines and read them alike.\<close>

lemma lines_agree: "map_sum (\<lambda>_. ()) id (node_line i raw out) = map_sum (\<lambda>_. ()) id (replay_line i raw out)"
  by (auto simp: node_line_def replay_line_def split: option.split prod.split bind_splits)

end
