(* ===== verification/Node_Main.thy ===== *)
theory Node_Main
  imports Node_Run Cluster_Config Order_File
begin

text \<open>
  \<open>main\<close> of the node program (\<open>apps/node/main.cpp\<close>): argument parsing, loading the configuration and the orders, the
  start, and the loop around the turns of \<open>Node\<close>. \<open>stop n\<close> says whether a signal has set \<open>g_stop\<close> when
  the loop condition is tested after \<open>n\<close> turns. The loop may run forever, so it is a partial function. What is printed
  on the way is left out; the final report is \<open>node_report\<close>.
\<close>

section \<open>Arguments\<close>

record NodeArgs = Options +
  na_configPath :: string
  na_ordersPath :: string
  na_maxCycles :: int
  na_quiet :: bool

definition default_args :: NodeArgs where
  "default_args = \<lparr>op_self = 0, op_role = Backup, op_mode = Synchronous, op_syncWindow = 8, op_heartbeatCycles = 20,
     op_elect = False, op_exitOnComplete = False, na_configPath = [], na_ordersPath = [], na_maxCycles = -1, na_quiet = False\<rparr>"

text \<open>\<open>None\<close>: the usage text was printed and the exit code is 2.\<close>

fun node_args :: "string list \<Rightarrow> NodeArgs \<Rightarrow> NodeArgs option" where
  "node_args [] a = Some a"
| "node_args (arg # argv) a =
     (if arg = ''--id'' \<and> argv \<noteq> [] then node_args (tl argv) (a\<lparr>op_self := ucast (strtoul (hd argv))\<rparr>)
      else if arg = ''--config'' \<and> argv \<noteq> [] then node_args (tl argv) (a\<lparr>na_configPath := hd argv\<rparr>)
      else if arg = ''--orders'' \<and> argv \<noteq> [] then node_args (tl argv) (a\<lparr>na_ordersPath := hd argv\<rparr>)
      else if arg = ''--role'' \<and> argv \<noteq> [] then
        (if hd argv = ''primary'' then node_args (tl argv) (a\<lparr>op_role := Primary\<rparr>)
         else if hd argv = ''backup'' then node_args (tl argv) (a\<lparr>op_role := Backup\<rparr>)
         else None)
      else if arg = ''--mode'' \<and> argv \<noteq> [] then
        (if hd argv = ''sync'' then node_args (tl argv) (a\<lparr>op_mode := Synchronous\<rparr>)
         else if hd argv = ''async'' then node_args (tl argv) (a\<lparr>op_mode := Asynchronous\<rparr>)
         else None)
      else if arg = ''--sync-window'' \<and> argv \<noteq> [] then node_args (tl argv) (a\<lparr>op_syncWindow := strtoul (hd argv)\<rparr>)
      else if arg = ''--heartbeat-cycles'' \<and> argv \<noteq> [] then
        node_args (tl argv) (a\<lparr>op_heartbeatCycles := signed_take_bit 31 (strtol (hd argv))\<rparr>)
      else if arg = ''--max-cycles'' \<and> argv \<noteq> [] then node_args (tl argv) (a\<lparr>na_maxCycles := strtol (hd argv)\<rparr>)
      else if arg = ''--elect'' then node_args argv (a\<lparr>op_elect := True\<rparr>)
      else if arg = ''--exit-on-complete'' then node_args argv (a\<lparr>op_exitOnComplete := True\<rparr>)
      else if arg = ''--quiet'' then node_args argv (a\<lparr>na_quiet := True\<rparr>)
      else None)"

definition node_usage :: "string \<Rightarrow> string" where
  "node_usage argv0 = ''usage: '' @ argv0 @ '' --id <node-id> --config <cluster.conf>'' @ [newline] @
     ''  [--elect]                 elect a leader instead of designating one'' @ [newline] @
     ''  [--role primary|backup]   ignored under --elect; default backup'' @ [newline] @
     ''  [--mode sync|async]       default sync'' @ [newline] @
     ''  [--orders <file>]         primary: replicate this order file'' @ [newline] @
     ''  [--sync-window N]         default 8'' @ [newline] @
     ''  [--heartbeat-cycles N]    default 20, 0 disables'' @ [newline] @
     ''  [--max-cycles N]          safety net: exit after N poll cycles'' @ [newline] @
     ''  [--exit-on-complete]      exit when the work is actually done'' @ [newline] @
     ''  [--quiet]'' @ [newline]"

section \<open>Main\<close>

definition loop_goes :: "(int \<Rightarrow> bool) \<Rightarrow> int \<Rightarrow> App \<Rightarrow> bool" where
  "loop_goes stop maxCycles A \<longleftrightarrow> \<not> stop (ap_cycles A) \<and> \<not> ap_complete A \<and> (maxCycles < 0 \<or> ap_cycles A < maxCycles)"

partial_function (option) node_loop :: "Net \<Rightarrow> (nat \<Rightarrow> Millis) \<Rightarrow> (int \<Rightarrow> bool) \<Rightarrow> int \<Rightarrow> Transport \<times> Node \<Rightarrow> (Transport \<times> Node) option" where
  "node_loop net clock stop maxCycles W =
     (case snd W of
        Running A \<Rightarrow>
          if loop_goes stop maxCycles A then Option.bind (node_cycle net clock W) (node_loop net clock stop maxCycles)
          else Some W
      | _ \<Rightarrow> Some W)"

text \<open>How the program ends: with an exit code and an error text before it starts, with a failure to listen
  (its text comes from the sockets), or after the loop.\<close>

datatype Outcome = Exit int string | StartFailed | Ended "Transport \<times> Node"

definition node_main :: "(string \<Rightarrow> string option) \<Rightarrow> Net \<Rightarrow> (nat \<Rightarrow> Millis) \<Rightarrow> (int \<Rightarrow> bool) \<Rightarrow> string \<Rightarrow> string list \<Rightarrow> Outcome option" where
  "node_main file net clock stop argv0 args =
     (case node_args args default_args of
        None \<Rightarrow> Some (Exit 2 (node_usage argv0))
      | Some a \<Rightarrow>
          if op_self a = 0 \<or> na_configPath a = [] then Some (Exit 2 (node_usage argv0))
          else (case loadClusterConfig file (na_configPath a) of
             Inl err \<Rightarrow> Some (Exit 1 (na_configPath a @ '':'' @ nat_string (ce_line err) @ '': '' @ ce_message err @ [newline]))
           | Inr config \<Rightarrow>
               (case cc_find (op_self a) config of
                  None \<Rightarrow> Some (Exit 1 (''node id '' @ nat_string (unat (op_self a)) @ '' is not in '' @ na_configPath a @ [newline]))
                | Some self \<Rightarrow>
                    (case if na_ordersPath a = [] then Inr [] else loadOrders file (na_ordersPath a) kInstrument of
                       Inl err \<Rightarrow> Some (Exit 1 (err @ [newline]))
                     | Inr orders \<Rightarrow>
                         (case start_node net (Options.truncate a) (pc_port self) (cc_others (op_self a) config) orders of
                            None \<Rightarrow> Some StartFailed
                          | Some W \<Rightarrow> map_option Ended (node_loop net clock stop (na_maxCycles a) W))))))"

section \<open>Report\<close>

fun role_text :: "Role \<Rightarrow> string" where
  "role_text Primary = ''PRIMARY''"
| "role_text Backup = ''BACKUP''"

fun mode_text :: "ReplicationMode \<Rightarrow> string" where
  "mode_text Synchronous = ''SYNC''"
| "mode_text Asynchronous = ''ASYNC''"

fun node_role_text :: "NodeRole \<Rightarrow> string" where
  "node_role_text Follower = ''FOLLOWER''"
| "node_role_text Candidate = ''CANDIDATE''"
| "node_role_text Leader = ''LEADER''"

definition node_tag :: "App \<Rightarrow> string" where
  "node_tag A =
     (let what = (if ap_elect A then node_role_text (el_role (ap_election A)) else role_text (rp_role (ap_replicator A)))
      in ''['' @ what @ '' '' @ nat_string (unat (ap_self A)) @ ''] '')"

text \<open>What the program prints when the loop has ended.\<close>

definition node_report :: "Transport \<times> App \<Rightarrow> string" where
  "node_report W =
     (let A = snd W; R = ap_replicator A; E = ap_election A; rs = rp_stats R; ts = tp_stats (fst W);
          field = (\<lambda>name v. ''  '' @ name @ u64_string v @ [newline])
      in node_tag A @ ''shutting down'' @ [newline] @
         ''  role='' @ role_text (rp_role R) @ '' mode='' @ mode_text (rp_mode R) @ [newline] @
         ''  election_role='' @ node_role_text (el_role E) @ [newline] @
         field ''term='' (el_currentTerm E) @
         field ''elections_started='' (es_electionsStarted (el_stats E)) @
         field ''elections_won='' (es_electionsWon (el_stats E)) @
         field ''votes_granted='' (es_votesGranted (el_stats E)) @
         field ''step_downs='' (es_stepDowns (el_stats E)) @
         field ''last_applied='' (rp_lastApplied R) @
         field ''commit_seq='' (commitSeq R) @
         field ''log_last_seq='' (lg_lastSeq (rp_log R)) @
         field ''submitted='' (st_submitted rs) @
         field ''applied='' (st_applied rs) @
         field ''entries_sent='' (st_entriesSent rs) @
         field ''entries_received='' (st_entriesReceived rs) @
         field ''gaps_detected='' (st_gapsDetected rs) @
         field ''checksum_mismatches='' (st_checksumMismatches rs) @
         ''  resting_orders='' @ nat_string (orderCount (me_book (rp_engine R))) @ [newline] @
         field ''messages_sent='' (ts_messagesSent ts) @
         field ''messages_received='' (ts_messagesReceived ts) @
         field ''bytes_sent='' (ts_bytesSent ts) @
         field ''sends_refused_overflow='' (ts_sendsRefusedOverflow ts) @
         field ''disconnects='' (ts_disconnects ts) @
         field ''framing_errors='' (ts_framingErrors ts) @
         field ''state_checksum='' (stateChecksum (rp_engine R)))"

section \<open>What the callbacks leave alone\<close>

definition fixed_part :: "App \<Rightarrow> int \<times> Command list \<times> nat \<times> bool \<times> bool \<times> bool" where
  "fixed_part A = (ap_cycles A, ap_orders A, ap_nextOrder A, ap_exitOnComplete A, ap_complete A, ap_elect A)"

definition at_part :: "int \<times> Command list \<times> nat \<times> bool \<times> bool \<times> bool \<Rightarrow> Node \<Rightarrow> bool" where
  "at_part p N \<longleftrightarrow> (\<forall>A. N = Running A \<longrightarrow> fixed_part A = p)"

lemma fixed_part_updates [simp]:
  "fixed_part (A\<lparr>ap_replicator := R\<rparr>) = fixed_part A" "fixed_part (A\<lparr>ap_election := e\<rparr>) = fixed_part A"
  "fixed_part (A\<lparr>ap_readings := n\<rparr>) = fixed_part A"
  by (simp_all add: fixed_part_def)

lemma app_step_fixed: "app_step W W' \<Longrightarrow> fixed_part (snd W') = fixed_part (snd W)"
  by (auto simp: app_step_def)

lemma elect_step_fixed: "fixed_part (snd (elect_step net clock f W)) = fixed_part (snd W)"
  using app_step_fixed [OF run_actions_step] by (simp add: elect_step_def Let_def split_beta)

lemma to_replicator_fixed: "snd (to_replicator net frm m W) = Running A \<Longrightarrow> fixed_part A = fixed_part (snd W)"
  by (auto simp: to_replicator_def give_back_def split: if_splits option.splits)

lemma app_onMessage_fixed: "snd (app_onMessage net clock frm m W) = Running A \<Longrightarrow> fixed_part A = fixed_part (snd W)"
proof -
  have e: "snd (case elect_step net clock f W of (T, A) \<Rightarrow> (T, Running A)) = Running A \<Longrightarrow> fixed_part A = fixed_part (snd W)" for f
    using elect_step_fixed [of net clock f W] by (auto split: prod.splits)
  have s: "fixed_part (snd (sync_term (elect_step net clock f W))) = fixed_part (snd W)" for f
    using app_step_fixed [OF sync_term_step] elect_step_fixed by simp
  have r: "snd (to_replicator net frm m (sync_term (elect_step net clock f W))) = Running A \<Longrightarrow> fixed_part A = fixed_part (snd W)" for f
    using to_replicator_fixed [of net frm m "sync_term (elect_step net clock f W)" A] s by simp
  assume h: "snd (app_onMessage net clock frm m W) = Running A"
  show ?thesis
  proof (cases "ap_elect (snd W)")
    case True
    then show ?thesis using h e r to_replicator_fixed [of net frm m W A] by (cases m) (simp_all add: app_onMessage_def)
  qed (use h to_replicator_fixed [of net frm m W A] in \<open>simp add: app_onMessage_def\<close>)
qed

lemma node_handler_fixed: "at_part p (snd W) \<Longrightarrow> at_part p (snd (node_handler net clock u W))"
proof (cases "snd W")
  case (Running A)
  assume a: "at_part p (snd W)"
  have "fixed_part (snd (app_peerUp net n (fst W, A))) = fixed_part A" for n using app_step_fixed [OF app_peerUp_step(2)] by simp
  moreover have "fixed_part (snd (on_down u (fst W, A))) = fixed_part A" by (simp add: on_down_def split: Upcall.split)
  ultimately show ?thesis using a Running app_onMessage_fixed [of net clock _ _ "(fst W, A)"]
    by (cases u) (auto simp: at_part_def node_handler_def split_beta)
qed (simp_all add: node_handler_def)

interpretation nhf: app_invariant "node_handler net clock" "at_part p" for net clock p
  by unfold_locales (rule node_handler_fixed)

text \<open>Every turn counts as one cycle.\<close>

lemma turn_begin_cycles: "ap_cycles (snd (turn_begin net clock W)) = ap_cycles (snd W) + 1"
proof -
  let ?W1 = "if ap_elect (snd W) then sync_term (elect_step net clock (\<lambda>now e. tick now (setLastLogSeq (app_lastSeq (snd W)) e)) W) else W"
  have "fixed_part (snd ?W1) = fixed_part (snd W)"
    using app_step_fixed [OF sync_term_step] elect_step_fixed by simp
  then have "ap_cycles (snd ?W1) = ap_cycles (snd W)" unfolding fixed_part_def by blast
  then show ?thesis by (simp add: turn_begin_def Let_def give_back_def)
qed

lemma turn_end_cycles: "ap_cycles (snd (turn_end net W)) = ap_cycles (snd W)"
proof -
  let ?A = "(snd W)\<lparr>ap_heartbeatCounter := ap_heartbeatCounter (snd W) + 1\<rparr>"
  let ?m = "Heartbeat \<lparr>hb_nodeId = ap_self (snd W), hb_counter = ap_heartbeatCounter (snd W) + 1\<rparr>"
  obtain n T B where b: "broadcast net on_down ?m (fst W, ?A) = (n, T, B)" by (metis surj_pair)
  have "app_frame ?A B" using odf.broadcast_inv [of ?A "(fst W, ?A)" net ?m] b by simp
  then have "ap_cycles B = ap_cycles (snd W)" by (auto simp: app_frame_def)
  then show ?thesis using b by (simp add: turn_end_def Let_def)
qed

lemma turn_cycles:
  assumes "app_ok (snd W)" and "turn net clock W = (T', Running A')"
  shows "ap_cycles A' = ap_cycles (snd W) + 1"
proof -
  define W1 where "W1 = turn_begin net clock W"
  define W2 where "W2 = (if rp_role (ap_replicator (snd W1)) = Primary \<and> ap_nextOrder (snd W1) < length (ap_orders (snd W1))
      then feed net 256 W1 else (fst W1, Running (snd W1)))"
  have run: "turn net clock W = (case snd W2 of Running A \<Rightarrow> (case turn_end net (fst W2, A) of (T, A') \<Rightarrow> (T, Running A')) | _ \<Rightarrow> W2)"
    by (simp only: turn_def Let_def W2_def W1_def)
  from assms(2) run obtain A where A: "snd W2 = Running A" "turn_end net (fst W2, A) = (T', A')"
    by (cases "snd W2"; cases W2) (auto split: prod.splits)
  have "app_ok (snd W1)" unfolding W1_def using turn_begin_keeps assms(1) by blast
  then have "ap_cycles A = ap_cycles (snd W1)" using feed_spec [of W1 net 256] A(1) by (auto simp: W2_def fed_def split: if_splits)
  then show ?thesis using turn_end_cycles [of net "(fst W2, A)"] turn_begin_cycles [of net clock W] A(2) by (simp add: W1_def)
qed

lemma node_cycle_cycles:
  assumes "node_cycle net clock (T, Running A) = Some W'" and "snd W' = Running A'" and "app_ok A"
  shows "ap_cycles A' = ap_cycles A + 1"
proof -
  obtain ok W1 where p: "tp_poll net (node_handler net clock) (T, Running A) = Some (ok, W1)"
    and W': "W' = (case snd W1 of Running A \<Rightarrow> turn net clock (fst W1, A) | _ \<Rightarrow> W1)" using assms(1) by (auto simp: node_cycle_def)
  have good: "node_good (snd W1)" using nhi.poll_inv [OF p] assms(3) by simp
  have part: "at_part (fixed_part A) (snd W1)" using nhf.poll_inv [OF p, of "fixed_part A"] by (simp add: at_part_def)
  obtain A1 where A1: "snd W1 = Running A1" using W' assms(2) by (cases "snd W1") auto
  then have "ap_cycles A1 = ap_cycles A" using part by (simp add: at_part_def fixed_part_def)
  moreover have "turn net clock (fst W1, A1) = (fst W', Running A')" using W' A1 assms(2) by (simp add: prod_eq_iff)
  ultimately show ?thesis using turn_cycles [of "(fst W1, A1)" net clock "fst W'" A'] good A1 by simp
qed

section \<open>The loop ends\<close>

lemma node_loop_ends:
  assumes "app_reachable W" and "falls_silent net k" and "0 \<le> maxCycles" and "\<And>A. snd W = Running A \<Longrightarrow> ap_cycles A \<le> maxCycles"
  shows "\<exists>W'. node_loop net clock stop maxCycles W = Some W' \<and> app_reachable W' \<and> (\<forall>A. snd W' = Running A \<longrightarrow> ap_cycles A \<le> maxCycles \<and> \<not> loop_goes stop maxCycles A)"
  using assms(1,4)
proof (induction "case snd W of Running A \<Rightarrow> nat (maxCycles - ap_cycles A) | _ \<Rightarrow> 0" arbitrary: W rule: less_induct)
  case less
  show ?case
  proof (cases "\<exists>A. snd W = Running A \<and> loop_goes stop maxCycles A")
    case True
    then obtain A where A: "snd W = Running A" "loop_goes stop maxCycles A" by blast
    have below: "ap_cycles A < maxCycles" using A(2) assms(3) by (simp add: loop_goes_def)
    obtain W1 where c: "node_cycle net clock W = Some W1" "app_reachable W1" using silent_cycle [OF less.prems(1) assms(2)] by blast
    have one: "ap_cycles A1 = ap_cycles A + 1" if "snd W1 = Running A1" for A1
      using node_cycle_cycles [of net clock "fst W" A W1 A1] c(1) that A(1) app_reachable_keeps [OF less.prems(1)] by (metis node_good.simps(1) prod.collapse)
    have run: "node_loop net clock stop maxCycles W = node_loop net clock stop maxCycles W1" using A c(1) by (subst node_loop.simps) simp
    have dec: "(case snd W1 of Running A \<Rightarrow> nat (maxCycles - ap_cycles A) | _ \<Rightarrow> 0) < (case snd W of Running A \<Rightarrow> nat (maxCycles - ap_cycles A) | _ \<Rightarrow> 0)"
      using one below A(1) by (cases "snd W1") simp_all
    show ?thesis unfolding run by (rule less.hyps [OF dec c(2)]) (use one below in fastforce)
  next
    case False
    then have "node_loop net clock stop maxCycles W = Some W" by (subst node_loop.simps) (auto split: Node.split)
    then show ?thesis using less.prems False by blast
  qed
qed

lemma start_cycles: "start_node net opts port others orders = Some W \<Longrightarrow> snd W = Running A \<Longrightarrow> ap_cycles A = 0"
  by (auto simp: start_node_def new_app_def Let_def split: prod.splits bool.splits)

text \<open>The program either exits before its loop or enters it from a started node.\<close>

lemma node_main_cases:
  obtains (exits) res where "node_main file net clock stop argv0 args = Some res" and "\<And>W. res \<noteq> Ended W"
  | (runs) a opts port others orders W where "node_args args default_args = Some a" and "start_node net opts port others orders = Some W"
      and "node_main file net clock stop argv0 args = map_option Ended (node_loop net clock stop (na_maxCycles a) W)"
proof (cases "node_args args default_args")
  case None
  then show thesis using exits by (simp add: node_main_def)
next
  case a: (Some a)
  let ?orders = "if na_ordersPath a = [] then Inr [] else loadOrders file (na_ordersPath a) kInstrument"
  show thesis
  proof (cases "op_self a = 0 \<or> na_configPath a = []")
    case True
    with a show thesis using exits by (simp add: node_main_def)
  next
    case ok: False
    show thesis
    proof (cases "loadClusterConfig file (na_configPath a)")
      case (Inl err)
      with a ok show thesis using exits by (simp add: node_main_def)
    next
      case cfg: (Inr config)
      show thesis
      proof (cases "cc_find (op_self a) config")
        case None
        with a ok cfg show thesis using exits by (simp add: node_main_def)
      next
        case self: (Some self)
        show thesis
        proof (cases ?orders)
          case (Inl err)
          with a ok cfg self show thesis using exits by (simp add: node_main_def)
        next
          case orders: (Inr orders)
          let ?start = "start_node net (Options.truncate a) (pc_port self) (cc_others (op_self a) config) orders"
          have m: "node_main file net clock stop argv0 args = (case ?start of None \<Rightarrow> Some StartFailed | Some W \<Rightarrow> map_option Ended (node_loop net clock stop (na_maxCycles a) W))"
            using a ok cfg self orders by (simp add: node_main_def)
          show thesis
          proof (cases ?start)
            case None
            with m show thesis using exits by simp
          next
            case (Some W)
            then show thesis by (rule runs [OF a]) (simp add: m Some)
          qed
        qed
      qed
    qed
  qed
qed

lemma node_report_ends: "\<exists>pre. node_report W = pre @ (''  '' @ ''state_checksum='' @ u64_string (stateChecksum (rp_engine (ap_replicator (snd W)))) @ [newline])"
  unfolding suffix_def [symmetric] node_report_def Let_def by (rule suffix_order.order_refl suffix_appendI)+

end
