(* ===== verification/Event_Text.thy ===== *)
theory Event_Text
  imports Byte_Hash Order_File
begin

text \<open>
  The one-line rendering of events (\<open>event.cpp\<close>) and the hash of an event stream (\<open>hashEvents\<close> in
  \<open>engine.cpp\<close>), with the lemmas that make the rendering injective.
\<close>

section \<open>Rendering\<close>

definition header_text :: "EventHeader \<Rightarrow> string" where
  "header_text h = ''seq='' @ u64_string (eventSeq h) @ '' cmd='' @ u64_string (commandSeq h) @ '' ''"

fun event_text :: "Event \<Rightarrow> string" where
  "event_text (OrderAccepted h d) = header_text h @
     ''ACCEPTED id='' @ u64_string (oa_id d) @ '' side='' @ side_text (oa_side d) @ '' type='' @ type_text (oa_type d) @
     '' tif='' @ tif_text (oa_tif d) @ '' px='' @ i64_string (oa_price d) @ '' qty='' @ u64_string (oa_quantity d)"
| "event_text (OrderRejected h i r) = header_text h @ ''REJECTED id='' @ u64_string i @ '' reason='' @ reason_text r"
| "event_text (Trade h t) = header_text h @
     ''TRADE aggressor='' @ u64_string (aggressorId t) @ '' resting='' @ u64_string (restingId t) @
     '' side='' @ side_text (aggressorSide t) @ '' px='' @ i64_string (tr_price t) @ '' qty='' @ u64_string (tr_quantity t)"
| "event_text (OrderResting h d) = header_text h @
     ''RESTING id='' @ u64_string (or_id d) @ '' side='' @ side_text (or_side d) @ '' px='' @ i64_string (or_price d) @
     '' qty='' @ u64_string (or_quantity d)"
| "event_text (OrderCancelled h d) = header_text h @
     ''CANCELLED id='' @ u64_string (oc_id d) @ '' side='' @ side_text (oc_side d) @ '' px='' @ i64_string (oc_price d) @
     '' qty='' @ u64_string (oc_remaining d) @ '' by='' @ (if oc_engineInitiated d then ''ENGINE'' else ''CLIENT'')"
| "event_text (CancelRejected h i r) = header_text h @ ''CANCEL_REJECTED id='' @ u64_string i @ '' reason='' @ reason_text r"
| "event_text (TopOfBookChanged h t) = header_text h @
     ''TOB bid='' @ (if hasBid t then i64_string (bidPrice t) @ ''x'' @ u64_string (bidQuantity t) else ''none'') @
     '' ask='' @ (if hasAsk t then i64_string (askPrice t) @ ''x'' @ u64_string (askQuantity t) else ''none'')"

section \<open>Hash\<close>

fun event_index :: "Event \<Rightarrow> u64" where
  "event_index (OrderAccepted _ _) = 0"
| "event_index (OrderRejected _ _ _) = 1"
| "event_index (Trade _ _) = 2"
| "event_index (OrderResting _ _) = 3"
| "event_index (OrderCancelled _ _) = 4"
| "event_index (CancelRejected _ _ _) = 5"
| "event_index (TopOfBookChanged _ _) = 6"

definition hash_text :: "string \<Rightarrow> u64 \<Rightarrow> u64" where
  "hash_text text h = fold (\<lambda>c h. (h XOR of_char c) * kFnvPrime) text h"

definition hashEvents :: "EventList \<Rightarrow> u64" where
  "hashEvents events = fold (\<lambda>e h. hash_text (event_text e) (mix (event_index e) h)) events kFnvOffset"

section \<open>The rendering is injective\<close>

text \<open>A field ends at the first character that cannot occur in it.\<close>

lemma field_end:
  "c \<notin> set a \<Longrightarrow> c \<notin> set a' \<Longrightarrow> a @ c # s = a' @ c # s' \<longleftrightarrow> a = a' \<and> s = s'"
proof (induction a arbitrary: a')
  case Nil
  then show ?case by (cases a') auto
next
  case (Cons x a)
  then show ?case by (cases a') auto
qed

lemma nat_string_inj [simp]: "nat_string n = nat_string m \<longleftrightarrow> n = m"
  using nat_string_value by metis

lemma u64_string_inj [simp]: "u64_string v = u64_string w \<longleftrightarrow> v = w"
  using read_u64_string [of "[]" v] read_u64_string [of "[]" w] by (metis append_Nil2 option.inject prod.inject)

lemma i64_string_inj [simp]: "i64_string v = i64_string w \<longleftrightarrow> v = w"
  using read_i64_string [of "[]" v] read_i64_string [of "[]" w] by (metis append_Nil2 option.inject prod.inject)

lemma names_inj [simp]:
  "side_text s = side_text s' \<longleftrightarrow> s = s'" "type_text t = type_text t' \<longleftrightarrow> t = t'" "tif_text f = tif_text f' \<longleftrightarrow> f = f'"
  "reason_text r = reason_text r' \<longleftrightarrow> r = r'"
proof -
  show "side_text s = side_text s' \<longleftrightarrow> s = s'" "type_text t = type_text t' \<longleftrightarrow> t = t'" "tif_text f = tif_text f' \<longleftrightarrow> f = f'"
    using parse_names by (metis option.inject)+
  show "reason_text r = reason_text r' \<longleftrightarrow> r = r'" by (cases r; cases r'; simp)
qed

lemma number_chars:
  assumes "\<not> is_digit c"
  shows "c \<notin> set (u64_string v)" and "c \<noteq> CHR ''-'' \<Longrightarrow> c \<notin> set (i64_string w)"
  using assms nat_string_digits(2) by (auto simp: u64_string_def i64_string_def)

lemma space_not_in: "is_word s \<Longrightarrow> CHR '' '' \<notin> set s"
  by (auto simp: is_word_def is_space_def)

lemma breaks: "\<not> is_digit (CHR '' '')" "\<not> is_digit (CHR ''x'')" "\<not> is_digit (CHR ''n'')"
  by (simp_all add: is_digit_def)

lemma field_ends:
  "u64_string v @ CHR '' '' # s = u64_string v' @ CHR '' '' # s' \<longleftrightarrow> v = v' \<and> s = s'"
  "i64_string w @ CHR '' '' # s = i64_string w' @ CHR '' '' # s' \<longleftrightarrow> w = w' \<and> s = s'"
  "i64_string w @ CHR ''x'' # s = i64_string w' @ CHR ''x'' # s' \<longleftrightarrow> w = w' \<and> s = s'"
  "side_text sd @ CHR '' '' # s = side_text sd' @ CHR '' '' # s' \<longleftrightarrow> sd = sd' \<and> s = s'"
  "type_text t @ CHR '' '' # s = type_text t' @ CHR '' '' # s' \<longleftrightarrow> t = t' \<and> s = s'"
  "tif_text f @ CHR '' '' # s = tif_text f' @ CHR '' '' # s' \<longleftrightarrow> f = f' \<and> s = s'"
  by (simp_all add: field_end number_chars breaks space_not_in)

lemma price_not_none: "i64_string w @ s \<noteq> CHR ''n'' # s'"
proof -
  obtain c ds where c: "i64_string w = c # ds" "c \<in> set (i64_string w)"
    using nat_string_digits(1) by (cases "i64_string w") (auto simp: i64_string_def split: if_splits)
  then show ?thesis using number_chars(2) [OF breaks(3), of w] by auto
qed

text \<open>Prices and quantities of an absent side are not printed; the engine keeps them 0.\<close>

definition top_normal :: "TopOfBook \<Rightarrow> bool" where
  "top_normal t \<longleftrightarrow> (\<not> hasBid t \<longrightarrow> bidPrice t = 0 \<and> bidQuantity t = 0) \<and> (\<not> hasAsk t \<longrightarrow> askPrice t = 0 \<and> askQuantity t = 0)"

fun printable :: "Event \<Rightarrow> bool" where
  "printable (TopOfBookChanged _ t) = top_normal t"
| "printable _ = True"

lemma header_text_inj: "header_text h @ s = header_text h' @ s' \<longleftrightarrow> h = h' \<and> s = s'"
  by (cases h; cases h') (auto simp: header_text_def field_ends)

lemmas event_text_simps = header_text_inj field_ends price_not_none price_not_none [symmetric]

lemma top_text_cut:
  "(if b then i64_string p @ CHR ''x'' # u64_string q else ''none'') @ CHR '' '' # s = (if b' then i64_string p' @ CHR ''x'' # u64_string q' else ''none'') @ CHR '' '' # s' \<longleftrightarrow>
     b = b' \<and> (b \<longrightarrow> p = p' \<and> q = q') \<and> s = s'"
  by (cases b; cases b') (auto simp: event_text_simps)

lemma top_text_end:
  "(if b then i64_string p @ CHR ''x'' # u64_string q else ''none'') = (if b' then i64_string p' @ CHR ''x'' # u64_string q' else ''none'') \<longleftrightarrow>
     b = b' \<and> (b \<longrightarrow> p = p' \<and> q = q')"
  by (cases b; cases b') (auto simp: event_text_simps)

lemma event_text_inj:
  assumes "event_text x = event_text y" and "printable x" and "printable y"
  shows "x = y"
proof (cases "\<exists>h t. x = TopOfBookChanged h t")
  case True
  then obtain h t where x: "x = TopOfBookChanged h t" by blast
  obtain h' t' where y: "y = TopOfBookChanged h' t'" using assms(1) x by (cases y) (auto simp: event_text_simps)
  have "h = h' \<and> (hasBid t = hasBid t' \<and> (hasBid t \<longrightarrow> bidPrice t = bidPrice t' \<and> bidQuantity t = bidQuantity t')) \<and>
    (hasAsk t = hasAsk t' \<and> (hasAsk t \<longrightarrow> askPrice t = askPrice t' \<and> askQuantity t = askQuantity t'))" (is "_ \<and> ?r")
    using assms(1) unfolding x y by (simp only: event_text.simps header_text_inj append_Cons append_Nil list.inject top_text_cut top_text_end) blast
  then have "h = h'" and r: ?r by blast+
  moreover have "t = t'" using r assms(2,3) unfolding x y by (cases t; cases t') (auto simp: top_normal_def)
  ultimately show ?thesis using x y by simp
next
  case False
  then show ?thesis using assms(1) by (cases x; cases y) (auto simp: event_text_simps split: if_splits)
qed

end
