(* ===== verification/Replay.thy ===== *)
theory Replay
  imports Event_Text
begin

text \<open>
  The replay driver (\<open>apps/replay/main.cpp\<close>): argument parsing, reading the command file, running it through
  a fresh engine and printing. Standard output and standard error are the texts written to them; a file is its
  contents, or \<open>None\<close> if it cannot be opened. \<open>None\<close> as the result of the driver is a failed assertion of the engine.
\<close>

section \<open>Driver\<close>

definition kDefaultInstrument :: InstrumentId where "kDefaultInstrument = 1"

record ReplayArgs =
  ra_instrument :: InstrumentId
  ra_quiet :: bool
  ra_path :: string

record Process =
  pr_code :: int
  pr_out :: string
  pr_err :: string

definition replay_usage :: "string \<Rightarrow> string" where
  "replay_usage argv0 =
     ''usage: '' @ argv0 @ '' [--instrument N] [--quiet] <command-file>'' @ [newline] @
     ''       '' @ argv0 @ '' [--instrument N] [--quiet] -'' @ [newline] @
     ''reads '' @ [CHR 0x27, CHR ''-'', CHR 0x27] @ '' as stdin'' @ [newline]"

text \<open>The argument loop; \<open>Inl\<close> is the exit code after the usage text was printed.\<close>

fun replay_args :: "string list \<Rightarrow> ReplayArgs \<Rightarrow> int + ReplayArgs" where
  "replay_args [] a = (if ra_path a = [] then Inl 2 else Inr a)"
| "replay_args (arg # others) a =
     (if arg = ''--instrument'' \<and> others \<noteq> [] then replay_args (tl others) (a\<lparr>ra_instrument := ucast (strtoul (hd others))\<rparr>)
      else if arg = ''--quiet'' then replay_args others (a\<lparr>ra_quiet := True\<rparr>)
      else if arg = ''-h'' \<or> arg = ''--help'' then Inl 0
      else if ra_path a = [] then replay_args others (a\<lparr>ra_path := arg\<rparr>)
      else Inl 2)"

definition level_text :: "Price \<times> OrderQueue \<Rightarrow> string" where
  "level_text l =
     (let total = fold (\<lambda>r t. t + ro_quantity r) (snd l) 0
      in ''  '' @ i64_string (fst l) @ '' x'' @ u64_string total @ '' ('' @ nat_string (length (snd l)) @ '' orders)'' @ [newline])"

definition printBook :: "OrderBook \<Rightarrow> string" where
  "printBook b = ''book bids:'' @ [newline] @ concat (map level_text (ob_bids b)) @
     ''book asks:'' @ [newline] @ concat (map level_text (ob_asks b))"

definition summary_text :: "Command list \<Rightarrow> EventList \<Rightarrow> MatchingEngine \<Rightarrow> string" where
  "summary_text cs events e =
     ''commands='' @ nat_string (length cs) @ [newline] @
     ''events='' @ nat_string (length events) @ [newline] @
     ''event_hash='' @ u64_string (hashEvents events) @ [newline] @
     ''book_checksum='' @ u64_string (book_checksum (me_book e)) @ [newline] @
     ''state_checksum='' @ u64_string (stateChecksum e) @ [newline]"

definition events_text :: "EventList \<Rightarrow> string" where
  "events_text events = concat (map (\<lambda>e. event_text e @ [newline]) events)"

definition run_commands :: "ReplayArgs \<Rightarrow> Command list \<Rightarrow> Process option" where
  "run_commands a cs =
     do { (e, events) \<leftarrow> apply_all cs (new_engine (ra_instrument a)) [];
          Some \<lparr>pr_code = 0,
            pr_out = (if ra_quiet a then [] else events_text events @ [newline] @ printBook (me_book e) @ [newline]) @ summary_text cs events e,
            pr_err = []\<rparr> }"

definition replay_main :: "(string \<Rightarrow> string option) \<Rightarrow> string \<Rightarrow> string \<Rightarrow> string list \<Rightarrow> Process option" where
  "replay_main file stdin argv0 args =
     (case replay_args args \<lparr>ra_instrument = kDefaultInstrument, ra_quiet = False, ra_path = []\<rparr> of
        Inl code \<Rightarrow> Some \<lparr>pr_code = code, pr_out = [], pr_err = replay_usage argv0\<rparr>
      | Inr a \<Rightarrow>
          (case if ra_path a = ''-'' then Some stdin else file (ra_path a) of
             None \<Rightarrow> Some \<lparr>pr_code = 1, pr_out = [], pr_err = ''cannot open '' @ ra_path a @ [newline]\<rparr>
           | Some text \<Rightarrow>
               (case replay_parse (ra_instrument a) text of
                  Inl (line, msg) \<Rightarrow>
                    Some \<lparr>pr_code = 1, pr_out = [], pr_err = ra_path a @ '':'' @ nat_string line @ '': '' @ msg @ [newline]\<rparr>
                | Inr commands \<Rightarrow> run_commands a commands)))"

section \<open>Every event can be told from its text\<close>

lemma book_top_normal: "top_normal (book_top b)"
  by (simp add: book_top_def top_normal_def empty_top_def Let_def split: list.split prod.split)

lemma emitTop_printable:
  assumes "list_all printable out"
  shows "list_all printable (snd (emitTopOfBookIfChanged e out))"
  using assms book_top_normal by (simp add: emitTopOfBookIfChanged_def nextHeader_def Let_def)

lemma match_keeps_printable: "match cmd q e out = Some r \<Longrightarrow> list_all printable out \<longrightarrow> list_all printable (snd (snd r))"
  by (erule match.raw_induct [rotated]) (fastforce simp: Let_def nextHeader_def split: if_splits option.splits list.splits bind_splits)

lemma match_printable:
  assumes "match cmd q e out = Some (q', e', out')" and "list_all printable out"
  shows "list_all printable out'"
  using match_keeps_printable [OF assms(1)] assms(2) by simp

lemma settle_printable:
  "settleResidual cmd r e out = Some (e', out') \<Longrightarrow> list_all printable out \<Longrightarrow> list_all printable out'"
  by (auto simp: settleResidual_def nextHeader_def Let_def split: if_splits bind_splits)

lemma engine_apply_printable:
  assumes "engine_apply cmd e out = Some (e', out')" and "list_all printable out"
  shows "list_all printable out'"
proof (cases cmd)
  case (New c)
  let ?e = "e\<lparr>me_commandSeq := me_commandSeq e + 1\<rparr>"
  show ?thesis
  proof (cases "newOrderReason c ?e = NoReason")
    case True
    let ?a = "\<lparr>oa_id = no_id c, oa_side = no_side c, oa_type = no_type c, oa_tif = no_tif c, oa_price = no_price c, oa_quantity = no_quantity c\<rparr>"
    obtain h e1 r e2 out2 e3 out3 where m: "match c (no_quantity c) e1 (out @ [OrderAccepted h ?a]) = Some (r, e2, out2)"
      "settleResidual c r e2 out2 = Some (e3, out3)" "emitTopOfBookIfChanged e3 out3 = (e', out')"
      using assms(1) New True by (auto simp: engine_apply_def applyNewOrder_def Let_def split: prod.splits bind_splits)
    have "list_all printable out3" using settle_printable [OF m(2) match_printable [OF m(1)]] assms(2) by simp
    then show ?thesis using emitTop_printable [of out3 e3] m(3) by simp
  next
    case False
    then show ?thesis using assms New by (auto simp: engine_apply_def applyNewOrder_def nextHeader_def Let_def)
  qed
next
  case (Cancel c)
  then have "(\<exists>h. out' = out @ [CancelRejected h (co_id c) UnknownOrderId]) \<or> (\<exists>h d e1. emitTopOfBookIfChanged e1 (out @ [OrderCancelled h d]) = (e', out'))"
    using assms(1) by (auto simp: engine_apply_def applyCancel_def nextHeader_def Let_def split: bind_splits option.splits)
  moreover have "list_all printable out'" if "emitTopOfBookIfChanged e1 (out @ [OrderCancelled h d]) = (e', out')" for h d e1
    using that emitTop_printable [of "out @ [OrderCancelled h d]" e1] assms(2) by simp
  ultimately show ?thesis using assms(2) by auto
qed

lemma apply_all_printable: "apply_all cs e out = Some (e', out') \<Longrightarrow> list_all printable out \<Longrightarrow> list_all printable out'"
  by (induction cs arbitrary: e out) (auto split: bind_splits dest: engine_apply_printable)

end
