(* ===== verification/Net_Properties.thy ===== *)
theory Net_Properties
  imports Framing
begin

text \<open>
  The properties of the wire protocol: decoding inverts encoding on untrusted payloads, frames
  survive any chunking of the stream, and what one side queues is what the other side decodes,
  across short writes and partial reads.
\<close>

definition demo_vote :: Message where
  "demo_vote = RequestVote \<lparr>rv_term = 7, rv_candidateId = 2, rv_lastLogSeq = 300\<rparr>"

definition demo_batch :: Message where
  "demo_batch = AppendEntries \<lparr>ae_term = 7, ae_leaderId = 2, ae_prevSeq = 4, ae_prevTerm = 6, ae_commitSeq = 3,
     ae_entries = [\<lparr>lr_seq = 5, lr_term = 7, lr_command = Cancel \<lparr>co_id = 9\<rparr>\<rparr>]\<rparr>"

text \<open>C6: The decoder is exact. A payload of a given type decodes to a message if and only if the
  message has that type, respects the protocol's limits (addresses of at most 256 bytes, at most
  512 entries per batch), and the payload is byte for byte its encoding. So encoding and decoding
  are inverse, no payload has two readings, and truncated, over-long, unknown or out-of-range
  payloads are refused.\<close>
theorem decode_exact:
  "decodeBody ty data = Some m \<longleftrightarrow> typeOf m = ty \<and> msg_ok m \<and> data = encodeBody m []"
  by (simp add: decodeBody_iff)

text \<open>Every message within the limits fits into a frame: its payload has at most 24616 bytes, far
  below the 1 MiB cap, so the 32-bit length field is exact, and the encoded frame is the 12-byte
  header (magic, version, type, patched payload length, little-endian) followed by the payload.\<close>
theorem encode_bounded:
  assumes "msg_ok m"
  shows "length (encodeBody m []) \<le> 24616 \<and> of_nat (length (encodeBody m [])) < kMaxPayload \<and>
    unat (of_nat (length (encodeBody m [])) :: u32) = length (encodeBody m []) \<and>
    encode m out = out @ le_bytes 4 kMagic @ le_bytes 2 kVersion @ le_bytes 2 (type_value (typeOf m)) @
      le_bytes 4 (of_nat (length (encodeBody m [])) :: u32) @ encodeBody m []"
proof -
  have len: "length (encodeBody m []) \<le> 24616" using assms by (rule length_encodeBody)
  then have u: "unat (of_nat (length (encodeBody m [])) :: u32) = length (encodeBody m [])"
    by (simp add: unat_of_nat)
  with len have "of_nat (length (encodeBody m [])) < kMaxPayload"
    by (simp add: word_less_nat_alt kMaxPayload_def push_bit_eq_mult)
  with len u show ?thesis by (simp add: encode_frame frame_header_def)
qed

theorem encode_bounded_witness:
  "msg_ok demo_batch \<and> length (encodeBody demo_batch []) \<le> 24616 \<and> length (encode demo_batch []) = 77"
proof -
  have ok: "msg_ok demo_batch" by (simp add: demo_batch_def kMaxEntriesPerAppend_def)
  have "length (encodeBody demo_batch []) = 65"
    by (simp add: demo_batch_def encodeLogRecord_def w_u8_def w_u32_def w_u64_def)
  with ok encode_bounded [OF ok, of "[]"] show ?thesis by simp
qed

section \<open>Streams\<close>

text \<open>Chunk boundaries do not matter. Two ways of cutting the same byte stream into chunks,
  feeding each chunk and draining the complete frames, give the same frames in the same order and
  the same final status, also when the stream is malformed and whenever the reader compacts its
  buffer.\<close>
theorem chunking_irrelevant:
  assumes "concat cs = concat cs'"
  shows "fst (receive cs new_frame_reader) = fst (receive cs' new_frame_reader) \<and>
    frd_status (snd (receive cs new_frame_reader)) = frd_status (snd (receive cs' new_frame_reader))"
  by (simp add: receive_fresh assms)

theorem chunking_irrelevant_witness:
  "fst (receive [[1, 2], [], [3]] new_frame_reader) = fst (receive [[1], [2, 3]] new_frame_reader)"
  using chunking_irrelevant [of "[[1, 2], [], [3]]" "[[1], [2, 3]]"] by simp

text \<open>What the receiver makes of the frames: decode each, skip what does not decode.\<close>

definition decoded :: "Frame list \<Rightarrow> Message list" where
  "decoded fs = List.map_filter (\<lambda>f. decodeBody (fr_type f) (fr_payload f)) fs"

lemma decoded_frames: "\<forall>m\<in>set msgs. msg_ok m \<Longrightarrow> decoded (map frame_of msgs) = msgs"
proof (induction msgs)
  case (Cons m msgs)
  have "decodeBody (fr_type (frame_of m)) (fr_payload (frame_of m)) = Some m"
    using Cons.prems by (simp add: decodeBody_iff frame_of_def)
  with Cons show ?case by (simp add: decoded_def List.map_filter_simps)
qed (simp add: decoded_def List.map_filter_simps)

lemma frame_of_good:
  assumes "msg_ok m"
  shows "length (fr_payload (frame_of m)) \<le> unat kMaxPayload \<and> type_of_value (type_value (fr_type (frame_of m))) = fr_type (frame_of m)"
  using length_encodeBody [OF assms] by (simp add: frame_of_def kMaxPayload_def push_bit_eq_mult)

text \<open>The first bytes of a stream of encoded messages, cut anywhere, give a prefix of the messages.\<close>

lemma scan_prefix:
  assumes ok: "\<forall>m\<in>set msgs. msg_ok m" and bs: "concat (map (\<lambda>m. encode m []) msgs) = bs @ rest"
  shows "\<exists>k. fst (scan_frames bs) = map frame_of (take k msgs) \<and> stream_status (snd (scan_frames bs)) = StatusOk"
proof -
  let ?fs = "map frame_of msgs"
  have enc: "concat (map (\<lambda>f. frame_header (fr_type f) (of_nat (length (fr_payload f))) @ fr_payload f) ?fs) = bs @ rest"
    using bs by (simp add: encode_frame frame_of_def o_def)
  have good: "\<forall>f\<in>set ?fs. length (fr_payload f) \<le> unat kMaxPayload \<and> type_of_value (type_value (fr_type f)) = fr_type f"
    using ok frame_of_good by auto
  have n: "length bs \<le> length (concat (map (\<lambda>f. frame_header (fr_type f) (of_nat (length (fr_payload f))) @ fr_payload f) ?fs))"
    unfolding enc by simp
  obtain k r0 where "scan_frames (take (length bs) (bs @ rest)) = (take k ?fs, r0)"
    by (rule ms.scan_torn [OF good n]) (unfold enc, blast)
  then have fst: "fst (scan_frames bs) = map frame_of (take k msgs)" by (simp add: take_map)
  obtain fs' r where sc: "scan_frames bs = (fs', r)" by fastforce
  obtain gs r' where sc2: "scan_frames (r @ rest) = (gs, r')" by fastforce
  have "scan_frames (bs @ rest) = (?fs, [])" using scan_messages [OF ok] bs by simp
  with fs.scan_append [OF sc sc2] have "r' = []" by simp
  have "stream_status r = StatusOk"
  proof (rule ccontr)
    assume bad: "stream_status r \<noteq> StatusOk"
    then have "scan_frames (r @ rest) = ([], r @ rest)"
      by (intro bad_scan) (simp add: stream_status_bad_append)
    with sc2 \<open>r' = []\<close> have "r = []" by simp
    with bad show False by (simp add: stream_status_def kHeaderSize_def)
  qed
  with fst sc show ?thesis by auto
qed

text \<open>C7: Messages survive the connection. A sender queues messages on a fresh writer while the
  socket takes any number of bytes at any time; the bytes taken arrive at a fresh reader in any
  chunks. Then the reader never reports a framing error, the decoded messages are a prefix of the
  queued ones, in order, and all of them once the writer has nothing left to send.\<close>
theorem connection_delivers:
  assumes "send_run ss (new_frame_writer hwm) = (w, bs)" and "\<forall>m\<in>set (queued ss). msg_ok m" and "concat cs = bs"
  shows "\<exists>k. decoded (fst (receive cs new_frame_reader)) = take k (queued ss) \<and>
    frd_status (snd (receive cs new_frame_reader)) = StatusOk \<and>
    (fw_data w = [] \<longrightarrow> decoded (fst (receive cs new_frame_reader)) = queued ss)"
proof -
  have "fw_wf (new_frame_writer hwm)" "fw_data (new_frame_writer hwm) = []"
    by (simp_all add: new_frame_writer_def fw_wf_def fw_data_def)
  with send_run_bytes [OF _ assms(1)] have all: "bs @ fw_data w = concat (map (\<lambda>m. encode m []) (queued ss))" by simp
  obtain k where k: "fst (scan_frames bs) = map frame_of (take k (queued ss))" "stream_status (snd (scan_frames bs)) = StatusOk"
    using scan_prefix [OF assms(2) all [symmetric]] by blast
  have "\<forall>m\<in>set (take k (queued ss)). msg_ok m" using assms(2) by (meson in_set_takeD)
  then have "decoded (fst (receive cs new_frame_reader)) = take k (queued ss)"
    by (simp add: receive_fresh assms(3) k decoded_frames)
  moreover have "decoded (fst (receive cs new_frame_reader)) = queued ss" if "fw_data w = []"
    using that all scan_messages [OF assms(2)] by (simp add: receive_fresh assms(3) decoded_frames [OF assms(2)])
  ultimately show ?thesis using k by (auto simp: receive_fresh assms(3))
qed

theorem connection_delivers_witness:
  "\<exists>w bs. send_run [Enqueue demo_vote, Written 3, Enqueue demo_vote, Written 61] (new_frame_writer 0) = (w, bs) \<and>
     fw_data w = [] \<and> decoded (fst (receive [take 5 bs, drop 5 bs] new_frame_reader)) = [demo_vote, demo_vote]"
proof -
  let ?ss = "[Enqueue demo_vote, Written 3, Enqueue demo_vote, Written 61]"
  obtain w bs where r: "send_run ?ss (new_frame_writer 0) = (w, bs)" by fastforce
  have wf: "fw_wf (new_frame_writer 0)" "fw_data (new_frame_writer 0) = []"
    by (simp_all add: new_frame_writer_def fw_wf_def fw_data_def)
  have "length (encode demo_vote []) = 32"
    by (simp add: encode_frame kHeaderSize_def demo_vote_def w_u32_def w_u64_def)
  then have "fw_data (fst (send_run ?ss (new_frame_writer 0))) = []"
    using wf by (simp add: split_beta fw_consume_data fw_enqueue_data)
  then have e: "fw_data w = []" unfolding r by simp
  have ok: "\<forall>m\<in>set (queued ?ss). msg_ok m" by (simp add: demo_vote_def)
  have "concat [take 5 bs, drop 5 bs] = bs" by simp
  from connection_delivers [OF r ok this] e r show ?thesis by auto
qed

end
