(* ===== verification/Transport_Properties.thy ===== *)
theory Transport_Properties
  imports Transport_Progress Net_Properties
begin

text \<open>
  The properties of the transport: one ready connection per node, the tiebreak between the two
  connections of a pair of nodes, the bounded backlog of \<open>send\<close>, that \<open>poll\<close> returns, and that received messages
  are delivered in order and only after the handshake.
\<close>

section \<open>A client that records its callbacks\<close>

definition recorder :: "Upcall list handler" where
  "recorder u W = (fst W, snd W @ [u])"

interpretation recorded: transport_client recorder
  by unfold_locales (simp_all add: recorder_def)

definition open_peer :: "NodeId \<Rightarrow> bool \<Rightarrow> PeerState \<Rightarrow> Buffer \<Rightarrow> Buffer \<Rightarrow> Peer" where
  "open_peer n out st input queue = (new_peer 100)\<lparr>pe_id := n, pe_outbound := out, pe_state := st, pe_sock := True,
     pe_reader := \<lparr>frd_buf = input, frd_readPos = 0, frd_status = StatusOk\<rparr>, pe_writer := \<lparr>fw_buf = queue, fw_writePos = 0, fw_highWaterMark = 100\<rparr>\<rparr>"

lemma open_peer_ok:
  assumes "st \<noteq> Disconnected"
  shows "peer_ok (open_peer n out st input queue)"
  using assms by (simp add: open_peer_def new_peer_def peer_ok_def frd_wf_def fw_wf_def)

definition two_peers :: "NodeId \<Rightarrow> Peer \<Rightarrow> Peer \<Rightarrow> Transport" where
  "two_peers self p q = (new_transport self 7000)\<lparr>tp_peers := [p, q], tp_nextConnectCycle := [0, 0]\<rparr>"

section \<open>One connection per node\<close>

lemma ready_distinct:
  assumes "clash_free ps"
  shows "distinct (map pe_id (filter (\<lambda>p. pe_state p = Ready) ps))"
  using assms by (induction ps) (auto simp: clash_free_def)

text \<open>C29: In every state the transport can reach, by any sequence of calls, with any behaviour of the network
  and of a client whose callbacks keep their contract, the ready connections go to different nodes, so
  the number of ready peers is the number of nodes reached, and a node is ready exactly if one of
  the connections to it is. Sockets are open exactly for connections that are not down.\<close>
theorem one_connection_per_node:
  assumes "transport_client h" and "tp_reachable h (T, a)"
  shows "distinct (map pe_id (filter (\<lambda>p. pe_state p = Ready) (tp_peers T))) \<and>
    (isReady n T \<longleftrightarrow> (\<exists>p\<in>set (tp_peers T). pe_id p = n \<and> pe_state p = Ready)) \<and>
    readyPeerCount T = card {n. isReady n T} \<and>
    (\<forall>p\<in>set (tp_peers T). pe_sock p \<longleftrightarrow> pe_state p \<noteq> Disconnected)"
proof -
  have ok: "tp_ok T" using transport_client.reachable_ok [OF assms] by simp
  let ?ready = "filter (\<lambda>p. pe_state p = Ready) (tp_peers T)"
  have d: "distinct (map pe_id ?ready)" using ok by (simp add: tp_ok_alt ready_distinct)
  have r: "isReady n T \<longleftrightarrow> (\<exists>p\<in>set (tp_peers T). pe_id p = n \<and> pe_state p = Ready)" for n
    using findPeer_Some [of n T] findPeer_None [of n T] by (fastforce simp: isReady_def in_set_conv_nth)
  have "{n. isReady n T} = set (map pe_id ?ready)" by (auto simp: r)
  then have "readyPeerCount T = card {n. isReady n T}" using distinct_card [OF d] by (simp add: readyPeerCount_def)
  moreover have "\<forall>p\<in>set (tp_peers T). pe_sock p \<longleftrightarrow> pe_state p \<noteq> Disconnected" using ok by (simp add: tp_ok_alt peer_ok_def)
  ultimately show ?thesis using d r by simp
qed

theorem one_connection_per_node_witness:
  "readyPeerCount (addPeer \<lparr>pc_id = 2, pc_host = ''127.0.0.1'', pc_port = 7002\<rparr> (new_transport 1 7001)) = 0"
proof -
  let ?T = "addPeer \<lparr>pc_id = 2, pc_host = ''127.0.0.1'', pc_port = 7002\<rparr> (new_transport 1 7001)"
  have "tp_reachable recorder (?T, [])" by (rule tp_reachable.add, rule tp_reachable.new)
  note one = one_connection_per_node [OF recorded.transport_client_axioms this]
  have "\<not> isReady n ?T" for n using one [of n] by (simp add: addPeer_def new_transport_def new_peer_def)
  with one show ?thesis by simp
qed

section \<open>The tiebreak\<close>

lemma recorder_drop:
  "dropPeer recorder i (T, us) = (fst (dropPeer recorder i (T, us)),
     if pe_state (tp_peers T ! i) = Ready then us @ [PeerDown (pe_id (tp_peers T ! i))] else us)"
proof (cases "i < length (tp_peers T)")
  case True
  then show ?thesis by (simp add: dropPeer_def recorder_def Let_def tp_count_def upd_peer_def)
next
  case False
  then show ?thesis by (simp add: dropPeer_def recorder_def Let_def tp_count_def upd_peer_def list_update_beyond)
qed

text \<open>A connection in its handshake receives the \<open>Hello\<close> of a node that another connection, opened from the other
  side, already reaches.\<close>

definition clash :: "Transport \<Rightarrow> nat \<Rightarrow> nat \<Rightarrow> HelloMsg \<Rightarrow> bool" where
  "clash T i j hello \<longleftrightarrow> i < length (tp_peers T) \<and> j \<noteq> i \<and> pe_state (tp_peers T ! i) = Handshaking \<and>
     findPeer (he_nodeId hello) T = Some j \<and> pe_outbound (tp_peers T ! j) \<noteq> pe_outbound (tp_peers T ! i) \<and>
     he_protocolVersion hello = kVersion \<and> (pe_outbound (tp_peers T ! i) \<longrightarrow> pe_id (tp_peers T ! i) = he_nodeId hello)"

lemma clash_resolved:
  assumes "tp_ok T" and "clash T i j hello" and "handleHello recorder i hello (T, us) = (goes, T', us')"
  shows "\<exists>k l. {k, l} = {i, j} \<and> pe_outbound (tp_peers T' ! k) = (tp_selfId T < he_nodeId hello) \<and>
    findPeer (he_nodeId hello) T' = Some k \<and> pe_state (tp_peers T' ! l) = Disconnected \<and>
    (\<forall>x. x \<noteq> i \<longrightarrow> x \<noteq> j \<longrightarrow> tp_peers T' ! x = tp_peers T ! x) \<and>
    us' = (if k = i then us @ [PeerDown (he_nodeId hello), PeerUp (he_nodeId hello) (he_advertisedAddress hello)] else us)"
proof -
  let ?n = "he_nodeId hello" and ?up = "\<lambda>T. upd_peer i (\<lambda>p. p\<lparr>pe_id := he_nodeId hello, pe_state := Ready\<rparr>) T"
  have c: "i < length (tp_peers T)" "j \<noteq> i" "pe_state (tp_peers T ! i) = Handshaking" "findPeer ?n T = Some j"
    "pe_outbound (tp_peers T ! j) \<noteq> pe_outbound (tp_peers T ! i)" using assms(2) by (simp_all add: clash_def)
  note j = findPeer_Some [OF c(4)]
  have run: "handleHello recorder i hello (T, us) =
      (if pe_outbound (tp_peers T ! i) = (tp_selfId T < ?n)
       then (True, recorder (PeerUp ?n (he_advertisedAddress hello)) (?up (fst (dropPeer recorder j (T, us))), snd (dropPeer recorder j (T, us))))
       else (False, dropPeer recorder i (T, us)))"
    using assms(2) by (auto simp: handleHello_def Let_def clash_def)
  obtain T1 us1 where d: "dropPeer recorder j (T, us) = (T1, us1)" by fastforce
  obtain T2 us2 where e: "dropPeer recorder i (T, us) = (T2, us2)" by fastforce
  note kd = recorded.dropPeer_keeps [OF assms(1) d] and ke = recorded.dropPeer_keeps [OF assms(1) e]
  have ok': "tp_ok T'" using recorded.handleHello_keeps [OF assms(1) c(1) _ assms(3)] tp_okD(1) [OF assms(1) c(1)] c(3) by (simp add: peer_ok_def steady_def)
  have out: "pe_outbound (tp_peers T1 ! i) = pe_outbound (tp_peers T ! i)" using calm_nth [OF kd(2) c(1)] by (simp add: calm_peer_def)
  show ?thesis
  proof (cases "pe_outbound (tp_peers T ! i) = (tp_selfId T < ?n)")
    case True
    then have T': "T' = ?up T1" "us' = us @ [PeerDown ?n, PeerUp ?n (he_advertisedAddress hello)]"
      using run assms(3) d recorder_drop [of j T us] j(2,3) by (simp_all add: recorder_def)
    have i1: "i < length (tp_peers T1)" using calm_length [OF kd(2)] c(1) by simp
    then have "findPeer ?n T' = Some i" using findPeer_ready [OF ok', of i ?n] T'(1) by simp
    moreover have "pe_outbound (tp_peers T' ! i) = (tp_selfId T < ?n)" using T'(1) i1 out True by simp
    moreover have "pe_state (tp_peers T' ! j) = Disconnected" using T'(1) c(2) kd(3) j(1) by simp
    moreover have "\<forall>x. x \<noteq> i \<longrightarrow> x \<noteq> j \<longrightarrow> tp_peers T' ! x = tp_peers T ! x" using T'(1) recorded.dropPeer_keeps(4) [OF assms(1) d] by simp
    ultimately show ?thesis using T'(2) by (intro exI [of _ i] exI [of _ j]) auto
  next
    case False
    then have T': "T' = T2" "us' = us" using run assms(3) e recorder_drop [of i T us] c(3) by simp_all
    have same: "tp_peers T' ! x = tp_peers T ! x" if "x \<noteq> i" for x using T'(1) recorded.dropPeer_keeps(4) [OF assms(1) e that] by simp
    have "j < length (tp_peers T')" using T'(1) calm_length [OF ke(2)] j(1) by simp
    then have "findPeer ?n T' = Some j" using findPeer_ready [OF ok', of j ?n] same [OF c(2)] j by simp
    moreover have "pe_outbound (tp_peers T' ! j) = (tp_selfId T < ?n)" using same [OF c(2)] c(5) False by auto
    moreover have "pe_state (tp_peers T' ! i) = Disconnected" using T'(1) ke(3) c(1) by simp
    ultimately show ?thesis using T'(2) same c(2) by (intro exI [of _ j] exI [of _ i]) auto
  qed
qed

text \<open>C30: Two nodes that dialled each other at the same time keep the same connection. On both nodes the second
  handshake meets a ready connection to the other node, opened from the other side. Both then have
  exactly one ready connection to the other, the loser is closed without touching further peers, and
  the survivor is the connection dialled by the node with the smaller id: outbound on one node and
  inbound on the other.\<close>
theorem tiebreak_agrees:
  assumes "tp_ok A" and "tp_ok B" and "tp_selfId A \<noteq> tp_selfId B"
    and "clash A i j hb" and "he_nodeId hb = tp_selfId B" and "clash B i' j' ha" and "he_nodeId ha = tp_selfId A"
    and "handleHello recorder i hb (A, us) = (ga, A', us')" and "handleHello recorder i' ha (B, vs) = (gb, B', vs')"
  shows "\<exists>k k'. findPeer (tp_selfId B) A' = Some k \<and> findPeer (tp_selfId A) B' = Some k' \<and>
    pe_outbound (tp_peers A' ! k) = (tp_selfId A < tp_selfId B) \<and> pe_outbound (tp_peers B' ! k') = (tp_selfId B < tp_selfId A) \<and>
    pe_outbound (tp_peers A' ! k) = (\<not> pe_outbound (tp_peers B' ! k')) \<and> k \<in> {i, j} \<and> k' \<in> {i', j'} \<and>
    (\<forall>l\<in>{i, j} - {k}. pe_state (tp_peers A' ! l) = Disconnected) \<and> (\<forall>l\<in>{i', j'} - {k'}. pe_state (tp_peers B' ! l) = Disconnected)"
proof -
  from clash_resolved [OF assms(1,4,8)] obtain k l where a: "{k, l} = {i, j}" "pe_outbound (tp_peers A' ! k) = (tp_selfId A < tp_selfId B)"
    "findPeer (tp_selfId B) A' = Some k" "pe_state (tp_peers A' ! l) = Disconnected" using assms(5) by auto
  from clash_resolved [OF assms(2,6,9)] obtain k' l' where b: "{k', l'} = {i', j'}" "pe_outbound (tp_peers B' ! k') = (tp_selfId B < tp_selfId A)"
    "findPeer (tp_selfId A) B' = Some k'" "pe_state (tp_peers B' ! l') = Disconnected" using assms(7) by auto
  have "(tp_selfId A < tp_selfId B) = (\<not> tp_selfId B < tp_selfId A)" using assms(3) by auto
  moreover have "k \<in> {i, j}" "k' \<in> {i', j'}" using a(1) b(1) by blast+
  moreover have "\<forall>x\<in>{i, j} - {k}. pe_state (tp_peers A' ! x) = Disconnected" using a(1,4) by blast
  moreover have "\<forall>x\<in>{i', j'} - {k'}. pe_state (tp_peers B' ! x) = Disconnected" using b(1,4) by blast
  ultimately show ?thesis using a(2,3) b(2,3) by (intro exI [of _ k] exI [of _ k'] conjI) simp_all
qed

definition hello_from :: "NodeId \<Rightarrow> HelloMsg" where
  "hello_from n = \<lparr>he_nodeId = n, he_protocolVersion = kVersion, he_advertisedAddress = []\<rparr>"

theorem tiebreak_agrees_witness:
  "\<exists>A' B' ga gb us vs k k'.
     handleHello recorder 1 (hello_from 2) (two_peers 1 (open_peer 2 True Ready [] []) (open_peer 0 False Handshaking [] []), []) = (ga, A', us) \<and>
     handleHello recorder 0 (hello_from 1) (two_peers 2 (open_peer 1 True Handshaking [] []) (open_peer 1 False Ready [] []), []) = (gb, B', vs) \<and>
     findPeer 2 A' = Some k \<and> pe_outbound (tp_peers A' ! k) \<and> findPeer 1 B' = Some k' \<and> \<not> pe_outbound (tp_peers B' ! k')"
proof -
  let ?A = "two_peers 1 (open_peer 2 True Ready [] []) (open_peer 0 False Handshaking [] [])"
  let ?B = "two_peers 2 (open_peer 1 True Handshaking [] []) (open_peer 1 False Ready [] [])"
  obtain ga A' us where a: "handleHello recorder 1 (hello_from 2) (?A, []) = (ga, A', us)" by (metis surj_pair)
  obtain gb B' vs where b: "handleHello recorder 0 (hello_from 1) (?B, []) = (gb, B', vs)" by (metis surj_pair)
  have ok: "tp_ok ?A" "tp_ok ?B"
    by (simp_all add: tp_ok_alt clash_free_def two_peers_def open_peer_ok) (simp_all add: open_peer_def)
  have c: "clash ?A 1 0 (hello_from 2)" "clash ?B 0 1 (hello_from 1)"
    by (simp_all add: clash_def two_peers_def open_peer_def findPeer_def hello_from_def)
  have id: "tp_selfId ?A = 1" "tp_selfId ?B = 2" "he_nodeId (hello_from n) = n" for n
    by (simp_all add: two_peers_def new_transport_def hello_from_def)
  from tiebreak_agrees [OF ok _ c(1) _ c(2) _ a b] have "\<exists>k k'. findPeer 2 A' = Some k \<and> pe_outbound (tp_peers A' ! k) \<and>
      findPeer 1 B' = Some k' \<and> \<not> pe_outbound (tp_peers B' ! k')" unfolding id by simp blast
  with a b show ?thesis by blast
qed

section \<open>Sending\<close>

text \<open>C32: What \<open>send\<close> answers. It is not connected exactly if there is no ready connection to the node, or
  the connection failed while queued bytes were written. Otherwise the connection's queue loses
  bytes only from its front, and gains the whole encoded message at its end if the answer is \<open>SendOk\<close> and nothing
  otherwise; an accepted message never lets the queue reach the high-water mark by more than its
  own length, and a refusal for overflow means that the mark is reached even after writing.\<close>
theorem send_result:
  assumes "transport_client h" and "tp_ok T" and "tp_send net h to m (T, a) = (r, T', a')"
  shows "case findPeer to T of
      None \<Rightarrow> r = NotConnected \<and> T' = T \<and> a' = a
    | Some i \<Rightarrow>
        (let old = fw_data (pe_writer (tp_peers T ! i)); new = fw_data (pe_writer (tp_peers T' ! i)); mark = fw_highWaterMark (pe_writer (tp_peers T ! i)) in
         case r of
           SendOk \<Rightarrow> (\<exists>k. new = drop k (old @ encode m [])) \<and> length new < mark + length (encode m [])
         | WouldOverflow \<Rightarrow> (\<exists>k. new = drop k old) \<and> mark \<le> length new
         | NotConnected \<Rightarrow> (\<exists>k. new = drop k old) \<and> pe_state (tp_peers T' ! i) = Disconnected)"
proof (cases "findPeer to T")
  case None
  then show ?thesis using assms(3) by (simp add: tp_send_def)
next
  case (Some i)
  note o = transport_client.send_outcome [OF assms Some]
  show ?thesis
  proof (cases r)
    case SendOk
    then show ?thesis using o(1) Some by auto
  next
    case WouldOverflow
    then show ?thesis using o(2,3) Some by simp
  next
    case NotConnected
    then show ?thesis using o(2,4) Some by simp
  qed
qed

definition idle_net :: Net where
  "idle_net = \<lparr>ne_ok = (\<lambda>_. Some EAGAIN), ne_read = (\<lambda>_. ReadErrno EAGAIN), ne_send = (\<lambda>_. SendErrno EAGAIN),
     ne_poll = (\<lambda>_. PollReady [\<lparr>pv_error = False, pv_out = True, pv_in = True\<rparr>]), ne_port = (\<lambda>_. 7000), ne_inet_pton = (\<lambda>_. True)\<rparr>"

theorem send_result_witness:
  "\<exists>T' a'. tp_send idle_net recorder 2 demo_vote (two_peers 1 (open_peer 2 True Ready [] (replicate 110 0)) (open_peer 0 False Handshaking [] []), []) =
     (WouldOverflow, T', a') \<and> 100 \<le> length (fw_data (pe_writer (tp_peers T' ! 0)))"
proof -
  let ?T = "two_peers 1 (open_peer 2 True Ready [] (replicate 110 0)) (open_peer 0 False Handshaking [] [])"
  obtain r T' a' where s: "tp_send idle_net recorder 2 demo_vote (?T, []) = (r, T', a')" by (metis surj_pair)
  have ok: "tp_ok ?T" by (simp add: tp_ok_alt clash_free_def two_peers_def open_peer_ok) (simp add: open_peer_def)
  have f: "findPeer 2 ?T = Some 0" by (simp add: findPeer_def two_peers_def open_peer_def)
  have w: "handleWritable idle_net recorder 0 (?T, []) = (tp_count (\<lambda>s. s\<lparr>ts_shortWrites := ts_shortWrites s + 1\<rparr>) (?T\<lparr>tp_calls := 1\<rparr>), [])"
    by (subst handleWritable.simps) (simp add: sock_write_def idle_net_def two_peers_def open_peer_def fw_size_def new_transport_def)
  have p: "pe_sock (tp_peers ?T ! 0)" "fw_overHighWaterMark (writer ?T 0)"
    by (simp_all add: two_peers_def open_peer_def fw_size_def fw_overHighWaterMark_def)
  have "r = WouldOverflow" using s f p by (simp add: tp_send_def w Let_def)
  with send_result [OF recorded.transport_client_axioms ok s] f s show ?thesis
    by (auto simp: Let_def two_peers_def open_peer_def)
qed

section \<open>Polling returns\<close>

text \<open>\<open>poll\<close> returns. For every reachable state, every client that keeps the contract of the callbacks and every
  network that from some call on has nothing more to accept and to read (whatever it delivered
  before, malformed bytes included), the loops that accept, read, drain and write all end.\<close>
theorem poll_terminates:
  assumes "transport_client h" and "tp_reachable h W" and "\<forall>c\<ge>k. ne_ok net c \<noteq> None \<and> (\<exists>err. ne_read net c = ReadErrno err)"
  shows "\<exists>ok W'. tp_poll net h W = Some (ok, W') \<and> tp_reachable h W'"
proof -
  have "falls_silent net k" using assms(3) by (simp add: falls_silent_def)
  from transport_client.poll_returns [OF assms(1) transport_client.reachable_ok [OF assms(1,2)] this]
  obtain ok W' where "tp_poll net h W = Some (ok, W')" by fastforce
  with tp_reachable.poll [OF assms(2)] show ?thesis by blast
qed

theorem poll_terminates_witness:
  "\<exists>ok W'. tp_poll idle_net recorder (new_transport 1 7001, []) = Some (ok, W') \<and> tp_reachable recorder W'"
  by (rule poll_terminates [OF recorded.transport_client_axioms tp_reachable.new, of 0]) (simp add: idle_net_def)

section \<open>Delivery\<close>

lemma frame_step_message:
  assumes "msg_ok m"
  shows "frame_step (encode m [] @ rest) = Some (frame_of m, rest)"
proof -
  have "encode m [] = frame_header (fr_type (frame_of m)) (of_nat (length (fr_payload (frame_of m)))) @ fr_payload (frame_of m)"
    by (simp add: encode_frame frame_of_def)
  with ms.step_enc [OF frame_of_good [OF assms], of rest] show ?thesis by simp
qed

text \<open>A connection whose unread bytes are \<open>bs\<close>.\<close>

definition holds_bytes :: "Transport \<Rightarrow> nat \<Rightarrow> Buffer \<Rightarrow> bool" where
  "holds_bytes T i bs \<longleftrightarrow> i < length (tp_peers T) \<and> frd_wf (pe_reader (tp_peers T ! i)) \<and> \<not> frd_failed (pe_reader (tp_peers T ! i)) \<and>
     unread (pe_reader (tp_peers T ! i)) = bs"

lemma take_frame_message:
  assumes "holds_bytes T i (encode m [] @ rest)" and "msg_ok m"
  obtains r where "take_frame i T = (Some (frame_of m), upd_peer i (\<lambda>p. p\<lparr>pe_reader := r\<rparr>) T)" and "frd_wf r" and "\<not> frd_failed r" and "unread r = rest"
proof -
  let ?r = "pe_reader (tp_peers T ! i)"
  have r: "frd_wf ?r" "\<not> frd_failed ?r" "frame_step (unread ?r) = Some (frame_of m, rest)"
    using assms frame_step_message [OF assms(2), of rest] by (simp_all add: holds_bytes_def)
  note step = frd_next_step [OF r(1,2)]
  show thesis
  proof (rule that [of "snd (frd_next ?r)"])
    show "take_frame i T = (Some (frame_of m), upd_peer i (\<lambda>p. p\<lparr>pe_reader := snd (frd_next ?r)\<rparr>) T)"
      using step(1) r(3) by (simp add: take_frame_def split_beta)
    show "frd_wf (snd (frd_next ?r))" "unread (snd (frd_next ?r)) = rest" using step(2,4) r(3) by simp_all
    show "\<not> frd_failed (snd (frd_next ?r))" using step(3) frame_step_status [OF r(3)] by (simp add: frd_failed_def)
  qed
qed

text \<open>Taking a decodable first frame.\<close>

lemma drain_first:
  assumes "holds_bytes T i (encode m [] @ rest)" and "msg_ok m"
  obtains T1 where "holds_bytes T1 i rest" and "pe_state (tp_peers T1 ! i) = pe_state (tp_peers T ! i)"
    and "pe_id (tp_peers T1 ! i) = pe_id (tp_peers T ! i)" and "pe_outbound (tp_peers T1 ! i) = pe_outbound (tp_peers T ! i)"
    and "\<forall>k. k \<noteq> i \<longrightarrow> tp_peers T1 ! k = tp_peers T ! k" and "findPeer n T1 = findPeer n T"
    and "ts_messagesReceived (tp_stats T1) = ts_messagesReceived (tp_stats T) + 1"
    and "drainStep h i (T, a) = (case get_hello m of Some hello \<Rightarrow> handleHello h i hello (T1, a)
        | None \<Rightarrow> if pe_state (tp_peers T1 ! i) \<noteq> Ready then (False, dropPeer h i (T1, a))
            else (True, h (Received (pe_id (tp_peers T1 ! i)) m) (T1, a)))"
proof -
  obtain r where r: "take_frame i T = (Some (frame_of m), upd_peer i (\<lambda>p. p\<lparr>pe_reader := r\<rparr>) T)" "frd_wf r" "\<not> frd_failed r" "unread r = rest"
    using take_frame_message [OF assms] .
  have dec: "decodeBody (fr_type (frame_of m)) (fr_payload (frame_of m)) = Some m" using assms(2) by (simp add: decodeBody_iff frame_of_def)
  have ok: "i < length (tp_peers T)" "\<not> frd_failed (pe_reader (tp_peers T ! i))" using assms(1) by (simp_all add: holds_bytes_def)
  have "find_ready n k (ps[i := (ps ! i)\<lparr>pe_reader := r\<rparr>]) = find_ready n k ps" if "i < length ps" for i k ps
    using that by (induction ps arbitrary: i k) (auto split: nat.split)
  then have f: "findPeer n (tp_count g (upd_peer i (\<lambda>p. p\<lparr>pe_reader := r\<rparr>) T)) = findPeer n T" for g using ok(1) by (simp add: findPeer_def)
  show thesis
    by (rule that [of "tp_count (\<lambda>s. s\<lparr>ts_messagesReceived := ts_messagesReceived s + 1\<rparr>) (upd_peer i (\<lambda>p. p\<lparr>pe_reader := r\<rparr>) T)"])
      (use r dec ok f in \<open>simp_all add: drainStep_def Let_def holds_bytes_def split: option.split, simp add: tp_count_def upd_peer_def\<close>)
qed

text \<open>One message of a ready connection goes to the client.\<close>

lemma drain_message:
  assumes "holds_bytes T i (encode m [] @ rest)" and "msg_ok m" and "get_hello m = None" and "pe_state (tp_peers T ! i) = Ready"
  obtains T' where "drainStep recorder i (T, us) = (True, T', us @ [Received (pe_id (tp_peers T ! i)) m])" and "holds_bytes T' i rest"
    and "pe_state (tp_peers T' ! i) = Ready" and "pe_id (tp_peers T' ! i) = pe_id (tp_peers T ! i)"
    and "ts_messagesReceived (tp_stats T') = ts_messagesReceived (tp_stats T) + 1"
  by (rule drain_first [OF assms(1,2), of 0 recorder us]) (use assms(3,4) that in \<open>simp add: recorder_def\<close>)

lemma drain_messages:
  assumes "holds_bytes T i (concat (map (\<lambda>m. encode m []) ms) @ rest)" and "\<forall>m\<in>set ms. msg_ok m \<and> get_hello m = None"
    and "pe_state (tp_peers T ! i) = Ready" and "frame_step rest = None" and "stream_status rest = StatusOk"
  shows "\<exists>T'. drainFrames recorder i (T, us) = Some (T', us @ map (Received (pe_id (tp_peers T ! i))) ms) \<and> holds_bytes T' i rest \<and>
    pe_state (tp_peers T' ! i) = Ready \<and> ts_messagesReceived (tp_stats T') = ts_messagesReceived (tp_stats T) + of_nat (length ms)"
  using assms(1-3)
proof (induction ms arbitrary: T us)
  case Nil
  let ?r = "pe_reader (tp_peers T ! i)"
  have r: "frd_wf ?r" "\<not> frd_failed ?r" "unread ?r = rest" "i < length (tp_peers T)" using Nil.prems(1) by (simp_all add: holds_bytes_def)
  note step = frd_next_step [OF r(1,2), unfolded r(3)]
  let ?T = "upd_peer i (\<lambda>p. p\<lparr>pe_reader := snd (frd_next ?r)\<rparr>) T"
  have "take_frame i T = (None, ?T)" using step(1) assms(4) by (simp add: take_frame_def split_beta)
  then have "drainStep recorder i (T, us) = (False, ?T, us)" using r(2,4) step(3) assms(5) by (simp add: drainStep_def frd_failed_def)
  then have "drainFrames recorder i (T, us) = Some (?T, us)" by (subst drainFrames.simps) simp
  moreover have "holds_bytes ?T i rest" using r(4) step assms(4,5) by (simp add: holds_bytes_def frd_failed_def)
  ultimately show ?case using r(4) Nil.prems(3) by (simp add: upd_peer_def)
next
  case (Cons m ms)
  from Cons.prems have m: "holds_bytes T i (encode m [] @ concat (map (\<lambda>m. encode m []) ms) @ rest)" "msg_ok m" "get_hello m = None" by simp_all
  obtain T1 where T1: "drainStep recorder i (T, us) = (True, T1, us @ [Received (pe_id (tp_peers T ! i)) m])"
    "holds_bytes T1 i (concat (map (\<lambda>m. encode m []) ms) @ rest)" "pe_state (tp_peers T1 ! i) = Ready"
    "pe_id (tp_peers T1 ! i) = pe_id (tp_peers T ! i)" "ts_messagesReceived (tp_stats T1) = ts_messagesReceived (tp_stats T) + 1"
    using drain_message [OF m Cons.prems(3), of us] .
  have run: "drainFrames recorder i (T, us) = drainFrames recorder i (T1, us @ [Received (pe_id (tp_peers T ! i)) m])"
    using T1(1) by (subst drainFrames.simps) simp
  from Cons.IH [OF T1(2) _ T1(3), of "us @ [Received (pe_id (tp_peers T ! i)) m]"] Cons.prems(2) show ?case
    unfolding run by (auto simp: T1(4,5))
qed

text \<open>C31: A connection that introduces itself properly is heard. The unread bytes of a connection in its
  handshake are a \<open>Hello\<close> of the right version from a node without another ready connection, then the encodings of
  messages, then an incomplete frame. Draining them reports the node as up under the address it
  advertised and hands every message to the client, once, in order and under the node's id;
  the connection is ready and the incomplete frame stays buffered.\<close>
theorem session_delivers:
  assumes "holds_bytes T i (encode (Hello hello) [] @ concat (map (\<lambda>m. encode m []) ms) @ rest)"
    and "pe_state (tp_peers T ! i) = Handshaking" and "pe_outbound (tp_peers T ! i) \<longrightarrow> pe_id (tp_peers T ! i) = he_nodeId hello"
    and "findPeer (he_nodeId hello) T = None" and "he_protocolVersion hello = kVersion" and "msg_ok (Hello hello)"
    and "\<forall>m\<in>set ms. msg_ok m \<and> get_hello m = None" and "frame_step rest = None" and "stream_status rest = StatusOk"
  shows "\<exists>T'. drainFrames recorder i (T, us) =
      Some (T', us @ PeerUp (he_nodeId hello) (he_advertisedAddress hello) # map (Received (he_nodeId hello)) ms) \<and>
    holds_bytes T' i rest \<and> pe_state (tp_peers T' ! i) = Ready"
proof -
  obtain T1 where T1: "holds_bytes T1 i (concat (map (\<lambda>m. encode m []) ms) @ rest)" "pe_id (tp_peers T1 ! i) = pe_id (tp_peers T ! i)"
    "pe_outbound (tp_peers T1 ! i) = pe_outbound (tp_peers T ! i)" "findPeer (he_nodeId hello) T1 = findPeer (he_nodeId hello) T"
    "drainStep recorder i (T, us) = handleHello recorder i hello (T1, us)"
    using drain_first [OF assms(1,6), of "he_nodeId hello" recorder us] by (metis get_hello.simps(1) option.simps(5))
  let ?T2 = "upd_peer i (\<lambda>p. p\<lparr>pe_id := he_nodeId hello, pe_state := Ready\<rparr>) T1"
  let ?us = "us @ [PeerUp (he_nodeId hello) (he_advertisedAddress hello)]"
  have "handleHello recorder i hello (T1, us) = (True, ?T2, ?us)" using assms(3-5) T1(2-4) by (simp add: handleHello_def Let_def recorder_def)
  then have run: "drainFrames recorder i (T, us) = drainFrames recorder i (?T2, ?us)" using T1(5) by (subst drainFrames.simps) simp
  have i: "i < length (tp_peers T1)" using T1(1) by (simp add: holds_bytes_def)
  have h: "holds_bytes ?T2 i (concat (map (\<lambda>m. encode m []) ms) @ rest)" using T1(1) i by (simp add: holds_bytes_def)
  from drain_messages [OF h assms(7) _ assms(8,9), of ?us] i show ?thesis unfolding run by auto
qed

theorem session_delivers_witness:
  "\<exists>T'. drainFrames recorder 0 (two_peers 1 (open_peer 0 False Handshaking (encode (Hello (hello_from 2)) [] @ encode demo_vote [] @ [0x31]) []) (open_peer 3 True Ready [] []), []) =
     Some (T', [PeerUp 2 [], Received 2 demo_vote])"
proof -
  let ?T = "two_peers 1 (open_peer 0 False Handshaking (encode (Hello (hello_from 2)) [] @ encode demo_vote [] @ [0x31]) []) (open_peer 3 True Ready [] [])"
  have b: "holds_bytes ?T 0 (encode (Hello (hello_from 2)) [] @ concat (map (\<lambda>m. encode m []) [demo_vote]) @ [0x31])"
    by (simp add: holds_bytes_def two_peers_def open_peer_def frd_wf_def frd_failed_def unread_def)
  have "pe_state (tp_peers ?T ! 0) = Handshaking" "\<not> pe_outbound (tp_peers ?T ! 0)" "findPeer 2 ?T = None"
    by (simp_all add: two_peers_def open_peer_def findPeer_def)
  then show ?thesis using session_delivers [OF b, of "[]"]
    by (simp add: hello_from_def demo_vote_def frame_step_def stream_status_def kHeaderSize_def kMaxAddressLen_def) blast
qed

text \<open>A connection that does not introduce itself properly is closed. If the first unread frame of a
  connection in its handshake is any other message, a \<open>Hello\<close> of another protocol version, or, on a dialled
  connection, a \<open>Hello\<close> of another node than the one dialled, then draining closes the connection, throws away
  everything else it sent, and calls the client for nothing.\<close>
theorem bad_handshake_dropped:
  assumes "holds_bytes T i (encode m [] @ rest)" and "msg_ok m" and "pe_state (tp_peers T ! i) = Handshaking"
    and "case m of Hello hello \<Rightarrow> he_protocolVersion hello \<noteq> kVersion \<or> pe_outbound (tp_peers T ! i) \<and> pe_id (tp_peers T ! i) \<noteq> he_nodeId hello | _ \<Rightarrow> True"
  shows "\<exists>T'. drainFrames recorder i (T, us) = Some (T', us) \<and> holds_bytes T' i [] \<and> pe_state (tp_peers T' ! i) = Disconnected \<and>
    \<not> pe_sock (tp_peers T' ! i) \<and> (\<forall>k. k \<noteq> i \<longrightarrow> tp_peers T' ! k = tp_peers T ! k)"
proof (rule drain_first [OF assms(1,2), of 0 recorder us])
  fix T1
  assume T1: "holds_bytes T1 i rest" "pe_state (tp_peers T1 ! i) = pe_state (tp_peers T ! i)" "pe_id (tp_peers T1 ! i) = pe_id (tp_peers T ! i)"
    "pe_outbound (tp_peers T1 ! i) = pe_outbound (tp_peers T ! i)" "\<forall>k. k \<noteq> i \<longrightarrow> tp_peers T1 ! k = tp_peers T ! k"
    and step: "drainStep recorder i (T, us) = (case get_hello m of Some hello \<Rightarrow> handleHello recorder i hello (T1, us)
        | None \<Rightarrow> if pe_state (tp_peers T1 ! i) \<noteq> Ready then (False, dropPeer recorder i (T1, us))
            else (True, recorder (Received (pe_id (tp_peers T1 ! i)) m) (T1, us)))"
  have "drainStep recorder i (T, us) = (False, dropPeer recorder i (T1, us))"
    using assms(3,4) T1(2-4) step by (cases m) (auto simp: handleHello_def Let_def)
  then have "drainFrames recorder i (T, us) = Some (dropPeer recorder i (T1, us))" by (subst drainFrames.simps) simp
  also have "dropPeer recorder i (T1, us) = (fst (dropPeer recorder i (T1, us)), us)"
    by (subst recorder_drop) (use assms(3) T1(2) in simp)
  finally show ?thesis using T1(1,5)
    by (simp add: recorded.dropPeer_eq holds_bytes_def frd_wf_def frd_reset_def frd_failed_def unread_def)
qed

theorem bad_handshake_dropped_witness:
  "\<exists>T'. drainFrames recorder 0 (two_peers 1 (open_peer 0 False Handshaking (encode demo_vote [] @ [7, 7]) []) (open_peer 3 True Ready [] []), []) = Some (T', []) \<and>
     pe_state (tp_peers T' ! 0) = Disconnected"
proof -
  let ?T = "two_peers 1 (open_peer 0 False Handshaking (encode demo_vote [] @ [7, 7]) []) (open_peer 3 True Ready [] [])"
  have b: "holds_bytes ?T 0 (encode demo_vote [] @ [7, 7])"
    by (simp add: holds_bytes_def two_peers_def open_peer_def frd_wf_def frd_failed_def unread_def)
  have "pe_state (tp_peers ?T ! 0) = Handshaking" "msg_ok demo_vote" by (simp_all add: two_peers_def open_peer_def demo_vote_def)
  with bad_handshake_dropped [OF b, of "[]"] show ?thesis by (simp add: demo_vote_def) blast
qed

end
