(* ===== verification/Election_Properties.thy ===== *)
theory Election_Properties
  imports Election_Cluster
begin

text \<open>
  The properties of leader election: safety of the cluster, the local guarantees of the handlers,
  progress of a fair exchange, and the behaviours the node binary has to live with (a missing
  step-down notification, the vote lost on a restart).
\<close>

section \<open>A concrete cluster\<close>

definition demo_nodes :: "NodeId set" where "demo_nodes = {1, 2, 3}"

definition demo_peers :: "NodeId \<Rightarrow> NodeId list" where
  "demo_peers n = (if n = 1 then [2, 3] else if n = 2 then [1, 3] else [1, 2])"

definition demo_init :: Cluster where
  "demo_init = cluster_init demo_nodes demo_peers (\<lambda>_. default_election_config)"

definition demo_election :: "NodeId \<Rightarrow> Election" where
  "demo_election n = new_election n (demo_peers n) default_election_config"

text \<open>Node 1 times out, node 2 grants its vote, node 1 becomes the leader of term 1.\<close>

definition run1 :: Cluster where
  "run1 = after 1 0 0 (tick 1000 (setLastLogSeq 0 (cl_node demo_init 1)) []) demo_init"

definition run2 :: Cluster where
  "run2 = after 2 0 0 (onRequestVote \<lparr>rv_term = 1, rv_candidateId = 1, rv_lastLogSeq = 0\<rparr> 1001 (setLastLogSeq 0 (cl_node run1 2)) []) run1"

definition run3 :: Cluster where
  "run3 = after 1 0 0 (onVoteResponse \<lparr>vr_term = 1, vr_voterId = 2, vr_granted = True\<rparr> 1002 (cl_node run2 1) []) run2"

lemma demo_reachable: "reachable demo_nodes run3"
proof -
  have "reachable demo_nodes demo_init"
    unfolding demo_init_def by (rule reachable.init) (auto simp: demo_nodes_def demo_peers_def)
  moreover have "cluster_step demo_nodes demo_init run1"
    unfolding run1_def
    by (rule cluster_step.Tick [OF _ refl])
      (simp_all add: demo_nodes_def demo_init_def cluster_init_def setLastLogSeq_def)
  moreover have "cluster_step demo_nodes run1 run2"
  proof -
    have "(2, RequestVote \<lparr>rv_term = 1, rv_candidateId = 1, rv_lastLogSeq = 0\<rparr>) \<in>
        set (concat (map (action_message 1 0 0) (snd (tick 1000 (setLastLogSeq 0 (demo_election 1)) []))))"
      by code_simp
    then have "(2, RequestVote \<lparr>rv_term = 1, rv_candidateId = 1, rv_lastLogSeq = 0\<rparr>) \<in> cl_net run1"
      by (simp add: run1_def after_def demo_init_def cluster_init_def demo_election_def split_beta del: action_message.simps)
    then show ?thesis
      unfolding run2_def by (intro cluster_step.RecvRequestVote [OF _ _ refl]) (simp_all add: demo_nodes_def)
  qed
  moreover have "cluster_step demo_nodes run2 run3"
  proof -
    have "(1, VoteResponse \<lparr>vr_term = 1, vr_voterId = 2, vr_granted = True\<rparr>) \<in>
        set (concat (map (action_message 2 0 0) (snd (onRequestVote \<lparr>rv_term = 1, rv_candidateId = 1, rv_lastLogSeq = 0\<rparr> 1001
          (setLastLogSeq 0 (demo_election 2)) []))))"
      by code_simp
    moreover have "cl_node run1 2 = demo_election 2"
      by (simp add: run1_def after_def demo_init_def cluster_init_def demo_election_def split_beta)
    ultimately have "(1, VoteResponse \<lparr>vr_term = 1, vr_voterId = 2, vr_granted = True\<rparr>) \<in> cl_net run2"
      by (simp add: run2_def after_def split_beta del: action_message.simps)
    then show ?thesis
      unfolding run3_def by (intro cluster_step.RecvVoteResponse) (simp_all add: demo_nodes_def)
  qed
  ultimately show ?thesis by (meson reachable.step)
qed

lemma demo_won: "(1, 1) \<in> cl_won run3"
proof -
  have "list_ex (\<lambda>a. ac_kind a = BecameLeader \<and> ac_term a = 1)
      (snd (onVoteResponse \<lparr>vr_term = 1, vr_voterId = 2, vr_granted = True\<rparr> 1002
        (fst (tick 1000 (setLastLogSeq 0 (demo_election 1)) [])) []))"
    by code_simp
  moreover have "cl_node run2 1 = fst (tick 1000 (setLastLogSeq 0 (demo_election 1)) [])"
    by (simp add: run2_def run1_def after_def demo_init_def cluster_init_def demo_election_def split_beta)
  ultimately show ?thesis by (auto simp: run3_def after_def split_beta list_ex_iff)
qed

section \<open>Safety\<close>

text \<open>C8: Election safety. In every state a cluster can reach, with messages lost, duplicated, delayed
  and reordered at will and nodes timing out at any time, no two nodes have ever claimed leadership
  of the same term, and no two nodes consider themselves leader of the same term (provided no
  election is started at the maximal 64-bit term).\<close>
theorem election_safety:
  assumes "reachable ns C"
  shows "(\<forall>t c c'. (t, c) \<in> cl_won C \<and> (t, c') \<in> cl_won C \<longrightarrow> c = c') \<and>
    (\<forall>a\<in>ns. \<forall>b\<in>ns. el_role (cl_node C a) = Leader \<and> el_role (cl_node C b) = Leader \<and>
       el_currentTerm (cl_node C a) = el_currentTerm (cl_node C b) \<longrightarrow> a = b)"
proof -
  have inv: "cluster_inv ns C" using assms by (rule reachable_inv)
  have "c = c'" if "(t, c) \<in> cl_won C" "(t, c') \<in> cl_won C" for t c c'
    using inv that elected_unique [of ns "cl_cast C" t c c'] by (simp add: cluster_inv_def)
  moreover have "a = b" if "a \<in> ns" "b \<in> ns" "el_role (cl_node C a) = Leader" "el_role (cl_node C b) = Leader"
    "el_currentTerm (cl_node C a) = el_currentTerm (cl_node C b)" for a b
  proof -
    have "node_inv ns (cl_cast C) a (cl_node C a)" "node_inv ns (cl_cast C) b (cl_node C b)"
      using inv that(1,2) by (auto simp: cluster_inv_def)
    then have "elected ns (cl_cast C) (el_currentTerm (cl_node C b)) a" "elected ns (cl_cast C) (el_currentTerm (cl_node C b)) b"
      using leader_elected that by metis+
    then show ?thesis by (rule elected_unique)
  qed
  ultimately show ?thesis by blast
qed

theorem election_safety_witness:
  "reachable demo_nodes run3 \<and> {c. (1, c) \<in> cl_won run3} = {1}"
  using election_safety [OF demo_reachable] demo_reachable demo_won by blast

text \<open>Terms never go backwards and votes are never changed. In any step of a reachable cluster
  every node's term stays or grows, and within one term a vote once given is kept.\<close>
theorem terms_and_votes_stable:
  assumes "reachable ns C" and "cluster_step ns C C'" and "n \<in> ns"
  shows "el_currentTerm (cl_node C n) \<le> el_currentTerm (cl_node C' n) \<and>
    (el_currentTerm (cl_node C' n) = el_currentTerm (cl_node C n) \<and> el_votedFor (cl_node C n) \<noteq> None \<longrightarrow>
       el_votedFor (cl_node C' n) = el_votedFor (cl_node C n))"
proof -
  have inv: "cluster_inv ns C" "cluster_inv ns C'"
    using assms(1,2) reachable_inv reachable.step by blast+
  obtain k s c e s' e' acts g where C': "C' = after k s c (e', acts) C" and st: "local_step g e e' acts"
    and "e = setLastLogSeq s' (cl_node C k)"
    using assms(2) inv(1) by (rule cluster_step_cases)
  then have e: "el_currentTerm e = el_currentTerm (cl_node C k)" "el_votedFor e = el_votedFor (cl_node C k)"
    by (simp_all add: setLastLogSeq_def)
  show ?thesis
  proof (cases "n = k")
    case True
    with C' st e show ?thesis by (auto simp: after_def local_step_def)
  next
    case False
    with C' show ?thesis by (simp add: after_def)
  qed
qed

theorem terms_and_votes_stable_witness:
  "\<exists>C'. cluster_step demo_nodes run3 C' \<and> el_currentTerm (cl_node run3 2) \<le> el_currentTerm (cl_node C' 2)"
proof -
  have n: "2 \<in> demo_nodes" by (simp add: demo_nodes_def)
  have st: "cluster_step demo_nodes run3 (after 2 0 0 (onAppendEntries 5 1 1010 (cl_node run3 2) []) run3)"
    using n by (rule cluster_step.RecvAppendEntries)
  from terms_and_votes_stable [OF demo_reachable st n] st show ?thesis by blast
qed

section \<open>Decisions\<close>

text \<open>How a vote request is answered. After adopting a higher term, a node answers with its term
  and grants exactly when the candidate's term is not behind, it has not voted for somebody else in
  that term, and the candidate's log is not shorter than its own; a granted vote is remembered, and
  a refusal leaves the vote as it was.\<close>
theorem request_vote_decision:
  "\<exists>e' granted. onRequestVote msg now e out = (e', out @ [\<lparr>ac_kind = SendVoteResponse, ac_to = rv_candidateId msg,
      ac_term = max (el_currentTerm e) (rv_term msg), ac_lastLogSeq = 0, ac_voteGranted = granted\<rparr>]) \<and>
    (granted \<longleftrightarrow> el_currentTerm e \<le> rv_term msg \<and> el_lastLogSeq e \<le> rv_lastLogSeq msg \<and>
       (el_currentTerm e < rv_term msg \<or> el_votedFor e = None \<or> el_votedFor e = Some (rv_candidateId msg))) \<and>
    el_currentTerm e' = max (el_currentTerm e) (rv_term msg) \<and>
    el_votedFor e' = (if granted then Some (rv_candidateId msg)
      else if el_currentTerm e < rv_term msg then None else el_votedFor e)"
proof -
  obtain b e1 where o: "observeTerm (rv_term msg) now e = (b, e1)" by fastforce
  note f = observeTerm_facts [OF o]
  have ll: "el_lastLogSeq e1 = el_lastLogSeq e" using f(3) .
  show ?thesis
  proof (cases b)
    case True
    then have "el_currentTerm e < rv_term msg" "el_currentTerm e1 = rv_term msg" "el_votedFor e1 = None"
      using f(5,6,8) by (auto simp: max_def)
    then show ?thesis by (auto simp: onRequestVote_def o Let_def ll max_def not_less)
  next
    case False
    then have "e1 = e" "rv_term msg \<le> el_currentTerm e" using f(5,7) by auto
    then show ?thesis
      by (cases "el_votedFor e") (auto simp: onRequestVote_def o Let_def max_def not_less)
  qed
qed

text \<open>The randomised timeout lies in the configured range. Restarting the election timer, which
  happens on construction, on every new term, on every granted vote and on every heartbeat, sets
  the time base to now and the timeout to a value between the configured minimum and maximum
  (inclusive), whenever the minimum is at most the maximum and the range is not all of 64 bits.\<close>
theorem timeout_in_range:
  assumes "ec_electionTimeoutMin (el_config e) \<le> ec_electionTimeoutMax (el_config e)"
    and "ec_electionTimeoutMax (el_config e) - ec_electionTimeoutMin (el_config e) \<noteq> - 1"
  shows "el_lastHeardFromLeader (resetElectionTimer now e) = now \<and>
    ec_electionTimeoutMin (el_config e) \<le> el_electionTimeout (resetElectionTimer now e) \<and>
    el_electionTimeout (resetElectionTimer now e) \<le> ec_electionTimeoutMax (el_config e)"
proof -
  let ?lo = "ec_electionTimeoutMin (el_config e)" and ?hi = "ec_electionTimeoutMax (el_config e)"
  have "?lo \<le> ?lo + j \<and> ?lo + j \<le> ?hi" if "j \<le> ?hi - ?lo" for j
    using word_between [OF assms(1) that] by simp
  moreover have "x mod (?hi - ?lo + 1) \<le> ?hi - ?lo" for x
    using assms(2) by (rule word_mod_le)
  ultimately show ?thesis using assms(1)
    by (auto simp: resetElectionTimer_def nextRandom_def Let_def)
qed

theorem timeout_in_range_witness:
  "150 \<le> el_electionTimeout (resetElectionTimer 77 (demo_election 1)) \<and>
   el_electionTimeout (resetElectionTimer 77 (demo_election 1)) \<le> 300"
proof -
  have "el_config (demo_election 1) = default_election_config" by (simp add: demo_election_def new_election_def)
  then show ?thesis
    using timeout_in_range [of "demo_election 1" 77] by (simp add: default_election_config_def)
qed

section \<open>Progress\<close>

text \<open>The granted answers of the voters \<open>vs\<close>, handled one after the other.\<close>

fun collect_votes :: "NodeId list \<Rightarrow> Millis \<Rightarrow> Election \<Rightarrow> ActionList \<Rightarrow> Election \<times> ActionList" where
  "collect_votes [] now e out = (e, out)"
| "collect_votes (v # vs) now e out =
     (case onVoteResponse \<lparr>vr_term = el_currentTerm e, vr_voterId = v, vr_granted = True\<rparr> now e out of
        (e', out') \<Rightarrow> collect_votes vs now e' out')"

lemma vote_not_candidate:
  assumes "el_role e = Leader"
  shows "onVoteResponse \<lparr>vr_term = el_currentTerm e, vr_voterId = v, vr_granted = True\<rparr> now e out = (e, out)"
  using assms by (simp add: onVoteResponse_def observeTerm_def)

lemma collect_leader: "el_role e = Leader \<Longrightarrow> collect_votes vs now e out = (e, out)"
  by (induction vs) (simp_all add: vote_not_candidate)

lemma collect_candidate:
  assumes "el_role e = Candidate" and "distinct vs" and "set vs \<inter> set (el_votesGranted e) = {}"
    and "majority e \<le> length (el_votesGranted e) + length vs" and "\<not> majority e \<le> length (el_votesGranted e)"
  shows "\<exists>e' ws. collect_votes vs now e out = (e', out @ [\<lparr>ac_kind = BecameLeader, ac_to = el_self e, ac_term = el_currentTerm e,
      ac_lastLogSeq = 0, ac_voteGranted = False\<rparr>] @ heartbeats e) \<and> el_role e' = Leader \<and> el_currentTerm e' = el_currentTerm e \<and>
      el_votesGranted e' = el_votesGranted e @ ws \<and> set ws \<subseteq> set vs"
  using assms
proof (induction vs arbitrary: e)
  case (Cons v vs)
  define e1 where "e1 = e\<lparr>el_votesGranted := el_votesGranted e @ [v]\<rparr>"
  have m: "majority e1 = majority e" by (rule majority_peers) (simp add: e1_def)
  have h: "heartbeats e1 = heartbeats e" by (simp add: heartbeats_def e1_def)
  have step: "onVoteResponse \<lparr>vr_term = el_currentTerm e, vr_voterId = v, vr_granted = True\<rparr> now e out =
      (if majority e \<le> length (el_votesGranted e) + 1 then becomeLeader now e1 out else (e1, out))"
    using Cons.prems m by (simp add: onVoteResponse_def observeTerm_def e1_def)
  show ?case
  proof (cases "majority e \<le> length (el_votesGranted e) + 1")
    case True
    obtain e' out' where l: "becomeLeader now e1 out = (e', out')" by fastforce
    note f = becomeLeader_facts [OF l]
    have "collect_votes (v # vs) now e out = (e', out')" using step True l f(6) by (simp add: collect_leader)
    with f h show ?thesis by (intro exI [of _ e'] exI [of _ "[v]"]) (simp add: e1_def)
  next
    case False
    have "\<exists>e' ws. collect_votes vs now e1 out = (e', out @ [\<lparr>ac_kind = BecameLeader, ac_to = el_self e1, ac_term = el_currentTerm e1,
      ac_lastLogSeq = 0, ac_voteGranted = False\<rparr>] @ heartbeats e1) \<and> el_role e' = Leader \<and> el_currentTerm e' = el_currentTerm e1 \<and>
      el_votesGranted e' = el_votesGranted e1 @ ws \<and> set ws \<subseteq> set vs"
      by (rule Cons.IH) (use Cons.prems False m in \<open>auto simp: e1_def\<close>)
    then obtain e' ws where "collect_votes vs now e1 out = (e', out @ [\<lparr>ac_kind = BecameLeader, ac_to = el_self e1, ac_term = el_currentTerm e1,
      ac_lastLogSeq = 0, ac_voteGranted = False\<rparr>] @ heartbeats e1)" "el_role e' = Leader" "el_currentTerm e' = el_currentTerm e1"
      "el_votesGranted e' = el_votesGranted e1 @ ws" "set ws \<subseteq> set vs"
      by blast
    with step False h show ?thesis
      by (intro exI [of _ e'] exI [of _ "v # ws"]) (auto simp: e1_def)
  qed
qed simp

text \<open>C9: A candidate with enough support wins. A candidate that has only its own vote and receives
  granted answers for its term from distinct other nodes, enough to make a majority with itself,
  becomes leader of that term, announces it exactly once and sends a heartbeat to every peer;
  further answers change nothing.\<close>
theorem majority_elects:
  assumes "el_role e = Candidate" and "el_votesGranted e = [el_self e]" and "distinct vs" and "el_self e \<notin> set vs"
    and "majority e \<le> 1 + length vs" and "1 < majority e"
  shows "\<exists>e'. collect_votes vs now e [] = (e', \<lparr>ac_kind = BecameLeader, ac_to = el_self e, ac_term = el_currentTerm e,
      ac_lastLogSeq = 0, ac_voteGranted = False\<rparr> # map (\<lambda>p. \<lparr>ac_kind = SendHeartbeat, ac_to = p,
      ac_term = el_currentTerm e, ac_lastLogSeq = 0, ac_voteGranted = False\<rparr>) (el_peers e)) \<and>
    el_role e' = Leader \<and> el_currentTerm e' = el_currentTerm e"
  using collect_candidate [of e vs now "[]"] assms by (auto simp: heartbeats_def)

theorem majority_elects_witness:
  "\<exists>e'. el_role e' = Leader \<and> el_currentTerm e' = 1 \<and>
     fst (collect_votes [2, 3] 1005 (fst (tick 1000 (demo_election 1) [])) []) = e'"
proof -
  let ?e = "fst (tick 1000 (demo_election 1) [])"
  have c: "el_role ?e = Candidate" "el_votesGranted ?e = [el_self ?e]" "el_self ?e \<notin> set [2, 3]"
    "majority ?e \<le> 1 + length [2 :: NodeId, 3]" "1 < majority ?e" "el_currentTerm ?e = 1" "distinct [2 :: NodeId, 3]"
    by code_simp+
  from majority_elects [OF c(1,2,7,3,4,5), of 1005] c(6) show ?thesis by auto
qed

section \<open>What the application is not told\<close>

text \<open>A leader that learns of a higher term from a vote request, a vote response or an append
  message returns to follower of that term without emitting a step-down notification; only an
  append response produces one, and it does so for any node, leader or not.\<close>
theorem step_down_is_silent:
  assumes "el_currentTerm e < t"
  shows "(\<forall>a\<in>set (snd (onRequestVote \<lparr>rv_term = t, rv_candidateId = c, rv_lastLogSeq = l\<rparr> now e [])). ac_kind a \<noteq> SteppedDown) \<and>
    snd (onVoteResponse \<lparr>vr_term = t, vr_voterId = v, vr_granted = g\<rparr> now e []) = [] \<and>
    snd (onAppendEntries t d now e []) = [] \<and>
    el_role (fst (onRequestVote \<lparr>rv_term = t, rv_candidateId = c, rv_lastLogSeq = l\<rparr> now e [])) = Follower \<and>
    el_role (fst (onVoteResponse \<lparr>vr_term = t, vr_voterId = v, vr_granted = g\<rparr> now e [])) = Follower \<and>
    el_role (fst (onAppendEntries t d now e [])) = Follower \<and>
    map ac_kind (snd (onAppendResponse t now e [])) = [SteppedDown]"
proof -
  obtain b e1 where o: "observeTerm t now e = (b, e1)" by fastforce
  note f = observeTerm_facts [OF o]
  have b: "b" using f(5) assms by simp
  with f(6,8) assms have e1: "el_role e1 = Follower" "el_currentTerm e1 = t" "el_votedFor e1 = None" by auto
  have "\<not> t < el_currentTerm e" using assms by simp
  with o b e1 show ?thesis
    by (simp add: onRequestVote_def onVoteResponse_def onAppendEntries_def onAppendResponse_def Let_def)
qed

theorem step_down_is_silent_witness:
  "el_role (cl_node run3 1) = Leader \<and> snd (onAppendEntries 9 2 2000 (cl_node run3 1) []) = [] \<and>
   el_role (fst (onAppendEntries 9 2 2000 (cl_node run3 1) [])) = Follower"
proof -
  have n: "cl_node run3 1 = fst (onVoteResponse \<lparr>vr_term = 1, vr_voterId = 2, vr_granted = True\<rparr> 1002
      (fst (tick 1000 (setLastLogSeq 0 (demo_election 1)) [])) [])"
    by (simp add: run3_def run2_def run1_def after_def demo_init_def cluster_init_def demo_election_def split_beta)
  have "el_role (cl_node run3 1) = Leader" "el_currentTerm (cl_node run3 1) < 9" unfolding n by code_simp+
  with step_down_is_silent [of "cl_node run3 1" 9] show ?thesis by blast
qed

text \<open>C10: A restart forgets the vote. A node that has voted for somebody in a term and whose volatile
  state is then reset grants the same term again to any other candidate whose log is not shorter:
  one node, two votes in one term, so the safety of elections rests on not restarting without the
  persisted term and vote.\<close>
theorem restart_votes_twice:
  assumes "el_currentTerm e = t" and "el_votedFor e = Some c" and "c' \<noteq> c" and "0 < t" and "el_lastLogSeq e \<le> l"
  shows "(let (e', acts) = onRequestVote \<lparr>rv_term = t, rv_candidateId = c', rv_lastLogSeq = l\<rparr> now (resetVolatileState e) [] in
      el_currentTerm e' = t \<and> el_votedFor e' = Some c' \<and> map ac_voteGranted acts = [True]) \<and>
    (let (e', acts) = onRequestVote \<lparr>rv_term = t, rv_candidateId = c', rv_lastLogSeq = l\<rparr> now e [] in
      el_votedFor e' = Some c \<and> map ac_voteGranted acts = [False])"
  using assms
  by (auto simp: onRequestVote_def observeTerm_def resetVolatileState_def Let_def split_beta not_less)

theorem restart_votes_twice_witness:
  "let e = fst (onRequestVote \<lparr>rv_term = 1, rv_candidateId = 1, rv_lastLogSeq = 0\<rparr> 1001 (demo_election 2) []);
       (e', acts) = onRequestVote \<lparr>rv_term = 1, rv_candidateId = 3, rv_lastLogSeq = 0\<rparr> 1002 (resetVolatileState e) []
   in el_votedFor e = Some 1 \<and> el_votedFor e' = Some 3 \<and> map ac_voteGranted acts = [True]"
proof -
  let ?e = "fst (onRequestVote \<lparr>rv_term = 1, rv_candidateId = 1, rv_lastLogSeq = 0\<rparr> 1001 (demo_election 2) [])"
  have "el_currentTerm ?e = 1" "el_votedFor ?e = Some 1" "el_lastLogSeq ?e \<le> 0" by code_simp+
  with restart_votes_twice [of ?e 1 1 3 0 1002] show ?thesis by (simp add: Let_def split_beta)
qed

end
