(* ===== verification/Node_Properties.thy ===== *)
theory Node_Properties
  imports Node_Run Transport_Properties Election_Properties "HOL-Library.Multiset"
begin

text \<open>
  The properties of the whole node: its invariant over every run of the event loop, that a turn returns, how
  orders are fed, that the terms of election and replicator agree between turns; and two behaviours of the
  composition, a commit with two copies in a cluster of any size and a deposed leader that keeps writing.
\<close>

section \<open>Runs\<close>

lemma reachable_replay:
  assumes "app_reachable (T, Running A)"
  shows "replay (map le_command (take (unat (rp_lastApplied (ap_replicator A))) (lg_entries (rp_log (ap_replicator A))))) (new_engine kInstrument) = Some (rp_engine (ap_replicator A))"
    and "unat (rp_lastApplied (ap_replicator A)) \<le> length (lg_entries (rp_log (ap_replicator A)))" and "unat (rp_commitIndex (ap_replicator A)) \<le> length (lg_entries (rp_log (ap_replicator A)))"
    and "ap_nextOrder A \<le> length (ap_orders A)"
proof -
  let ?R = "ap_replicator A"
  obtain hist where inv: "rep_inv kInstrument hist ?R" and b: "log_base (rp_log ?R) = 0" and n: "ap_nextOrder A \<le> length (ap_orders A)"
    using app_reachable_keeps [OF assms] by (auto simp: app_ok_def rep_good_def)
  have h: "hist = map le_command (take (unat (rp_lastApplied ?R)) (lg_entries (rp_log ?R)))" "unat (rp_lastApplied ?R) \<le> length (lg_entries (rp_log ?R))"
    "rp_commitIndex ?R \<le> lg_lastSeq (rp_log ?R)" "log_ok (rp_log ?R)" using inv b by (auto simp: rep_inv_def)
  have "unat (lg_lastSeq (rp_log ?R)) = length (lg_entries (rp_log ?R))" using log_okD(1) [OF h(4)] b by simp
  then show "unat (rp_commitIndex ?R) \<le> length (lg_entries (rp_log ?R))" using h(3) by (simp add: word_le_nat_alt)
  have "replay hist (new_engine kInstrument) = Some (rp_engine ?R)" using inv state_after(1) by (simp add: rep_inv_def)
  then show "replay (map le_command (take (unat (rp_lastApplied ?R)) (lg_entries (rp_log ?R)))) (new_engine kInstrument) = Some (rp_engine ?R)" by (simp only: h(1) [symmetric])
  show "unat (rp_lastApplied ?R) \<le> length (lg_entries (rp_log ?R))" "ap_nextOrder A \<le> length (ap_orders A)" by (rule h(2), rule n)
qed

text \<open>C17: A node never fails and its engine is always the replay of its log. Whatever the network delivers and
  drops, whatever the clock shows and whichever role the node has or had, between turns of the event
  loop no assertion of the engine has failed; the engine is the state a fresh engine reaches on the commands of the
  first \<open>lastApplied\<close> entries of the log; the commit point is within the log; and every ready connection goes to a different node.\<close>
theorem node_replays_log:
  assumes "app_reachable (T, N)"
  shows "N \<noteq> Failed \<and> distinct (map pe_id (filter (\<lambda>p. pe_state p = Ready) (tp_peers T))) \<and>
    (\<forall>A. N = Running A \<longrightarrow>
      (let R = ap_replicator A in
       replay (map le_command (take (unat (rp_lastApplied R)) (lg_entries (rp_log R)))) (new_engine kInstrument) = Some (rp_engine R) \<and>
       unat (rp_lastApplied R) \<le> length (lg_entries (rp_log R)) \<and> unat (rp_commitIndex R) \<le> length (lg_entries (rp_log R)) \<and>
       ap_nextOrder A \<le> length (ap_orders A)))"
proof -
  have ok: "tp_ok T" "node_good N" using app_reachable_keeps [OF assms] by simp_all
  have "distinct (map pe_id (filter (\<lambda>p. pe_state p = Ready) (tp_peers T)))" using ok(1) by (simp add: tp_ok_alt ready_distinct)
  moreover have "N \<noteq> Failed" using ok(2) by auto
  ultimately show ?thesis using reachable_replay [of T] assms by (auto simp: Let_def)
qed

section \<open>A concrete node\<close>

definition quiet_net :: Net where
  "quiet_net = \<lparr>ne_ok = (\<lambda>c. if c < 6 then None else Some EAGAIN), ne_read = (\<lambda>_. ReadErrno EAGAIN), ne_send = (\<lambda>_. SendErrno EAGAIN),
     ne_poll = (\<lambda>_. PollTimeout), ne_port = (\<lambda>_. 7001), ne_inet_pton = (\<lambda>_. True)\<rparr>"

definition demo_options :: "bool \<Rightarrow> Options" where
  "demo_options elect = \<lparr>op_self = 1, op_role = Primary, op_mode = Asynchronous, op_syncWindow = 8, op_heartbeatCycles = 20,
     op_elect = elect, op_exitOnComplete = False\<rparr>"

definition demo_peers :: "NodeId list \<Rightarrow> PeerConfig list" where
  "demo_peers ns = map (\<lambda>n. \<lparr>pc_id = n, pc_host = ''127.0.0.1'', pc_port = 7000\<rparr>) ns"

definition demo_buy :: Command where
  "demo_buy = New \<lparr>no_id = 5, no_instrument = kInstrument, no_side = Buy, no_type = Limit, no_tif = GoodTillCancel, no_price = 100, no_quantity = 5\<rparr>"

definition demo_start :: "bool \<Rightarrow> NodeId list \<Rightarrow> Transport \<times> Node" where
  "demo_start elect ns = the (start_node quiet_net (demo_options elect) 7001 (demo_peers ns) [demo_buy])"

lemma demo_start_reachable: "app_reachable (demo_start elect ns)"
proof -
  have "sock_listen quiet_net 0 = (True, 6)" by code_simp
  then have "start_node quiet_net (demo_options elect) 7001 (demo_peers ns) [demo_buy] = Some (demo_start elect ns)"
    by (simp add: demo_start_def start_node_def tp_start_def new_transport_def Let_def)
  then show ?thesis by (rule app_reachable.start)
qed

theorem node_replays_log_witness: "snd (demo_start True [2, 3]) \<noteq> Failed"
  using node_replays_log [of "fst (demo_start True [2, 3])" "snd (demo_start True [2, 3])"] demo_start_reachable by simp

text \<open>A turn of the event loop returns, from every reachable state, with any clock and any network that from
  some call on has nothing more to accept or read, and its result is reachable again.\<close>
theorem node_cycle_returns:
  assumes "app_reachable W" and "\<forall>c\<ge>k. ne_ok net c \<noteq> None \<and> (\<exists>err. ne_read net c = ReadErrno err)"
  shows "\<exists>W'. node_cycle net clock W = Some W' \<and> app_reachable W'"
  by (rule silent_cycle [OF assms(1)]) (use assms(2) in \<open>simp add: falls_silent_def\<close>)

theorem node_cycle_returns_witness:
  "\<exists>W'. node_cycle quiet_net (\<lambda>_. 7) (demo_start True [2, 3]) = Some W' \<and> app_reachable W'"
  by (rule node_cycle_returns [OF demo_start_reachable, of 6]) (simp add: quiet_net_def)

text \<open>C34: Orders are submitted in the order of the file, none skipped and none twice. Whatever is refused on
  the way, a burst of at most \<open>b\<close> submissions appends the commands of the next \<open>k\<close> orders to the log, for some
  \<open>k\<close> up to \<open>b\<close>, all in the replicator's term, moves the position in the file by the same \<open>k\<close>, and leaves the older entries, the term and the role alone.\<close>
theorem orders_fed_in_sequence:
  assumes "app_reachable (T, Running A)" and "feed net b (T, A) = (T', Running A')"
  shows "\<exists>k es. k \<le> b \<and> ap_nextOrder A' = ap_nextOrder A + k \<and> ap_nextOrder A' \<le> length (ap_orders A) \<and> ap_orders A' = ap_orders A \<and>
    lg_entries (rp_log (ap_replicator A')) = lg_entries (rp_log (ap_replicator A)) @ es \<and>
    map le_command es = take k (drop (ap_nextOrder A) (ap_orders A)) \<and> (\<forall>e\<in>set es. le_term e = rp_term (ap_replicator A)) \<and>
    rp_term (ap_replicator A') = rp_term (ap_replicator A) \<and> rp_role (ap_replicator A') = rp_role (ap_replicator A)"
proof -
  have "app_ok A" using app_reachable_keeps [OF assms(1)] by simp
  from feed_spec [of "(T, A)" net b] this assms(2) have f: "fed b A A'" "app_ok A'" by simp_all
  then obtain R k where k: "A' = A\<lparr>ap_replicator := R, ap_nextOrder := ap_nextOrder A + k\<rparr>" "k \<le> b"
    "grew A A' (take k (drop (ap_nextOrder A) (ap_orders A)))" "rp_term (ap_replicator A') = rp_term (ap_replicator A)"
    "rp_role (ap_replicator A') = rp_role (ap_replicator A)" by (auto simp: fed_def)
  have "ap_nextOrder A' = ap_nextOrder A + k" "ap_orders A' = ap_orders A" using k(1) by simp_all
  moreover have "ap_nextOrder A' \<le> length (ap_orders A)" using f(2) k(1) by (simp add: app_ok_def)
  ultimately show ?thesis using k(2-5) by (auto simp: grew_def)
qed

definition demo_app :: "bool \<Rightarrow> NodeId list \<Rightarrow> Transport \<times> App" where
  "demo_app elect ns = (fst (demo_start elect ns), case snd (demo_start elect ns) of Running A \<Rightarrow> A)"

lemma demo_app_start: "demo_start elect ns = (fst (demo_app elect ns), Running (snd (demo_app elect ns)))"
proof -
  have "sock_listen quiet_net 0 = (True, 6)" by code_simp
  then have "\<exists>A. snd (demo_start elect ns) = Running A"
    by (simp add: demo_start_def start_node_def tp_start_def new_transport_def Let_def)
  then show ?thesis by (auto simp: demo_app_def) (metis Node.case(1) prod.collapse)
qed

lemma demo_app_eq:
  "snd (demo_app elect ns) = new_app (demo_options elect) (demo_peers ns) [demo_buy] (new_transport 1 7001)"
proof -
  have "sock_listen quiet_net 0 = (True, 6)" by code_simp
  then show ?thesis by (simp add: demo_app_def demo_start_def start_node_def tp_start_def new_transport_def Let_def demo_options_def)
qed

lemma demo_replicator:
  "ap_replicator (snd (demo_app elect ns)) = setSyncWindow 8 (new_replicator 1 (if elect then Backup else Primary) Asynchronous (new_engine kInstrument) new_log (new_transport 1 7001, []))"
  "ap_nextOrder (snd (demo_app elect ns)) = 0" "ap_orders (snd (demo_app elect ns)) = [demo_buy]"
  by (simp_all add: demo_app_eq new_app_def demo_options_def Let_def)

text \<open>A primary without backups accepts an order and sends nothing.\<close>

lemma submit_alone:
  assumes "rp_role R = Primary" and "rp_mode R = Asynchronous" and "rp_backups R = []" and "rp_clusterSize R \<noteq> 1"
  shows "submit tsend tsat cmd R = Some (\<lparr>sr_status = Accepted, sr_seq = fst (log_append cmd (rp_term R) (rp_log R))\<rparr>,
    rp_count (\<lambda>s. s\<lparr>st_submitted := st_submitted s + 1\<rparr>) (R\<lparr>rp_log := snd (log_append cmd (rp_term R) (rp_log R))\<rparr>))"
  using assms by (simp add: submit_def Let_def split_beta each_backup_def)

definition demo_submitted :: "Transport \<Rightarrow> App \<Rightarrow> App" where
  "demo_submitted T A = A\<lparr>ap_replicator := rp_count (\<lambda>s. s\<lparr>st_submitted := st_submitted s + 1\<rparr>)
     ((borrow (T, A))\<lparr>rp_log := snd (log_append demo_buy 0 new_log)\<rparr>), ap_nextOrder := 1\<rparr>"

lemma demo_feed:
  assumes "ap_replicator A = ap_replicator (snd (demo_app False ns))\<lparr>rp_transport := lk\<rparr>" and "ap_nextOrder A = 0" and "ap_orders A = [demo_buy]"
  shows "feed net (Suc b) (T, A) = (T, Running (demo_submitted T A))"
proof -
  have R: "rp_role (borrow (T, A)) = Primary" "rp_mode (borrow (T, A)) = Asynchronous" "rp_backups (borrow (T, A)) = []" "rp_clusterSize (borrow (T, A)) \<noteq> 1"
    "rp_term (borrow (T, A)) = 0" "rp_log (borrow (T, A)) = new_log" "log_room (rp_log (ap_replicator A))"
    by (simp_all add: borrow_def assms demo_replicator setSyncWindow_def new_replicator_def log_room_def, simp add: new_log_def)
  have "rp_transport (rp_count f ((borrow (T, A))\<lparr>rp_log := L\<rparr>)) = (T, [])" for f L by (simp add: borrow_def)
  then have "submit_next net (T, A) = (True, T, Running (demo_submitted T A))"
    using R(5-7) submit_alone [OF R(1-4)] assms(2,3) by (simp add: submit_next_def give_back_def demo_submitted_def)
  then show ?thesis using assms(2,3) by (cases b) (simp_all add: demo_submitted_def)
qed

lemma demo_log: "lg_entries (rp_log (ap_replicator (demo_submitted T A))) = [\<lparr>le_seq = 1, le_term = 0, le_command = demo_buy\<rparr>]"
  "termAt 1 (rp_log (ap_replicator (demo_submitted T A))) = Some 0"
proof -
  have l: "rp_log (ap_replicator (demo_submitted T A)) = snd (log_append demo_buy 0 new_log)" by (simp add: demo_submitted_def)
  show "lg_entries (rp_log (ap_replicator (demo_submitted T A))) = [\<lparr>le_seq = 1, le_term = 0, le_command = demo_buy\<rparr>]"
    by (simp add: l log_append_def new_log_def)
  show "termAt 1 (rp_log (ap_replicator (demo_submitted T A))) = Some 0" unfolding l by code_simp
qed

theorem orders_fed_in_sequence_witness:
  "\<exists>T' A'. feed quiet_net 1 (demo_app False [2, 3, 4, 5]) = (T', Running A') \<and> ap_nextOrder A' \<le> length (ap_orders (snd (demo_app False [2, 3, 4, 5]))) \<and>
     map le_command (lg_entries (rp_log (ap_replicator A'))) = [demo_buy]"
proof -
  let ?W = "demo_app False [2, 3, 4, 5]"
  let ?A' = "demo_submitted (fst ?W) (snd ?W)"
  have f: "feed quiet_net (Suc 0) (fst ?W, snd ?W) = (fst ?W, Running ?A')"
    by (rule demo_feed [where ns = "[2, 3, 4, 5]" and lk = "rp_transport (ap_replicator (snd ?W))"]) (simp_all add: demo_replicator)
  have "app_reachable (fst ?W, Running (snd ?W))" using demo_start_reachable demo_app_start by metis
  from orders_fed_in_sequence [OF this f] f show ?thesis by (auto simp: demo_log)
qed

section \<open>Terms\<close>

text \<open>Between turns the replicator works in the election's term: under \<open>--elect\<close>, in every state between two turns
  of the event loop, the term that the replicator stamps on new entries and checks incoming messages against is the election's current term.\<close>
theorem terms_agree_between_turns:
  assumes "app_reachable (T, Running A)" and "ap_elect A"
  shows "rp_term (ap_replicator A) = el_currentTerm (ap_election A)"
  using reachable_terms [OF assms(1)] assms(2) by simp

theorem terms_agree_between_turns_witness:
  "rp_term (ap_replicator (snd (demo_app True [2, 3]))) = el_currentTerm (ap_election (snd (demo_app True [2, 3])))"
  using terms_agree_between_turns [of "fst (demo_app True [2, 3])" "snd (demo_app True [2, 3])"] demo_start_reachable [of True "[2, 3]"]
  by (simp add: demo_app_start) (simp add: demo_app_eq new_app_def demo_options_def Let_def)

section \<open>Two copies\<close>

text \<open>The match points after one node has acknowledged as much as any other.\<close>

lemma smap_alter_elems:
  shows "\<exists>i. (i, b) \<in> set (smap_alter lt k d (\<lambda>_. b) m)"
    and "(i, x) \<in> set (smap_alter lt k d (\<lambda>_. b) m) \<Longrightarrow> x = b \<or> (i, x) \<in> set m"
  by (induction m) (auto split: if_splits)

lemma second_largest:
  fixes s l :: u64
  assumes "s \<in> set ys" and "\<forall>y\<in>set ys. y \<le> s" and "s \<le> l"
  shows "rev (sort (l # ys)) ! 1 = s"
proof -
  have "sort (l # ys) = sort (remove1 s ys) @ [s, l]"
    by (rule properties_for_sort) (use assms in \<open>auto simp: sorted_append dest!: notin_set_remove1 [rotated] set_remove1_subset [THEN subsetD] intro: order.trans\<close>)
  then show ?thesis by simp
qed

lemma ack_candidate:
  assumes "\<forall>(i, b')\<in>set m. bk_matchSeq b' \<le> bk_matchSeq b" and "rp_clusterSize R = 2" and "bk_matchSeq b \<le> lg_lastSeq (rp_log R)"
  shows "commit_candidate (R\<lparr>rp_backups := smap_alter node_before k d (\<lambda>_. b) m\<rparr>) = bk_matchSeq b"
proof -
  let ?ms = "map (\<lambda>(i, b). bk_matchSeq b) (smap_alter node_before k d (\<lambda>_. b) m)"
  have "rev (sort (lg_lastSeq (rp_log R) # ?ms @ replicate n 0)) ! 1 = bk_matchSeq b" for n
    using assms(1) smap_alter_elems(1) [of b node_before k d m] smap_alter_elems(2) [of _ _ node_before k d b m]
    by (intro second_largest [OF _ _ assms(3)]) fastforce+
  then show ?thesis using assms(2) by (simp add: commit_candidate_def match_points_def rp_majority_def Let_def)
qed

lemma then_core:
  assumes "Option.bind (advanceCommitIndex R0) (\<lambda>R1. Some (t R1)) = Some R'" and "\<And>R1. core_eq R1 (t R1)" and "advanceCommitIndex R0 = Some R1"
  shows "core_eq R1 R'"
  using assms by auto

lemma applyCommitted_commit: "applyCommitted R = Some R' \<Longrightarrow> rp_commitIndex R' = rp_commitIndex R"
  by (erule applyCommitted.raw_induct [rotated]) (auto split: if_splits option.splits bind_splits)

lemma ack_commits:
  assumes inv: "rep_inv ins hist R" and "rp_role R = Primary" and "rp_clusterSize R = 2" and "\<forall>(i, b)\<in>set (rp_backups R). bk_matchSeq b \<le> ar_lastLogSeq r"
    and "\<not> rp_term R < ar_term r" and "ar_ok r" and "rp_commitIndex R < ar_lastLogSeq r" and "termAt (ar_lastLogSeq r) (rp_log R) = Some (rp_term R)"
    and h: "handleAppendResponse tsend frm r R = Some R'"
  shows "rp_commitIndex R' = ar_lastLogSeq r \<and> ar_lastLogSeq r \<le> rp_lastApplied R' \<and> rp_log R' = rp_log R"
proof -
  define b1 where "b1 = (value_or (smap_find node_before frm (rp_backups R)) (fresh_backup\<lparr>bk_id := frm\<rparr>))
     \<lparr>bk_lastApplied := ar_lastApplied r, bk_matchSeq := (if ar_ok r then ar_lastLogSeq r else bk_matchSeq (value_or (smap_find node_before frm (rp_backups R)) (fresh_backup\<lparr>bk_id := frm\<rparr>))),
      bk_lastChecksum := ar_stateChecksum r, bk_probing := False,
      bk_lastSent := (if \<not> ar_ok r \<or> bk_lastSent (value_or (smap_find node_before frm (rp_backups R)) (fresh_backup\<lparr>bk_id := frm\<rparr>)) < ar_lastApplied r
         then ar_lastApplied r else bk_lastSent (value_or (smap_find node_before frm (rp_backups R)) (fresh_backup\<lparr>bk_id := frm\<rparr>)))\<rparr>"
  define R0 where "R0 = R\<lparr>rp_backups := smap_alter node_before frm fresh_backup (\<lambda>_. b1) (rp_backups R)\<rparr>"
  have ok: "log_ok (rp_log R)" using inv by (simp add: rep_inv_def)
  have b1: "bk_matchSeq b1 = ar_lastLogSeq r" using assms(6) by (simp add: b1_def)
  have c: "commit_candidate R0 = ar_lastLogSeq r"
    unfolding R0_def using ack_candidate [OF _ assms(3), of "rp_backups R" b1 frm fresh_backup] assms(4) b1 termAt_le_last [OF ok assms(8)] by simp
  have f0: "rp_role R0 = rp_role R" "rp_commitIndex R0 = rp_commitIndex R" "rp_log R0 = rp_log R" "rp_term R0 = rp_term R" by (simp_all add: R0_def)
  have "core_eq R R0" by (simp add: R0_def)
  then have "rep_inv ins hist R0" using inv core_eq_inv by blast
  then obtain R1 more where R1: "advanceCommitIndex R0 = Some R1" "rp_log R1 = rp_log R0"
    "rp_commitIndex R1 \<noteq> rp_commitIndex R0 \<Longrightarrow> rp_commitIndex R1 = commit_candidate R0 \<and> rp_lastApplied R1 = max (rp_lastApplied R0) (commit_candidate R0)"
    by (rule advanceCommitIndex_total) blast
  have "rp_commitIndex R1 \<noteq> rp_commitIndex R0"
  proof -
    have "applyCommitted (rp_count (\<lambda>s. s\<lparr>st_commitAdvances := st_commitAdvances s + 1\<rparr>) (R0\<lparr>rp_commitIndex := ar_lastLogSeq r\<rparr>)) = Some R1"
      using R1(1) assms(2,8) less_le_not_le [THEN iffD1, OF assms(7)] c f0 by (simp add: advanceCommitIndex_def Let_def)
    then have "rp_commitIndex R1 = ar_lastLogSeq r" using applyCommitted_commit by fastforce
    then show ?thesis using assms(7) by (auto simp: R0_def)
  qed
  with R1(3) c have adv: "rp_commitIndex R1 = ar_lastLogSeq r" "ar_lastLogSeq r \<le> rp_lastApplied R1" by simp_all
  have tail: "core_eq R1 (if c then (case sendAppend tsend b False R2 of (b2, R3) \<Rightarrow> R3\<lparr>rp_backups := g b2 R3\<rparr>) else R2)"
    if "R2 = (if d then rp_count f R1 else R1)" for b c d f g R1 R2
  proof -
    obtain b2 R3 where sa: "sendAppend tsend b False R2 = (b2, R3)" by fastforce
    have "core_eq R1 R2" using that by simp
    then show ?thesis using sa sendAppend_core(1) [OF sa] core_eq_trans by auto
  qed
  have "core_eq R1 R'"
    by (rule then_core [OF h [unfolded handleAppendResponse_def Let_def if_not_P [OF assms(5)]]])
      (rule tail [OF refl], use R1(1) in \<open>simp only: R0_def b1_def\<close>)
  then show ?thesis using adv R1(2) by (simp add: core_eq_def R0_def)
qed

text \<open>The answer of a backup that is not in a later term leaves the election alone.\<close>

lemma ack_reaches_replicator:
  assumes "app_reachable (T, Running A)" and "\<not> rp_term (ap_replicator A) < ar_term r"
  obtains A0 where "app_onMessage net clock frm (AppendResponse r) (T, A) = to_replicator net frm (AppendResponse r) (T, A0)"
    and "ap_replicator A0 = ap_replicator A"
proof (cases "ap_elect A")
  case False
  then show thesis using that [of A] by (simp add: app_onMessage_def)
next
  case True
  then have eq: "rp_term (ap_replicator A) = el_currentTerm (ap_election A)" using reachable_terms [OF assms(1)] by simp
  let ?A0 = "set_term (el_currentTerm (ap_election A)) (A\<lparr>ap_readings := ap_readings A + 1\<rparr>)"
  have "ar_term r \<le> el_currentTerm (ap_election A)" using assms(2) eq by (simp add: not_less)
  then have "sync_term (elect_step net clock (onAppendResponse (ar_term r)) (T, A)) = (T, ?A0)"
    by (simp add: elect_step_def run_actions_def sync_term_def onAppendResponse_def observeTerm_def)
  moreover have "ap_replicator ?A0 = ap_replicator A" using eq by (simp add: set_term_def setTerm_def)
  ultimately show thesis using that [of ?A0] True by (simp add: app_onMessage_def)
qed

text \<open>C18: Two copies are enough, whatever the size of the cluster. The node never tells its replicator how many
  nodes there are. In any state between two turns of a primary, elected or appointed, with any number of
  configured peers: if one backup acknowledges an entry of the primary's current term above the commit point,
  not from a later term, and no backup has acknowledged more than that so far, then the primary commits and applies everything up to
  that entry on the word of this one backup.\<close>
theorem two_copies_commit:
  assumes "app_reachable (T, Running A)" and "R = ap_replicator A" and "rp_role R = Primary"
    and "\<forall>(i, b)\<in>set (rp_backups R). bk_matchSeq b \<le> ar_lastLogSeq r" and "ar_ok r" and "\<not> rp_term R < ar_term r"
    and "rp_commitIndex R < ar_lastLogSeq r" and "termAt (ar_lastLogSeq r) (rp_log R) = Some (rp_term R)"
  shows "\<exists>T' A'. app_onMessage net clock frm (AppendResponse r) (T, A) = (T', Running A') \<and>
    rp_commitIndex (ap_replicator A') = ar_lastLogSeq r \<and> ar_lastLogSeq r \<le> rp_lastApplied (ap_replicator A')"
proof -
  have good: "rep_good (ap_self A) R" using app_reachable_keeps [OF assms(1)] assms(2) by (simp add: app_ok_def)
  obtain A0 where A0: "app_onMessage net clock frm (AppendResponse r) (T, A) = to_replicator net frm (AppendResponse r) (T, A0)" "ap_replicator A0 = R"
    using ack_reaches_replicator [OF assms(1), of r net clock frm] assms(2,6) by metis
  let ?B = "borrow (T, A0)"
  have B: "?B = R\<lparr>rp_transport := (T, [])\<rparr>" by (simp add: borrow_def A0(2))
  then have goodB: "rep_good (ap_self A) ?B" using good by simp
  then obtain hist where inv: "rep_inv kInstrument hist ?B" "rp_clusterSize ?B = 2" by (auto simp: rep_good_def)
  obtain R' where R': "rp_onMessage (link_send net) frm (AppendResponse r) ?B = Some R'"
    by (rule rep_good_message [OF goodB, of "AppendResponse r" net frm]) simp_all
  then have "handleAppendResponse (link_send net) frm r ?B = Some R'" by (simp add: rp_onMessage_def)
  then have c: "rp_commitIndex R' = ar_lastLogSeq r \<and> ar_lastLogSeq r \<le> rp_lastApplied R'"
    using ack_commits [OF inv(1) _ inv(2), of r "link_send net" frm R'] assms(3-8) by (simp add: B)
  have "app_onMessage net clock frm (AppendResponse r) (T, A) = (case give_back A0 R' of (T, A) \<Rightarrow> (T, Running A))"
    using A0(1) R' by (simp add: to_replicator_def log_fits_def)
  then show ?thesis using c core_eq_downs [of R'] by (simp add: give_back_def core_eq_def)
qed

definition demo_ack_from :: AppendResponseMsg where
  "demo_ack_from = \<lparr>ar_term = 0, ar_nodeId = 2, ar_lastLogSeq = 1, ar_ok = True, ar_lastApplied = 0, ar_stateChecksum = 0\<rparr>"

text \<open>A primary of a cluster of five that has submitted its order.\<close>

lemma poll_timeout:
  assumes "\<And>c. ne_poll net c = PollTimeout"
  shows "\<exists>T. tp_poll net h W = Some (True, T, snd W)"
  using assms by (simp add: tp_poll_def Let_def)

lemma demo_turn:
  assumes "A = snd (demo_app False ns)"
  shows "\<exists>T' A'. turn net clock (T, A) = (T', Running A') \<and> ap_replicator A' = ap_replicator (demo_submitted T A) \<and> \<not> ap_elect A'"
proof -
  let ?A1 = "A\<lparr>ap_replicator := borrow (T, A), ap_cycles := ap_cycles A + 1\<rparr>"
  have A: "\<not> ap_elect A" "ap_cycles A = 0" "ap_heartbeatCycles A = 20"
    "rp_backups (borrow (T, A)) = []" "rp_role (borrow (T, A)) = Primary" "rp_transport (borrow (T, A)) = (T, [])"
    using assms by (simp_all add: demo_app_eq new_app_def demo_options_def Let_def borrow_def setSyncWindow_def new_replicator_def)
  have "rp_tick (link_send net) link_sat (borrow (T, A)) = borrow (T, A)"
    using A(4,5) by (simp add: rp_tick_def each_backup_def)
  then have b: "turn_begin net clock (T, A) = (T, ?A1)" using A(1,6) by (simp add: turn_begin_def give_back_def Let_def)
  have f: "feed net 256 (T, ?A1) = (T, Running (demo_submitted T ?A1))"
    using demo_feed [where A = ?A1 and ns = ns and lk = "(T, [])" and net = net and b = 255 and T = T] assms by (simp add: borrow_def demo_replicator)
  obtain T' A' where e: "turn_end net (T, demo_submitted T ?A1) = (T', A')" by fastforce
  then have "ap_replicator A' = ap_replicator (demo_submitted T ?A1)" "\<not> ap_elect A'"
    using A(1-3) by (auto simp: turn_end_def Let_def demo_submitted_def split: if_splits)
  moreover have "ap_replicator (demo_submitted T ?A1) = ap_replicator (demo_submitted T A)" by (simp add: demo_submitted_def borrow_def)
  moreover have "turn net clock (T, A) = (T', Running A')"
    using b f e A(5) assms by (simp add: turn_def Let_def demo_replicator)
  ultimately show ?thesis by simp
qed

theorem two_copies_commit_witness:
  "\<exists>T A T' A'. app_reachable (T, Running A) \<and> app_onMessage quiet_net (\<lambda>_. 7) 2 (AppendResponse demo_ack_from) (T, A) = (T', Running A') \<and>
     rp_commitIndex (ap_replicator A') = 1"
proof -
  let ?W = "demo_start False [2, 3, 4, 5]" and ?A = "snd (demo_app False [2, 3, 4, 5])"
  obtain T1 where p: "tp_poll quiet_net (node_handler quiet_net (\<lambda>_. 7)) ?W = Some (True, T1, Running ?A)"
    using poll_timeout [of quiet_net _ ?W] demo_app_start [of False "[2, 3, 4, 5]"] by (auto simp: quiet_net_def)
  obtain T A where t: "turn quiet_net (\<lambda>_. 7) (T1, ?A) = (T, Running A)" "ap_replicator A = ap_replicator (demo_submitted T1 ?A)" "\<not> ap_elect A"
    using demo_turn [OF refl] by blast
  have "node_cycle quiet_net (\<lambda>_. 7) ?W = Some (T, Running A)" using p t(1) by (simp add: node_cycle_def)
  then have r: "app_reachable (T, Running A)" by (rule app_reachable.cycle [OF demo_start_reachable])
  have "rp_role (ap_replicator A) = Primary" "rp_backups (ap_replicator A) = []" "rp_commitIndex (ap_replicator A) = 0" "rp_term (ap_replicator A) = 0"
    "termAt 1 (rp_log (ap_replicator A)) = Some 0"
    using demo_log(2) t(2) by (simp_all add: demo_submitted_def borrow_def demo_replicator setSyncWindow_def new_replicator_def)
  with two_copies_commit [OF r refl, of demo_ack_from quiet_net "\<lambda>_. 7" 2] t(3) r show ?thesis by (auto simp: demo_ack_from_def)
qed

section \<open>A deposed leader\<close>

text \<open>A primary that may accept orders but has nobody to send them to.\<close>

definition alone :: "App \<Rightarrow> bool" where
  "alone A \<longleftrightarrow> rp_role (ap_replicator A) = Primary \<and> rp_mode (ap_replicator A) = Asynchronous \<and> rp_backups (ap_replicator A) = [] \<and>
     rp_clusterSize (ap_replicator A) = 2"

lemma submit_next_alone:
  assumes "alone A" and "log_room (rp_log (ap_replicator A))" and "submit_next net (T, A) = (ok, W')"
  obtains R where "ok" and "W' = (T, Running (A\<lparr>ap_replicator := R, ap_nextOrder := ap_nextOrder A + 1\<rparr>))" and "alone (A\<lparr>ap_replicator := R, ap_nextOrder := ap_nextOrder A + 1\<rparr>)"
    and "lg_lastSeq (rp_log R) = lg_lastSeq (rp_log (ap_replicator A)) + 1"
proof -
  let ?c = "ap_orders A ! ap_nextOrder A"
  have R: "rp_role (borrow (T, A)) = Primary" "rp_mode (borrow (T, A)) = Asynchronous" "rp_backups (borrow (T, A)) = []" "rp_clusterSize (borrow (T, A)) \<noteq> 1"
    using assms(1) by (simp_all add: borrow_def alone_def)
  let ?R = "rp_count (\<lambda>s. s\<lparr>st_submitted := st_submitted s + 1\<rparr>) ((borrow (T, A))\<lparr>rp_log := snd (log_append ?c (rp_term (borrow (T, A))) (rp_log (borrow (T, A))))\<rparr>)"
  have t: "rp_transport ?R = (T, [])" by (simp add: borrow_def)
  have W: "ok" "W' = (T, Running (A\<lparr>ap_replicator := ?R, ap_nextOrder := ap_nextOrder A + 1\<rparr>))"
    using assms(2,3) submit_alone [OF R, of "link_send net" link_sat ?c] t by (simp_all add: submit_next_def give_back_def)
  show thesis
    by (rule that [OF W]) (use assms(1) in \<open>simp_all add: alone_def borrow_def log_append_def Let_def rp_count_def\<close>)
qed

lemma feed_alone:
  assumes "alone A" and "unat (lg_lastSeq (rp_log (ap_replicator A))) + b < 2 ^ 64 - 1" and "ap_nextOrder A \<le> length (ap_orders A)"
  shows "\<exists>R. feed net b (T, A) = (T, Running (A\<lparr>ap_replicator := R, ap_nextOrder := min (ap_nextOrder A + b) (length (ap_orders A))\<rparr>)) \<and>
    alone (A\<lparr>ap_replicator := R\<rparr>) \<and> unat (lg_lastSeq (rp_log R)) \<le> unat (lg_lastSeq (rp_log (ap_replicator A))) + b"
  using assms
proof (induction b arbitrary: A)
  case 0
  have "A = A\<lparr>ap_replicator := ap_replicator A, ap_nextOrder := min (ap_nextOrder A + 0) (length (ap_orders A))\<rparr>" using 0 by simp
  then show ?case using 0 by (intro exI [of _ "ap_replicator A"]) simp
next
  case (Suc b)
  show ?case
  proof (cases "ap_nextOrder A < length (ap_orders A)")
    case True
    have room: "log_room (rp_log (ap_replicator A))" using Suc.prems(2) by (intro log_roomI) simp
    obtain ok W' where s: "submit_next net (T, A) = (ok, W')" by (metis surj_pair)
    obtain R where R: "ok" "W' = (T, Running (A\<lparr>ap_replicator := R, ap_nextOrder := ap_nextOrder A + 1\<rparr>))"
      "alone (A\<lparr>ap_replicator := R, ap_nextOrder := ap_nextOrder A + 1\<rparr>)" "lg_lastSeq (rp_log R) = lg_lastSeq (rp_log (ap_replicator A)) + 1"
      using submit_next_alone [OF Suc.prems(1) room s] by blast
    let ?A1 = "A\<lparr>ap_replicator := R, ap_nextOrder := ap_nextOrder A + 1\<rparr>"
    have last: "unat (lg_lastSeq (rp_log R)) = Suc (unat (lg_lastSeq (rp_log (ap_replicator A))))"
      using R(4) next_seq_unat room by (simp add: log_room_def)
    have "feed net (Suc b) (T, A) = feed net b (T, ?A1)" using True s R(1,2) by simp
    moreover obtain R2 where "feed net b (T, ?A1) = (T, Running (?A1\<lparr>ap_replicator := R2, ap_nextOrder := min (ap_nextOrder ?A1 + b) (length (ap_orders ?A1))\<rparr>))"
      "alone (?A1\<lparr>ap_replicator := R2\<rparr>)" "unat (lg_lastSeq (rp_log R2)) \<le> unat (lg_lastSeq (rp_log R)) + b"
      using Suc.IH [OF R(3)] Suc.prems(2) True last by auto
    ultimately show ?thesis using last by (intro exI [of _ R2]) (simp add: alone_def)
  next
    case False
    then have e: "ap_nextOrder A = length (ap_orders A)" using Suc.prems(3) by simp
    then have "A = A\<lparr>ap_replicator := ap_replicator A, ap_nextOrder := min (ap_nextOrder A + Suc b) (length (ap_orders A))\<rparr>" by simp
    then show ?thesis using Suc.prems(1) False by (intro exI [of _ "ap_replicator A"]) simp
  qed
qed

interpretation oda: app_invariant on_down alone
  by unfold_locales (auto simp: on_down_def onPeerDown_def alone_def split: Upcall.split)

lemma onRequestVote_higher:
  assumes "el_currentTerm e < rv_term msg"
  obtains e' a where "onRequestVote msg now e [] = (e', [a])" and "ac_kind a = SendVoteResponse" and "el_role e' = Follower" and "el_currentTerm e' = rv_term msg"
    and "\<exists>x. el_config x = el_config e \<and> el_lastHeardFromLeader e' = now \<and> el_electionTimeout e' = el_electionTimeout (resetElectionTimer now x)"
proof -
  let ?y = "upd_stats (\<lambda>s. s\<lparr>es_highestTermSeen := max (es_highestTermSeen s) (rv_term msg)\<rparr>)
    (e\<lparr>el_currentTerm := rv_term msg, el_votedFor := None, el_role := Follower, el_leaderId := None, el_votesGranted := []\<rparr>)"
  define y where "y = (if el_role e = Leader then upd_stats (\<lambda>s. s\<lparr>es_stepDowns := es_stepDowns s + 1\<rparr>) ?y else ?y)"
  define e1 where "e1 = resetElectionTimer now y"
  have o: "observeTerm (rv_term msg) now e = (True, e1)"
    using assms [THEN less_le_not_le [THEN iffD1]] by (simp add: observeTerm_def Let_def e1_def y_def)
  have y: "el_role e1 = Follower" "el_currentTerm e1 = rv_term msg" "el_config y = el_config e"
    by (simp_all add: e1_def y_def)
  obtain e' acts where h: "onRequestVote msg now e [] = (e', acts)" by fastforce
  have "el_role e' = el_role e1" "el_currentTerm e' = el_currentTerm e1" "\<exists>a. acts = [a] \<and> ac_kind a = SendVoteResponse"
    using h by (auto simp: onRequestVote_def o Let_def split: if_splits)
  moreover have "\<exists>x. el_config x = el_config e \<and> el_lastHeardFromLeader e' = now \<and> el_electionTimeout e' = el_electionTimeout (resetElectionTimer now x)"
  proof -
    let ?z = "e1\<lparr>el_votedFor := Some (rv_candidateId msg)\<rparr>"
    have "(el_lastHeardFromLeader e' = el_lastHeardFromLeader e1 \<and> el_electionTimeout e' = el_electionTimeout e1) \<or>
      (el_lastHeardFromLeader e' = el_lastHeardFromLeader (resetElectionTimer now ?z) \<and> el_electionTimeout e' = el_electionTimeout (resetElectionTimer now ?z))"
      using h by (auto simp: onRequestVote_def o Let_def upd_stats_def simp del: resetElectionTimer_frame split: if_splits)
    moreover have "el_config ?z = el_config e" using y(3) by (simp add: e1_def)
    ultimately show ?thesis using y(3) resetElectionTimer_frame(11) e1_def by metis
  qed
  ultimately show thesis using that h y(1,2) by metis
qed

lemma deposed:
  assumes "ap_elect A" and "alone A" and "el_currentTerm (ap_election A) < rv_term msg"
    and "app_onMessage net clock frm (RequestVote msg) (T, A) = (T1, Running A1)"
  shows "el_role (ap_election A1) = Follower" and "el_currentTerm (ap_election A1) = rv_term msg" and "alone A1" and "ap_elect A1"
    and "ap_nextOrder A1 = ap_nextOrder A" and "ap_orders A1 = ap_orders A" and "rp_log (ap_replicator A1) = rp_log (ap_replicator A)"
    and "app_ok A \<Longrightarrow> app_ok A1" and "ap_readings A1 = ap_readings A + 1"
    and "\<exists>x. el_config x = el_config (ap_election A) \<and> el_lastHeardFromLeader (ap_election A1) = clock (ap_readings A) \<and>
      el_electionTimeout (ap_election A1) = el_electionTimeout (resetElectionTimer (clock (ap_readings A)) x)"
proof -
  obtain e' a where e: "onRequestVote msg (clock (ap_readings A)) (setLastLogSeq (app_lastSeq A) (ap_election A)) [] = (e', [a])"
    "ac_kind a = SendVoteResponse" "el_role e' = Follower" "el_currentTerm e' = rv_term msg"
    "\<exists>x. el_config x = el_config (ap_election A) \<and> el_lastHeardFromLeader e' = clock (ap_readings A) \<and> el_electionTimeout e' = el_electionTimeout (resetElectionTimer (clock (ap_readings A)) x)"
    by (rule onRequestVote_higher [of "setLastLogSeq (app_lastSeq A) (ap_election A)" msg "clock (ap_readings A)"]) (use assms(3) in \<open>simp_all add: setLastLogSeq_def\<close>)
  let ?B = "A\<lparr>ap_election := e', ap_readings := ap_readings A + 1\<rparr>"
  obtain to m where send: "run_action net a (T, ?B) = snd (tp_send net on_down to m (T, ?B))"
    using e(2) by (simp add: run_action_def)
  have "(T1, A1) = snd (tp_send net on_down to m (T, ?B))"
    using assms(1,4) e(1) send by (simp add: app_onMessage_def elect_step_def run_actions_def split: prod.splits)
  then have A1: "A1 = snd (snd (tp_send net on_down to m (T, ?B)))" by (metis snd_conv)
  have f: "app_frame ?B A1" using app_send(1) [of "(T, ?B)" net to m] by (simp add: A1)
  obtain R where R: "A1 = ?B\<lparr>ap_replicator := R\<rparr>" "core_eq (ap_replicator A) R" using f by (auto simp: app_frame_def)
  then show "el_role (ap_election A1) = Follower" "el_currentTerm (ap_election A1) = rv_term msg" "ap_elect A1" "ap_nextOrder A1 = ap_nextOrder A"
    "ap_orders A1 = ap_orders A" "rp_log (ap_replicator A1) = rp_log (ap_replicator A)" using e(3,4) assms(1) by (simp_all add: core_eq_def)
  show "alone A1" unfolding A1 by (rule oda.tp_send_inv) (use assms(2) in \<open>simp add: alone_def\<close>)
  show "ap_readings A1 = ap_readings A + 1" "\<exists>x. el_config x = el_config (ap_election A) \<and> el_lastHeardFromLeader (ap_election A1) = clock (ap_readings A) \<and>
    el_electionTimeout (ap_election A1) = el_electionTimeout (resetElectionTimer (clock (ap_readings A)) x)" using R(1) e(5) by simp_all
  show "app_ok A \<Longrightarrow> app_ok A1" using app_frameD(3) [OF f] by (simp add: app_ok_def)
qed

text \<open>A follower whose timeout has not expired does nothing but take over the term.\<close>

lemma turn_begin_follower:
  assumes "ap_elect A" and "alone A" and "el_role (ap_election A) = Follower"
    and "clock (ap_readings A) - el_lastHeardFromLeader (ap_election A) < el_electionTimeout (ap_election A)"
  obtains A' where "turn_begin net clock (T, A) = (T, A')" and "alone A'" and "rp_term (ap_replicator A') = el_currentTerm (ap_election A)"
    and "el_role (ap_election A') = Follower" and "el_currentTerm (ap_election A') = el_currentTerm (ap_election A)"
    and "ap_nextOrder A' = ap_nextOrder A" and "ap_orders A' = ap_orders A" and "rp_log (ap_replicator A') = rp_log (ap_replicator A)"
proof -
  let ?e = "setLastLogSeq (app_lastSeq A) (ap_election A)"
  have t: "tick (clock (ap_readings A)) ?e [] = (?e, [])" using assms(3) assms(4) [THEN less_le_not_le [THEN iffD1]] by (simp add: tick_def setLastLogSeq_def)
  define B where "B = set_term (el_currentTerm (ap_election A)) (A\<lparr>ap_election := ?e, ap_readings := ap_readings A + 1\<rparr>)"
  have sync: "sync_term (elect_step net clock (\<lambda>now e. tick now (setLastLogSeq (app_lastSeq A) e)) (T, A)) = (T, B)"
    using t by (simp add: elect_step_def run_actions_def sync_term_def B_def setLastLogSeq_def)
  have R: "rp_backups (borrow (T, B)) = []" "rp_role (borrow (T, B)) = Primary" "rp_transport (borrow (T, B)) = (T, [])"
    using assms(2) by (simp_all add: borrow_def B_def set_term_def setTerm_def alone_def)
  have "rp_tick (link_send net) link_sat (borrow (T, B)) = borrow (T, B)" using R(1,2) by (simp add: rp_tick_def each_backup_def)
  then have run: "turn_begin net clock (T, A) = (T, B\<lparr>ap_replicator := borrow (T, B), ap_cycles := ap_cycles B + 1\<rparr>)"
    using assms(1) sync R(3) by (simp add: turn_begin_def give_back_def Let_def)
  show thesis
    by (rule that [OF run]) (use assms(2,3) in \<open>simp_all add: alone_def borrow_def B_def set_term_def setTerm_def setLastLogSeq_def\<close>)
qed

text \<open>C19: A deposed leader keeps writing, in the new term. Take an elected leader in asynchronous mode with no
  backup connected and orders left. When it handles a vote request of a higher term it becomes a follower of that term,
  but its replicator is not told: it stays primary, and is given the new term at the next turn. If the
  election timer has not run out by then, that turn appends the next orders of the file (up to the 256 of a turn) to the log and
  counts them as submitted, stamped with the term that belongs to whoever wins it.\<close>
theorem deposed_leader_writes:
  assumes "app_reachable (T, Running A)" and "ap_elect A" and "el_role (ap_election A) = Leader" and "alone A"
    and "ap_nextOrder A < length (ap_orders A)" and "unat (lg_lastSeq (rp_log (ap_replicator A))) + 256 < 2 ^ 64 - 1"
    and "el_currentTerm (ap_election A) < rv_term msg" and "app_onMessage net clock frm (RequestVote msg) (T, A) = (T1, Running A1)"
    and "clock (ap_readings A1) - el_lastHeardFromLeader (ap_election A1) < el_electionTimeout (ap_election A1)"
  shows "\<exists>T2 A2 es. turn net' clock (T1, A1) = (T2, Running A2) \<and> el_role (ap_election A2) = Follower \<and>
    el_currentTerm (ap_election A2) = rv_term msg \<and> rp_role (ap_replicator A2) = Primary \<and>
    lg_entries (rp_log (ap_replicator A2)) = lg_entries (rp_log (ap_replicator A)) @ es \<and> es \<noteq> [] \<and>
    map le_command es = take 256 (drop (ap_nextOrder A) (ap_orders A)) \<and> ap_nextOrder A2 = ap_nextOrder A + length es \<and>
    (\<forall>e\<in>set es. le_term e = rv_term msg)"
proof -
  note d = deposed [OF assms(2,4,7,8)]
  have ok: "app_ok A1" using d(8) app_reachable_keeps [OF assms(1)] by simp
  obtain B where B: "turn_begin net' clock (T1, A1) = (T1, B)" "alone B" "rp_term (ap_replicator B) = el_currentTerm (ap_election A1)"
    "el_role (ap_election B) = Follower" "el_currentTerm (ap_election B) = el_currentTerm (ap_election A1)"
    "ap_nextOrder B = ap_nextOrder A1" "ap_orders B = ap_orders A1" "rp_log (ap_replicator B) = rp_log (ap_replicator A1)"
    by (rule turn_begin_follower [where A = A1 and clock = clock and net = net' and T = T1, OF d(4,3,1) assms(9)]) blast
  have okB: "app_ok B" using turn_begin_keeps(2) [of "(T1, A1)" net' clock] ok B(1) by simp
  obtain R where R: "feed net' 256 (T1, B) = (T1, Running (B\<lparr>ap_replicator := R, ap_nextOrder := min (ap_nextOrder B + 256) (length (ap_orders B))\<rparr>))"
    using feed_alone [OF B(2), of 256 net' T1] assms(5,6) B(6-8) d(5-7) by auto
  let ?C = "B\<lparr>ap_replicator := R, ap_nextOrder := min (ap_nextOrder B + 256) (length (ap_orders B))\<rparr>"
  have fed: "fed 256 B ?C" using feed_spec [of "(T1, B)" net' 256] okB R by simp
  then obtain R' k es where es: "?C = B\<lparr>ap_replicator := R', ap_nextOrder := ap_nextOrder B + k\<rparr>"
    "lg_entries (rp_log (ap_replicator ?C)) = lg_entries (rp_log (ap_replicator B)) @ es"
    "map le_command es = take k (drop (ap_nextOrder B) (ap_orders B))" "\<forall>e\<in>set es. le_term e = rp_term (ap_replicator B)"
    unfolding fed_def grew_def by blast
  have "ap_nextOrder ?C = ap_nextOrder B + k" by (subst es(1)) simp
  then have k: "k = min 256 (length (ap_orders A) - ap_nextOrder A)" using assms(5) B(6,7) d(5,6) by auto
  have cmds: "map le_command es = take 256 (drop (ap_nextOrder A) (ap_orders A))" using es(3) B(6,7) d(5,6) k by (auto simp: min_def)
  then have ne: "es \<noteq> []" using assms(5) by auto
  have len: "length es = k" using arg_cong [OF cmds, of length] k by simp
  obtain T2 A2 where e: "turn_end net' (T1, ?C) = (T2, A2)" by (metis surj_pair)
  have run: "turn net' clock (T1, A1) = (T2, Running A2)"
    using B(1,2,6,7) assms(5) d(5,6) R e by (simp add: turn_def alone_def)
  note keep = turn_end_keeps(3,4,6) [where W = "(T1, ?C)" and net = net', unfolded e fst_conv snd_conv]
  have "rp_role R = Primary" using fed B(2) by (simp add: fed_def alone_def)
  moreover have "ap_nextOrder A2 = ap_nextOrder A + length es" using keep len k assms(5) B(6,7) d(5,6) by auto
  ultimately show ?thesis using run keep es(2,4) ne cmds B(3-5,8) d(1,2,7) by (intro exI [of _ T2] exI [of _ A2] exI [of _ es]) (simp add: core_eq_def)
qed

text \<open>A node on its own: it elects itself, feeds 256 of its 257 orders, and hears of a higher term.\<close>

definition lone_start :: "Transport \<times> Node" where
  "lone_start = the (start_node quiet_net (demo_options True) 7001 [] (replicate 257 demo_buy))"

definition lone_app :: "App" where
  "lone_app = new_app (demo_options True) [] (replicate 257 demo_buy) (new_transport 1 7001)"

lemma lone_start_eq: "app_reachable lone_start" "snd lone_start = Running lone_app"
proof -
  have "sock_listen quiet_net 0 = (True, 6)" by code_simp
  then have s: "start_node quiet_net (demo_options True) 7001 [] (replicate 257 demo_buy) = Some lone_start"
    "snd lone_start = Running lone_app"
    by (simp_all add: lone_start_def lone_app_def start_node_def tp_start_def new_transport_def Let_def demo_options_def)
  show "app_reachable lone_start" by (rule app_reachable.start [OF s(1)])
  show "snd lone_start = Running lone_app" by (rule s(2))
qed

definition lone_election :: Election where
  "lone_election = new_election 1 [] (default_election_config\<lparr>ec_randomSeed := 0x9E3779B9 * ucast ((1 :: NodeId) + 1)\<rparr>)"

lemma lone_elected:
  obtains e a where "tick 1000 (setLastLogSeq 0 lone_election) [] = (e, [a])" and "ac_kind a = BecameLeader" and "ac_term a = 1" and "el_role e = Leader"
    and "el_currentTerm e = 1" and "el_config e = el_config lone_election"
proof -
  let ?t = "tick 1000 (setLastLogSeq 0 lone_election) []"
  have "length (snd ?t) = 1 \<and> ac_kind (hd (snd ?t)) = BecameLeader \<and> ac_term (hd (snd ?t)) = 1 \<and> el_role (fst ?t) = Leader \<and> el_currentTerm (fst ?t) = 1 \<and>
    el_config (fst ?t) = el_config lone_election"
    by code_simp
  then show thesis using that [of "fst ?t" "hd (snd ?t)"] by (cases ?t) (auto simp: length_Suc_conv)
qed

lemma lone_turn:
  obtains T A where "turn quiet_net (\<lambda>_. 1000) (T0, lone_app) = (T, Running A)" and "ap_elect A" and "el_role (ap_election A) = Leader" and "alone A"
    and "ap_nextOrder A = 256" and "length (ap_orders A) = 257" and "unat (lg_lastSeq (rp_log (ap_replicator A))) \<le> 256"
    and "el_currentTerm (ap_election A) = 1" and "el_config (ap_election A) = el_config lone_election"
proof -
  have a: "ap_elect lone_app" "ap_election lone_app = lone_election" "ap_peerIds lone_app = []" "ap_orders lone_app = replicate 257 demo_buy" "ap_nextOrder lone_app = 0"
    "ap_cycles lone_app = 0" "ap_heartbeatCycles lone_app = 20" "\<not> ap_exitOnComplete lone_app"
    "ap_replicator lone_app = setSyncWindow 8 (new_replicator 1 Backup Asynchronous (new_engine kInstrument) new_log (new_transport 1 7001, []))"
    by (simp_all add: lone_app_def new_app_def demo_options_def lone_election_def Let_def)
  have last: "app_lastSeq lone_app = 0" by (simp add: app_lastSeq_def a setSyncWindow_def new_replicator_def new_log_def)
  obtain e x where e: "tick 1000 (setLastLogSeq 0 lone_election) [] = (e, [x])" "ac_kind x = BecameLeader" "ac_term x = 1" "el_role e = Leader"
    "el_currentTerm e = 1" "el_config e = el_config lone_election" by (rule lone_elected)
  define B where "B = set_term 1 (set_role Primary (set_term 1 (lone_app\<lparr>ap_election := e, ap_readings := ap_readings lone_app + 1\<rparr>)))"
  have B: "rp_backups (ap_replicator B) = []" "rp_role (ap_replicator B) = Primary" "rp_mode (ap_replicator B) = Asynchronous" "rp_clusterSize (ap_replicator B) = 2"
    "rp_log (ap_replicator B) = new_log" "ap_elect B" "ap_election B = e" "ap_orders B = replicate 257 demo_buy" "ap_nextOrder B = 0"
    by (simp_all add: B_def set_term_def setTerm_def set_role_def setRole_def a setSyncWindow_def new_replicator_def rp_count_def del: replicate.simps)
  have fr: "ap_election (set_term u X) = ap_election X" "ap_election (set_role q X) = ap_election X" "ap_peerIds (set_term u X) = ap_peerIds X"
    "ap_peerIds (set_role q X) = ap_peerIds X" for u q X by (simp_all add: set_term_def set_role_def)
  have "sync_term (elect_step quiet_net (\<lambda>_. 1000) (\<lambda>now e. tick now (setLastLogSeq (app_lastSeq lone_app) e)) (T0, lone_app)) = (T0, B)"
    by (simp add: elect_step_def run_actions_def run_action_def sync_term_def B_def e a last fr)
  moreover have "rp_tick (link_send quiet_net) link_sat (borrow (T0, B)) = borrow (T0, B)" using B(1,2) by (simp add: rp_tick_def each_backup_def borrow_def)
  ultimately have b: "turn_begin quiet_net (\<lambda>_. 1000) (T0, lone_app) = (T0, B\<lparr>ap_replicator := borrow (T0, B), ap_cycles := ap_cycles B + 1\<rparr>)"
    using a(1) by (simp add: turn_begin_def give_back_def Let_def borrow_def)
  let ?B = "B\<lparr>ap_replicator := borrow (T0, B), ap_cycles := ap_cycles B + 1\<rparr>"
  have al: "alone ?B" using B by (simp add: alone_def borrow_def)
  have l0: "lg_lastSeq (rp_log (ap_replicator ?B)) = 0" using B(5) by (simp add: borrow_def new_log_def)
  obtain R where R: "feed quiet_net 256 (T0, ?B) = (T0, Running (?B\<lparr>ap_replicator := R, ap_nextOrder := 256\<rparr>))" "alone (?B\<lparr>ap_replicator := R\<rparr>)"
    "unat (lg_lastSeq (rp_log R)) \<le> 256"
    using feed_alone [OF al, of 256 quiet_net T0] B(8,9) l0 by (auto simp del: replicate.simps)
  let ?C = "?B\<lparr>ap_replicator := R, ap_nextOrder := 256\<rparr>"
  obtain T A where t: "turn_end quiet_net (T0, ?C) = (T, A)" by (metis surj_pair)
  have run: "turn quiet_net (\<lambda>_. 1000) (T0, lone_app) = (T, Running A)" using b B(2,8,9) R(1) t by (simp add: turn_def borrow_def del: replicate.simps)
  have "ap_cycles B = 0" "ap_heartbeatCycles B = 20" "\<not> ap_exitOnComplete B" by (simp_all add: B_def set_term_def set_role_def a)
  then have A: "A = ?C \<or> A = ?C\<lparr>ap_everConnected := True\<rparr>" using t by (simp add: turn_end_def Let_def split: if_splits)
  show thesis
    by (rule that [OF run]) (use A R(2,3) B(6-8) e(4-6) in \<open>auto simp: alone_def\<close>)
qed

definition demo_rival :: RequestVoteMsg where "demo_rival = \<lparr>rv_term = 5, rv_candidateId = 9, rv_lastLogSeq = 0\<rparr>"

theorem deposed_leader_writes_witness:
  "\<exists>T A T1 A1 T2 A2 es. app_reachable (T, Running A) \<and> el_role (ap_election A) = Leader \<and>
     app_onMessage quiet_net (\<lambda>_. 1000) 9 (RequestVote demo_rival) (T, A) = (T1, Running A1) \<and>
     turn quiet_net (\<lambda>_. 1000) (T1, A1) = (T2, Running A2) \<and> el_role (ap_election A2) = Follower \<and>
     lg_entries (rp_log (ap_replicator A2)) = lg_entries (rp_log (ap_replicator A)) @ es \<and> length es = 1 \<and> (\<forall>e\<in>set es. le_term e = 5)"
proof -
  let ?c = "\<lambda>_. 1000" and ?m = "RequestVote demo_rival"
  obtain T0 where p: "tp_poll quiet_net (node_handler quiet_net ?c) lone_start = Some (True, T0, Running lone_app)"
    using poll_timeout [of quiet_net _ lone_start] lone_start_eq(2) by (auto simp: quiet_net_def)
  obtain T A where t: "turn quiet_net ?c (T0, lone_app) = (T, Running A)" "ap_elect A" "el_role (ap_election A) = Leader" "alone A" "ap_nextOrder A = 256"
    "length (ap_orders A) = 257" "unat (lg_lastSeq (rp_log (ap_replicator A))) \<le> 256" "el_currentTerm (ap_election A) = 1"
    "el_config (ap_election A) = el_config lone_election" by (rule lone_turn)
  have "node_cycle quiet_net ?c lone_start = Some (T, Running A)" using p t(1) by (simp add: node_cycle_def)
  then have r: "app_reachable (T, Running A)" by (rule app_reachable.cycle [OF lone_start_eq(1)])
  obtain T1 A1 where m: "app_onMessage quiet_net ?c 9 ?m (T, A) = (T1, Running A1)" 
    using t(2) by (cases "elect_step quiet_net ?c (\<lambda>now e. onRequestVote demo_rival now (setLastLogSeq (app_lastSeq A) e)) (T, A)") (simp add: app_onMessage_def)
  have up: "el_currentTerm (ap_election A) < rv_term demo_rival" using t(8) by (simp add: demo_rival_def)
  obtain x where x: "el_config x = el_config lone_election" "el_lastHeardFromLeader (ap_election A1) = 1000"
    "el_electionTimeout (ap_election A1) = el_electionTimeout (resetElectionTimer 1000 x)" using deposed(10) [OF t(2,4) up m] t(9) by auto
  have "150 \<le> el_electionTimeout (resetElectionTimer 1000 x)"
    using timeout_in_range [of x 1000] x(1) by (simp add: lone_election_def new_election_def default_election_config_def)
  then have "(1000 :: Millis) - el_lastHeardFromLeader (ap_election A1) < el_electionTimeout (ap_election A1)"
    using x(2,3) by (simp add: word_less_nat_alt word_le_nat_alt)
  then obtain T2 A2 es where "turn quiet_net ?c (T1, A1) = (T2, Running A2)" "el_role (ap_election A2) = Follower"
    "lg_entries (rp_log (ap_replicator A2)) = lg_entries (rp_log (ap_replicator A)) @ es"
    "map le_command es = take 256 (drop (ap_nextOrder A) (ap_orders A))" "\<forall>e\<in>set es. le_term e = 5"
    using deposed_leader_writes [OF r t(2,3,4) _ _ up m, where net' = quiet_net] t(5-7) by (auto simp: demo_rival_def)
  moreover from this(4) have "length (map le_command es) = length (take 256 (drop (ap_nextOrder A) (ap_orders A)))" by (rule arg_cong)
  then have "length es = 1" unfolding length_map length_take length_drop t(5,6) by simp
  ultimately show ?thesis using r t(3) m by blast
qed

end
