(* ===== verification/Program_Properties.thy ===== *)
theory Program_Properties
  imports Node_Main Replay Node_Properties
begin

text \<open>
  The properties of the two programs as started from their files: what a configuration file is turned
  into, how order files are read and printed, what the replay driver prints, how it relates to a running
  node, and that a node with a cycle budget ends.
\<close>

section \<open>Configuration files\<close>

text \<open>A line as the documentation gives it.\<close>

definition node_text :: "u64 \<Rightarrow> string \<Rightarrow> u64 \<Rightarrow> string" where
  "node_text n host port = ''node '' @ u64_string n @ '' '' @ host @ '' '' @ u64_string port"

definition peer_text :: "PeerConfig \<Rightarrow> string" where
  "peer_text p = node_text (ucast (pc_id p)) (pc_host p) (ucast (pc_port p))"

definition config_text :: "PeerConfig list \<Rightarrow> string" where
  "config_text ps = concat (map (\<lambda>p. peer_text p @ [newline]) ps)"

lemma node_line_read:
  assumes "is_word host" and "plain host" and "tail = [] \<or> is_space (hd tail)" and "port \<noteq> 0" and "\<not> port > 65535" and "ucast n \<notin> fst st"
  shows "config_line (node_text n host port @ tail) st = Inr (insert (ucast n) (fst st), snd st @ [\<lparr>pc_id = ucast n, pc_host = host, pc_port = ucast port\<rparr>])"
proof -
  have tail: "strip_comment tail = [] \<or> is_space (hd (strip_comment tail))" using assms(3) by (cases tail) (auto simp: strip_comment_def)
  then have tail': "strip_comment tail = [] \<or> \<not> is_digit (hd (strip_comment tail))" using digit_not_special(1) by blast
  have "plain ''node ''" "plain '' ''" by (simp_all add: plain_def newline_def)
  then have "plain (node_text n host port)" using assms(2) by (simp add: node_text_def del: append_Cons append_Nil)
  then have strip: "strip_comment (node_text n host port @ tail) = node_text n host port @ strip_comment tail"
    unfolding strip_comment_def plain_def by (subst takeWhile_append2) auto
  have kw: "read_word (node_text n host port @ s) = Some (''node'', CHR '' '' # u64_string n @ CHR '' '' # host @ CHR '' '' # u64_string port @ s)" for s
    using read_word_word [of "''node''" "CHR '' '' # u64_string n @ CHR '' '' # host @ CHR '' '' # u64_string port @ s"]
    by (simp add: node_text_def is_word_def is_space_def)
  show ?thesis using assms(4-6)
    by (simp add: config_line_def strip kw read_u64_string [OF space_break(2)] read_word_word [OF assms(1) space_break(1)] read_u64_string [OF tail'] Let_def)
qed

lemma parse_wf:
  assumes "parseClusterConfig text = Inr c"
  shows "config_wf c"
proof -
  obtain seen where e: "each_line config_line 0 (text_lines text) ({}, []) = Inr (seen, cc_peers c)" and ne: "cc_peers c \<noteq> []"
    using assms by (auto simp: parseClusterConfig_def split: sum.splits if_splits)
  have "config_state (seen, cc_peers c)"
    by (rule each_line_invariant [OF e]) (simp add: config_state_def, rule config_line_state)
  then show ?thesis using ne by (simp add: config_wf_def config_state_def)
qed

lemma find_peer_Some: "find_peer i ps = Some p \<Longrightarrow> p \<in> set ps \<and> pc_id p = i"
  by (induction ps) (auto split: if_splits)

text \<open>C35: A configuration file gives every node the same cluster. An accepted file lists at least one node, under distinct ids,
  with nonzero ports and nonempty host names. Whichever listed node starts from it, the ids of its peers and its own are
  exactly the listed ids, without repetition, and its election counts all of them, so that every node needs
  the same majority.\<close>
theorem config_gives_cluster:
  assumes "parseClusterConfig text = Inr c" and "cc_find i c = Some p"
  shows "config_wf c \<and> distinct (i # map pc_id (cc_others i c)) \<and> set (i # map pc_id (cc_others i c)) = pc_id ` set (cc_peers c) \<and>
    clusterSize (new_election i (map pc_id (cc_others i c)) cfg) = length (cc_peers c) \<and>
    majority (new_election i (map pc_id (cc_others i c)) cfg) = length (cc_peers c) div 2 + 1"
proof -
  have wf: "config_wf c" using assms(1) by (rule parse_wf)
  have p: "p \<in> set (cc_peers c)" "pc_id p = i" using assms(2) find_peer_Some by (auto simp: cc_find_def)
  have d: "distinct (map pc_id (cc_peers c))" using wf by (simp add: config_wf_def)
  have nin: "i \<notin> set (map pc_id (cc_others i c))" by (auto simp: cc_others_def)
  have d1: "distinct (i # map pc_id (cc_others i c))" using d nin by (simp add: cc_others_def distinct_map_filter)
  moreover have s: "set (i # map pc_id (cc_others i c)) = pc_id ` set (cc_peers c)" using p by (auto simp: cc_others_def)
  moreover have "Suc (length (cc_others i c)) = length (cc_peers c)"
    using distinct_card [OF d1] distinct_card [OF d] s by simp
  ultimately show ?thesis using wf by (simp add: majority_def clusterSize_def new_election_def)
qed

text \<open>Printing a configuration and parsing it.\<close>

definition config_ok :: "PeerConfig list \<Rightarrow> bool" where
  "config_ok ps \<longleftrightarrow> config_wf \<lparr>cc_peers = ps\<rparr> \<and> (\<forall>p\<in>set ps. plain (pc_host p))"

lemma widen_narrow [simp]: "ucast (ucast (x :: u32) :: u64) = x" "ucast (ucast (y :: u16) :: u64) = y"
  by (rule bit_word_eqI, auto simp: bit_ucast_iff dest: bit_imp_le_length)+

lemma port_widened: "pc_port p \<noteq> 0 \<Longrightarrow> (ucast (pc_port p) :: u64) \<noteq> 0 \<and> \<not> (ucast (pc_port p) :: u64) > 65535"
proof -
  assume "pc_port p \<noteq> 0"
  moreover have b: "unat (pc_port p) < 65536" using unsigned_less [of "pc_port p", where 'a = nat] by simp
  moreover have "unat (ucast (pc_port p) :: u64) = unat (pc_port p)" using b by (simp add: unsigned_ucast_eq take_bit_eq_mod)
  ultimately show ?thesis by (auto simp: word_less_nat_alt unat_eq_zero)
qed

lemma config_lines:
  assumes "\<forall>p\<in>set ps. pc_port p \<noteq> 0 \<and> is_word (pc_host p) \<and> plain (pc_host p)" and "distinct (map pc_id ps)" and "pc_id ` set ps \<inter> fst st = {}"
  shows "each_line config_line k (map peer_text ps) st = Inr (pc_id ` set ps \<union> fst st, snd st @ ps)"
  using assms
proof (induction ps arbitrary: k st)
  case (Cons p ps)
  have "config_line (peer_text p) st = Inr (insert (pc_id p) (fst st), snd st @ [p])"
    using node_line_read [of "pc_host p" "[]" "ucast (pc_port p)" "ucast (pc_id p)" st] port_widened [of p] Cons.prems by (simp add: peer_text_def)
  then show ?case using Cons by simp
qed simp

text \<open>Lines that hold no node.\<close>

lemma blank_line:
  assumes "\<forall>ch\<in>set (strip_comment l). is_space ch"
  shows "config_line l st = Inr st"
proof -
  have "skip_ws (strip_comment l) = []" using assms by (simp add: skip_ws_def)
  then show ?thesis by (simp add: config_line_def read_word_def)
qed

lemma single_line: "s \<noteq> [] \<Longrightarrow> newline \<notin> set s \<Longrightarrow> text_lines s = [s]"
proof -
  assume s: "s \<noteq> []" "newline \<notin> set s"
  have "takeWhile (\<lambda>c. c \<noteq> newline) s = s" "dropWhile (\<lambda>c. c \<noteq> newline) s = []" using s(2) by (auto simp: takeWhile_eq_all_conv dropWhile_eq_Nil_conv)
  then show ?thesis using s(1) by (subst text_lines.simps) (simp only: drop_Nil if_False, simp add: text_lines.simps)
qed

lemma comment_line:
  assumes "newline \<notin> set remark"
  shows "text_lines (CHR ''#'' # remark) = [CHR ''#'' # remark]" and "config_line (CHR ''#'' # remark) st = Inr st"
  using assms by (auto intro!: single_line blank_line simp: newline_def strip_comment_def)

lemma skip_blank_lines:
  assumes "\<forall>l\<in>set ls. plain l \<and> (\<forall>ch\<in>set l. is_space ch)"
  shows "each_line config_line k (text_lines (concat (map (\<lambda>l. l @ [newline]) ls) @ rst)) st = each_line config_line (k + length ls) (text_lines rst) st"
  using assms
proof (induction ls arbitrary: k)
  case (Cons l ls)
  then have "text_lines (concat (map (\<lambda>l. l @ [newline]) (l # ls)) @ rst) = l # text_lines (concat (map (\<lambda>l. l @ [newline]) ls) @ rst)"
    using text_lines_line [of l] by (simp add: plain_def)
  moreover have "config_line l st = Inr st" using Cons.prems by (intro blank_line) (auto simp: strip_comment_def dest: set_takeWhileD)
  ultimately show ?case using Cons by simp
qed simp

lemma peer_text_line: "plain (pc_host p) \<Longrightarrow> newline \<notin> set (peer_text p)"
  using plain_texts(1) [of "ucast (pc_id p)"] plain_texts(1) [of "ucast (pc_port p)"]
  by (simp add: peer_text_def node_text_def plain_def) (simp add: newline_def)

lemma config_text_lines: "\<forall>p\<in>set qs. newline \<notin> set (peer_text p) \<Longrightarrow> text_lines (config_text qs @ rst) = map peer_text qs @ text_lines rst"
  by (induction qs) (simp_all add: config_text_def text_lines_line)

lemma config_parsed:
  assumes "config_ok ps"
  shows "parseClusterConfig (config_text ps) = Inr \<lparr>cc_peers = ps\<rparr>"
proof -
  have "\<forall>p\<in>set ps. newline \<notin> set (peer_text p)" using assms peer_text_line by (auto simp: config_ok_def)
  from config_text_lines [OF this, of "[]"] have "text_lines (config_text ps) = map peer_text ps" by (simp add: text_lines.simps)
  then show ?thesis using config_lines [of ps "({}, [])" 0] assms by (auto simp: parseClusterConfig_def config_ok_def config_wf_def)
qed

definition demo_cluster :: "PeerConfig list" where
  "demo_cluster = [\<lparr>pc_id = 1, pc_host = ''localhost'', pc_port = 7001\<rparr>, \<lparr>pc_id = 2, pc_host = ''localhost'', pc_port = 7002\<rparr>, \<lparr>pc_id = 3, pc_host = ''10.0.0.3'', pc_port = 7003\<rparr>]"

lemma demo_cluster_ok: "config_ok demo_cluster"
  by (simp add: demo_cluster_def config_ok_def config_wf_def plain_def newline_def is_word_def is_space_def)

theorem config_gives_cluster_witness:
  "\<exists>c. parseClusterConfig (config_text demo_cluster) = Inr c \<and> majority (new_election 2 (map pc_id (cc_others 2 c)) default_election_config) = 2"
proof -
  have "cc_find 2 \<lparr>cc_peers = demo_cluster\<rparr> = Some (demo_cluster ! 1)" by (simp add: cc_find_def demo_cluster_def)
  from config_gives_cluster [OF config_parsed [OF demo_cluster_ok] this, of default_election_config]
  show ?thesis using config_parsed [OF demo_cluster_ok] by (simp add: demo_cluster_def)
qed

text \<open>C36: Printed configurations are read back. Any nonempty list of peers with distinct ids, nonzero ports and host names that are
  words (no white space, no \<open>#\<close>), written one per line in the documented format, is parsed to exactly that list,
  whatever blank lines precede it and whatever comment follows it.\<close>
theorem config_roundtrip:
  assumes "config_ok ps" and "\<forall>l\<in>set blanks. plain l \<and> (\<forall>ch\<in>set l. is_space ch)" and "newline \<notin> set remark"
  shows "parseClusterConfig (concat (map (\<lambda>l. l @ [newline]) blanks) @ config_text ps @ ''#'' @ remark) = Inr \<lparr>cc_peers = ps\<rparr>"
proof -
  have nl: "\<forall>p\<in>set ps. newline \<notin> set (peer_text p)" using assms(1) peer_text_line by (auto simp: config_ok_def)
  have "each_line config_line 0 (text_lines (concat (map (\<lambda>l. l @ [newline]) blanks) @ config_text ps @ ''#'' @ remark)) ({}, []) =
    each_line config_line (length blanks) (map peer_text ps @ [CHR ''#'' # remark]) ({}, [])"
    using skip_blank_lines [OF assms(2), of 0 "config_text ps @ ''#'' @ remark"] config_text_lines [OF nl, of "CHR ''#'' # remark"]
      comment_line [OF assms(3)] by simp
  also have "\<dots> = Inr (pc_id ` set ps, ps)"
    using each_line_append [OF config_lines [of ps "({}, [])" "length blanks"]] comment_line(2) [OF assms(3)] assms(1)
    by (auto simp: config_ok_def config_wf_def)
  finally show ?thesis using assms(1) by (simp add: parseClusterConfig_def config_ok_def config_wf_def)
qed

theorem config_roundtrip_witness:
  "parseClusterConfig (concat (map (\<lambda>l. l @ [newline]) [[], ''  '']) @ config_text demo_cluster @ ''#'' @ '' end # of file'') = Inr \<lparr>cc_peers = demo_cluster\<rparr>"
  by (rule config_roundtrip [OF demo_cluster_ok]) (simp_all add: plain_def is_space_def newline_def)

text \<open>C37: The parser is looser than its documentation. Node ids are read as 64-bit numbers and cut to 32 bits without a range
  check, and whatever follows the port is ignored: a line with any 64-bit id and any trailing text (from a blank on)
  is accepted as a node whose id is the number modulo \<open>2 ^ 32\<close>.\<close>
theorem config_id_truncated:
  assumes "is_word host" and "plain host" and "newline \<notin> set tail" and "tail = [] \<or> is_space (hd tail)" and "0 < port" and "port \<le> 65535"
  shows "parseClusterConfig (node_text n host port @ tail) = Inr \<lparr>cc_peers = [\<lparr>pc_id = word_of_nat (unat n mod 2 ^ 32), pc_host = host, pc_port = ucast port\<rparr>]\<rparr>"
proof -
  have "newline \<notin> set (node_text n host port @ tail)" using assms(2,3) plain_texts(1) [of n] plain_texts(1) [of port] by (simp add: node_text_def plain_def) (simp add: newline_def)
  moreover have "node_text n host port @ tail \<noteq> []" by (simp add: node_text_def)
  ultimately have l: "text_lines (node_text n host port @ tail) = [node_text n host port @ tail]" by (rule single_line [rotated])
  have "unat (ucast n :: NodeId) = unat n mod 2 ^ 32" by (simp add: unsigned_ucast_eq take_bit_eq_mod)
  then have i: "(ucast n :: NodeId) = word_of_nat (unat n mod 2 ^ 32)" by (metis of_nat_unat ucast_id)
  have "port \<noteq> 0" "\<not> port > 65535" using assms(5,6) by (auto simp: word_less_nat_alt word_le_nat_alt)
  then show ?thesis using node_line_read [OF assms(1,2,4), of port n "({}, [])"] by (simp add: parseClusterConfig_def l i)
qed

theorem config_id_truncated_witness:
  "parseClusterConfig (node_text 4294967297 ''localhost'' 7001 @ '' 7002 and more'') =
     Inr \<lparr>cc_peers = [\<lparr>pc_id = 1, pc_host = ''localhost'', pc_port = 7001\<rparr>]\<rparr>"
  using config_id_truncated [of "''localhost''" "'' 7002 and more''" 7001 4294967297]
  by (simp add: is_word_def is_space_def plain_def newline_def)

section \<open>Order files\<close>

lemma parsers_agree: "map_sum fst id (each_line (node_line i) 0 (text_lines text) []) = map_sum fst id (replay_parse i text)"
  unfolding replay_parse_def by (rule each_line_agree) (rule lines_agree)

text \<open>C38: The node and the replay driver read order files alike. On every text and for every instrument the node's own copy of
  the parser accepts exactly the files that the replay driver accepts, with the same commands, and refuses the
  others at the same line.\<close>
theorem order_parsers_agree:
  assumes "file path = Some text"
  shows "(\<forall>cs. loadOrders file path i = Inr cs \<longleftrightarrow> replay_parse i text = Inr cs) \<and>
    (\<forall>line msg. replay_parse i text = Inl (line, msg) \<longrightarrow> (\<exists>msg'. loadOrders file path i = Inl (path @ '':'' @ nat_string line @ '': '' @ msg')))"
  using assms parsers_agree [of i "text"]
  by (cases "each_line (node_line i) 0 (text_lines text) []"; cases "replay_parse i text") (auto simp: loadOrders_def split: prod.splits)

lemma orders_parsed:
  assumes "\<forall>c\<in>set cs. for_instrument i c"
  shows "replay_parse i (order_file cs) = Inr cs"
proof -
  have "text_lines (order_file cs) = map command_text cs"
    unfolding order_file_def by (rule text_lines_concat) (use command_text_plain in \<open>simp add: plain_def\<close>)
  then show ?thesis using each_line_items [of cs "replay_line i" command_text 0 "[]"] replay_line_text assms by (simp add: replay_parse_def)
qed

theorem order_parsers_agree_witness:
  "loadOrders (\<lambda>_. Some (order_file [demo_buy])) ''orders.txt'' 1 = Inr [demo_buy]"
  using order_parsers_agree [of "\<lambda>_. Some (order_file [demo_buy])" "''orders.txt''" "order_file [demo_buy]" 1] orders_parsed [of "[demo_buy]" 1]
  by (simp add: demo_buy_def kInstrument_def)

text \<open>C39: Order files lose nothing. Any list of commands for the instrument, with any ids, any signed price and any quantity, written in
  the documented format, is read back as exactly those commands by the replay driver and by the node.\<close>
theorem order_file_roundtrip:
  assumes "\<forall>c\<in>set cs. for_instrument i c" and "file path = Some (order_file cs)"
  shows "replay_parse i (order_file cs) = Inr cs \<and> loadOrders file path i = Inr cs"
proof -
  have r: "replay_parse i (order_file cs) = Inr cs" using assms(1) by (rule orders_parsed)
  show ?thesis using r assms(2) parsers_agree [of i "order_file cs"] by (cases "each_line (node_line i) 0 (text_lines (order_file cs)) []") (simp_all add: loadOrders_def)
qed

definition demo_commands :: "Command list" where
  "demo_commands = [demo_buy, New \<lparr>no_id = 18446744073709551615, no_instrument = 1, no_side = Sell, no_type = Market, no_tif = ImmediateOrCancel,
     no_price = - 3, no_quantity = 0\<rparr>, Cancel \<lparr>co_id = 7\<rparr>]"

lemma demo_commands_ok: "\<forall>c\<in>set demo_commands. for_instrument 1 c"
  by (simp add: demo_commands_def demo_buy_def kInstrument_def)

theorem order_file_roundtrip_witness: "replay_parse 1 (order_file demo_commands) = Inr demo_commands"
  using order_file_roundtrip [OF demo_commands_ok, of "\<lambda>_. Some (order_file demo_commands)" "''f''"] by simp

section \<open>The replay driver\<close>

lemma apply_all_new: obtains e evs where "apply_all cs (new_engine i) [] = Some (e, evs)" and "wf_engine e"
  by (rule apply_all_total [OF wf_new_engine, of cs i "[]"]) simp

lemma event_text_line: "newline \<notin> set (event_text e)" "event_text e \<noteq> []"
proof -
  have n: "newline \<notin> set (u64_string v)" "newline \<notin> set (i64_string w)" for v w using plain_texts(1,2) by (auto simp: plain_def)
  have t: "newline \<notin> set (side_text s)" "newline \<notin> set (type_text ty)" "newline \<notin> set (tif_text f)" for s ty f using plain_texts(3-5) by (auto simp: plain_def)
  have r: "newline \<notin> set (reason_text x)" for x by (cases x) (simp_all add: newline_def)
  have h: "newline \<notin> set (header_text hd)" for hd using n by (simp add: header_text_def) (simp add: newline_def)
  show "newline \<notin> set (event_text e)" using n t r h by (cases e) (simp_all, simp_all add: newline_def)
  show "event_text e \<noteq> []" by (cases e) (simp_all add: header_text_def)
qed

text \<open>The event part of the output ends at the first empty line.\<close>

lemma events_text_inj:
  assumes "events_text xs @ newline # s = events_text ys @ newline # s'" and "list_all printable xs" and "list_all printable ys"
  shows "xs = ys"
  using assms
proof (induction xs arbitrary: ys)
  case Nil
  show ?case
  proof (cases ys)
    case (Cons y ys')
    then show ?thesis using Nil(1) event_text_line [of y] by (cases "event_text y") (auto simp: events_text_def)
  qed simp
next
  case (Cons x xs)
  show ?case
  proof (cases ys)
    case Nil
    then show ?thesis using Cons.prems(1) event_text_line [of x] by (cases "event_text x") (auto simp: events_text_def)
  next
    case (Cons y ys')
    have "event_text x @ newline # (events_text xs @ newline # s) = event_text y @ newline # (events_text ys' @ newline # s')"
      using Cons.prems(1) Cons by (simp add: events_text_def)
    then have "event_text x = event_text y" "events_text xs @ newline # s = events_text ys' @ newline # s'"
      using field_end [OF event_text_line(1) event_text_line(1)] by blast+
    then show ?thesis using Cons.IH [of ys'] Cons.prems(2,3) Cons event_text_inj [of x y] by simp
  qed
qed

lemma last_line_inj:
  assumes "pre @ newline # ''state_checksum='' @ u64_string v @ [newline] = pre' @ newline # ''state_checksum='' @ u64_string v' @ [newline]"
  shows "v = v'"
proof -
  let ?l = "\<lambda>v. ''state_checksum='' @ u64_string v"
  have "newline \<notin> set (rev (?l w))" for w using plain_texts(1) [of w] by (simp add: plain_def) (simp add: newline_def)
  moreover have "rev (?l w) @ newline # rev x = tl (rev (x @ newline # ''state_checksum='' @ u64_string w @ [newline]))" for w x by simp
  then have "rev (?l v) @ newline # rev pre = rev (?l v') @ newline # rev pre'" by (simp only: assms)
  ultimately have "rev (?l v) = rev (?l v')" using field_end [of newline "rev (?l v)" "rev (?l v')"] by blast
  then show ?thesis by simp
qed

lemma summary_ends: "\<exists>pre. summary_text cs evs e = pre @ newline # ''state_checksum='' @ u64_string (stateChecksum e) @ [newline]"
  unfolding summary_text_def by (intro exI [of _ "''commands='' @ nat_string (length cs) @ [newline] @ ''events='' @ nat_string (length evs) @ [newline] @
     ''event_hash='' @ u64_string (hashEvents evs) @ [newline] @ ''book_checksum='' @ u64_string (book_checksum (me_book e))"]) simp

text \<open>C40: Comparing the printed output of two replays compares the event streams. If two runs of the replay driver (not quiet, on any
  commands and instruments) print the same text, then they produced exactly the same events, in the same order and with the same
  numbers, and their engines have the same state checksum: the rendering of events hides nothing.\<close>
theorem same_output_same_events:
  assumes "run_commands a cs = Some p" and "run_commands a' cs' = Some p'" and "\<not> ra_quiet a" and "\<not> ra_quiet a'" and "pr_out p = pr_out p'"
  shows "\<exists>e e' evs. apply_all cs (new_engine (ra_instrument a)) [] = Some (e, evs) \<and>
    apply_all cs' (new_engine (ra_instrument a')) [] = Some (e', evs) \<and> stateChecksum e = stateChecksum e'"
proof -
  obtain e evs where r: "apply_all cs (new_engine (ra_instrument a)) [] = Some (e, evs)" "wf_engine e" by (rule apply_all_new)
  obtain e' evs' where r': "apply_all cs' (new_engine (ra_instrument a')) [] = Some (e', evs')" "wf_engine e'" by (rule apply_all_new)
  have out: "events_text evs @ newline # printBook (me_book e) @ newline # summary_text cs evs e =
    events_text evs' @ newline # printBook (me_book e') @ newline # summary_text cs' evs' e'"
    using assms r(1) r'(1) by (auto simp: run_commands_def)
  have "evs = evs'"
    by (rule events_text_inj [OF out]) (use apply_all_printable [OF r(1)] apply_all_printable [OF r'(1)] in simp_all)
  moreover obtain pre pre' where "summary_text cs evs e = pre @ newline # ''state_checksum='' @ u64_string (stateChecksum e) @ [newline]"
    "summary_text cs' evs' e' = pre' @ newline # ''state_checksum='' @ u64_string (stateChecksum e') @ [newline]" using summary_ends by blast
  then have "stateChecksum e = stateChecksum e'"
    using last_line_inj [of "events_text evs @ newline # printBook (me_book e) @ newline # pre" "stateChecksum e"
        "events_text evs' @ newline # printBook (me_book e') @ newline # pre'" "stateChecksum e'"] out by simp
  ultimately show ?thesis using r(1) r'(1) by blast
qed

theorem same_output_same_events_witness:
  "\<exists>e e' evs. apply_all demo_commands (new_engine 1) [] = Some (e, evs) \<and> apply_all demo_commands (new_engine 1) [] = Some (e', evs) \<and>
     stateChecksum e = stateChecksum e'"
proof -
  let ?a = "\<lparr>ra_instrument = 1, ra_quiet = False, ra_path = ''a''\<rparr>" and ?b = "\<lparr>ra_instrument = 1, ra_quiet = False, ra_path = ''b''\<rparr>"
  obtain e evs where "apply_all demo_commands (new_engine 1) [] = Some (e, evs)" by (rule apply_all_new)
  then obtain p where "run_commands ?a demo_commands = Some p" "run_commands ?b demo_commands = Some p" by (simp add: run_commands_def)
  from same_output_same_events [OF this] show ?thesis by simp
qed

lemma replay_quiet:
  assumes "path \<noteq> []" and "path \<notin> {''-'', ''-h'', ''--help'', ''--quiet'', ''--instrument''}" and "file path = Some (order_file cs)" and "\<forall>c\<in>set cs. for_instrument 1 c"
  shows "replay_main file stdin argv0 [''--quiet'', path] = run_commands \<lparr>ra_instrument = 1, ra_quiet = True, ra_path = path\<rparr> cs"
  using assms orders_parsed [OF assms(4)] by (simp add: replay_main_def kDefaultInstrument_def)

text \<open>The engine appends to its output and does not read it.\<close>

lemma match_out: "match cmd q e out = Some r \<Longrightarrow> \<forall>pre. match cmd q e (pre @ out) = Some (fst r, fst (snd r), pre @ snd (snd r))"
proof (erule match.raw_induct [rotated])
  fix m cmd q e out r
  assume ih: "\<And>cmd q e out r. m cmd q e out = Some r \<Longrightarrow> \<forall>pre. match cmd q e (pre @ out) = Some (fst r, fst (snd r), pre @ snd (snd r))"
    and run: "(if q > 0 then
        (case frontLevel (opposite (no_side cmd)) (me_book e) of
           None \<Rightarrow> Some (q, e, out)
         | Some [] \<Rightarrow> Some (q, e, out)
         | Some (front # _) \<Rightarrow>
             if \<not> crosses (no_side cmd) (no_type cmd) (no_price cmd) (ro_price front)
             then Some (q, e, out)
             else
               let fill = min q (ro_quantity front);
                   (h, e1) = nextHeader e;
                   t = \<lparr>aggressorId = no_id cmd, restingId = ro_id front, aggressorSide = no_side cmd,
                        tr_price = ro_price front, tr_quantity = fill\<rparr>
               in Option.bind (reduce (ro_id front) fill (me_book e1))
                    (\<lambda>b. m cmd (q - fill) (e1\<lparr>me_book := b\<rparr>) (out @ [Trade h t])))
      else Some (q, e, out)) = Some r"
  from run ih [of cmd] show "\<forall>pre. match cmd q e (pre @ out) = Some (fst r, fst (snd r), pre @ snd (snd r))"
    by (subst match.simps) (auto simp: Let_def nextHeader_def split: if_splits option.splits list.splits bind_splits)
qed

lemma settle_out: "settleResidual cmd r e out = Some (e', out') \<Longrightarrow> settleResidual cmd r e (pre @ out) = Some (e', pre @ out')"
  by (auto simp: settleResidual_def nextHeader_def Let_def split: if_splits bind_splits)

lemma emitTop_out: "emitTopOfBookIfChanged e (pre @ out) = (fst (emitTopOfBookIfChanged e out), pre @ snd (emitTopOfBookIfChanged e out))"
  by (simp add: emitTopOfBookIfChanged_def nextHeader_def Let_def)

lemma engine_apply_out:
  assumes "engine_apply cmd e out = Some (e', out')"
  shows "engine_apply cmd e (pre @ out) = Some (e', pre @ out')"
proof (cases cmd)
  case (New c)
  let ?e = "e\<lparr>me_commandSeq := me_commandSeq e + 1\<rparr>"
  let ?h = "fst (nextHeader ?e)" and ?e1 = "snd (nextHeader ?e)"
  let ?a = "\<lparr>oa_id = no_id c, oa_side = no_side c, oa_type = no_type c, oa_tif = no_tif c, oa_price = no_price c, oa_quantity = no_quantity c\<rparr>"
  show ?thesis
  proof (cases "newOrderReason c ?e = NoReason")
    case True
    obtain r e2 out2 e3 out3 where m: "match c (no_quantity c) ?e1 (out @ [OrderAccepted ?h ?a]) = Some (r, e2, out2)"
      "settleResidual c r e2 out2 = Some (e3, out3)" "emitTopOfBookIfChanged e3 out3 = (e', out')"
      using assms New True by (auto simp: engine_apply_def applyNewOrder_def Let_def split_beta split: bind_splits)
    have "match c (no_quantity c) ?e1 ((pre @ out) @ [OrderAccepted ?h ?a]) = Some (r, e2, pre @ out2)" using match_out [OF m(1)] by simp
    then show ?thesis using New True settle_out [OF m(2), of pre] emitTop_out [of e3 pre out3] m(3)
      by (simp add: engine_apply_def applyNewOrder_def Let_def split_beta)
  next
    case False
    then show ?thesis using assms New by (auto simp: engine_apply_def applyNewOrder_def nextHeader_def Let_def)
  qed
next
  case (Cancel c)
  show ?thesis using assms emitTop_out [of _ pre "out @ _"]
    by (auto simp: Cancel engine_apply_def applyCancel_def nextHeader_def Let_def split: bind_splits option.splits)
qed

lemma apply_all_replay:
  assumes "wf_engine e" and "apply_all cs e out = Some (e', out')"
  shows "replay cs e = Some e'"
  using assms
proof (induction cs arbitrary: e out)
  case (Cons c cs)
  obtain e1 evs where s: "engine_apply c e [] = Some (e1, [] @ evs)" "wf_engine e1" using Cons.prems(1) by (rule engine_apply_total)
  then have "engine_apply c e out = Some (e1, out @ evs)" using engine_apply_out [of c e "[]" e1 evs out] by simp
  then show ?case using Cons.IH [OF s(2), of "out @ evs"] Cons.prems(2) s(1) by (simp add: engine_step_def)
qed simp

text \<open>C20: The replay driver confirms a node. Take a node in any state its event loop can reach, write the commands it has
  applied, all for the instrument the driver assumes, into an order file, and run the replay driver on it: the driver exits with 0 and the last line it prints is the state checksum
  that the node's own report ends with.\<close>
theorem replay_matches_node:
  assumes "app_reachable (T, Running A)"
    and "cs = map le_command (take (unat (rp_lastApplied (ap_replicator A))) (lg_entries (rp_log (ap_replicator A))))" and "\<forall>c\<in>set cs. for_instrument 1 c"
    and "file path = Some (order_file cs)" and "path \<noteq> []" and "path \<notin> {''-'', ''-h'', ''--help'', ''--quiet'', ''--instrument''}"
  shows "\<exists>p pre pre'. replay_main file stdin argv0 [''--quiet'', path] = Some p \<and> pr_code p = 0 \<and>
    pr_out p = pre @ newline # ''state_checksum='' @ u64_string (stateChecksum (rp_engine (ap_replicator A))) @ [newline] \<and>
    node_report (T, A) = pre' @ ''  state_checksum='' @ u64_string (stateChecksum (rp_engine (ap_replicator A))) @ [newline]"
proof -
  obtain e evs where r: "apply_all cs (new_engine 1) [] = Some (e, evs)" "wf_engine e" by (rule apply_all_new)
  have "replay cs (new_engine kInstrument) = Some (rp_engine (ap_replicator A))"
    using reachable_replay [OF assms(1)] assms(2) by simp
  then have "rp_engine (ap_replicator A) = e" using apply_all_replay [OF wf_new_engine r(1)] by (simp add: kInstrument_def)
  moreover have "replay_main file stdin argv0 [''--quiet'', path] = Some \<lparr>pr_code = 0, pr_out = summary_text cs evs e, pr_err = []\<rparr>"
    using replay_quiet [of path "file" cs] assms(3-6) r(1) by (simp add: run_commands_def)
  moreover obtain pre where "summary_text cs evs e = pre @ newline # ''state_checksum='' @ u64_string (stateChecksum e) @ [newline]" using summary_ends by blast
  moreover obtain pre' where "node_report (T, A) = pre' @ ''  state_checksum='' @ u64_string (stateChecksum (rp_engine (ap_replicator A))) @ [newline]"
    using node_report_ends [of "(T, A)"] by auto
  ultimately show ?thesis by auto
qed

theorem replay_matches_node_witness:
  "\<exists>p pre pre'. replay_main (\<lambda>_. Some (order_file [])) [] ''replay'' [''--quiet'', ''orders.txt''] = Some p \<and> pr_code p = 0 \<and>
     pr_out p = pre @ newline # ''state_checksum='' @ u64_string (stateChecksum (rp_engine (ap_replicator (snd (demo_app True [2, 3]))))) @ [newline] \<and>
     node_report (fst (demo_app True [2, 3]), snd (demo_app True [2, 3])) =
       pre' @ ''  state_checksum='' @ u64_string (stateChecksum (rp_engine (ap_replicator (snd (demo_app True [2, 3]))))) @ [newline]"
proof (rule replay_matches_node [of "fst (demo_app True [2, 3])" "snd (demo_app True [2, 3])" "[]"])
  show "app_reachable (fst (demo_app True [2, 3]), Running (snd (demo_app True [2, 3])))" using demo_start_reachable demo_app_start by metis
  show "[] = map le_command (take (unat (rp_lastApplied (ap_replicator (snd (demo_app True [2, 3]))))) (lg_entries (rp_log (ap_replicator (snd (demo_app True [2, 3]))))))"
    by (simp add: demo_replicator setSyncWindow_def new_replicator_def new_log_def)
qed simp_all

section \<open>The node program\<close>

text \<open>C21: A node with a cycle budget ends. Started with \<open>--max-cycles\<close> and any other arguments, files, clock and signals, on a network on which
  from some call on every system call fails and every read has an error, the program does not hang: it exits with an error before it starts, or
  its loop ends in a state that the event loop can reach, after at most the given number of turns, because a signal
  arrived, the work is complete or the budget is used up.\<close>
theorem node_main_ends:
  assumes "\<forall>c\<ge>k. ne_ok net c \<noteq> None \<and> (\<exists>err. ne_read net c = ReadErrno err)"
    and "\<forall>a. node_args args default_args = Some a \<longrightarrow> 0 \<le> na_maxCycles a"
  shows "\<exists>res. node_main file net clock stop argv0 args = Some res \<and>
    (\<forall>T N. res = Ended (T, N) \<longrightarrow> (\<exists>a. node_args args default_args = Some a \<and> app_reachable (T, N) \<and>
      (\<forall>A. N = Running A \<longrightarrow> ap_cycles A \<le> na_maxCycles a \<and>
        (stop (ap_cycles A) \<or> ap_complete A \<or> ap_cycles A = na_maxCycles a))))"
proof -
  have quiet: "falls_silent net k" using assms(1) by (simp add: falls_silent_def)
  have loop: "\<exists>T N. node_loop net clock stop (na_maxCycles a) W = Some (T, N) \<and> app_reachable (T, N) \<and>
      (\<forall>A. N = Running A \<longrightarrow> ap_cycles A \<le> na_maxCycles a \<and> (stop (ap_cycles A) \<or> ap_complete A \<or> ap_cycles A = na_maxCycles a))"
    if a: "node_args args default_args = Some a" and W: "start_node net opts port others orders = Some W" for a opts port others orders W
  proof -
    have max: "0 \<le> na_maxCycles a" using assms(2) a by blast
    obtain W' where "node_loop net clock stop (na_maxCycles a) W = Some W'" "app_reachable W'"
      "\<forall>A. snd W' = Running A \<longrightarrow> ap_cycles A \<le> na_maxCycles a \<and> \<not> loop_goes stop (na_maxCycles a) A"
      using node_loop_ends [OF app_reachable.start [OF W] quiet max] start_cycles [OF W] max by (metis order_refl)
    then show ?thesis using max by (cases W') (auto simp: loop_goes_def)
  qed
  show ?thesis
  proof (rule node_main_cases [of "file" net clock stop argv0 args])
    fix res assume "node_main file net clock stop argv0 args = Some res" and "\<And>W. res \<noteq> Ended W"
    then show ?thesis by blast
  next
    fix a opts port others orders W
    assume a: "node_args args default_args = Some a" and W: "start_node net opts port others orders = Some W"
      and m: "node_main file net clock stop argv0 args = map_option Ended (node_loop net clock stop (na_maxCycles a) W)"
    from loop [OF a W] m a show ?thesis by auto
  qed
qed

definition demo_files :: "string \<Rightarrow> string option" where
  "demo_files path = (if path = ''cluster.conf'' then Some (config_text demo_cluster) else None)"

definition demo_args :: "string list" where
  "demo_args = [''--id'', ''2'', ''--config'', ''cluster.conf'', ''--elect'', ''--max-cycles'', ''30'']"

lemma demo_args_read:
  "node_args demo_args default_args = Some (default_args\<lparr>op_self := 2, na_configPath := ''cluster.conf'', op_elect := True, na_maxCycles := 30\<rparr>)"
  by (simp add: demo_args_def strtoul_def strtol_def skip_ws_def is_space_def split_sign_def is_digit_def digits_value_def digit_val_def)

theorem node_main_ends_witness:
  "\<exists>T N. node_main demo_files quiet_net (\<lambda>n. of_nat n) (\<lambda>_. False) ''node'' demo_args = Some (Ended (T, N)) \<and> app_reachable (T, N) \<and>
     (\<forall>A. N = Running A \<longrightarrow> ap_cycles A \<le> 30 \<and> (ap_complete A \<or> ap_cycles A = 30))"
proof -
  let ?main = "node_main demo_files quiet_net (\<lambda>n. of_nat n) (\<lambda>_. False) ''node'' demo_args"
  have cfg: "loadClusterConfig demo_files ''cluster.conf'' = Inr \<lparr>cc_peers = demo_cluster\<rparr>"
    using config_parsed [OF demo_cluster_ok] by (simp add: loadClusterConfig_def demo_files_def)
  have find: "cc_find 2 \<lparr>cc_peers = demo_cluster\<rparr> = Some (demo_cluster ! 1)" by (simp add: cc_find_def demo_cluster_def)
  have orders: "na_ordersPath default_args = []" by (simp add: default_args_def)
  have listen: "sock_listen quiet_net 0 = (True, 6)" by code_simp
  have started: "\<exists>W. start_node quiet_net opts port others orders = Some W" for opts port others orders
    using listen by (simp add: start_node_def tp_start_def new_transport_def Let_def)
  let ?a = "default_args\<lparr>op_self := 2, na_configPath := ''cluster.conf'', op_elect := True, na_maxCycles := 30\<rparr>"
  obtain W where "start_node quiet_net (Options.truncate ?a) (pc_port (demo_cluster ! 1)) (cc_others 2 \<lparr>cc_peers = demo_cluster\<rparr>) [] = Some W"
    using started by blast
  then have m: "?main = map_option Ended (node_loop quiet_net (\<lambda>n. of_nat n) (\<lambda>_. False) 30 W)"
    using cfg find orders by (simp add: node_main_def demo_args_read)
  have silent: "\<forall>c\<ge>6. ne_ok quiet_net c \<noteq> None \<and> (\<exists>err. ne_read quiet_net c = ReadErrno err)" by (simp add: quiet_net_def)
  have max: "\<forall>a. node_args demo_args default_args = Some a \<longrightarrow> 0 \<le> na_maxCycles a" by (simp add: demo_args_read)
  obtain res where res: "?main = Some res" "\<forall>T N. res = Ended (T, N) \<longrightarrow> (\<exists>a. node_args demo_args default_args = Some a \<and> app_reachable (T, N) \<and>
      (\<forall>A. N = Running A \<longrightarrow> ap_cycles A \<le> na_maxCycles a \<and> (False \<or> ap_complete A \<or> ap_cycles A = na_maxCycles a)))"
    using node_main_ends [OF silent max, of demo_files "\<lambda>n. of_nat n" "\<lambda>_. False" "''node''"] by blast
  have "map_option Ended (node_loop quiet_net (\<lambda>n. of_nat n) (\<lambda>_. False) 30 W) = Some res" using m res(1) by simp
  then obtain T N where "res = Ended (T, N)" by auto
  with res show ?thesis by (auto simp: demo_args_read)
qed

end
