(* ===== verification/Socket_Ownership.thy ===== *)
theory Socket_Ownership
  imports Socket
begin

text \<open>
  Who owns a descriptor: the special members of \<open>Socket\<close> (\<open>net/socket.hpp\<close>, \<open>net/socket.cpp\<close>) over the set of live \<open>Socket\<close> objects of a
  process. An object is an address with its \<open>fd_\<close>; the kernel knows which descriptors are open. \<open>ow_bad\<close> records that
  \<open>::close\<close> was called on a descriptor that is not open, which in a real process closes somebody else's file.
  Descriptors handed out by \<open>release\<close> belong to the caller until it wraps them again.
\<close>

section \<open>Operations\<close>

record Owners =
  ow_objs :: "nat \<rightharpoonup> int"
  ow_open :: "int set"
  ow_released :: "int set"
  ow_bad :: bool

definition no_sockets :: Owners where
  "no_sockets = \<lparr>ow_objs = Map.empty, ow_open = {}, ow_released = {}, ow_bad = False\<rparr>"

definition kernel_close :: "int \<Rightarrow> Owners \<Rightarrow> Owners" where
  "kernel_close fd s = (if fd \<in> ow_open s then s\<lparr>ow_open := ow_open s - {fd}\<rparr> else s\<lparr>ow_bad := True\<rparr>)"

definition sock_fd :: "nat \<Rightarrow> Owners \<Rightarrow> int" where
  "sock_fd a s = (case ow_objs s a of Some fd \<Rightarrow> fd | None \<Rightarrow> -1)"

definition set_fd :: "nat \<Rightarrow> int \<Rightarrow> Owners \<Rightarrow> Owners" where
  "set_fd a fd s = s\<lparr>ow_objs := (ow_objs s)(a \<mapsto> fd)\<rparr>"

text \<open>\<open>Socket()\<close> and \<open>explicit Socket(int)\<close>.\<close>

definition sock_new :: "nat \<Rightarrow> int \<Rightarrow> Owners \<Rightarrow> Owners" where
  "sock_new a fd s = set_fd a fd s"

definition sock_close :: "nat \<Rightarrow> Owners \<Rightarrow> Owners" where
  "sock_close a s = (if sock_fd a s \<ge> 0 then set_fd a (-1) (kernel_close (sock_fd a s) s) else s)"

definition sock_release :: "nat \<Rightarrow> Owners \<Rightarrow> int \<times> Owners" where
  "sock_release a s = (let fd = sock_fd a s in (fd, set_fd a (-1) s))"

definition sock_move_new :: "nat \<Rightarrow> nat \<Rightarrow> Owners \<Rightarrow> Owners" where
  "sock_move_new a other s = set_fd other (-1) (set_fd a (sock_fd other s) s)"

definition sock_move_assign :: "nat \<Rightarrow> nat \<Rightarrow> Owners \<Rightarrow> Owners" where
  "sock_move_assign a other s =
     (if a \<noteq> other then
        let s1 = sock_close a s; s2 = set_fd a (sock_fd other s1) s1 in set_fd other (-1) s2
      else s)"

definition sock_destroy :: "nat \<Rightarrow> Owners \<Rightarrow> Owners" where
  "sock_destroy a s = (let s1 = sock_close a s in s1\<lparr>ow_objs := (ow_objs s1)(a := None)\<rparr>)"

section \<open>Programs over sockets\<close>

text \<open>What well-typed code can do: construct at a fresh address from nothing (\<open>-1\<close>), from a descriptor the kernel just opened, or from one
  that was released; move, close, release and destroy live objects.\<close>

inductive owns :: "Owners \<Rightarrow> bool" where
  none: "owns no_sockets"
| invalid: "owns s \<Longrightarrow> ow_objs s a = None \<Longrightarrow> owns (sock_new a (-1) s)"
| opened: "owns s \<Longrightarrow> ow_objs s a = None \<Longrightarrow> 0 \<le> fd \<Longrightarrow> fd \<notin> ow_open s \<Longrightarrow> owns (sock_new a fd (s\<lparr>ow_open := insert fd (ow_open s)\<rparr>))"
| adopted: "owns s \<Longrightarrow> ow_objs s a = None \<Longrightarrow> fd \<in> ow_released s \<Longrightarrow> owns (sock_new a fd (s\<lparr>ow_released := ow_released s - {fd}\<rparr>))"
| moved: "owns s \<Longrightarrow> ow_objs s a = None \<Longrightarrow> ow_objs s other = Some fd \<Longrightarrow> owns (sock_move_new a other s)"
| assigned: "owns s \<Longrightarrow> ow_objs s a = Some fd \<Longrightarrow> ow_objs s other = Some fd' \<Longrightarrow> owns (sock_move_assign a other s)"
| closed: "owns s \<Longrightarrow> ow_objs s a = Some fd \<Longrightarrow> owns (sock_close a s)"
| released: "owns s \<Longrightarrow> ow_objs s a = Some fd \<Longrightarrow> sock_release a s = (fd', s') \<Longrightarrow>
    owns (if 0 \<le> fd' then s'\<lparr>ow_released := insert fd' (ow_released s')\<rparr> else s')"
| destroyed: "owns s \<Longrightarrow> ow_objs s a = Some fd \<Longrightarrow> owns (sock_destroy a s)"

text \<open>The invariant: every open descriptor has exactly one owner, an object or the caller of \<open>release\<close>.\<close>

definition held :: "Owners \<Rightarrow> int set" where
  "held s = {fd. 0 \<le> fd \<and> (\<exists>a. ow_objs s a = Some fd)}"

definition single_owner :: "Owners \<Rightarrow> bool" where
  "single_owner s \<longleftrightarrow> (\<forall>a b fd. ow_objs s a = Some fd \<longrightarrow> ow_objs s b = Some fd \<longrightarrow> 0 \<le> fd \<longrightarrow> a = b)"

definition owners_ok :: "Owners \<Rightarrow> bool" where
  "owners_ok s \<longleftrightarrow> \<not> ow_bad s \<and> ow_open s = held s \<union> ow_released s \<and> held s \<inter> ow_released s = {} \<and> (\<forall>fd\<in>ow_open s. 0 \<le> fd) \<and> single_owner s"

text \<open>An object that gives up its descriptor, and one that holds nothing and takes one.\<close>

lemma held_drop:
  assumes "single_owner s"
  shows "held (set_fd a (-1) s) = held s - {sock_fd a s}"
proof -
  have inj: "ow_objs s b = Some fd \<Longrightarrow> ow_objs s a = Some fd \<Longrightarrow> 0 \<le> fd \<Longrightarrow> b = a" for b fd using assms by (auto simp: single_owner_def)
  show ?thesis
  proof (cases "ow_objs s a")
    case None
    then show ?thesis by (auto simp: held_def set_fd_def sock_fd_def split: if_splits) (metis option.distinct(1))+
  next
    case (Some fd)
    then show ?thesis using inj by (auto simp: held_def set_fd_def sock_fd_def split: if_splits) (metis option.inject)+
  qed
qed

lemma held_take:
  assumes "sock_fd a s < 0" and "0 \<le> fd"
  shows "held (set_fd a fd s) = insert fd (held s)"
  using assms by (auto simp: held_def set_fd_def sock_fd_def split: if_splits option.splits) (metis option.distinct(1) option.inject not_le)+

lemma held_none:
  assumes "sock_fd a s < 0" and "fd < 0"
  shows "held (set_fd a fd s) = held s"
proof -
  have "ow_objs s a \<noteq> Some x" if "0 \<le> x" for x using assms(1) that by (auto simp: sock_fd_def)
  then show ?thesis using assms(2) by (auto simp: held_def set_fd_def) metis
qed

lemma single_owner_set: "single_owner s \<Longrightarrow> fd < 0 \<or> fd \<notin> held s \<Longrightarrow> single_owner (set_fd a fd s)"
  by (auto simp: single_owner_def set_fd_def held_def split: if_splits)

lemma set_fd_fields [simp]:
  "ow_open (set_fd a fd s) = ow_open s" "ow_released (set_fd a fd s) = ow_released s" "ow_bad (set_fd a fd s) = ow_bad s"
  "ow_objs (set_fd a fd s) = (ow_objs s)(a \<mapsto> fd)"
  by (simp_all add: set_fd_def)

lemma held_fields [simp]: "held (s\<lparr>ow_open := X\<rparr>) = held s" "held (s\<lparr>ow_released := X\<rparr>) = held s"
  "single_owner (s\<lparr>ow_open := X\<rparr>) = single_owner s" "single_owner (s\<lparr>ow_released := X\<rparr>) = single_owner s"
  by (simp_all add: held_def single_owner_def)

lemma sock_fd_held: "0 \<le> sock_fd a s \<Longrightarrow> sock_fd a s \<in> held s"
  by (auto simp: sock_fd_def held_def split: option.splits)

lemma sock_close_ok:
  assumes "owners_ok s"
  shows "owners_ok (sock_close a s)" and "sock_fd a (sock_close a s) < 0" and "b \<noteq> a \<Longrightarrow> ow_objs (sock_close a s) b = ow_objs s b"
proof -
  have "set_fd a (-1) (s\<lparr>ow_open := X\<rparr>) = (set_fd a (-1) s)\<lparr>ow_open := X\<rparr>" for X by (simp add: set_fd_def)
  then have c: "sock_close a s = (if 0 \<le> sock_fd a s then (set_fd a (-1) s)\<lparr>ow_open := ow_open s - {sock_fd a s}\<rparr> else s)"
    using assms sock_fd_held [of a s] by (auto simp: sock_close_def kernel_close_def owners_ok_def)
  have "single_owner s" using assms by (simp add: owners_ok_def)
  with held_drop [OF this] single_owner_set [OF this, of "-1" a] sock_fd_held [of a s] assms show "owners_ok (sock_close a s)"
    unfolding c by (auto simp: owners_ok_def)
  show "sock_fd a (sock_close a s) < 0" by (simp add: c) (simp add: sock_fd_def set_fd_def)
  show "b \<noteq> a \<Longrightarrow> ow_objs (sock_close a s) b = ow_objs s b" by (simp add: c)
qed

text \<open>Handing a descriptor from one object to another that holds none.\<close>

lemma transfer_ok:
  assumes "owners_ok s" and "a \<noteq> other" and "sock_fd a s < 0"
  shows "owners_ok (set_fd other (-1) (set_fd a (sock_fd other s) s))"
proof -
  let ?d = "set_fd other (-1) s" and ?fd = "sock_fd other s"
  have one: "single_owner s" using assms(1) by (simp add: owners_ok_def)
  have swap: "set_fd other (-1) (set_fd a ?fd s) = set_fd a ?fd ?d" using assms(2) by (simp add: set_fd_def fun_upd_twist)
  have d: "single_owner ?d" "held ?d = held s - {?fd}" using single_owner_set [OF one] held_drop [OF one] by simp_all
  have a: "sock_fd a ?d < 0" using assms(2,3) by (simp add: sock_fd_def)
  have h: "held (set_fd a ?fd ?d) = held s"
  proof (cases "0 \<le> ?fd")
    case True
    then show ?thesis using held_take [OF a True] d(2) sock_fd_held [OF True] by auto
  next
    case False
    then have "held (set_fd a ?fd ?d) = held ?d" using held_none [OF a] by simp
    then show ?thesis using d(2) False by (auto simp: held_def)
  qed
  have "single_owner (set_fd a ?fd ?d)" by (rule single_owner_set [OF d(1)]) (simp add: d(2))
  then show ?thesis unfolding swap using h assms(1) by (simp add: owners_ok_def)
qed

lemma owns_ok: "owns s \<Longrightarrow> owners_ok s"
proof (induction rule: owns.induct)
  case none
  show ?case by (simp add: owners_ok_def no_sockets_def held_def single_owner_def)
next
  case (invalid s a)
  then have "sock_fd a s < 0" by (simp add: sock_fd_def)
  then show ?case using held_none [of a s "-1"] single_owner_set [of s "-1" a] invalid by (simp add: owners_ok_def sock_new_def)
next
  case (opened s a fd)
  let ?s = "s\<lparr>ow_open := insert fd (ow_open s)\<rparr>"
  have "sock_fd a ?s < 0" using opened by (simp add: sock_fd_def)
  then show ?case using held_take [of a ?s fd] single_owner_set [of ?s fd a] opened by (auto simp: owners_ok_def sock_new_def)
next
  case (adopted s a fd)
  let ?s = "s\<lparr>ow_released := ow_released s - {fd}\<rparr>"
  have "sock_fd a ?s < 0" "0 \<le> fd" using adopted by (auto simp: sock_fd_def owners_ok_def)
  then show ?case using held_take [of a ?s fd] single_owner_set [of ?s fd a] adopted by (auto simp: owners_ok_def sock_new_def)
next
  case (moved s a other fd)
  have "a \<noteq> other" "sock_fd a s < 0" using moved by (auto simp: sock_fd_def)
  from transfer_ok [OF moved(4) this] show ?case by (simp add: sock_move_new_def)
next
  case (assigned s a fd other fd')
  show ?case
  proof (cases "a = other")
    case False
    from transfer_ok [OF sock_close_ok(1) [OF assigned(4)] False sock_close_ok(2) [OF assigned(4)]] show ?thesis
      using False by (simp add: sock_move_assign_def Let_def)
  qed (use assigned in \<open>simp add: sock_move_assign_def\<close>)
next
  case (closed s a fd)
  show ?case by (rule sock_close_ok(1)) (rule closed)
next
  case (released s a fd fd' s')
  then show ?case using held_drop [of s a] single_owner_set [of s "-1" a] sock_fd_held [of a s]
    by (auto simp: sock_release_def Let_def owners_ok_def)
next
  case (destroyed s a fd)
  let ?s = "sock_close a s"
  have ok: "owners_ok ?s" "sock_fd a ?s < 0" by (rule sock_close_ok [OF destroyed(3)])+
  have "ow_objs ?s a \<noteq> Some x" if "0 \<le> x" for x using ok(2) that by (auto simp: sock_fd_def)
  then have "held (?s\<lparr>ow_objs := (ow_objs ?s)(a := None)\<rparr>) = held ?s" by (auto simp: held_def) metis
  then show ?case using ok(1) by (auto simp: sock_destroy_def Let_def owners_ok_def single_owner_def split: if_splits)
qed

section \<open>Property\<close>

text \<open>C33: Descriptors are neither leaked nor closed twice. However \<open>Socket\<close> objects are constructed, moved, assigned, closed, released
  and destroyed, \<open>::close\<close> is only called on an open descriptor; every open descriptor belongs to exactly one live object or was released
  to the caller; so when all objects are gone and nothing was released, nothing is open.\<close>
theorem descriptors_owned:
  assumes "owns s"
  shows "\<not> ow_bad s \<and> (\<forall>fd\<in>ow_open s - ow_released s. \<exists>!a. ow_objs s a = Some fd) \<and>
    (\<forall>a fd. ow_objs s a = Some fd \<longrightarrow> 0 \<le> fd \<longrightarrow> fd \<in> ow_open s \<and> fd \<notin> ow_released s) \<and>
    (ow_objs s = Map.empty \<longrightarrow> ow_released s = {} \<longrightarrow> ow_open s = {})"
proof -
  have ok: "owners_ok s" using assms by (rule owns_ok)
  have "\<exists>!a. ow_objs s a = Some fd" if "fd \<in> ow_open s - ow_released s" for fd
  proof -
    have "fd \<in> held s" using ok that unfolding owners_ok_def by blast
    then obtain a where "ow_objs s a = Some fd" "0 \<le> fd" by (auto simp: held_def)
    moreover have "single_owner s" using ok by (simp add: owners_ok_def)
    ultimately show ?thesis unfolding single_owner_def by blast
  qed
  moreover have "fd \<in> ow_open s \<and> fd \<notin> ow_released s" if "ow_objs s a = Some fd" "0 \<le> fd" for a fd
  proof -
    have "fd \<in> held s" using that by (auto simp: held_def)
    then show ?thesis using ok unfolding owners_ok_def by blast
  qed
  moreover have "ow_open s = {}" if "ow_objs s = Map.empty" "ow_released s = {}" using ok that by (auto simp: owners_ok_def held_def)
  moreover have "\<not> ow_bad s" using ok by (simp add: owners_ok_def)
  ultimately show ?thesis by blast
qed

text \<open>A server accepts a connection (descriptor 4 besides the listener 3), moves it into a peer and drops the peer.\<close>

definition demo_sockets :: Owners where
  "demo_sockets = sock_destroy 1 (sock_close 2 (sock_move_assign 2 1 (sock_new 1 4 ((sock_new 2 (-1) (sock_new 0 3 (no_sockets\<lparr>ow_open := {3}\<rparr>)))\<lparr>ow_open := {3, 4}\<rparr>))))"

theorem descriptors_owned_witness: "\<not> ow_bad demo_sockets \<and> ow_open demo_sockets = {3} \<and> (\<exists>!a. ow_objs demo_sockets a = Some 3)"
proof -
  let ?s1 = "sock_new 0 3 (no_sockets\<lparr>ow_open := {3}\<rparr>)"
  have 1: "owns ?s1" using owns.opened [OF owns.none, of 0 3] by (simp add: no_sockets_def)
  have 2: "owns (sock_new 2 (-1) ?s1)" by (rule owns.invalid [OF 1]) (simp add: sock_new_def set_fd_def no_sockets_def)
  let ?s3 = "sock_new 1 4 ((sock_new 2 (-1) ?s1)\<lparr>ow_open := {3, 4}\<rparr>)"
  have 3: "owns ?s3" using owns.opened [OF 2, of 1 4] by (simp add: sock_new_def set_fd_def no_sockets_def insert_commute)
  have 4: "owns (sock_move_assign 2 1 ?s3)" by (rule owns.assigned [OF 3, of 2 "-1" 1 4]) (simp_all add: sock_new_def set_fd_def no_sockets_def)
  note defs = sock_move_assign_def sock_close_def sock_destroy_def kernel_close_def sock_fd_def sock_new_def set_fd_def no_sockets_def Let_def
  have 5: "owns (sock_close 2 (sock_move_assign 2 1 ?s3))" by (rule owns.closed [OF 4, of 2 4]) (simp add: defs)
  have 6: "owns demo_sockets" unfolding demo_sockets_def by (rule owns.destroyed [OF 5, of 1 "-1"]) (simp add: defs)
  have "ow_open demo_sockets = {3}" "ow_released demo_sockets = {}" by (auto simp: demo_sockets_def defs)
  with descriptors_owned [OF 6] show ?thesis by simp
qed

end
