(* ===== verification/Spec2Isabelle.thy ===== *)
theory Spec2Isabelle
  imports Book_Properties Replication_Properties Storage_Properties Program_Properties Socket_Ownership
begin

text \<open>
  A verification of Sententia, a replicated matching engine written in C++20. Names of files are relative to
  \<open>src/\<close> (\<open>include/sententia\<close> and \<open>src\<close> for the library, \<open>apps\<close> for the two programs).

  \<^bold>\<open>The program.\<close> A node accepts orders, orders them in a log, replicates the log to its peers and applies the committed
  prefix to a deterministic matching engine. Its parts, from the inside out:

  \<^item> the matching engine (\<open>engine.*\<close>) over an order book (\<open>order_book.*\<close>): one command in, a list of numbered events out;
  \<^item> the command log and the replicator (\<open>replication/\<close>): a primary appends and sends entries, a backup merges them, both
    apply what is committed;
  \<^item> leader election (\<open>consensus/\<close>): a state machine that returns actions instead of sending;
  \<^item> the network (\<open>net/\<close>): wire primitives, messages, framing, sockets, and a transport with one connection per peer;
  \<^item> storage (\<open>storage/\<close>): a write-ahead log with CRC-32, a vote file, snapshot files and the layer that recovers from
    them. The node program does not use it; the tests do;
  \<^item> two programs: the node (\<open>apps/node\<close>), which connects all but storage by callbacks and runs an event loop, and the replay
    driver (\<open>apps/replay\<close>), which runs an order file through an engine and prints.

  \<^bold>\<open>How it is modelled.\<close> Records and datatypes carry the fields and enumerators of the C++ types, integers keep their width (\<open>u8\<close> to \<open>u64\<close>,
  signed prices as 64-bit words compared through \<^const>\<open>sint\<close>), and every member function is a function from the old to
  the new state. A failed \<open>assert\<close>, or a loop that does not return, is \<open>None\<close>; error results are values. The order of the
  elements of a \<open>std::map\<close> is that of a sorted association list (\<open>Ordered_Map\<close>). Everything outside the program is a
  parameter: system calls (\<open>Os_File\<close>: may fail or transfer any number of bytes at each call), the network (\<open>Socket\<close>: answers each
  call as it likes), the clock, signals and files. Callbacks are functions passed to the transport and two functions passed to
  the replicator.

  \<^bold>\<open>Theories and source files.\<close>

  \<^item> \<open>Prelude\<close>: machine integers, little-endian bytes, shared lemmas. \<open>Core_Types\<close>: \<open>types.hpp\<close>, \<open>command.hpp\<close>, \<open>event.hpp\<close>.
  \<^item> \<open>Ordered_Map\<close>, \<open>Order_Book\<close>: \<open>order_book.*\<close>. \<open>Engine\<close>, \<open>Engine_Snapshot\<close>: \<open>engine.*\<close>. \<open>Byte_Hash\<close>: the FNV-1a checksums of both.
    Properties in \<open>Book_Properties\<close> and \<open>Engine_Properties\<close>.
  \<^item> \<open>Wire\<close>: \<open>net/wire.hpp\<close>. \<open>Message\<close>: \<open>net/message.*\<close>. \<open>Byte_Stream\<close>, \<open>Framing\<close>: \<open>net/framing.*\<close>. Properties in \<open>Net_Properties\<close>.
  \<^item> \<open>Socket\<close>, \<open>Socket_Ownership\<close>: \<open>net/socket.*\<close>. \<open>Transport\<close>, with \<open>Transport_Inv\<close> and \<open>Transport_Progress\<close>: \<open>net/transport.*\<close>.
    Properties in \<open>Transport_Properties\<close>.
  \<^item> \<open>Election\<close>: \<open>consensus/election.*\<close>. \<open>Election_Cluster\<close>: a cluster of such nodes over a network that may lose, repeat and
    reorder. Properties in \<open>Election_Properties\<close>.
  \<^item> \<open>Command_Log\<close>, \<open>Replicator\<close>: \<open>replication/\<close>. \<open>Replication\<close>, \<open>Replication_Steps\<close>: the invariant and the operations of a
    node, compacted or not. \<open>Replication_Runs\<close>: its steps and reachable states. Properties in \<open>Replication_Properties\<close>.
  \<^item> \<open>Crc\<close>, \<open>Wal\<close>, \<open>Wal_Scan\<close>: \<open>storage/wal.*\<close>, properties in \<open>Wal_Properties\<close>. \<open>File_Replace\<close>, \<open>Stable_Store\<close>, \<open>Snapshot_Codec\<close>,
    \<open>Snapshot_File\<close>, \<open>Durable_State\<close>, \<open>Durable_Recovery\<close>: the rest of \<open>storage/\<close>. Properties in \<open>Storage_Properties\<close>.
  \<^item> \<open>Text_Stream\<close>: lines, extraction and printing of the standard library. \<open>Cluster_Config\<close>: \<open>net/cluster_config.*\<close>.
    \<open>Order_File\<close>: the order parsers of both programs, \<open>types.cpp\<close>. \<open>Event_Text\<close>: \<open>event.cpp\<close>, \<open>hashEvents\<close>.
    \<open>Replay\<close>: \<open>apps/replay/main.cpp\<close>.
  \<^item> \<open>Node\<close>: the state, callbacks and turn of \<open>apps/node/main.cpp\<close>. \<open>Node_Inv\<close>, \<open>Node_Run\<close>: its invariant and its runs.
    \<open>Node_Main\<close>: arguments, files, the loop and the report. Properties in \<open>Node_Properties\<close> and, for the two programs as started
    from their files, \<open>Program_Properties\<close>.

  \<^bold>\<open>Interfaces.\<close> Laws that several components rely on are locales, interpreted on the definitions of the model: \<open>byte_hash\<close> (FNV and CRC),
  \<open>byte_stream\<close> and \<open>record_stream\<close> (framing and write-ahead log), \<open>transport_client\<close> (what a client of the transport may do in a
  callback: the replicator's link, the callback for dropped peers and the whole node are interpretations),
  \<open>replica_law\<close> (what the leader's operations need of the state of a node, interpreted on nodes that replay their log and on
  nodes that have lost it), \<open>lossy_link\<close>, \<open>app_invariant\<close> and \<open>down_refinement\<close> (what the replicator and the callbacks keep while they send).

  \<^bold>\<open>What is shown.\<close>

  \<^item> Engine: every command is processed without a failed assertion and keeps the book well formed and uncrossed; an
    accepted order does exactly what greedy matching by price and time prescribes; quantity is conserved; a snapshot restores the
    engine, except that a duplicate id leaves a replaced book behind.
  \<^item> Network: a payload decodes exactly if it is the encoding of a message; messages arrive once and in order however
    the bytes are cut; at most one ready connection per node, the same one chosen by both ends; \<open>send\<close> queues all or nothing
    within its bound; \<open>poll\<close> returns; no descriptor is leaked or closed twice.
  \<^item> Election: no two leaders in a term, a majority of grants elects, a step-down is silent, and a vote is
    forgotten on restart.
  \<^item> Replication: the engine is the replay of the applied log; the commit point moves only by a majority of acknowledgements of the
    configured size or by the leader's announcement; committed entries are never changed or lost, with one exception that is stated
    in the property: a node that compacted its log and then merges a conflicting entry loses everything it had applied. Followers that accept match
    their leader, and how far they have applied; replicas with matching logs raise no checksum alarm; and what a rebuild after compaction loses.
  \<^item> Storage: a crash at any byte or at any failing call loses at most what was not yet complete; recovery yields the
    state of a prefix of what was appended; single damaged bytes are noticed; and which failures do lose data.
  \<^item> Programs: the invariant of a node over every run, the order in which orders are fed, that a bounded run ends, that every
    node derives the same cluster from a configuration file, that files are read back as they are written, that both order
    parsers agree, that printed output determines the events, and that the replay driver confirms a node's checksum. Two defects
    of the composition are proved: two copies commit in a cluster of any size, and a deposed leader keeps writing.

  \<^bold>\<open>Bounds.\<close> No fuel is used. Loops that end structurally are total functions; the others (\<open>match\<close>, \<open>applyCommitted\<close>, \<open>replayLog\<close>,
  the transport's loops, \<open>node_loop\<close>) are partial functions for which termination is proved: for the engine and the replicator from
  their invariants, for the transport when from some call on every system call fails and every read
  has an error (\<open>falls_silent\<close>: stronger than a network with nothing to deliver, since no socket can be set up either), for the node loop with a cycle
  budget. Sequence numbers are 64 bits wide; where they would wrap the theorems assume room (a step of a node that
  handles AppendEntries assumes it for the whole message, and nothing else), and a node whose log would
  outgrow them leaves the model (\<open>LogFull\<close>). Election safety assumes that no election starts at the maximal term.
  The runs of the durability layer (\<open>durable_run\<close>) have fewer than \<open>2^32\<close> entries, snapshots that fit their format, and only
  snapshot installations that succeed. The cycle counters of the transport and of the node are unbounded integers.

  \<^bold>\<open>Not modelled.\<close> Log lines and the
  renderings used only in them (\<open>describe\<close>, \<open>toString\<close> of message types, send results, peer states, frame and submit statuses, sync
  policies), and the texts of system errors: nothing depends on them. What the node prints while it runs. When the transport drops a peer
  while the replicator is sending, the code erases the backup under a loop that may still use it; the model takes it out when the
  operation returns. Bytes that were written to a file are taken as durable at once, so that the order of
  flushing and renaming is modelled by the calls that may fail, but a missing flush would not show. The benchmarks (\<open>bench/\<close>), tests and scripts only call the modelled code.
\<close>

end
